(* ===== verification/Prelude.thy ===== *)
theory Prelude
  imports Main "HOL-Library.Word" "HOL-Library.Product_Lexorder" "HOL-Library.List_Lexorder"
begin

text \<open>
  What the components share: the types of the program's machine integers, bytes and strings,
  the results of fallible code, and the parts of Rust's standard library the sources rely on
  (slice searches, de-duplication, ordered maps, little- and big-endian byte order).

  \<^item> \<open>u8\<close>, \<open>u16\<close>, \<open>u32\<close>, \<open>u64\<close> are words of that width; \<open>usize\<close> lengths are \<open>nat\<close>.
  \<^item> A Rust \<open>char\<close> is its Unicode scalar value (a \<open>nat\<close>), a \<open>String\<close> a list of them; \<open>lit\<close>
    turns an ASCII literal into such a string.
  \<^item> A \<open>BTreeMap\<close> is its list of entries in ascending key order (\<open>bm_wf\<close>), so that iteration
    order is the list order. A \<open>HashMap\<close> is an association list whose order no theorem uses.
  \<^item> \<open>partition_point\<close> and \<open>binary_search\<close> state the documented result of the slice methods on
    a partitioned or sorted slice.
\<close>

section \<open>Machine integers, strings, results\<close>

type_synonym u8 = "8 word"
type_synonym u16 = "16 word"
type_synonym u32 = "32 word"
type_synonym u64 = "64 word"
type_synonym bytes = "8 word list"
type_synonym rchar = nat
type_synonym rstring = "nat list"

definition lit :: "string \<Rightarrow> rstring" where
  "lit s = map of_char s"

named_theorems store_simps \<open>abstraction of the triple store's operations\<close>
named_theorems codec_simps \<open>round-trip equations of the byte codecs\<close>
named_theorems inv_intros \<open>preservation of the components' invariants\<close>

lemma lit_Nil [simp]: "lit [] = []"
  by (simp add: lit_def)

lemma lit_Cons [simp]: "lit (c # s) = of_char c # lit s"
  by (simp add: lit_def)

text \<open>Rust's \<open>?\<close> operator on a \<open>Result\<close> whose error is the left summand.\<close>

definition res_bind :: "'e + 'a \<Rightarrow> ('a \<Rightarrow> 'e + 'b) \<Rightarrow> 'e + 'b" where
  "res_bind r f = (case r of Inl e \<Rightarrow> Inl e | Inr x \<Rightarrow> f x)"

lemma res_bind_simps [simp]:
  "res_bind (Inl e) f = Inl e"
  "res_bind (Inr x) f = f x"
  by (simp_all add: res_bind_def)

lemma res_bind_Inr_iff:
  "res_bind r f = Inr y \<longleftrightarrow> (\<exists>x. r = Inr x \<and> f x = Inr y)"
  by (cases r) auto

text \<open>\<open>u32::checked_add\<close>.\<close>

definition checked_add32 :: "u32 \<Rightarrow> u32 \<Rightarrow> u32 option" where
  "checked_add32 a b = (if unat a + unat b < 2 ^ 32 then Some (a + b) else None)"

lemma checked_add32_Some_unat:
  "checked_add32 a b = Some c \<Longrightarrow> unat c = unat a + unat b"
  by (auto simp: checked_add32_def unat_word_ariths split: if_splits)

lemma unat_eqD: "unat (a :: 'a::len word) = unat b \<Longrightarrow> a = b"
  by (simp add: word_unat_eq_iff)

lemma unat_u32_of_nat [simp]: "n < 4294967296 \<Longrightarrow> unat (word_of_nat n :: u32) = n"
  by (simp add: unat_of_nat)

lemma unat_u32_less: "unat (w :: u32) < 4294967296"
  using unsigned_less [of w, where ?'a = nat] by simp

section \<open>Strictly ascending lists\<close>

abbreviation ascending :: "'a::linorder list \<Rightarrow> bool" where
  "ascending xs \<equiv> sorted_wrt (<) xs"

lemma ascending_distinct: "ascending xs \<Longrightarrow> distinct xs"
  by (simp add: strict_sorted_iff)

lemma ascending_sorted: "ascending xs \<Longrightarrow> sorted xs"
  by (simp add: strict_sorted_iff)

lemma ascending_eqI: "ascending xs \<Longrightarrow> ascending ys \<Longrightarrow> set xs = set ys \<Longrightarrow> xs = ys"
  by (rule strict_sorted_equal) auto

lemma ascending_filter: "ascending xs \<Longrightarrow> ascending (filter P xs)"
  by (rule sorted_wrt_filter)

lemma remdups_adj_sorted_ascending: "sorted xs \<Longrightarrow> ascending (remdups_adj xs)"
proof (induction xs rule: remdups_adj.induct)
  case (3 x y xs)
  then show ?case by (auto simp: remdups_adj_set intro: le_neq_trans order_trans)
qed simp_all

text \<open>\<open>v.sort_unstable(); v.dedup()\<close>.\<close>

definition sort_dedup :: "'a::linorder list \<Rightarrow> 'a list" where
  "sort_dedup xs = remdups_adj (sort xs)"

lemma set_sort_dedup [simp]: "set (sort_dedup xs) = set xs"
  by (simp add: sort_dedup_def)

lemma ascending_sort_dedup [simp]: "ascending (sort_dedup xs)"
  by (simp add: sort_dedup_def remdups_adj_sorted_ascending)

lemma sort_dedup_Nil_iff [simp]: "sort_dedup xs = [] \<longleftrightarrow> xs = []"
  by (metis set_empty set_sort_dedup)

section \<open>Slice searches\<close>

text \<open>\<open>slice::partition_point\<close>: the length of the leading run that satisfies the predicate.\<close>

definition partition_point :: "('a \<Rightarrow> bool) \<Rightarrow> 'a list \<Rightarrow> nat" where
  "partition_point P xs = length (takeWhile P xs)"

text \<open>\<open>slice::binary_search\<close>: \<open>Inr pos\<close> for \<open>Ok(pos)\<close>, \<open>Inl pos\<close> for \<open>Err(pos)\<close>.\<close>

definition binary_search :: "'a::linorder list \<Rightarrow> 'a \<Rightarrow> nat + nat" where
  "binary_search xs v =
     (let p = partition_point (\<lambda>x. x < v) xs
      in if p < length xs \<and> xs ! p = v then Inr p else Inl p)"

text \<open>\<open>Vec::insert\<close> and \<open>Vec::remove\<close>.\<close>

definition vec_insert :: "nat \<Rightarrow> 'a \<Rightarrow> 'a list \<Rightarrow> 'a list" where
  "vec_insert i x xs = take i xs @ x # drop i xs"

definition vec_remove :: "nat \<Rightarrow> 'a list \<Rightarrow> 'a list" where
  "vec_remove i xs = take i xs @ drop (Suc i) xs"

lemma partition_point_le: "partition_point P xs \<le> length xs"
  by (simp add: partition_point_def length_takeWhile_le)

lemma take_partition_point [simp]: "take (partition_point P xs) xs = takeWhile P xs"
  by (simp add: partition_point_def takeWhile_eq_take [symmetric])

lemma drop_partition_point [simp]: "drop (partition_point P xs) xs = dropWhile P xs"
  by (simp add: partition_point_def dropWhile_eq_drop [symmetric])

lemma sorted_takeWhile_less:
  "sorted xs \<Longrightarrow> takeWhile (\<lambda>x. x < v) xs = filter (\<lambda>x. x < (v::'a::linorder)) xs"
proof (induction xs)
  case (Cons a xs)
  show ?case
  proof (cases "a < v")
    case False
    with Cons.prems have "\<forall>x \<in> set xs. \<not> x < v" by (auto dest: order_trans)
    with False show ?thesis by simp
  qed (use Cons in auto)
qed simp

lemma sorted_dropWhile_less:
  "sorted xs \<Longrightarrow> dropWhile (\<lambda>x. x < v) xs = filter (\<lambda>x. v \<le> (x::'a::linorder)) xs"
proof (induction xs)
  case (Cons a xs)
  show ?case
  proof (cases "a < v")
    case False
    with Cons.prems have "\<forall>x \<in> set xs. v \<le> x" by (auto intro: order_trans)
    with False show ?thesis by (simp add: filter_id_conv)
  qed (use Cons in auto)
qed simp

lemma binary_search_cases:
  assumes "ascending xs"
  obtains (found) l r where "binary_search xs v = Inr (length l)" "xs = l @ v # r"
    "\<forall>x \<in> set l. x < v" "\<forall>x \<in> set r. v < x"
  | (absent) l r where "binary_search xs v = Inl (length l)" "xs = l @ r"
    "\<forall>x \<in> set l. x < v" "\<forall>x \<in> set r. v < x"
proof -
  define l where "l = takeWhile (\<lambda>x. x < v) xs"
  define r where "r = dropWhile (\<lambda>x. x < v) xs"
  have xs: "xs = l @ r" by (simp add: l_def r_def)
  have pp: "partition_point (\<lambda>x. x < v) xs = length l" by (simp add: partition_point_def l_def)
  have l: "\<forall>x \<in> set l. x < v" by (auto simp: l_def dest: set_takeWhileD)
  from assms have asc: "ascending (l @ r)" by (simp add: xs)
  show thesis
  proof (cases r)
    case Nil
    have "binary_search xs v = Inl (length l)"
      by (simp add: binary_search_def pp) (simp add: xs Nil)
    with xs l Nil show thesis by (intro absent [of l r]) auto
  next
    case (Cons y ys)
    have ge: "v \<le> y" using Cons hd_dropWhile [of "\<lambda>x. x < v" xs] by (simp add: r_def)
    have ys: "\<forall>x \<in> set ys. y < x" using asc Cons by (simp add: sorted_wrt_append)
    show thesis
    proof (cases "y = v")
      case True
      have "binary_search xs v = Inr (length l)"
        by (simp add: binary_search_def pp) (simp add: xs Cons True)
      with xs l Cons ys True show thesis by (intro found [of l ys]) auto
    next
      case False
      with ge have "v < y" by simp
      have "binary_search xs v = Inl (length l)"
        using False by (simp add: binary_search_def pp) (simp add: xs Cons)
      with xs l Cons ys \<open>v < y\<close> show thesis by (intro absent [of l r]) auto
    qed
  qed
qed

lemma binary_search_found_iff:
  "ascending xs \<Longrightarrow> (\<exists>i. binary_search xs v = Inr i) \<longleftrightarrow> v \<in> set xs"
  by (erule binary_search_cases [of xs v]) auto

section \<open>Ordered maps\<close>

type_synonym ('k, 'v) btree_map = "('k \<times> 'v) list"

definition bm_wf :: "('k::linorder, 'v) btree_map \<Rightarrow> bool" where
  "bm_wf m \<longleftrightarrow> ascending (map fst m)"

abbreviation bm_get :: "('k, 'v) btree_map \<Rightarrow> 'k \<Rightarrow> 'v option" where
  "bm_get \<equiv> map_of"

fun bm_insert :: "'k::linorder \<Rightarrow> 'v \<Rightarrow> ('k, 'v) btree_map \<Rightarrow> ('k, 'v) btree_map" where
  "bm_insert k v [] = [(k, v)]"
| "bm_insert k v (e # m) =
     (if fst e < k then e # bm_insert k v m
      else if fst e = k then (k, v) # m
      else (k, v) # e # m)"

definition bm_remove :: "'k \<Rightarrow> ('k, 'v) btree_map \<Rightarrow> ('k, 'v) btree_map" where
  "bm_remove k m = filter (\<lambda>e. fst e \<noteq> k) m"

lemma bm_wf_Nil [simp]: "bm_wf []"
  by (simp add: bm_wf_def)

lemma bm_get_insert [simp]: "bm_get (bm_insert k v m) = (bm_get m)(k \<mapsto> v)"
  by (induction m) (auto simp: fun_eq_iff)

lemma bm_get_remove [simp]: "bm_get (bm_remove k m) = (bm_get m)(k := None)"
  by (induction m) (auto simp: fun_eq_iff bm_remove_def)

lemma bm_keys_insert: "fst ` set (bm_insert k v m) = insert k (fst ` set m)"
  by (metis bm_get_insert dom_fun_upd dom_map_of_conv_image_fst option.distinct(1))

lemma bm_wf_insert [simp, inv_intros]: "bm_wf m \<Longrightarrow> bm_wf (bm_insert k v m)"
  unfolding bm_wf_def
proof (induction m)
  case (Cons e m)
  have "set (map fst (bm_insert k v m)) = insert k (set (map fst m))"
    by (simp add: bm_keys_insert)
  with Cons show ?case by auto
qed simp

lemma bm_wf_remove [simp, inv_intros]: "bm_wf m \<Longrightarrow> bm_wf (bm_remove k m)"
  unfolding bm_wf_def bm_remove_def by (induction m) auto

lemma bm_wf_distinct: "bm_wf m \<Longrightarrow> distinct (map fst m)"
  by (simp add: bm_wf_def ascending_distinct)

lemma bm_in_iff: "bm_wf m \<Longrightarrow> (k, v) \<in> set m \<longleftrightarrow> bm_get m k = Some v"
  by (simp add: bm_wf_distinct)

text \<open>\<open>values_mut()\<close>: update every value in place.\<close>

definition bm_map :: "('v \<Rightarrow> 'w) \<Rightarrow> ('k, 'v) btree_map \<Rightarrow> ('k, 'w) btree_map" where
  "bm_map f m = map (\<lambda>(k, v). (k, f v)) m"

lemma bm_get_map [simp]: "bm_get (bm_map f m) k = map_option f (bm_get m k)"
  by (induction m) (auto simp: bm_map_def)

lemma bm_map_keys [simp]: "map fst (bm_map f m) = map fst m"
  by (simp add: bm_map_def comp_def case_prod_beta)

lemma bm_wf_map [simp]: "bm_wf (bm_map f m) \<longleftrightarrow> bm_wf m"
  by (simp add: bm_wf_def)

section \<open>Byte order\<close>

text \<open>\<open>u32::to_le_bytes\<close> / \<open>from_le_bytes\<close> and the big-endian pair.\<close>

definition to_le32 :: "u32 \<Rightarrow> bytes" where
  "to_le32 w = [ucast w, ucast (drop_bit 8 w), ucast (drop_bit 16 w), ucast (drop_bit 24 w)]"

definition from_le32 :: "bytes \<Rightarrow> u32" where
  "from_le32 bs = (case bs of
     [a, b, c, d] \<Rightarrow> ucast a + push_bit 8 (ucast b) + push_bit 16 (ucast c) + push_bit 24 (ucast d)
   | _ \<Rightarrow> 0)"

lemma length_to_le32 [simp]: "length (to_le32 w) = 4"
  by (simp add: to_le32_def)

lemma base256_digits:
  fixes n :: nat
  assumes "n < 4294967296"
  shows "n mod 256 + 256 * (n div 256 mod 256) + 65536 * (n div 65536 mod 256)
    + 16777216 * (n div 16777216 mod 256) = n"
proof -
  define a b c where "a = n div 256" and "b = a div 256" and "c = b div 256"
  have bc: "n div 65536 = b" "n div 16777216 = c"
    by (simp_all add: a_def b_def c_def div_mult2_eq [symmetric])
  have "n = 256 * a + n mod 256" "a = 256 * b + a mod 256" "b = 256 * c + b mod 256"
    by (simp_all add: a_def b_def c_def)
  moreover have "c mod 256 = c"
    using assms by (simp add: a_def b_def c_def div_mult2_eq [symmetric] less_mult_imp_div_less)
  ultimately show ?thesis unfolding bc a_def [symmetric] by linarith
qed

lemma le32_parts:
  fixes w :: u32
  shows "(ucast (ucast w :: u8) :: u32) + push_bit 8 (ucast (ucast (drop_bit 8 w) :: u8))
    + push_bit 16 (ucast (ucast (drop_bit 16 w) :: u8))
    + push_bit 24 (ucast (ucast (drop_bit 24 w) :: u8)) = w"
proof -
  have lt: "unat w < 4294967296" using unsigned_less [of w, where ?'a = nat] by simp
  have eq: "unat w mod 256 + unat w div 256 mod 256 * 256 + unat w div 65536 mod 256 * 65536
      + unat w div 16777216 mod 256 * 16777216 = unat w"
    using base256_digits [OF lt] by (simp only: mult.commute)
  show ?thesis
    by (intro word_unat_eq_iff [THEN iffD2])
       (simp add: unat_word_ariths push_bit_eq_mult drop_bit_eq_div unat_div unsigned_ucast_eq
         take_bit_eq_mod mod_add_left_eq mod_mod_cancel eq lt)
qed

lemma from_to_le32 [simp, codec_simps]: "from_le32 (to_le32 w) = w"
  by (simp add: from_le32_def to_le32_def le32_parts)

text \<open>The same for the other widths: \<open>to_le_bytes\<close> of an integer of \<open>n\<close> bytes.\<close>

primrec le_bytes :: "nat \<Rightarrow> 'a::len word \<Rightarrow> bytes" where
  "le_bytes 0 w = []"
| "le_bytes (Suc n) w = ucast w # le_bytes n (drop_bit 8 w)"

primrec of_le_bytes :: "bytes \<Rightarrow> 'a::len word" where
  "of_le_bytes [] = 0"
| "of_le_bytes (b # bs) = or (ucast b) (push_bit 8 (of_le_bytes bs))"

lemma length_le_bytes [simp]: "length (le_bytes n w) = n"
  by (induction n arbitrary: w) auto

lemma bit_of_le_bytes:
  "bit (of_le_bytes (le_bytes n (w :: 'a::len word)) :: 'a word) k \<longleftrightarrow> k < 8 * n \<and> bit w k"
proof (induction n arbitrary: w k)
  case (Suc n)
  show ?case
  proof (cases "k < 8")
    case True
    then show ?thesis by (auto simp: bit_or_iff bit_push_bit_iff bit_ucast_iff dest: bit_imp_le_length)
  next
    case False
    then have k: "k - 8 < 8 * n \<longleftrightarrow> k < 8 * Suc n" "8 + (k - 8) = k" by auto
    have "bit w k \<Longrightarrow> k < LENGTH('a)" by (rule bit_imp_le_length)
    with False k show ?thesis
      by (auto simp: bit_or_iff bit_push_bit_iff bit_ucast_iff Suc.IH bit_drop_bit_eq)
  qed
qed simp

lemma of_le_bytes_le_bytes [codec_simps]:
  "LENGTH('a) \<le> 8 * n \<Longrightarrow> of_le_bytes (le_bytes n (w :: 'a::len word)) = w"
  by (intro bit_word_eqI) (simp add: bit_of_le_bytes)

text \<open>Reading slot \<open>i\<close> of an array of fixed-width encodings.\<close>

lemma concat_slot:
  assumes "\<forall>x \<in> set xs. length (f x) = k" and "i < length xs"
  shows "take k (drop (i * k) (concat (map f xs) @ r)) = f (xs ! i)"
  using assms
proof (induction xs arbitrary: i)
  case (Cons x xs)
  then show ?case by (cases i) (auto simp: add.commute simp flip: drop_drop)
qed simp

end
