(* ===== verification/Model.thy ===== *)
theory Model
  imports Prelude
begin

text \<open>
  The RDF data model of \<open>src/model\<close> and the errors of \<open>src/error.rs\<close>: the integer id spaces,
  terms with their N-Triples surface form (which is also the dictionary key), triples, and
  id-triples with their derived order. The lemmas show that the id ranges are disjoint, that the
  dictionary key determines the term, and that the surface form of a whole triple does not.
\<close>

section \<open>Errors\<close>

datatype GStoreError =
    Io rstring
  | RdfParse nat rstring
  | SparqlParse rstring
  | Query rstring
  | Serialize rstring
  | DatabaseError rstring
  | Conflict rstring
  | Cancelled

type_synonym 'a gresult = "GStoreError + 'a"

section \<open>Identifiers\<close>

definition INVALID_ENTITY_LITERAL_ID :: u32 where
  "INVALID_ENTITY_LITERAL_ID = 4294967295"

definition INVALID_PRED_ID :: u32 where
  "INVALID_PRED_ID = 4294967295"

definition LITERAL_FIRST_ID :: u32 where
  "LITERAL_FIRST_ID = 2000000000"

definition is_entity_id :: "u32 \<Rightarrow> bool" where
  "is_entity_id i \<longleftrightarrow> i < LITERAL_FIRST_ID"

definition is_literal_id :: "u32 \<Rightarrow> bool" where
  "is_literal_id i \<longleftrightarrow> i \<ge> LITERAL_FIRST_ID \<and> i \<noteq> INVALID_ENTITY_LITERAL_ID"

datatype ObjectKind = KEntity | KLiteral

definition ObjectKind_of :: "u32 \<Rightarrow> ObjectKind" where
  "ObjectKind_of i = (if is_literal_id i then KLiteral else KEntity)"

lemmas id_defs = INVALID_ENTITY_LITERAL_ID_def INVALID_PRED_ID_def LITERAL_FIRST_ID_def
  is_entity_id_def is_literal_id_def ObjectKind_of_def

lemma id_spaces_disjoint: "\<not> (is_entity_id i \<and> is_literal_id i)"
  by (auto simp: id_defs)

lemma id_spaces_cover:
  "is_entity_id i \<or> is_literal_id i \<or> i = INVALID_ENTITY_LITERAL_ID"
  by (auto simp: id_defs)

lemma invalid_id_neither:
  "\<not> is_entity_id INVALID_ENTITY_LITERAL_ID" "\<not> is_literal_id INVALID_ENTITY_LITERAL_ID"
  by (simp_all add: id_defs)

section \<open>Id-triples\<close>

datatype IdTriple = IdTriple (sub: u32) (pred: u32) (obj: u32)

text \<open>The derived \<open>Ord\<close> compares subject, predicate, object in this order.\<close>

definition id_key :: "IdTriple \<Rightarrow> u32 \<times> u32 \<times> u32" where
  "id_key t = (sub t, pred t, obj t)"

lemma id_key_inj: "id_key a = id_key b \<longleftrightarrow> a = b"
  by (cases a; cases b) (auto simp: id_key_def)

instantiation IdTriple :: linorder
begin

definition less_eq_IdTriple :: "IdTriple \<Rightarrow> IdTriple \<Rightarrow> bool" where
  "less_eq_IdTriple a b \<longleftrightarrow> id_key a \<le> id_key b"

definition less_IdTriple :: "IdTriple \<Rightarrow> IdTriple \<Rightarrow> bool" where
  "less_IdTriple a b \<longleftrightarrow> id_key a < id_key b"

instance
  by standard
    (auto simp: less_eq_IdTriple_def less_IdTriple_def id_key_inj [symmetric] simp del: less_eq_prod_simp)

end

section \<open>Terms\<close>

abbreviation (input) "ch_tab \<equiv> 9 :: rchar"
abbreviation (input) "ch_nl \<equiv> 10 :: rchar"
abbreviation (input) "ch_cr \<equiv> 13 :: rchar"
abbreviation (input) "ch_space \<equiv> 32 :: rchar"
abbreviation (input) "ch_quote \<equiv> 34 :: rchar"
abbreviation (input) "ch_hash \<equiv> 35 :: rchar"
abbreviation (input) "ch_apos \<equiv> 39 :: rchar"
abbreviation (input) "ch_minus \<equiv> 45 :: rchar"
abbreviation (input) "ch_dot \<equiv> 46 :: rchar"
abbreviation (input) "ch_colon \<equiv> 58 :: rchar"
abbreviation (input) "ch_lt \<equiv> 60 :: rchar"
abbreviation (input) "ch_gt \<equiv> 62 :: rchar"
abbreviation (input) "ch_at \<equiv> 64 :: rchar"
abbreviation (input) "ch_bslash \<equiv> 92 :: rchar"
abbreviation (input) "ch_caret \<equiv> 94 :: rchar"
abbreviation (input) "ch_uscore \<equiv> 95 :: rchar"

datatype Term =
    Iri rstring
  | Literal (lit_value: rstring) (lit_datatype: "rstring option") (lit_lang: "rstring option")
  | Blank rstring

definition plain_literal :: "rstring \<Rightarrow> Term" where
  "plain_literal s = Literal s None None"

definition typed_literal :: "rstring \<Rightarrow> rstring \<Rightarrow> Term" where
  "typed_literal v d = Literal v (Some d) None"

fun is_literal :: "Term \<Rightarrow> bool" where
  "is_literal (Literal _ _ _) = True"
| "is_literal _ = False"

fun is_entity :: "Term \<Rightarrow> bool" where
  "is_entity (Iri _) = True"
| "is_entity (Blank _) = True"
| "is_entity _ = False"

text \<open>The body of \<open>escape_literal\<close>'s loop, and the loop.\<close>

definition escape_char :: "rchar \<Rightarrow> rstring" where
  "escape_char c =
     (if c = ch_bslash then [ch_bslash, ch_bslash]
      else if c = ch_quote then [ch_bslash, ch_quote]
      else if c = ch_nl then [ch_bslash, 110]
      else if c = ch_cr then [ch_bslash, 114]
      else if c = ch_tab then [ch_bslash, 116]
      else [c])"

fun escape_literal :: "rstring \<Rightarrow> rstring" where
  "escape_literal [] = []"
| "escape_literal (c # s) = escape_char c @ escape_literal s"

fun term_to_string :: "Term \<Rightarrow> rstring" where
  "term_to_string (Iri s) = [ch_lt] @ s @ [ch_gt]"
| "term_to_string (Blank s) = [ch_uscore, ch_colon] @ s"
| "term_to_string (Literal v dt lang) =
     [ch_quote] @ escape_literal v @ [ch_quote] @
     (case dt of
        Some d \<Rightarrow> [ch_caret, ch_caret, ch_lt] @ d @ [ch_gt]
      | None \<Rightarrow> (case lang of Some l \<Rightarrow> [ch_at] @ l | None \<Rightarrow> []))"

definition dict_key :: "Term \<Rightarrow> rstring" where
  "dict_key t = term_to_string t"

datatype ObjectType = OTEntity | OTLiteral

datatype Triple = Triple (subject: Term) (predicate: Term) (object: Term)

definition object_type :: "Triple \<Rightarrow> ObjectType" where
  "object_type t = (if is_literal (object t) then OTLiteral else OTEntity)"

definition triple_to_string :: "Triple \<Rightarrow> rstring" where
  "triple_to_string t =
     term_to_string (subject t) @ [ch_space] @ term_to_string (predicate t) @ [ch_space]
     @ term_to_string (object t) @ [ch_space, ch_dot]"

section \<open>The dictionary key determines the term\<close>

text \<open>
  The parsers never set both a datatype and a language tag; \<open>lit_ok\<close> is that convention.
\<close>

fun lit_ok :: "Term \<Rightarrow> bool" where
  "lit_ok (Literal _ dt lang) \<longleftrightarrow> dt = None \<or> lang = None"
| "lit_ok _ \<longleftrightarrow> True"

lemma is_entity_not_literal: "is_entity t \<longleftrightarrow> \<not> is_literal t"
  by (cases t) auto

lemma escape_char_inj: "escape_char c = escape_char d \<Longrightarrow> c = d"
  by (auto simp: escape_char_def split: if_splits)

lemma escape_char_prefix:
  "escape_char c @ x = escape_char d @ y \<Longrightarrow> c = d \<and> x = y"
  by (auto simp: escape_char_def split: if_splits)

lemma escape_char_not_quote: "escape_char c @ x \<noteq> ch_quote # y"
  by (auto simp: escape_char_def split: if_splits)

lemma escape_literal_quote_inj:
  "escape_literal v @ ch_quote # x = escape_literal w @ ch_quote # y \<Longrightarrow> v = w \<and> x = y"
proof (induction v arbitrary: w)
  case Nil
  then show ?case
    by (cases w) (use escape_char_not_quote in \<open>auto dest: sym\<close>)
next
  case (Cons c v)
  show ?case
  proof (cases w)
    case Nil
    with Cons.prems show ?thesis using escape_char_not_quote [of c] by simp
  next
    case (Cons d w')
    with Cons.prems have "escape_char c @ escape_literal v @ ch_quote # x =
        escape_char d @ escape_literal w' @ ch_quote # y" by simp
    then have "c = d" and "escape_literal v @ ch_quote # x = escape_literal w' @ ch_quote # y"
      using escape_char_prefix by blast+
    with Cons.IH [of w'] Cons show ?thesis by simp
  qed
qed

lemma dict_key_kind_disjoint:
  "is_literal a \<noteq> is_literal b \<Longrightarrow> dict_key a \<noteq> dict_key b"
  by (cases a; cases b) (auto simp: dict_key_def)

lemma dict_key_eq_iff:
  assumes "lit_ok a" and "lit_ok b"
  shows "dict_key a = dict_key b \<longleftrightarrow> a = b"
proof
  assume eq: "dict_key a = dict_key b"
  show "a = b"
  proof (cases "is_literal a \<and> is_literal b")
    case True
    then obtain v dt l w dt' l' where ab: "a = Literal v dt l" "b = Literal w dt' l'"
      by (cases a; cases b) auto
    from eq ab have "v = w \<and>
        (case dt of Some d \<Rightarrow> [ch_caret, ch_caret, ch_lt] @ d @ [ch_gt]
          | None \<Rightarrow> (case l of Some l \<Rightarrow> [ch_at] @ l | None \<Rightarrow> [])) =
        (case dt' of Some d \<Rightarrow> [ch_caret, ch_caret, ch_lt] @ d @ [ch_gt]
          | None \<Rightarrow> (case l' of Some l \<Rightarrow> [ch_at] @ l | None \<Rightarrow> []))"
      by (intro escape_literal_quote_inj) (simp add: dict_key_def)
    with assms ab show ?thesis by (auto split: option.splits)
  next
    case False
    with eq dict_key_kind_disjoint [of a b] show ?thesis
      by (cases a; cases b) (auto simp: dict_key_def)
  qed
qed simp

text \<open>
  The dictionary key of a term (\<open>Term::dict_key\<close>, its N-Triples surface form) determines the
  term, for every content of the strings in it: two terms that carry at most one of datatype and
  language tag have the same key exactly when they are equal. So no two terms share an id.
\<close>

lemma dict_key_injective:
  assumes "lit_ok a" and "lit_ok b"
  shows "dict_key a = dict_key b \<longleftrightarrow> a = b"
  using assms by (rule dict_key_eq_iff)

text \<open>
  The surface form of a triple (\<open>Display for Triple\<close>), which the transaction layer uses as the
  canonical key of a triple, does not determine the triple: two different triples of IRIs print
  alike when an IRI contains the character \<open>>\<close>, which the IRI printer does not escape.
\<close>

lemma triple_key_collision:
  "\<exists>a b. a \<noteq> b \<and> triple_to_string a = triple_to_string b"
proof -
  let ?a = "Triple (Iri (lit ''a'')) (Iri (lit ''p> <q'')) (Iri (lit ''o''))"
  let ?b = "Triple (Iri (lit ''a> <p'')) (Iri (lit ''q'')) (Iri (lit ''o''))"
  have "?a \<noteq> ?b" by simp
  moreover have "triple_to_string ?a = triple_to_string ?b"
    by (simp add: triple_to_string_def)
  ultimately have "?a \<noteq> ?b \<and> triple_to_string ?a = triple_to_string ?b" ..
  then show ?thesis by (intro exI)
qed

end
