(* ===== verification/NTriples.thy ===== *)
theory NTriples
  imports Model
begin

text \<open>
  The N-Triples reader (\<open>src/parser/ntriples.rs\<close>) and the N-Quads reader built the same way
  (\<open>src/parser/nquads.rs\<close>).

  The scanner's cursor \<open>(chars, pos)\<close> is the list of characters from \<open>pos\<close> on, which is all the
  scanner reads; \<open>ln\<close> is its line number. Every scanner method takes that list and returns the
  value with the list that remains, or the error it raises. \<open>char::is_alphanumeric\<close> is defined for
  ASCII and, beyond ASCII, is the parameter \<open>ual\<close> (the Unicode tables of the standard library).
  The lemmas show that the reader inverts the printer on terms, lines and documents whose IRIs
  need no escape, and that each scanner method consumes input (so the loops end).
\<close>

section \<open>Characters\<close>

definition is_whitespace :: "rchar \<Rightarrow> bool" where
  "is_whitespace c \<longleftrightarrow> (9 \<le> c \<and> c \<le> 13) \<or> c = 32 \<or> c = 133 \<or> c = 160 \<or> c = 5760
     \<or> (8192 \<le> c \<and> c \<le> 8202) \<or> c = 8232 \<or> c = 8233 \<or> c = 8239 \<or> c = 8287 \<or> c = 12288"

definition is_ascii_alphanumeric :: "rchar \<Rightarrow> bool" where
  "is_ascii_alphanumeric c \<longleftrightarrow>
     (48 \<le> c \<and> c \<le> 57) \<or> (65 \<le> c \<and> c \<le> 90) \<or> (97 \<le> c \<and> c \<le> 122)"

definition is_alphanumeric :: "(rchar \<Rightarrow> bool) \<Rightarrow> rchar \<Rightarrow> bool" where
  "is_alphanumeric ual c \<longleftrightarrow> (if c < 128 then is_ascii_alphanumeric c else ual c)"

definition to_digit16 :: "rchar \<Rightarrow> nat option" where
  "to_digit16 c =
     (if 48 \<le> c \<and> c \<le> 57 then Some (c - 48)
      else if 97 \<le> c \<and> c \<le> 102 then Some (c - 87)
      else if 65 \<le> c \<and> c \<le> 70 then Some (c - 55)
      else None)"

definition char_from_u32 :: "nat \<Rightarrow> rchar option" where
  "char_from_u32 n = (if n < 55296 \<or> (57344 \<le> n \<and> n \<le> 1114111) then Some n else None)"

definition hex_digit_upper :: "nat \<Rightarrow> rchar" where
  "hex_digit_upper d = (if d < 10 then 48 + d else 55 + d)"

fun hex_upper :: "nat \<Rightarrow> rstring" where
  "hex_upper n = (if n < 16 then [hex_digit_upper n]
                  else hex_upper (n div 16) @ [hex_digit_upper (n mod 16)])"

declare hex_upper.simps [simp del]

definition hex_upper4 :: "nat \<Rightarrow> rstring" where
  "hex_upper4 n = replicate (4 - length (hex_upper n)) 48 @ hex_upper n"

definition str_trim :: "rstring \<Rightarrow> rstring" where
  "str_trim s = rev (dropWhile is_whitespace (rev (dropWhile is_whitespace s)))"

section \<open>Scanner\<close>

fun skip_ws :: "rstring \<Rightarrow> rstring" where
  "skip_ws [] = []"
| "skip_ws (c # cs) = (if c = ch_space \<or> c = ch_tab \<or> c = ch_cr then skip_ws cs else c # cs)"

fun read_hex :: "nat \<Rightarrow> nat \<Rightarrow> nat \<Rightarrow> rstring \<Rightarrow> (nat \<times> rstring) gresult" where
  "read_hex ln 0 code cs = Inr (code, cs)"
| "read_hex ln (Suc n) code [] = Inl (RdfParse ln (lit ''truncated unicode escape''))"
| "read_hex ln (Suc n) code (c # cs) = (case to_digit16 c of
     None \<Rightarrow> Inl (RdfParse ln (lit ''invalid hex digit '' @ [ch_apos, c, ch_apos] @ lit '' in escape''))
   | Some d \<Rightarrow> read_hex ln n (code * 16 + d) cs)"

definition push_hex :: "nat \<Rightarrow> rstring \<Rightarrow> nat \<Rightarrow> rstring \<Rightarrow> (rstring \<times> rstring) gresult" where
  "push_hex ln out n cs = res_bind (read_hex ln n 0 cs) (\<lambda>(code, cs').
     case char_from_u32 code of
       None \<Rightarrow> Inl (RdfParse ln (lit ''invalid unicode code point U+'' @ hex_upper4 code))
     | Some ch \<Rightarrow> Inr (out @ [ch], cs'))"

definition read_unicode_escape :: "nat \<Rightarrow> rstring \<Rightarrow> rstring \<Rightarrow> (rstring \<times> rstring) gresult" where
  "read_unicode_escape ln out cs = (case cs of
     [] \<Rightarrow> Inl (RdfParse ln (lit ''dangling backslash in IRI''))
   | c # cs' \<Rightarrow>
       if c = 117 then push_hex ln out 4 cs'
       else if c = 85 then push_hex ln out 8 cs'
       else Inl (RdfParse ln (lit ''invalid IRI escape '' @ [ch_apos, ch_bslash, c, ch_apos])))"

definition read_string_escape :: "nat \<Rightarrow> rstring \<Rightarrow> rstring \<Rightarrow> (rstring \<times> rstring) gresult" where
  "read_string_escape ln out cs = (case cs of
     [] \<Rightarrow> Inl (RdfParse ln (lit ''dangling backslash at end of literal''))
   | c # cs' \<Rightarrow>
       if c = 116 then Inr (out @ [ch_tab], cs')
       else if c = 110 then Inr (out @ [ch_nl], cs')
       else if c = 114 then Inr (out @ [ch_cr], cs')
       else if c = 98 then Inr (out @ [8], cs')
       else if c = 102 then Inr (out @ [12], cs')
       else if c = ch_quote then Inr (out @ [ch_quote], cs')
       else if c = ch_apos then Inr (out @ [ch_apos], cs')
       else if c = ch_bslash then Inr (out @ [ch_bslash], cs')
       else if c = 117 then push_hex ln out 4 cs'
       else if c = 85 then push_hex ln out 8 cs'
       else Inl (RdfParse ln (lit ''invalid string escape '' @ [ch_apos, ch_bslash, c, ch_apos])))"

lemma read_hex_length: "read_hex ln n code cs = Inr (v, cs') \<Longrightarrow> length cs' \<le> length cs"
  by (induction ln n code cs rule: read_hex.induct) (auto split: option.splits)

lemma push_hex_length: "push_hex ln out n cs = Inr (v, cs') \<Longrightarrow> length cs' \<le> length cs"
  by (auto simp: push_hex_def res_bind_Inr_iff split: prod.splits option.splits dest: read_hex_length)

lemma read_unicode_escape_length:
  "read_unicode_escape ln out cs = Inr (v, cs') \<Longrightarrow> length cs' < length cs"
  by (auto simp: read_unicode_escape_def split: list.splits if_splits dest!: push_hex_length)

lemma read_string_escape_length:
  "read_string_escape ln out cs = Inr (v, cs') \<Longrightarrow> length cs' < length cs"
  by (auto simp: read_string_escape_def split: list.splits if_splits dest!: push_hex_length)

text \<open>The loop of \<open>parse_iri\<close>, entered after the opening angle bracket.\<close>

function iri_loop :: "nat \<Rightarrow> rstring \<Rightarrow> rstring \<Rightarrow> (rstring \<times> rstring) gresult" where
  "iri_loop ln s [] = Inl (RdfParse ln (lit ''unterminated IRI (missing '' @ [ch_apos, ch_gt, ch_apos] @ lit '')''))"
| "iri_loop ln s (c # cs) =
     (if c = ch_gt then Inr (s, cs)
      else if c = ch_bslash then
        (case read_unicode_escape ln s cs of Inl e \<Rightarrow> Inl e | Inr (s', cs') \<Rightarrow> iri_loop ln s' cs')
      else iri_loop ln (s @ [c]) cs)"
  by pat_completeness auto
termination
  by (relation "measure (\<lambda>(ln, s, cs). length cs)")
     (auto dest!: sym [of "Inr _"] read_unicode_escape_length)

definition parse_iri :: "nat \<Rightarrow> rstring \<Rightarrow> (Term \<times> rstring) gresult" where
  "parse_iri ln cs = res_bind (iri_loop ln [] (tl cs)) (\<lambda>(s, cs'). Inr (Iri s, cs'))"

fun take_run :: "(rchar \<Rightarrow> bool) \<Rightarrow> rstring \<Rightarrow> rstring \<Rightarrow> rstring \<times> rstring" where
  "take_run P s [] = (s, [])"
| "take_run P s (c # cs) = (if P c then take_run P (s @ [c]) cs else (s, c # cs))"

definition is_label_char :: "(rchar \<Rightarrow> bool) \<Rightarrow> rchar \<Rightarrow> bool" where
  "is_label_char ual c \<longleftrightarrow>
     is_alphanumeric ual c \<or> c = ch_uscore \<or> c = ch_minus \<or> c = ch_dot"

definition is_lang_char :: "rchar \<Rightarrow> bool" where
  "is_lang_char c \<longleftrightarrow> is_ascii_alphanumeric c \<or> c = ch_minus"

definition parse_blank :: "(rchar \<Rightarrow> bool) \<Rightarrow> nat \<Rightarrow> rstring \<Rightarrow> (Term \<times> rstring) gresult" where
  "parse_blank ual ln cs = (case tl cs of
     [] \<Rightarrow> Inl (RdfParse ln (lit ''blank node must start with '' @ [ch_apos, ch_uscore, ch_colon, ch_apos]))
   | c # cs' \<Rightarrow>
       if c \<noteq> ch_colon
       then Inl (RdfParse ln (lit ''blank node must start with '' @ [ch_apos, ch_uscore, ch_colon, ch_apos]))
       else (case take_run (is_label_char ual) [] cs' of (s, cs'') \<Rightarrow>
         if s = [] then Inl (RdfParse ln (lit ''empty blank node label'')) else Inr (Blank s, cs'')))"

text \<open>The value loop of \<open>parse_literal\<close>, entered after the opening quote.\<close>

function literal_loop :: "nat \<Rightarrow> rstring \<Rightarrow> rstring \<Rightarrow> (rstring \<times> rstring) gresult" where
  "literal_loop ln v [] = Inl (RdfParse ln (lit ''unterminated literal (missing closing '' @ [ch_apos, ch_quote, ch_apos] @ lit '')''))"
| "literal_loop ln v (c # cs) =
     (if c = ch_quote then Inr (v, cs)
      else if c = ch_bslash then
        (case read_string_escape ln v cs of Inl e \<Rightarrow> Inl e | Inr (v', cs') \<Rightarrow> literal_loop ln v' cs')
      else literal_loop ln (v @ [c]) cs)"
  by pat_completeness auto
termination
  by (relation "measure (\<lambda>(ln, s, cs). length cs)")
     (auto dest!: sym [of "Inr _"] read_string_escape_length)

definition literal_suffix :: "nat \<Rightarrow> rstring \<Rightarrow> rstring \<Rightarrow> (Term \<times> rstring) gresult" where
  "literal_suffix ln v cs = (case cs of
     [] \<Rightarrow> Inr (Literal v None None, [])
   | c # cs1 \<Rightarrow>
       if c = ch_caret then
         (if cs1 = [] \<or> hd cs1 \<noteq> ch_caret
          then Inl (RdfParse ln (lit ''datatype marker must be '' @ [ch_apos, ch_caret, ch_caret, ch_apos]))
          else let cs2 = skip_ws (tl cs1) in
            if cs2 = [] \<or> hd cs2 \<noteq> ch_lt
            then Inl (RdfParse ln (lit ''datatype must be an <IRI>''))
            else res_bind (iri_loop ln [] (tl cs2)) (\<lambda>(dt, cs3). Inr (Literal v (Some dt) None, cs3)))
       else if c = ch_at then
         (case take_run is_lang_char [] cs1 of (lang, cs2) \<Rightarrow>
           if lang = [] then Inl (RdfParse ln (lit ''empty language tag after '' @ [ch_apos, ch_at, ch_apos]))
           else Inr (Literal v None (Some lang), cs2))
       else Inr (Literal v None None, c # cs1))"

definition parse_literal :: "nat \<Rightarrow> rstring \<Rightarrow> (Term \<times> rstring) gresult" where
  "parse_literal ln cs =
     res_bind (literal_loop ln [] (tl cs)) (\<lambda>(v, cs'). literal_suffix ln v cs')"

definition scanner_parse_term :: "(rchar \<Rightarrow> bool) \<Rightarrow> nat \<Rightarrow> rstring \<Rightarrow> (Term \<times> rstring) gresult" where
  "scanner_parse_term ual ln cs0 = (let cs = skip_ws cs0 in case cs of
     [] \<Rightarrow> Inl (RdfParse ln (lit ''expected a term, found end of line''))
   | c # _ \<Rightarrow>
       if c = ch_lt then parse_iri ln cs
       else if c = ch_quote then parse_literal ln cs
       else if c = ch_uscore then parse_blank ual ln cs
       else Inl (RdfParse ln (lit ''expected a term, found '' @ [ch_apos, c, ch_apos])))"

section \<open>Terms, lines and documents\<close>

definition parse_term :: "(rchar \<Rightarrow> bool) \<Rightarrow> rstring \<Rightarrow> Term gresult" where
  "parse_term ual s = res_bind (scanner_parse_term ual 0 (str_trim s)) (\<lambda>(t, cs).
     if skip_ws cs \<noteq> [] then Inl (RdfParse 0 (lit ''trailing input after term'')) else Inr t)"

text \<open>The optional terminator and trailing comment, shared by both line readers.\<close>

definition finish_line :: "nat \<Rightarrow> 'a \<Rightarrow> rstring \<Rightarrow> 'a option gresult" where
  "finish_line ln x cs = (let cs1 = skip_ws cs;
       cs2 = (case cs1 of c # r \<Rightarrow> if c = ch_dot then r else cs1 | [] \<Rightarrow> []);
       cs3 = skip_ws cs2
     in case cs3 of
          [] \<Rightarrow> Inr (Some x)
        | c # _ \<Rightarrow> if c \<noteq> ch_hash
            then Inl (RdfParse ln (lit ''unexpected trailing input near '' @ [ch_apos, c, ch_apos]))
            else Inr (Some x))"

definition parse_line :: "(rchar \<Rightarrow> bool) \<Rightarrow> rstring \<Rightarrow> nat \<Rightarrow> Triple option gresult" where
  "parse_line ual line ln = (let trimmed = str_trim line in
     if trimmed = [] \<or> hd trimmed = ch_hash then Inr None
     else res_bind (scanner_parse_term ual ln trimmed) (\<lambda>(s, cs1).
          res_bind (scanner_parse_term ual ln cs1) (\<lambda>(p, cs2).
          res_bind (scanner_parse_term ual ln cs2) (\<lambda>(ob, cs3).
          finish_line ln (Triple s p ob) cs3))))"

text \<open>\<open>str::lines\<close>: split at line feeds, drop one carriage return before each.\<close>

definition strip_cr :: "rstring \<Rightarrow> rstring" where
  "strip_cr s = (if s \<noteq> [] \<and> last s = ch_cr then butlast s else s)"

fun str_lines :: "rstring \<Rightarrow> rstring \<Rightarrow> rstring list" where
  "str_lines acc [] = (if acc = [] then [] else [acc])"
| "str_lines acc (c # cs) =
     (if c = ch_nl then strip_cr acc # str_lines [] cs else str_lines (acc @ [c]) cs)"

fun for_each_line :: "(rstring \<Rightarrow> nat \<Rightarrow> 'a option gresult) \<Rightarrow> ('a \<Rightarrow> 's \<Rightarrow> 's gresult)
    \<Rightarrow> nat \<Rightarrow> rstring list \<Rightarrow> 's \<Rightarrow> 's gresult" where
  "for_each_line p f i [] st = Inr st"
| "for_each_line p f i (l # ls) st = res_bind (p l (i + 1)) (\<lambda>r. case r of
     None \<Rightarrow> for_each_line p f (i + 1) ls st
   | Some t \<Rightarrow> res_bind (f t st) (for_each_line p f (i + 1) ls))"

definition for_each_triple_str ::
    "(rchar \<Rightarrow> bool) \<Rightarrow> (Triple \<Rightarrow> 's \<Rightarrow> 's gresult) \<Rightarrow> rstring \<Rightarrow> 's \<Rightarrow> 's gresult" where
  "for_each_triple_str ual f content st =
     for_each_line (parse_line ual) f 0 (str_lines [] content) st"

definition parse_str :: "(rchar \<Rightarrow> bool) \<Rightarrow> rstring \<Rightarrow> Triple list gresult" where
  "parse_str ual content = for_each_triple_str ual (\<lambda>t out. Inr (out @ [t])) content []"

section \<open>N-Quads\<close>

datatype Quad = Quad (q_subject: Term) (q_predicate: Term) (q_object: Term) (q_graph: "Term option")

definition to_triple :: "Quad \<Rightarrow> Triple" where
  "to_triple q = Triple (q_subject q) (q_predicate q) (q_object q)"

definition nq_graph :: "(rchar \<Rightarrow> bool) \<Rightarrow> nat \<Rightarrow> rstring \<Rightarrow> (Term option \<times> rstring) gresult" where
  "nq_graph ual ln cs = (case cs of
     [] \<Rightarrow> Inr (None, cs)
   | c # _ \<Rightarrow>
       if c = ch_dot \<or> c = ch_hash then Inr (None, cs)
       else if c = ch_lt \<or> c = ch_uscore then
         res_bind (scanner_parse_term ual ln cs) (\<lambda>(g, cs').
           if is_literal g then Inl (RdfParse ln (lit ''graph label cannot be a literal''))
           else Inr (Some g, cs'))
       else Inl (RdfParse ln (lit ''unexpected '' @ [ch_apos, c, ch_apos] @ lit '' before statement end'')))"

definition nq_parse_line :: "(rchar \<Rightarrow> bool) \<Rightarrow> rstring \<Rightarrow> nat \<Rightarrow> Quad option gresult" where
  "nq_parse_line ual line ln = (let trimmed = str_trim line in
     if trimmed = [] \<or> hd trimmed = ch_hash then Inr None
     else res_bind (scanner_parse_term ual ln trimmed) (\<lambda>(s, cs1).
          res_bind (scanner_parse_term ual ln cs1) (\<lambda>(p, cs2).
          res_bind (scanner_parse_term ual ln cs2) (\<lambda>(ob, cs3).
          res_bind (nq_graph ual ln (skip_ws cs3)) (\<lambda>(g, cs4).
          finish_line ln (Quad s p ob g) cs4)))))"

definition nq_parse_str :: "(rchar \<Rightarrow> bool) \<Rightarrow> rstring \<Rightarrow> Quad list gresult" where
  "nq_parse_str ual content =
     for_each_line (nq_parse_line ual) (\<lambda>q out. Inr (out @ [q])) 0 (str_lines [] content) []"

definition nq_parse_str_triples :: "(rchar \<Rightarrow> bool) \<Rightarrow> rstring \<Rightarrow> Triple list gresult" where
  "nq_parse_str_triples ual content =
     res_bind (nq_parse_str ual content) (\<lambda>qs. Inr (map to_triple qs))"

section \<open>Reading back what is printed\<close>

definition iri_safe :: "rstring \<Rightarrow> bool" where
  "iri_safe s \<longleftrightarrow> ch_gt \<notin> set s \<and> ch_bslash \<notin> set s"

text \<open>Terms whose printed form needs no escape the printer does not write.\<close>

fun nt_safe :: "(rchar \<Rightarrow> bool) \<Rightarrow> Term \<Rightarrow> bool" where
  "nt_safe ual (Iri s) \<longleftrightarrow> iri_safe s"
| "nt_safe ual (Blank s) \<longleftrightarrow> s \<noteq> [] \<and> list_all (is_label_char ual) s"
| "nt_safe ual (Literal v dt lang) \<longleftrightarrow>
     (case dt of Some d \<Rightarrow> iri_safe d \<and> lang = None
      | None \<Rightarrow> (case lang of Some l \<Rightarrow> l \<noteq> [] \<and> list_all is_lang_char l | None \<Rightarrow> True))"

text \<open>What follows a term in a line: nothing, or a space.\<close>

definition term_end :: "rstring \<Rightarrow> bool" where
  "term_end r \<longleftrightarrow> r = [] \<or> hd r = ch_space"

lemma take_run_append:
  "list_all P w \<Longrightarrow> (r = [] \<or> \<not> P (hd r)) \<Longrightarrow> take_run P s (w @ r) = (s @ w, r)"
proof (induction w arbitrary: s)
  case Nil
  then show ?case by (cases r) auto
qed simp

lemma iri_loop_safe:
  "iri_safe w \<Longrightarrow> iri_loop ln s (w @ ch_gt # r) = Inr (s @ w, r)"
  by (induction w arbitrary: s) (auto simp: iri_safe_def)

lemma literal_loop_escape:
  "literal_loop ln v (escape_literal w @ ch_quote # r) = Inr (v @ w, r)"
proof (induction w arbitrary: v)
  case (Cons c w)
  then show ?case by (auto simp: escape_char_def read_string_escape_def)
qed simp

lemma not_label_char_space [simp]: "\<not> is_label_char ual ch_space"
  by (simp add: is_label_char_def is_alphanumeric_def is_ascii_alphanumeric_def)

lemma not_lang_char_space [simp]: "\<not> is_lang_char ch_space"
  by (simp add: is_lang_char_def is_ascii_alphanumeric_def)

lemma literal_suffix_print:
  assumes "nt_safe ual (Literal v dt lang)" and "term_end r"
  shows "literal_suffix ln v ((case dt of Some d \<Rightarrow> [ch_caret, ch_caret, ch_lt] @ d @ [ch_gt]
      | None \<Rightarrow> (case lang of Some l \<Rightarrow> [ch_at] @ l | None \<Rightarrow> [])) @ r)
    = Inr (Literal v dt lang, r)"
proof (cases dt)
  case (Some d)
  with assms iri_loop_safe [of d ln "[]" r] show ?thesis by (simp add: literal_suffix_def)
next
  case None
  show ?thesis
  proof (cases lang)
    case (Some l)
    with None assms take_run_append [of is_lang_char l r "[]"] show ?thesis
      by (auto simp: literal_suffix_def term_end_def)
  next
    case lang: None
    from None lang assms(2) show ?thesis
      by (cases r) (auto simp: literal_suffix_def term_end_def)
  qed
qed

lemma scanner_parse_print:
  assumes "nt_safe ual t" and "term_end r"
  shows "scanner_parse_term ual ln (term_to_string t @ r) = Inr (t, r)"
proof (cases t)
  case (Iri s)
  with assms show ?thesis
    by (simp add: scanner_parse_term_def parse_iri_def iri_loop_safe)
next
  case (Blank s)
  with assms take_run_append [of "is_label_char ual" s r "[]"] show ?thesis
    by (auto simp: scanner_parse_term_def parse_blank_def term_end_def)
next
  case (Literal v dt lang)
  with assms literal_suffix_print [of ual v dt lang r ln] literal_loop_escape [of ln "[]" v]
  show ?thesis by (simp add: scanner_parse_term_def parse_literal_def)
qed

lemma scanner_parse_print_space:
  assumes "nt_safe ual t" and "term_end r"
  shows "scanner_parse_term ual ln (ch_space # term_to_string t @ r) = Inr (t, r)"
  using scanner_parse_print [OF assms, of ln] by (simp add: scanner_parse_term_def)

lemma str_trim_id:
  assumes "s \<noteq> []" "\<not> is_whitespace (hd s)" "\<not> is_whitespace (last s)"
  shows "str_trim s = s"
proof -
  have "dropWhile is_whitespace s = s" "dropWhile is_whitespace (rev s) = rev s"
    using assms by (simp_all add: dropWhile_eq_self_iff hd_rev)
  then show ?thesis by (simp add: str_trim_def)
qed

lemma label_char_not_ws:
  assumes "\<And>c. ual c \<Longrightarrow> \<not> is_whitespace c" and "is_label_char ual c"
  shows "\<not> is_whitespace c"
  using assms
  by (auto simp: is_label_char_def is_alphanumeric_def is_ascii_alphanumeric_def is_whitespace_def
      split: if_splits)

lemma lang_char_not_ws: "is_lang_char c \<Longrightarrow> \<not> is_whitespace c"
  by (auto simp: is_lang_char_def is_ascii_alphanumeric_def is_whitespace_def)

lemma term_to_string_hd:
  "term_to_string t \<noteq> []" "hd (term_to_string t) \<in> {ch_lt, ch_uscore, ch_quote}"
  by (cases t; simp)+

lemma term_to_string_trim:
  assumes ual: "\<And>c. ual c \<Longrightarrow> \<not> is_whitespace c" and safe: "nt_safe ual t"
  shows "str_trim (term_to_string t) = term_to_string t"
proof (rule str_trim_id)
  show "term_to_string t \<noteq> []" by (rule term_to_string_hd)
  show "\<not> is_whitespace (hd (term_to_string t))"
    using term_to_string_hd(2) [of t] by (auto simp: is_whitespace_def)
  have gt: "\<not> is_whitespace ch_gt" "\<not> is_whitespace ch_quote" by (simp_all add: is_whitespace_def)
  show "\<not> is_whitespace (last (term_to_string t))"
  proof (cases t)
    case (Blank s)
    with safe have "s \<noteq> []" "is_label_char ual (last s)" by (auto simp: list_all_iff)
    with Blank show ?thesis by (simp add: label_char_not_ws [OF ual])
  next
    case (Literal v dt lang)
    show ?thesis
    proof (cases "dt = None \<and> lang \<noteq> None")
      case True
      with Literal safe obtain l where "dt = None" "lang = Some l" "l \<noteq> []" "is_lang_char (last l)"
        by (auto simp: list_all_iff)
      with Literal show ?thesis by (simp add: lang_char_not_ws)
    qed (use Literal gt in \<open>auto split: option.splits\<close>)
  qed (use gt in simp)
qed

text \<open>
  \<open>ntriples::parse_term\<close> inverts \<open>Display for Term\<close>: a term whose IRIs contain neither
  \<open>>\<close> nor a backslash, whose blank label is made of label characters and whose language tag is
  well formed is read back from its dictionary key. The literal value is arbitrary (its quotes,
  backslashes and line breaks are escaped by the printer). The hypothesis on \<open>ual\<close> is the Unicode
  fact that no letter or digit is white space.
\<close>

lemma parse_term_print:
  assumes "\<And>c. ual c \<Longrightarrow> \<not> is_whitespace c" and "nt_safe ual t"
  shows "parse_term ual (dict_key t) = Inr t"
proof -
  have "scanner_parse_term ual 0 (term_to_string t @ []) = Inr (t, [])"
    by (rule scanner_parse_print [OF assms(2)]) (simp add: term_end_def)
  then show ?thesis
    by (simp add: parse_term_def dict_key_def term_to_string_trim [OF assms])
qed

text \<open>
  The surface form is not lossless for every term the reader accepts: an IRI may carry
  an escaped \<open>>\<close> (written \<open>\u003E\<close>), and the key printed for the resulting term is rejected when read
  back.
\<close>

lemma dict_key_not_lossless:
  "\<exists>s t. parse_term ual s = Inr t \<and> (\<exists>e. parse_term ual (dict_key t) = Inl e)"
proof -
  let ?s = "[ch_lt, 97, ch_bslash, 117, 48, 48, 51, 69, 98, ch_gt] :: rstring"
  let ?t = "Iri [97, ch_gt, 98]"
  have "str_trim ?s = ?s" "str_trim (dict_key ?t) = dict_key ?t"
    by (rule str_trim_id; simp add: is_whitespace_def dict_key_def)+
  moreover have esc: "push_hex 0 [97] 4 [48, 48, 51, 69, 98, ch_gt] = Inr ([97, ch_gt], [98, ch_gt])"
  proof -
    have "(4::nat) = Suc (Suc (Suc (Suc 0)))" by simp
    then show ?thesis by (simp only: push_hex_def) (simp add: to_digit16_def char_from_u32_def)
  qed
  moreover have "scanner_parse_term ual 0 ?s = Inr (?t, [])"
    by (simp add: scanner_parse_term_def parse_iri_def read_unicode_escape_def esc)
  moreover have "scanner_parse_term ual 0 (dict_key ?t) = Inr (Iri [97], [98, ch_gt])"
    by (simp add: scanner_parse_term_def parse_iri_def dict_key_def)
  ultimately have "parse_term ual ?s = Inr ?t \<and>
      parse_term ual (dict_key ?t) = Inl (RdfParse 0 (lit ''trailing input after term''))"
    by (simp add: parse_term_def)
  then show ?thesis by (intro exI conjI) (erule conjunct1, erule conjunct2)
qed

section \<open>Lines and documents\<close>

lemma triple_to_string_trim: "str_trim (triple_to_string t) = triple_to_string t"
proof (rule str_trim_id)
  show "\<not> is_whitespace (hd (triple_to_string t))"
    using term_to_string_hd [of "subject t"]
    by (auto simp: triple_to_string_def is_whitespace_def)
qed (simp_all add: triple_to_string_def is_whitespace_def)

lemma triple_to_string_not_comment:
  "triple_to_string t \<noteq> []" "hd (triple_to_string t) \<noteq> ch_hash"
  using term_to_string_hd [of "subject t"] by (auto simp: triple_to_string_def)

definition nt_safe_triple :: "(rchar \<Rightarrow> bool) \<Rightarrow> Triple \<Rightarrow> bool" where
  "nt_safe_triple ual t \<longleftrightarrow>
     nt_safe ual (subject t) \<and> nt_safe ual (predicate t) \<and> nt_safe ual (object t)"

lemma parse_line_print:
  assumes "nt_safe_triple ual t"
  shows "parse_line ual (triple_to_string t) ln = Inr (Some t)"
proof -
  let ?o = "term_to_string (object t) @ [ch_space, ch_dot]"
  let ?p = "term_to_string (predicate t) @ ch_space # ?o"
  have "scanner_parse_term ual ln (term_to_string (subject t) @ ch_space # ?p)
      = Inr (subject t, ch_space # ?p)"
    by (rule scanner_parse_print) (use assms in \<open>simp_all add: nt_safe_triple_def term_end_def\<close>)
  moreover have "scanner_parse_term ual ln (ch_space # ?p) = Inr (predicate t, ch_space # ?o)"
    by (rule scanner_parse_print_space) (use assms in \<open>simp_all add: nt_safe_triple_def term_end_def\<close>)
  moreover have "scanner_parse_term ual ln (ch_space # ?o) = Inr (object t, [ch_space, ch_dot])"
    by (rule scanner_parse_print_space) (use assms in \<open>simp_all add: nt_safe_triple_def term_end_def\<close>)
  ultimately show ?thesis
    using triple_to_string_not_comment [of t]
    by (simp add: parse_line_def triple_to_string_trim Let_def)
       (simp add: triple_to_string_def finish_line_def)
qed

lemma str_lines_line:
  "ch_nl \<notin> set l \<Longrightarrow> str_lines acc (l @ ch_nl # r) = strip_cr (acc @ l) # str_lines [] r"
  by (induction l arbitrary: acc) auto

lemma str_lines_document:
  assumes "\<And>l. l \<in> set ls \<Longrightarrow> ch_nl \<notin> set l \<and> (l = [] \<or> last l \<noteq> ch_cr)"
  shows "str_lines [] (concat (map (\<lambda>l. l @ [ch_nl]) ls)) = ls"
  using assms by (induction ls) (auto simp: str_lines_line strip_cr_def)

lemma for_each_line_push:
  assumes "\<And>t n. t \<in> set ts \<Longrightarrow> p (pr t) n = Inr (Some t)"
  shows "for_each_line p (\<lambda>t out. Inr (out @ [t])) i (map pr ts) out = Inr (out @ ts)"
  using assms by (induction ts arbitrary: i out) auto

text \<open>A document: one printed triple per line.\<close>

definition print_document :: "Triple list \<Rightarrow> rstring" where
  "print_document ts = concat (map (\<lambda>t. triple_to_string t @ [ch_nl]) ts)"

text \<open>
  C24. Printing triples one per line and reading the document back (\<open>ntriples::parse_str\<close>) yields
  exactly those triples in order, for triples of printable terms (IRIs and datatype IRIs without a
  closing bracket or backslash, nonempty blank labels of label characters, language tags of tag
  characters and not beside a datatype) whose printed form has no line break.
\<close>

theorem parse_str_print:
  assumes "\<And>t. t \<in> set ts \<Longrightarrow> nt_safe_triple ual t \<and> ch_nl \<notin> set (triple_to_string t)"
  shows "parse_str ual (print_document ts) = Inr ts"
proof -
  have "str_lines [] (concat (map (\<lambda>l. l @ [ch_nl]) (map triple_to_string ts))) = map triple_to_string ts"
    by (rule str_lines_document) (use assms in \<open>auto simp: triple_to_string_def\<close>)
  moreover have "for_each_line (parse_line ual) (\<lambda>t out. Inr (out @ [t])) 0 (map triple_to_string ts) []
      = Inr ([] @ ts)"
    by (rule for_each_line_push) (use assms in \<open>auto intro: parse_line_print\<close>)
  ultimately show ?thesis
    by (simp add: parse_str_def for_each_triple_str_def print_document_def comp_def)
qed

theorem parse_str_print_witness:
  "parse_str (\<lambda>_. False)
     (print_document [Triple (Iri (lit ''s'')) (Iri (lit ''p'')) (plain_literal [ch_nl, ch_quote])])
   = Inr [Triple (Iri (lit ''s'')) (Iri (lit ''p'')) (plain_literal [ch_nl, ch_quote])]"
  by (rule parse_str_print)
     (auto simp: nt_safe_triple_def iri_safe_def plain_literal_def triple_to_string_def escape_char_def)

section \<open>What the readers accept\<close>

lemma literal_suffix_lit_ok: "literal_suffix ln v cs = Inr (t, r) \<Longrightarrow> lit_ok t"
  by (auto simp: literal_suffix_def res_bind_Inr_iff Let_def split: list.splits if_splits prod.splits)

lemma scanner_parse_term_lit_ok: "scanner_parse_term ual ln cs = Inr (t, r) \<Longrightarrow> lit_ok t"
  by (auto simp: scanner_parse_term_def parse_iri_def parse_blank_def parse_literal_def
      res_bind_Inr_iff Let_def split: list.splits if_splits prod.splits dest: literal_suffix_lit_ok)

text \<open>
  Terms that come out of the reader are separated by their dictionary keys, whatever
  escapes they were written with: two accepted term strings denote the same term exactly when
  their keys are equal. (The reader never sets both a datatype and a language tag.)
\<close>

lemma parsed_terms_key_injective:
  assumes "parse_term ual a = Inr s" and "parse_term ual b = Inr t"
  shows "dict_key s = dict_key t \<longleftrightarrow> s = t"
proof -
  have "lit_ok s" "lit_ok t"
    using assms by (auto simp: parse_term_def res_bind_Inr_iff split: if_splits prod.splits
        dest: scanner_parse_term_lit_ok)
  then show ?thesis by (rule dict_key_eq_iff)
qed

lemma skip_ws_head:
  "skip_ws cs = c # r \<Longrightarrow> c \<noteq> ch_space \<and> c \<noteq> ch_tab \<and> c \<noteq> ch_cr"
  by (induction cs) (auto split: if_splits)

lemma finish_line_next:
  "finish_line ln x cs = Inr y \<Longrightarrow> skip_ws cs = [] \<or> hd (skip_ws cs) \<in> {ch_dot, ch_hash}"
  by (cases "skip_ws cs") (auto dest: skip_ws_head simp: finish_line_def Let_def split: if_splits)

lemma skip_ws_idem [simp]: "skip_ws (skip_ws cs) = skip_ws cs"
  by (induction cs) auto

lemma finish_line_map:
  "finish_line ln x cs = Inr (Some x') \<Longrightarrow> finish_line ln y (skip_ws cs) = Inr (Some y)"
  by (auto simp: finish_line_def Let_def split: list.splits if_splits)

text \<open>
  The N-Quads reader extends the N-Triples reader: every line \<open>ntriples::parse_line\<close> accepts
  as a statement is accepted by \<open>nquads::parse_line\<close> as the same triple in the default graph, and
  the lines the one skips the other skips.
\<close>

lemma nquads_extends_ntriples:
  assumes "parse_line ual l n = Inr r"
  shows "nq_parse_line ual l n
    = Inr (map_option (\<lambda>t. Quad (subject t) (predicate t) (object t) None) r)"
proof (cases "str_trim l = [] \<or> hd (str_trim l) = ch_hash")
  case True
  with assms show ?thesis by (auto simp: parse_line_def nq_parse_line_def Let_def)
next
  case False
  with assms obtain s c1 p c2 ob c3 where parts:
    "scanner_parse_term ual n (str_trim l) = Inr (s, c1)" "scanner_parse_term ual n c1 = Inr (p, c2)"
    "scanner_parse_term ual n c2 = Inr (ob, c3)" "finish_line n (Triple s p ob) c3 = Inr r"
    by (auto simp: parse_line_def Let_def res_bind_Inr_iff split: prod.splits)
  then have r: "r = Some (Triple s p ob)"
    by (auto simp: finish_line_def Let_def split: list.splits if_splits)
  from parts(4) have "nq_graph ual n (skip_ws c3) = Inr (None, skip_ws c3)"
    by (auto dest!: finish_line_next simp: nq_graph_def split: list.splits)
  with parts r False show ?thesis
    by (simp add: nq_parse_line_def Let_def finish_line_map)
qed

end
