(* ===== verification/Codec.thy ===== *)
theory Codec
  imports Prelude
begin

unbundle bit_operations_syntax

text \<open>
  The byte codecs of \<open>src/kvstore/vlist.rs\<close>: unsigned LEB128 varints and the delta-encoded posting
  list built on them. A reader's position \<open>(bytes, pos)\<close> is the list of bytes from \<open>pos\<close> on.
  The lemmas show that both codecs round-trip, that a truncated encoding is rejected, and how long
  an encoding can get. The locale \<open>prefix_codec\<close> is the contract a varint offers to the formats that
  embed it.
\<close>

section \<open>Varints\<close>

lemma drop7_less: "drop_bit 7 v \<noteq> 0 \<Longrightarrow> unat (drop_bit 7 v) < unat (v :: u32)"
proof -
  assume "drop_bit 7 v \<noteq> 0"
  then have "unat (drop_bit 7 v) = unat v div 128" "unat (drop_bit 7 v) \<noteq> 0"
    by (auto simp: drop_bit_eq_div unat_div word_unat_eq_iff)
  then show ?thesis by linarith
qed

function write_varint :: "u32 \<Rightarrow> bytes" where
  "write_varint v =
     (let byte = ucast (v AND 0x7f); v' = drop_bit 7 v
      in if v' = 0 then [byte] else (byte OR 0x80) # write_varint v')"
  by pat_completeness auto
termination
  by (relation "measure unat") (auto intro: drop7_less)

declare write_varint.simps [simp del]

fun read_varint_loop :: "u32 \<Rightarrow> nat \<Rightarrow> bytes \<Rightarrow> (u32 \<times> bytes) option" where
  "read_varint_loop result shift [] = None"
| "read_varint_loop result shift (byte # bs) =
     (if shift \<ge> 32 \<or> (shift = 28 \<and> byte > 0x0f) then None
      else let result' = result OR push_bit shift (ucast (byte AND 0x7f)) in
        if byte AND 0x80 = 0 then Some (result', bs)
        else read_varint_loop result' (shift + 7) bs)"

definition read_varint :: "bytes \<Rightarrow> (u32 \<times> bytes) option" where
  "read_varint bs = read_varint_loop 0 0 bs"

section \<open>Posting lists\<close>

fun encode_deltas :: "u32 \<Rightarrow> u32 list \<Rightarrow> bytes" where
  "encode_deltas prev [] = []"
| "encode_deltas prev (i # ids) = write_varint (i - prev) @ encode_deltas i ids"

definition encode_u32s :: "u32 list \<Rightarrow> bytes" where
  "encode_u32s ids = write_varint (word_of_nat (length ids)) @ encode_deltas 0 ids"

fun decode_deltas :: "nat \<Rightarrow> u32 \<Rightarrow> bytes \<Rightarrow> u32 list option" where
  "decode_deltas 0 prev bs = Some []"
| "decode_deltas (Suc n) prev bs = (case read_varint bs of
     None \<Rightarrow> None
   | Some (delta, bs') \<Rightarrow> (case checked_add32 prev delta of
       None \<Rightarrow> None
     | Some i \<Rightarrow> map_option ((#) i) (decode_deltas n i bs')))"

definition decode_u32s :: "bytes \<Rightarrow> u32 list option" where
  "decode_u32s bs = (case read_varint bs of
     None \<Rightarrow> None | Some (count, bs') \<Rightarrow> decode_deltas (unat count) 0 bs')"

section \<open>Varints round-trip\<close>

lemma and_7f: "v AND 0x7f = take_bit 7 (v :: u32)"
  by (simp add: take_bit_eq_mask mask_numeral)

lemma split_low7: "take_bit 7 v OR push_bit 7 (drop_bit 7 v) = (v :: u32)"
proof (rule bit_eqI)
  fix n
  show "bit (take_bit 7 v OR push_bit 7 (drop_bit 7 v)) n = bit v n"
    by (cases "n < 7") (auto simp: bit_simps dest: bit_imp_le_length)
qed

lemma bit_80: "bit (0x80 :: 'a::len word) n \<longleftrightarrow> n = 7 \<and> 7 < LENGTH('a)"
proof -
  have "bit ((2 :: 'a word) ^ 7) n \<longleftrightarrow> n = 7 \<and> 7 < LENGTH('a)" by (simp only: bit_exp_iff) auto
  then show ?thesis by simp
qed

lemma bit_80_int: "bit (0x80 :: int) n \<longleftrightarrow> n = 7"
proof -
  have "bit ((2 :: int) ^ 7) n \<longleftrightarrow> n = 7" by (simp only: bit_exp_iff) auto
  then show ?thesis by simp
qed

lemma byte_low7:
  fixes v :: u32
  shows "ucast ((ucast (v AND 0x7f) :: u8) AND 0x7f) = take_bit 7 v"
    "ucast (((ucast (v AND 0x7f) :: u8) OR 0x80) AND 0x7f) = take_bit 7 v"
    "(ucast (v AND 0x7f) :: u8) AND 0x80 = 0"
    "((ucast (v AND 0x7f) :: u8) OR 0x80) AND 0x80 \<noteq> 0"
proof -
  have m: "(0x7f :: u8) = mask 7" "(0x7f :: u32) = mask 7" by (simp_all add: mask_numeral)
  show "ucast ((ucast (v AND 0x7f) :: u8) AND 0x7f) = take_bit 7 v"
    "ucast (((ucast (v AND 0x7f) :: u8) OR 0x80) AND 0x7f) = take_bit 7 v"
    "(ucast (v AND 0x7f) :: u8) AND 0x80 = 0"
    unfolding m by (rule bit_eqI, auto simp: bit_simps bit_80 bit_80_int)+
  have "bit (((ucast (v AND 0x7f) :: u8) OR 0x80) AND 0x80) 7"
    unfolding m by (simp add: bit_simps bit_80)
  then show "((ucast (v AND 0x7f) :: u8) OR 0x80) AND 0x80 \<noteq> 0" by force
qed

lemma unat_low7: "unat (ucast (v AND 0x7f) :: u8) = unat (v :: u32) mod 128"
  by (simp add: and_7f unsigned_ucast_eq unsigned_take_bit_eq take_bit_eq_mod mod_mod_cancel unat_mod)

lemma unat_drop7: "unat (drop_bit 7 v) = unat (v :: u32) div 128"
  by (simp add: drop_bit_eq_div unat_div)

lemma drop7_zero_iff: "drop_bit 7 v = 0 \<longleftrightarrow> unat (v :: u32) < 128"
proof -
  have "drop_bit 7 v = 0 \<longleftrightarrow> unat (drop_bit 7 v) = 0" by (simp only: word_unat_eq_iff unat_0)
  then show ?thesis by (simp only: unat_drop7 div_eq_0_iff) simp
qed

lemma write_varint_small: "unat v < 128 \<Longrightarrow> write_varint v = [ucast (v AND 0x7f)]"
  by (subst write_varint.simps) (simp only: Let_def drop7_zero_iff if_True)

lemma write_varint_large:
  "\<not> unat v < 128 \<Longrightarrow> write_varint v = (ucast (v AND 0x7f) OR 0x80) # write_varint (drop_bit 7 v)"
  by (subst write_varint.simps) (simp only: Let_def drop7_zero_iff if_False)

lemma varint_induct:
  assumes "\<And>v :: u32. unat v < 128 \<Longrightarrow> P v"
    and "\<And>v :: u32. \<not> unat v < 128 \<Longrightarrow> P (drop_bit 7 v) \<Longrightarrow> P v"
  shows "P v"
proof (induction v rule: measure_induct_rule [of unat])
  case (less v)
  show ?case
  proof (cases "unat v < 128")
    case False
    then have "drop_bit 7 v \<noteq> 0" by (simp only: drop7_zero_iff) simp
    then have "P (drop_bit 7 v)" by (intro less.IH drop7_less)
    with False show ?thesis by (rule assms(2))
  qed (rule assms(1))
qed

lemma read_write_varint_loop:
  assumes "7 dvd s" "s \<le> 28" "unat v < 2 ^ (32 - s)"
  shows "read_varint_loop r s (write_varint v @ rest) = Some (r OR push_bit s v, rest)"
  using assms
proof (induction v arbitrary: r s rule: varint_induct)
  case (1 v)
  have v: "take_bit 7 v = v"
    using split_low7 [of v] 1(1) drop7_zero_iff [of v] by (metis or.right_neutral push_bit_of_0)
  have "\<not> ucast (v AND 0x7f) > (0x0f :: u8)" if "s = 28"
    using 1 that by (simp add: word_less_nat_alt unat_low7)
  with 1 show ?case
    by (simp add: write_varint_small byte_low7 v)
next
  case (2 v)
  have s: "s \<le> 21"
  proof (rule ccontr)
    assume "\<not> s \<le> 21"
    with "2.prems"(1,2) have "s = 28" by auto
    with "2.prems"(3) "2.hyps" show False by simp
  qed
  have "read_varint_loop (r OR push_bit s (take_bit 7 v)) (s + 7) (write_varint (drop_bit 7 v) @ rest)
      = Some ((r OR push_bit s (take_bit 7 v)) OR push_bit (s + 7) (drop_bit 7 v), rest)"
  proof (rule "2.IH")
    have "32 - s = (32 - (s + 7)) + 7" using s by simp
    then have "(2::nat) ^ (32 - s) = 2 ^ (32 - (s + 7)) * 2 ^ 7" by (metis power_add)
    with "2.prems"(3) show "unat (drop_bit 7 v) < 2 ^ (32 - (s + 7))"
      by (simp only: unat_drop7) (simp add: less_mult_imp_div_less)
  qed (use "2.prems" s in auto)
  also have "(r OR push_bit s (take_bit 7 v)) OR push_bit (s + 7) (drop_bit 7 v) = r OR push_bit s v"
    by (metis (no_types) add.commute or.assoc push_bit_or push_bit_push_bit split_low7)
  finally show ?case
    using s by (simp add: write_varint_large [OF "2.hyps"] byte_low7 del: drop_bit_numeral_bit1 drop_bit_numeral_minus_bit1)
qed

lemma read_write_varint [simp, codec_simps]:
  "read_varint (write_varint v @ rest) = Some (v, rest)"
  using read_write_varint_loop [of 0 v 0 rest] unat_u32_less [of v] by (simp add: read_varint_def)

lemma read_varint_loop_truncated:
  "k < length (write_varint v) \<Longrightarrow> read_varint_loop r s (take k (write_varint v)) = None"
proof (induction v arbitrary: k r s rule: varint_induct)
  case (1 v)
  then show ?case by (simp add: write_varint_small)
next
  case (2 v)
  show ?case
  proof (cases k)
    case (Suc k')
    with "2.prems" have "k' < length (write_varint (drop_bit 7 v))"
      by (simp only: write_varint_large [OF "2.hyps"] list.size)
    from "2.IH" [OF this] Suc show ?thesis
      by (simp only: write_varint_large [OF "2.hyps"] take_Suc_Cons read_varint_loop.simps) (simp add: byte_low7)
  qed simp
qed

lemma read_varint_truncated:
  "k < length (write_varint v) \<Longrightarrow> read_varint (take k (write_varint v)) = None"
  by (simp add: read_varint_def read_varint_loop_truncated)

lemma write_varint_length:
  "unat v < 128 ^ Suc k \<Longrightarrow> length (write_varint v) \<le> Suc k"
proof (induction v arbitrary: k rule: varint_induct)
  case (1 v)
  then show ?case by (simp add: write_varint_small)
next
  case (2 v)
  then obtain k' where k: "k = Suc k'" by (cases k) auto
  with "2.prems" have "unat (drop_bit 7 v) < 128 ^ Suc k'"
    by (simp only: unat_drop7) (simp add: less_mult_imp_div_less)
  from "2.IH" [OF this] show ?case by (simp only: write_varint_large [OF "2.hyps"] k list.size)
qed

lemma write_varint_length5: "length (write_varint v) \<le> 5"
  using write_varint_length [of v 4] unat_u32_less [of v] by simp

lemma write_varint_nonempty [simp]: "write_varint v \<noteq> []"
  by (subst write_varint.simps) (simp add: Let_def)

section \<open>The contract of a self-delimiting code\<close>

locale prefix_codec =
  fixes enc :: "'a \<Rightarrow> 'b list"
    and dec :: "'b list \<Rightarrow> ('a \<times> 'b list) option"
    and ok :: "'a \<Rightarrow> bool"
  assumes dec_enc: "ok x \<Longrightarrow> dec (enc x @ r) = Some (x, r)"
    and dec_truncated: "ok x \<Longrightarrow> k < length (enc x) \<Longrightarrow> dec (take k (enc x)) = None"
begin

lemma enc_inj:
  assumes "ok x" "ok y" and eq: "enc x @ r = enc y @ r'"
  shows "x = y \<and> r = r'"
proof -
  have "Some (x, r) = dec (enc x @ r)" by (rule dec_enc [OF assms(1), symmetric])
  also have "\<dots> = dec (enc y @ r')" by (simp only: eq)
  also have "\<dots> = Some (y, r')" by (rule dec_enc [OF assms(2)])
  finally show ?thesis by simp
qed

lemma dec_nil: "ok x \<Longrightarrow> dec (enc x) = Some (x, [])"
  using dec_enc [of x "[]"] by simp

lemma dec_take:
  assumes "ok x" "k < length (enc x @ r)"
  shows "dec (take k (enc x @ r)) =
    (if k < length (enc x) then None else Some (x, take (k - length (enc x)) r))"
  using assms dec_enc dec_truncated by simp

end

interpretation varint: prefix_codec write_varint read_varint "\<lambda>_. True"
  by unfold_locales (simp_all add: read_varint_truncated)

section \<open>Posting lists round-trip\<close>

lemma checked_add_delta: "prev \<le> i \<Longrightarrow> checked_add32 prev (i - prev) = Some i"
  using unat_u32_less [of i] by (simp add: checked_add32_def unat_sub word_le_nat_alt)

lemma decode_encode_deltas:
  "sorted (prev # ids) \<Longrightarrow> decode_deltas (length ids) prev (encode_deltas prev ids @ rest) = Some ids"
  by (induction ids arbitrary: prev) (auto simp: checked_add_delta)

lemma encode_deltas_length: "length (encode_deltas prev ids) \<le> 5 * length ids"
proof (induction ids arbitrary: prev)
  case (Cons i ids)
  from Cons.IH [of i] write_varint_length5 [of "i - prev"] show ?case by simp
qed simp

lemma decode_deltas_truncated:
  "k < length (encode_deltas prev ids) \<Longrightarrow> decode_deltas (length ids) prev (take k (encode_deltas prev ids)) = None"
proof (induction ids arbitrary: prev k)
  case (Cons i ids)
  let ?w = "write_varint (i - prev)"
  have "read_varint (take k (encode_deltas prev (i # ids))) =
      (if k < length ?w then None else Some (i - prev, take (k - length ?w) (encode_deltas i ids)))"
    using varint.dec_take [where x = "i - prev" and k = k and r = "encode_deltas i ids"] Cons.prems by simp
  moreover have "decode_deltas (length ids) j (take (k - length ?w) (encode_deltas i ids)) = None"
    if "checked_add32 prev (i - prev) = Some j" "\<not> k < length ?w" for j
  proof -
    from that(1) have "j = i" by (auto simp: checked_add32_def split: if_splits)
    with Cons that(2) show ?thesis by simp
  qed
  ultimately show ?case by (auto split: option.splits if_splits)
qed simp

text \<open>
  C30. A posting list survives its encoding: \<open>decode_u32s\<close> of \<open>encode_u32s\<close> gives back any sorted id
  list of fewer than \<open>2^32\<close> ids, whatever bytes follow, and the encoding takes at most five bytes per
  id plus five for the count.
\<close>

theorem vlist_roundtrip:
  assumes "sorted ids" and "length ids < 2 ^ 32"
  shows "decode_u32s (encode_u32s ids @ rest) = Some ids \<and>
    length (encode_u32s ids) \<le> 5 * length ids + 5"
proof -
  have "sorted (0 # ids)" using assms(1) by simp
  with assms(2) decode_encode_deltas [of 0 ids rest] show ?thesis
    using encode_deltas_length [of 0 ids] write_varint_length5 [of "word_of_nat (length ids)"]
    by (simp add: decode_u32s_def encode_u32s_def)
qed

theorem vlist_roundtrip_witness:
  "decode_u32s (encode_u32s [3, 3, 700, 4294967295] @ [1, 2]) = Some [3, 3, 700, 4294967295] \<and>
   length (encode_u32s [3, 3, 700, 4294967295]) \<le> 5 * length [3, 3, 700, 4294967295 :: u32] + 5"
  by (rule vlist_roundtrip) simp_all

text \<open>
  C31. A truncated posting list is detected: no proper prefix of an encoding decodes.
\<close>

theorem vlist_truncated:
  assumes "length ids < 2 ^ 32" and "k < length (encode_u32s ids)"
  shows "decode_u32s (take k (encode_u32s ids)) = None"
proof -
  let ?w = "write_varint (word_of_nat (length ids))"
  have "read_varint (take k (encode_u32s ids)) =
      (if k < length ?w then None
       else Some (word_of_nat (length ids), take (k - length ?w) (encode_deltas 0 ids)))"
    using varint.dec_take [where x = "word_of_nat (length ids)" and k = k and r = "encode_deltas 0 ids"] assms(2)
    by (simp add: encode_u32s_def)
  moreover have "k - length ?w < length (encode_deltas 0 ids)" if "\<not> k < length ?w"
    using assms(2) that by (simp add: encode_u32s_def)
  ultimately show ?thesis
    using assms(1) decode_deltas_truncated [of "k - length ?w" 0 ids] by (simp add: decode_u32s_def)
qed

theorem vlist_truncated_witness:
  "decode_u32s (take 1 (encode_u32s [5, 300])) = None"
proof (rule vlist_truncated)
  have "write_varint 2 \<noteq> []" "write_varint 5 \<noteq> []" by simp_all
  then have "0 < length (write_varint 2)" "0 < length (write_varint 5)" by blast+
  moreover have "length (encode_u32s [5, 300]) =
      length (write_varint 2) + (length (write_varint 5) + length (write_varint 295))"
    by (simp add: encode_u32s_def)
  ultimately show "1 < length (encode_u32s [5, 300])" by linarith
qed simp

end
