(* ===== verification/TripleStore.thy ===== *)
theory TripleStore
  imports Model
begin

text \<open>
  The in-memory triple store of \<open>src/store/mod.rs\<close>: three redundant ordered adjacency maps
  (\<open>s2po\<close>, \<open>o2ps\<close>, \<open>p2so\<close>) and a triple count. Every method of \<open>TripleStore\<close> is a definition; the
  abstract content of a store is the set of its triples (\<open>triples\<close>), and \<open>store_inv\<close> says that the
  three indexes hold exactly that set, each list ascending and none empty, with the count matching.
  The traits \<open>TripleSource\<close> and \<open>MutableStore\<close> are the locales \<open>triple_source\<close> and \<open>mutable_store\<close>,
  interpreted on the store.
\<close>

section \<open>Adjacency maps\<close>

type_synonym adj_map = "(u32, (u32 \<times> u32) list) btree_map"

text \<open>\<open>map.get(&k)\<close> with an empty slice as default, and \<open>map.entry(k).or_default()\<close>.\<close>

definition adj_get :: "adj_map \<Rightarrow> u32 \<Rightarrow> (u32 \<times> u32) list" where
  "adj_get m k = (case bm_get m k of None \<Rightarrow> [] | Some v \<Rightarrow> v)"

definition sorted_insert :: "(u32 \<times> u32) list \<Rightarrow> u32 \<times> u32 \<Rightarrow> bool \<times> (u32 \<times> u32) list" where
  "sorted_insert vec value = (case binary_search vec value of
     Inr _ \<Rightarrow> (False, vec)
   | Inl pos \<Rightarrow> (True, vec_insert pos value vec))"

definition sorted_remove :: "(u32 \<times> u32) list \<Rightarrow> u32 \<times> u32 \<Rightarrow> bool \<times> (u32 \<times> u32) list" where
  "sorted_remove vec value = (case binary_search vec value of
     Inr pos \<Rightarrow> (True, vec_remove pos vec)
   | Inl _ \<Rightarrow> (False, vec))"

definition range_by_first :: "(u32 \<times> u32) list \<Rightarrow> u32 \<Rightarrow> (u32 \<times> u32) list" where
  "range_by_first vec first =
     (let lo = partition_point (\<lambda>(a, _). a < first) vec;
          hi = partition_point (\<lambda>(a, _). a \<le> first) vec
      in take (hi - lo) (drop lo vec))"

section \<open>The store\<close>

record TripleStore =
  s2po :: adj_map
  o2ps :: adj_map
  p2so :: adj_map
  triple_count :: u64

definition ts_new :: TripleStore where
  "ts_new = \<lparr>s2po = [], o2ps = [], p2so = [], triple_count = 0\<rparr>"

definition ts_is_empty :: "TripleStore \<Rightarrow> bool" where
  "ts_is_empty st \<longleftrightarrow> triple_count st = 0"

definition ts_insert :: "TripleStore \<Rightarrow> IdTriple \<Rightarrow> bool \<times> TripleStore" where
  "ts_insert st t = (case sorted_insert (adj_get (s2po st) (sub t)) (pred t, obj t) of
     (False, v) \<Rightarrow> (False, st\<lparr>s2po := bm_insert (sub t) v (s2po st)\<rparr>)
   | (True, v) \<Rightarrow>
       (True, st\<lparr>s2po := bm_insert (sub t) v (s2po st),
                 o2ps := bm_insert (obj t) (snd (sorted_insert (adj_get (o2ps st) (obj t)) (pred t, sub t))) (o2ps st),
                 p2so := bm_insert (pred t) (snd (sorted_insert (adj_get (p2so st) (pred t)) (sub t, obj t))) (p2so st),
                 triple_count := triple_count st + 1\<rparr>))"

text \<open>\<open>if let Some(v) = map.get_mut(&k) { sorted_remove(v, x) }\<close>\<close>

definition adj_remove :: "adj_map \<Rightarrow> u32 \<Rightarrow> u32 \<times> u32 \<Rightarrow> bool \<times> adj_map" where
  "adj_remove m k x = (case bm_get m k of
     None \<Rightarrow> (False, m)
   | Some v \<Rightarrow> (case sorted_remove v x of (r, v') \<Rightarrow> (r, bm_insert k v' m)))"

definition adj_prune :: "adj_map \<Rightarrow> u32 \<Rightarrow> adj_map" where
  "adj_prune m k = (if bm_get m k = Some [] then bm_remove k m else m)"

definition prune_empty :: "TripleStore \<Rightarrow> u32 \<Rightarrow> u32 \<Rightarrow> u32 \<Rightarrow> TripleStore" where
  "prune_empty st s p ob = st\<lparr>s2po := adj_prune (s2po st) s, o2ps := adj_prune (o2ps st) ob,
                              p2so := adj_prune (p2so st) p\<rparr>"

definition ts_remove :: "TripleStore \<Rightarrow> IdTriple \<Rightarrow> bool \<times> TripleStore" where
  "ts_remove st t = (case adj_remove (s2po st) (sub t) (pred t, obj t) of
     (False, m) \<Rightarrow> (False, st\<lparr>s2po := m\<rparr>)
   | (True, m) \<Rightarrow>
       (let st1 = st\<lparr>s2po := m,
                     o2ps := snd (adj_remove (o2ps st) (obj t) (pred t, sub t)),
                     p2so := snd (adj_remove (p2so st) (pred t) (sub t, obj t))\<rparr>;
            st2 = prune_empty st1 (sub t) (pred t) (obj t)
        in (True, st2\<lparr>triple_count := triple_count st2 - 1\<rparr>)))"

definition adj_push :: "u32 \<Rightarrow> u32 \<times> u32 \<Rightarrow> adj_map \<Rightarrow> adj_map" where
  "adj_push k x m = bm_insert k (adj_get m k @ [x]) m"

text \<open>The push loop of \<open>bulk_load\<close> and then its sort-and-dedup passes.\<close>

fun push_all :: "TripleStore \<Rightarrow> IdTriple list \<Rightarrow> TripleStore" where
  "push_all st [] = st"
| "push_all st (t # ts) = push_all
     (st\<lparr>s2po := adj_push (sub t) (pred t, obj t) (s2po st),
         o2ps := adj_push (obj t) (pred t, sub t) (o2ps st),
         p2so := adj_push (pred t) (sub t, obj t) (p2so st)\<rparr>) ts"

definition ts_bulk_load :: "TripleStore \<Rightarrow> IdTriple list \<Rightarrow> TripleStore" where
  "ts_bulk_load st ts = (let st1 = push_all st ts; m = bm_map sort_dedup (s2po st1) in
     st1\<lparr>s2po := m, o2ps := bm_map sort_dedup (o2ps st1), p2so := bm_map sort_dedup (p2so st1),
         triple_count := sum_list (map (\<lambda>(k, v). word_of_nat (length v)) m)\<rparr>)"

section \<open>Access patterns\<close>

definition ts_exists :: "TripleStore \<Rightarrow> u32 \<Rightarrow> u32 \<Rightarrow> u32 \<Rightarrow> bool" where
  "ts_exists st s p ob = (case bm_get (s2po st) s of
     None \<Rightarrow> False
   | Some v \<Rightarrow> (case binary_search v (p, ob) of Inr _ \<Rightarrow> True | Inl _ \<Rightarrow> False))"

definition po_by_s :: "TripleStore \<Rightarrow> u32 \<Rightarrow> (u32 \<times> u32) list" where
  "po_by_s st s = adj_get (s2po st) s"

definition o_by_sp :: "TripleStore \<Rightarrow> u32 \<Rightarrow> u32 \<Rightarrow> u32 list" where
  "o_by_sp st s p = (case bm_get (s2po st) s of
     Some v \<Rightarrow> map snd (range_by_first v p) | None \<Rightarrow> [])"

definition p_by_so :: "TripleStore \<Rightarrow> u32 \<Rightarrow> u32 \<Rightarrow> u32 list" where
  "p_by_so st s ob = (case bm_get (s2po st) s of
     Some v \<Rightarrow> remdups_adj (map fst (filter (\<lambda>(_, o'). o' = ob) v)) | None \<Rightarrow> [])"

definition ps_by_o :: "TripleStore \<Rightarrow> u32 \<Rightarrow> (u32 \<times> u32) list" where
  "ps_by_o st ob = adj_get (o2ps st) ob"

definition s_by_po :: "TripleStore \<Rightarrow> u32 \<Rightarrow> u32 \<Rightarrow> u32 list" where
  "s_by_po st p ob = (case bm_get (o2ps st) ob of
     Some v \<Rightarrow> map snd (range_by_first v p) | None \<Rightarrow> [])"

definition so_by_p :: "TripleStore \<Rightarrow> u32 \<Rightarrow> (u32 \<times> u32) list" where
  "so_by_p st p = adj_get (p2so st) p"

definition subs_by_p :: "TripleStore \<Rightarrow> u32 \<Rightarrow> u32 list" where
  "subs_by_p st p = remdups_adj (map fst (so_by_p st p))"

definition objs_by_p :: "TripleStore \<Rightarrow> u32 \<Rightarrow> u32 list" where
  "objs_by_p st p = sort_dedup (map snd (so_by_p st p))"

definition out_degree :: "TripleStore \<Rightarrow> u32 \<Rightarrow> nat" where
  "out_degree st i = length (adj_get (s2po st) i)"

definition in_degree :: "TripleStore \<Rightarrow> u32 \<Rightarrow> nat" where
  "in_degree st i = length (adj_get (o2ps st) i)"

definition degree :: "TripleStore \<Rightarrow> u32 \<Rightarrow> nat" where
  "degree st i = out_degree st i + in_degree st i"

definition iter_all :: "TripleStore \<Rightarrow> IdTriple list" where
  "iter_all st = concat (map (\<lambda>(p, pairs). map (\<lambda>(s, ob). IdTriple s p ob) pairs) (p2so st))"

definition predicates_of :: "TripleStore \<Rightarrow> u32 list" where
  "predicates_of st = map fst (p2so st)"

definition subject_keys :: "TripleStore \<Rightarrow> u32 list" where
  "subject_keys st = map fst (s2po st)"

definition object_keys :: "TripleStore \<Rightarrow> u32 list" where
  "object_keys st = map fst (o2ps st)"

definition distinct_subjects :: "TripleStore \<Rightarrow> nat" where
  "distinct_subjects st = length (s2po st)"

definition distinct_objects :: "TripleStore \<Rightarrow> nat" where
  "distinct_objects st = length (o2ps st)"

definition num_predicates :: "TripleStore \<Rightarrow> nat" where
  "num_predicates st = length (p2so st)"

definition pred_card :: "TripleStore \<Rightarrow> u32 \<Rightarrow> nat" where
  "pred_card st p = length (so_by_p st p)"

fun count_transitions :: "u32 option \<Rightarrow> nat \<Rightarrow> (u32 \<times> u32) list \<Rightarrow> nat" where
  "count_transitions lst n [] = n"
| "count_transitions lst n ((s, _) # r) =
     (if lst \<noteq> Some s then count_transitions (Some s) (n + 1) r else count_transitions lst n r)"

definition pred_distinct_subj :: "TripleStore \<Rightarrow> u32 \<Rightarrow> nat" where
  "pred_distinct_subj st p = count_transitions None 0 (so_by_p st p)"

definition pred_distinct_obj :: "TripleStore \<Rightarrow> u32 \<Rightarrow> nat" where
  "pred_distinct_obj st p = length (sort_dedup (map snd (so_by_p st p)))"

section \<open>Adjacency maps as relations\<close>

definition adj_rel :: "adj_map \<Rightarrow> (u32 \<times> u32 \<times> u32) set" where
  "adj_rel m = {(k, x). x \<in> set (adj_get m k)}"

definition adj_wf :: "adj_map \<Rightarrow> bool" where
  "adj_wf m \<longleftrightarrow> bm_wf m \<and> (\<forall>k v. bm_get m k = Some v \<longrightarrow> v \<noteq> [] \<and> ascending v)"

lemma adj_wf_Nil [simp]: "adj_wf []"
  by (simp add: adj_wf_def)

lemma adj_rel_Nil [simp]: "adj_rel [] = {}"
  by (simp add: adj_rel_def adj_get_def)

lemma adj_rel_iff [simp]: "(k, x) \<in> adj_rel m \<longleftrightarrow> x \<in> set (adj_get m k)"
  by (simp add: adj_rel_def)

lemma adj_get_ascending: "adj_wf m \<Longrightarrow> ascending (adj_get m k)"
  by (auto simp: adj_wf_def adj_get_def split: option.splits)

lemma adj_get_insert: "adj_get (bm_insert k v m) k' = (if k' = k then v else adj_get m k')"
  by (simp add: adj_get_def)

lemma adj_get_remove: "adj_get (bm_remove k m) k' = (if k' = k then [] else adj_get m k')"
  by (simp add: adj_get_def)

lemma adj_wf_insert:
  "adj_wf m \<Longrightarrow> v \<noteq> [] \<Longrightarrow> ascending v \<Longrightarrow> adj_wf (bm_insert k v m)"
  by (auto simp: adj_wf_def)

lemma adj_wf_key_nonempty:
  assumes "adj_wf m"
  shows "k \<in> set (map fst m) \<longleftrightarrow> adj_get m k \<noteq> []"
proof (cases "bm_get m k")
  case None
  then have "k \<notin> fst ` set m" by (simp add: map_of_eq_None_iff)
  with None show ?thesis by (simp add: adj_get_def)
next
  case (Some v)
  then have "k \<in> fst ` set m" by (metis map_of_eq_None_iff option.distinct(1))
  with Some assms show ?thesis by (simp add: adj_wf_def adj_get_def)
qed

lemma sorted_insert_spec:
  assumes "ascending v"
  shows "fst (sorted_insert v x) \<longleftrightarrow> x \<notin> set v" "set (snd (sorted_insert v x)) = insert x (set v)"
    "ascending (snd (sorted_insert v x))" "snd (sorted_insert v x) \<noteq> []"
  using assms
  by (cases rule: binary_search_cases [of v x];
      auto simp: sorted_insert_def vec_insert_def sorted_wrt_append)+

lemma sorted_remove_spec:
  assumes "ascending v"
  shows "fst (sorted_remove v x) \<longleftrightarrow> x \<in> set v" "set (snd (sorted_remove v x)) = set v - {x}"
    "ascending (snd (sorted_remove v x))"
  using assms
  by (cases rule: binary_search_cases [of v x];
      auto simp: sorted_remove_def vec_remove_def sorted_wrt_append)+

lemma adj_insert_spec:
  assumes "adj_wf m"
  shows "adj_wf (bm_insert k (snd (sorted_insert (adj_get m k) x)) m)"
    "adj_rel (bm_insert k (snd (sorted_insert (adj_get m k) x)) m) = insert (k, x) (adj_rel m)"
  using assms adj_get_ascending [OF assms, of k]
  by (auto intro!: adj_wf_insert simp: sorted_insert_spec adj_get_insert split: if_splits)

lemma adj_remove_conj:
  assumes "adj_wf m"
  shows "(fst (adj_remove m k x) \<longleftrightarrow> (k, x) \<in> adj_rel m) \<and>
    adj_wf (adj_prune (snd (adj_remove m k x)) k) \<and>
    adj_rel (adj_prune (snd (adj_remove m k x)) k) = adj_rel m - {(k, x)}"
proof (cases "bm_get m k")
  case None
  then show ?thesis using assms by (auto simp: adj_remove_def adj_get_def adj_prune_def)
next
  case (Some v)
  then have v: "ascending v" "adj_get m k = v" using assms by (auto simp: adj_wf_def adj_get_def)
  obtain r v' where r: "sorted_remove v x = (r, v')" by force
  with sorted_remove_spec [OF v(1), of x]
  have v': "r \<longleftrightarrow> x \<in> set v" "set v' = set v - {x}" "ascending v'" by simp_all
  have "adj_remove m k x = (r, bm_insert k v' m)" using Some r by (simp add: adj_remove_def)
  moreover have "adj_wf (adj_prune (bm_insert k v' m) k)"
    using v' assms by (auto simp: adj_prune_def adj_wf_def)
  moreover have "adj_rel (adj_prune (bm_insert k v' m) k) = adj_rel m - {(k, x)}"
  proof -
    have "adj_get (adj_prune (bm_insert k v' m) k) k' = (if k' = k then v' else adj_get m k')" for k'
      by (simp add: adj_prune_def adj_get_insert adj_get_remove)
    with v v' show ?thesis unfolding adj_rel_def by (auto split: if_splits)
  qed
  ultimately show ?thesis using v v' by (simp only: fst_conv snd_conv adj_rel_iff simp_thms)
qed

lemmas adj_remove_spec = adj_remove_conj [THEN conjunct1] adj_remove_conj [THEN conjunct2, THEN conjunct1]
  adj_remove_conj [THEN conjunct2, THEN conjunct2]

text \<open>The entries of a map as one list, in iteration order.\<close>

definition adj_list :: "adj_map \<Rightarrow> (u32 \<times> u32 \<times> u32) list" where
  "adj_list m = concat (map (\<lambda>(k, v). map (Pair k) v) m)"

lemma adj_list_set: "bm_wf m \<Longrightarrow> set (adj_list m) = adj_rel m"
proof -
  assume "bm_wf m"
  then have "(k, x) \<in> set (adj_list m) \<longleftrightarrow> (\<exists>v. bm_get m k = Some v \<and> x \<in> set v)" for k x
    by (auto simp: adj_list_def bm_in_iff [symmetric] simp del: map_of_eq_Some_iff)
  moreover have "(k, x) \<in> adj_rel m \<longleftrightarrow> (\<exists>v. bm_get m k = Some v \<and> x \<in> set v)" for k x
    by (cases "bm_get m k") (auto simp: adj_get_def)
  ultimately show ?thesis by (simp only: set_eq_iff split_paired_All simp_thms)
qed

lemma adj_list_distinct: "adj_wf m \<Longrightarrow> distinct (adj_list m)"
proof (induction m)
  case (Cons e m)
  obtain k v where e: "e = (k, v)" by (cases e)
  have gt: "\<forall>k' \<in> fst ` set m. k < k'" using Cons.prems e by (simp add: adj_wf_def bm_wf_def)
  then have none: "bm_get m k = None" by (auto simp: map_of_eq_None_iff)
  have "bm_get m k' = Some v' \<Longrightarrow> bm_get (e # m) k' = Some v'" for k' v'
    using none e by (cases "k' = k") auto
  then have "adj_wf m" using Cons.prems unfolding adj_wf_def bm_wf_def list.map sorted_wrt.simps by blast
  moreover have "ascending v" using Cons.prems e by (auto simp: adj_wf_def split: if_splits)
  ultimately show ?case
    using Cons.IH gt e by (auto simp: adj_list_def distinct_map inj_on_def ascending_distinct)
qed (simp add: adj_list_def)

lemma adj_list_length: "length (adj_list m) = sum_list (map (\<lambda>(k, v). length v) m)"
  by (induction m) (auto simp: adj_list_def)

lemma adj_card: "adj_wf m \<Longrightarrow> card (adj_rel m) = sum_list (map (\<lambda>(k, v). length v) m)"
  by (metis adj_list_distinct adj_list_length adj_list_set adj_wf_def distinct_card)

section \<open>Content and invariant of a store\<close>

definition triples :: "TripleStore \<Rightarrow> IdTriple set" where
  "triples st = {t. (sub t, pred t, obj t) \<in> adj_rel (s2po st)}"

definition store_inv :: "TripleStore \<Rightarrow> bool" where
  "store_inv st \<longleftrightarrow> adj_wf (s2po st) \<and> adj_wf (o2ps st) \<and> adj_wf (p2so st) \<and>
     (\<forall>t. t \<in> triples st \<longleftrightarrow> (obj t, pred t, sub t) \<in> adj_rel (o2ps st)) \<and>
     (\<forall>t. t \<in> triples st \<longleftrightarrow> (pred t, sub t, obj t) \<in> adj_rel (p2so st)) \<and>
     triple_count st = word_of_nat (card (triples st))"

lemma store_invD:
  assumes "store_inv st"
  shows "adj_wf (s2po st)" "adj_wf (o2ps st)" "adj_wf (p2so st)"
    "IdTriple s p ob \<in> triples st \<longleftrightarrow> (p, ob) \<in> set (adj_get (s2po st) s)"
    "IdTriple s p ob \<in> triples st \<longleftrightarrow> (p, s) \<in> set (adj_get (o2ps st) ob)"
    "IdTriple s p ob \<in> triples st \<longleftrightarrow> (s, ob) \<in> set (adj_get (p2so st) p)"
    "triple_count st = word_of_nat (card (triples st))"
proof -
  have "t \<in> triples st \<longleftrightarrow> (pred t, sub t) \<in> set (adj_get (o2ps st) (obj t))"
    "t \<in> triples st \<longleftrightarrow> (sub t, obj t) \<in> set (adj_get (p2so st) (pred t))" for t
    using assms unfolding store_inv_def adj_rel_iff by blast+
  from this [of "IdTriple s p ob"]
  show "IdTriple s p ob \<in> triples st \<longleftrightarrow> (p, s) \<in> set (adj_get (o2ps st) ob)"
    "IdTriple s p ob \<in> triples st \<longleftrightarrow> (s, ob) \<in> set (adj_get (p2so st) p)" by simp_all
  show "IdTriple s p ob \<in> triples st \<longleftrightarrow> (p, ob) \<in> set (adj_get (s2po st) s)"
    by (simp add: triples_def)
qed (use assms in \<open>simp_all add: store_inv_def\<close>)

lemma finite_triples [simp]: "finite (S :: IdTriple set)"
proof -
  have "finite (id_key ` S)" by simp
  then show ?thesis by (rule finite_imageD) (auto simp: inj_on_def id_key_inj)
qed

lemma card_triples: "card (triples st) = card (adj_rel (s2po st))"
proof (rule bij_betw_same_card [of id_key], rule bij_betw_imageI)
  show "inj_on id_key (triples st)" by (auto simp: inj_on_def id_key_inj)
  show "id_key ` triples st = adj_rel (s2po st)"
  proof (rule set_eqI)
    fix x :: "u32 \<times> u32 \<times> u32"
    obtain s p ob where x: "x = (s, p, ob)" by (cases x)
    then have "x = id_key (IdTriple s p ob)" by (simp add: id_key_def)
    then have "x \<in> id_key ` triples st \<longleftrightarrow> IdTriple s p ob \<in> triples st"
      by (auto simp: id_key_inj)
    then show "x \<in> id_key ` triples st \<longleftrightarrow> x \<in> adj_rel (s2po st)"
      using x by (simp add: triples_def)
  qed
qed

lemma store_inv_new: "store_inv ts_new" "triples ts_new = {}"
  by (simp_all add: store_inv_def ts_new_def triples_def adj_get_def)

lemma id_triple_eq_iff: "t = u \<longleftrightarrow> sub t = sub u \<and> pred t = pred u \<and> obj t = obj u"
  by (cases t; cases u) auto

lemma ts_insert_absent:
  assumes "store_inv st" and "t \<notin> triples st"
  shows "ts_insert st t =
    (True, st\<lparr>s2po := bm_insert (sub t) (snd (sorted_insert (adj_get (s2po st) (sub t)) (pred t, obj t))) (s2po st),
              o2ps := bm_insert (obj t) (snd (sorted_insert (adj_get (o2ps st) (obj t)) (pred t, sub t))) (o2ps st),
              p2so := bm_insert (pred t) (snd (sorted_insert (adj_get (p2so st) (pred t)) (sub t, obj t))) (p2so st),
              triple_count := triple_count st + 1\<rparr>)"
proof -
  have "fst (sorted_insert (adj_get (s2po st) (sub t)) (pred t, obj t))"
    using assms sorted_insert_spec(1) [OF adj_get_ascending [OF store_invD(1) [OF assms(1)]]]
    by (simp add: triples_def)
  then show ?thesis by (auto simp: ts_insert_def split: prod.splits bool.splits)
qed

lemma bm_insert_same: "bm_wf m \<Longrightarrow> bm_get m k = Some v \<Longrightarrow> bm_insert k v m = m"
proof (induction m)
  case (Cons e m)
  show ?case
  proof (cases "fst e = k")
    case True
    with Cons.prems show ?thesis by (cases e) auto
  next
    case False
    with Cons.prems have "bm_get m k = Some v" "bm_wf m" by (auto simp: bm_wf_def split: if_splits)
    moreover from this have "k \<in> fst ` set m" by (metis map_of_eq_None_iff option.distinct(1))
    then have "fst e < k" using Cons.prems(1) by (auto simp: bm_wf_def)
    ultimately show ?thesis using Cons.IH by simp
  qed
qed simp

lemma ts_insert_present:
  assumes "store_inv st" and "t \<in> triples st"
  shows "ts_insert st t = (False, st)"
proof -
  let ?v = "adj_get (s2po st) (sub t)"
  have asc: "ascending ?v" using adj_get_ascending store_invD(1) assms(1) by blast
  have mem: "(pred t, obj t) \<in> set ?v" using assms(2) by (simp add: triples_def)
  then have ins: "sorted_insert ?v (pred t, obj t) = (False, ?v)"
    using binary_search_found_iff [OF asc, of "(pred t, obj t)"] by (auto simp: sorted_insert_def)
  have "bm_get (s2po st) (sub t) = Some ?v"
    using mem by (cases "bm_get (s2po st) (sub t)") (auto simp: adj_get_def)
  then have "bm_insert (sub t) ?v (s2po st) = s2po st"
    using store_invD(1) [OF assms(1)] by (intro bm_insert_same) (auto simp: adj_wf_def)
  with ins show ?thesis by (simp add: ts_insert_def)
qed

lemma ts_insert_spec:
  assumes "store_inv st"
  shows "fst (ts_insert st t) \<longleftrightarrow> t \<notin> triples st"
    and "triples (snd (ts_insert st t)) = insert t (triples st)"
    and "store_inv (snd (ts_insert st t))"
proof -
  have "(fst (ts_insert st t) \<longleftrightarrow> t \<notin> triples st) \<and>
    triples (snd (ts_insert st t)) = insert t (triples st) \<and> store_inv (snd (ts_insert st t))"
  proof (cases "t \<in> triples st")
    case True
    then show ?thesis using assms ts_insert_present by (simp add: insert_absorb)
  next
    case False
    note wf = store_invD(1-3) [OF assms]
    note eq = ts_insert_absent [OF assms False]
    have tr: "triples (snd (ts_insert st t)) = insert t (triples st)"
      unfolding triples_def eq snd_conv
      by (auto simp: adj_insert_spec [OF wf(1)] id_triple_eq_iff simp del: adj_rel_iff)
    moreover have "store_inv (snd (ts_insert st t))"
      unfolding store_inv_def tr
      using False assms unfolding eq
      by (simp add: adj_insert_spec wf del: adj_rel_iff)
         (auto simp: store_inv_def id_triple_eq_iff simp del: adj_rel_iff)
    ultimately show ?thesis using False eq by simp
  qed
  then show "fst (ts_insert st t) \<longleftrightarrow> t \<notin> triples st"
    "triples (snd (ts_insert st t)) = insert t (triples st)" "store_inv (snd (ts_insert st t))"
    by blast+
qed

lemma adj_remove_absent:
  assumes "adj_wf m" and "(k, x) \<notin> adj_rel m"
  shows "adj_remove m k x = (False, m)"
proof (cases "bm_get m k")
  case (Some v)
  then have v: "ascending v" "adj_get m k = v" using assms by (auto simp: adj_wf_def adj_get_def)
  then have "sorted_remove v x = (False, v)"
    using binary_search_found_iff [OF v(1), of x] assms(2)
    by (auto simp: sorted_remove_def split: sum.splits)
  with Some assms(1) show ?thesis by (simp add: adj_remove_def bm_insert_same adj_wf_def)
qed (simp add: adj_remove_def)

lemma ts_remove_absent:
  assumes "store_inv st" and "t \<notin> triples st"
  shows "ts_remove st t = (False, st)"
  using adj_remove_absent [OF store_invD(1) [OF assms(1)], of "sub t" "(pred t, obj t)"] assms(2)
  by (simp add: ts_remove_def triples_def)

lemma ts_remove_present:
  assumes "store_inv st" and "t \<in> triples st"
  shows "ts_remove st t =
    (True, st\<lparr>s2po := adj_prune (snd (adj_remove (s2po st) (sub t) (pred t, obj t))) (sub t),
              o2ps := adj_prune (snd (adj_remove (o2ps st) (obj t) (pred t, sub t))) (obj t),
              p2so := adj_prune (snd (adj_remove (p2so st) (pred t) (sub t, obj t))) (pred t),
              triple_count := triple_count st - 1\<rparr>)"
proof -
  have "fst (adj_remove (s2po st) (sub t) (pred t, obj t))"
    using adj_remove_spec(1) [OF store_invD(1) [OF assms(1)]] assms(2) by (simp add: triples_def)
  then show ?thesis
    by (auto simp: ts_remove_def prune_empty_def Let_def split: prod.splits bool.splits)
qed

lemma ts_remove_spec:
  assumes "store_inv st"
  shows "fst (ts_remove st t) \<longleftrightarrow> t \<in> triples st"
    and "triples (snd (ts_remove st t)) = triples st - {t}"
    and "store_inv (snd (ts_remove st t))"
proof -
  have "(fst (ts_remove st t) \<longleftrightarrow> t \<in> triples st) \<and>
    triples (snd (ts_remove st t)) = triples st - {t} \<and> store_inv (snd (ts_remove st t))"
  proof (cases "t \<in> triples st")
    case False
    then show ?thesis using assms ts_remove_absent by simp
  next
    case True
    note wf = store_invD(1-3) [OF assms]
    note eq = ts_remove_present [OF assms True]
    have tr: "triples (snd (ts_remove st t)) = triples st - {t}"
      unfolding triples_def eq snd_conv
      by (auto simp: adj_remove_spec [OF wf(1)] id_triple_eq_iff simp del: adj_rel_iff)
    moreover have "card (triples st) = Suc (card (triples st - {t}))"
      using True by (metis card_Suc_Diff1 finite_triples)
    then have "store_inv (snd (ts_remove st t))"
      unfolding store_inv_def tr
      using True assms unfolding eq
      by (simp add: adj_remove_spec wf del: adj_rel_iff)
         (auto simp: store_inv_def id_triple_eq_iff simp del: adj_rel_iff)
    ultimately show ?thesis using True eq by simp
  qed
  then show "fst (ts_remove st t) \<longleftrightarrow> t \<in> triples st"
    "triples (snd (ts_remove st t)) = triples st - {t}" "store_inv (snd (ts_remove st t))"
    by blast+
qed

section \<open>Bulk load\<close>

text \<open>Between the pushes the lists are not sorted; keys and relations are what matters.\<close>

definition adj_ne :: "adj_map \<Rightarrow> bool" where
  "adj_ne m \<longleftrightarrow> bm_wf m \<and> (\<forall>k v. bm_get m k = Some v \<longrightarrow> v \<noteq> [])"

lemma adj_push_spec:
  assumes "adj_ne m"
  shows "adj_ne (adj_push k x m)" "adj_rel (adj_push k x m) = insert (k, x) (adj_rel m)"
  using assms
  by (auto simp: adj_push_def adj_ne_def adj_get_insert split: if_splits)

lemma adj_wf_imp_ne: "adj_wf m \<Longrightarrow> adj_ne m"
  by (auto simp: adj_wf_def adj_ne_def)

lemma adj_sort_dedup:
  assumes "adj_ne m"
  shows "adj_wf (bm_map sort_dedup m)" "adj_rel (bm_map sort_dedup m) = adj_rel m"
proof -
  show "adj_wf (bm_map sort_dedup m)" using assms by (auto simp: adj_wf_def adj_ne_def)
  have "adj_get (bm_map sort_dedup m) k = sort_dedup (adj_get m k)" for k
    by (cases "bm_get m k") (auto simp: adj_get_def sort_dedup_def)
  then show "adj_rel (bm_map sort_dedup m) = adj_rel m" by (simp add: adj_rel_def)
qed

lemma push_all_spec:
  assumes "adj_ne (s2po st)" "adj_ne (o2ps st)" "adj_ne (p2so st)"
  shows "adj_ne (s2po (push_all st ts)) \<and> adj_ne (o2ps (push_all st ts)) \<and> adj_ne (p2so (push_all st ts)) \<and>
    adj_rel (s2po (push_all st ts)) = adj_rel (s2po st) \<union> (\<lambda>t. (sub t, pred t, obj t)) ` set ts \<and>
    adj_rel (o2ps (push_all st ts)) = adj_rel (o2ps st) \<union> (\<lambda>t. (obj t, pred t, sub t)) ` set ts \<and>
    adj_rel (p2so (push_all st ts)) = adj_rel (p2so st) \<union> (\<lambda>t. (pred t, sub t, obj t)) ` set ts"
  using assms
proof (induction ts arbitrary: st)
  case (Cons t ts)
  show ?case
    using Cons.IH [of "st\<lparr>s2po := adj_push (sub t) (pred t, obj t) (s2po st),
         o2ps := adj_push (obj t) (pred t, sub t) (o2ps st),
         p2so := adj_push (pred t) (sub t, obj t) (p2so st)\<rparr>"] Cons.prems
    by (simp add: adj_push_spec del: adj_rel_iff)
qed simp

lemma image_key_iff:
  "(sub t, pred t, obj t) \<in> (\<lambda>t. (sub t, pred t, obj t)) ` S \<longleftrightarrow> t \<in> S"
  "(obj t, pred t, sub t) \<in> (\<lambda>t. (obj t, pred t, sub t)) ` S \<longleftrightarrow> t \<in> S"
  "(pred t, sub t, obj t) \<in> (\<lambda>t. (pred t, sub t, obj t)) ` S \<longleftrightarrow> t \<in> S"
  by (auto simp: image_iff) (metis id_triple_eq_iff)+

lemma sum_list_word_of_nat:
  "sum_list (map (\<lambda>(k, v). word_of_nat (length v)) m)
    = (word_of_nat (sum_list (map (\<lambda>(k, v). length v) m)) :: u64)"
  by (induction m) auto

lemma ts_bulk_load_spec:
  assumes "store_inv st"
  shows "triples (ts_bulk_load st ts) = triples st \<union> set ts"
    and "store_inv (ts_bulk_load st ts)"
proof -
  note wf = store_invD(1-3) [OF assms, THEN adj_wf_imp_ne]
  have p: "adj_ne (s2po (push_all st ts))" "adj_ne (o2ps (push_all st ts))" "adj_ne (p2so (push_all st ts))"
    and r: "adj_rel (s2po (push_all st ts)) = adj_rel (s2po st) \<union> (\<lambda>t. (sub t, pred t, obj t)) ` set ts"
    "adj_rel (o2ps (push_all st ts)) = adj_rel (o2ps st) \<union> (\<lambda>t. (obj t, pred t, sub t)) ` set ts"
    "adj_rel (p2so (push_all st ts)) = adj_rel (p2so st) \<union> (\<lambda>t. (pred t, sub t, obj t)) ` set ts"
    using push_all_spec [OF wf] by blast+
  show tr: "triples (ts_bulk_load st ts) = triples st \<union> set ts"
    unfolding triples_def ts_bulk_load_def Let_def
    by (simp add: adj_sort_dedup [OF p(1)] r(1) image_key_iff set_eq_iff del: adj_rel_iff)
  have "triple_count (ts_bulk_load st ts) = word_of_nat (card (triples (ts_bulk_load st ts)))"
    using adj_card [OF adj_sort_dedup(1) [OF p(1)]]
    by (simp add: card_triples ts_bulk_load_def Let_def sum_list_word_of_nat)
  moreover have "(t \<in> triples st \<union> set ts) = ((obj t, pred t, sub t) \<in> adj_rel (o2ps (push_all st ts)))"
    "(t \<in> triples st \<union> set ts) = ((pred t, sub t, obj t) \<in> adj_rel (p2so (push_all st ts)))" for t
    using assms unfolding r Un_iff image_key_iff store_inv_def by blast+
  ultimately show "store_inv (ts_bulk_load st ts)"
    using adj_sort_dedup [OF p(1)] adj_sort_dedup [OF p(2)] adj_sort_dedup [OF p(3)]
    unfolding store_inv_def tr
    by (simp add: ts_bulk_load_def Let_def tr [unfolded ts_bulk_load_def Let_def] del: adj_rel_iff)
qed

section \<open>Access patterns return exactly the matching triples\<close>

lemma range_by_first_filter:
  assumes "sorted v"
  shows "range_by_first v a = filter (\<lambda>(x, _). x = a) v"
  using assms
proof (induction v)
  case (Cons e v)
  obtain x y where e: "e = (x, y)" by (cases e)
  have ge: "x \<le> fst z" if "z \<in> set v" for z
    using Cons.prems that e by (cases z) (auto simp: less_eq_prod_def)
  have IH: "range_by_first v a = filter (\<lambda>(x, _). x = a) v" using Cons by simp
  show ?case
  proof (cases "x < a")
    case True
    then show ?thesis using IH e by (auto simp: range_by_first_def partition_point_def Let_def)
  next
    case False
    then have all: "\<forall>z \<in> set v. \<not> fst z < a" using ge by force
    then have lo: "partition_point (\<lambda>(x, _). x < a) v = 0"
      by (cases v) (auto simp: partition_point_def)
    show ?thesis
    proof (cases "x = a")
      case True
      then show ?thesis using IH e lo by (simp add: range_by_first_def partition_point_def)
    next
      case False
      with \<open>\<not> x < a\<close> have "a < x" by simp
      then have "filter (\<lambda>(x, _). x = a) v = []" using ge by (fastforce simp: filter_empty_conv)
      with \<open>a < x\<close> show ?thesis using e by (simp add: range_by_first_def partition_point_def)
    qed
  qed
qed (simp add: range_by_first_def partition_point_def)

lemma range_by_first_spec:
  assumes "ascending v"
  shows "set (map snd (range_by_first v a)) = {b. (a, b) \<in> set v}"
    "ascending (map snd (range_by_first v a))"
proof -
  have eq: "range_by_first v a = filter (\<lambda>(x, _). x = a) v"
    using assms by (simp add: range_by_first_filter ascending_sorted)
  show "set (map snd (range_by_first v a)) = {b. (a, b) \<in> set v}" unfolding eq by force
  have "sorted_wrt (\<lambda>x y. snd x < snd y) (filter (\<lambda>(x, _). x = a) v)"
    by (rule sorted_wrt_mono_rel [OF _ ascending_filter [OF assms]]) (auto simp: less_prod_def)
  then show "ascending (map snd (range_by_first v a))" unfolding eq by (simp add: sorted_wrt_map)
qed

lemma map_fst_sorted: "ascending (v :: (u32 \<times> u32) list) \<Longrightarrow> sorted (map fst v)"
  by (induction v) (fastforce simp: less_prod_def)+

lemma remdups_adj_fst:
  assumes "ascending (v :: (u32 \<times> u32) list)"
  shows "set (remdups_adj (map fst v)) = fst ` set v" "ascending (remdups_adj (map fst v))"
  using assms by (simp_all add: map_fst_sorted remdups_adj_sorted_ascending)

lemma count_transitions_acc: "count_transitions l n v = n + count_transitions l 0 v"
proof (induction v arbitrary: l n)
  case (Cons e v)
  obtain s ob where e: "e = (s, ob)" by (cases e)
  show ?case
  proof (cases "l = Some s")
    case False
    then show ?thesis
      using e Cons.IH [of "Some s" "n + 1"] Cons.IH [of "Some s" 1] by simp
  qed (use e Cons.IH [of l n] in simp)
qed simp

lemma count_transitions_remdups_adj:
  "count_transitions None 0 v = length (remdups_adj (map fst v))"
  "count_transitions (Some x) 0 v + 1 = length (remdups_adj (x # map fst v))"
proof -
  have step: "count_transitions (Some x) 0 v + 1 = length (remdups_adj (x # map fst v))" for x v
  proof (induction v arbitrary: x)
    case (Cons e v)
    obtain s ob where e: "e = (s, ob)" by (cases e)
    show ?case
      using Cons.IH [of s] e count_transitions_acc [of "Some s" 1 v] by (cases "x = s") auto
  qed simp
  show "count_transitions (Some x) 0 v + 1 = length (remdups_adj (x # map fst v))" by (rule step)
  show "count_transitions None 0 v = length (remdups_adj (map fst v))"
  proof (cases v)
    case (Cons e w)
    then show ?thesis
      using step [of "fst e" w] count_transitions_acc [of "Some (fst e)" 1 w] by (cases e) simp
  qed simp
qed

section \<open>The storage interfaces\<close>

text \<open>
  The trait \<open>TripleSource\<close>: a store state has a content, a set of triples, and each access pattern
  returns the matching part of it. The single-column patterns come out ascending, which fixes the
  answer completely; the derived counts of the trait follow.
\<close>

locale triple_source =
  fixes inv :: "'st \<Rightarrow> bool"
    and content :: "'st \<Rightarrow> IdTriple set"
    and ex :: "'st \<Rightarrow> u32 \<Rightarrow> u32 \<Rightarrow> u32 \<Rightarrow> bool"
    and po :: "'st \<Rightarrow> u32 \<Rightarrow> (u32 \<times> u32) list"
    and ps :: "'st \<Rightarrow> u32 \<Rightarrow> (u32 \<times> u32) list"
    and so :: "'st \<Rightarrow> u32 \<Rightarrow> (u32 \<times> u32) list"
    and ob_sp :: "'st \<Rightarrow> u32 \<Rightarrow> u32 \<Rightarrow> u32 list"
    and pr_so :: "'st \<Rightarrow> u32 \<Rightarrow> u32 \<Rightarrow> u32 list"
    and su_po :: "'st \<Rightarrow> u32 \<Rightarrow> u32 \<Rightarrow> u32 list"
    and all :: "'st \<Rightarrow> IdTriple list"
    and count :: "'st \<Rightarrow> u64"
  assumes ex_iff: "inv st \<Longrightarrow> ex st s p ob \<longleftrightarrow> IdTriple s p ob \<in> content st"
    and po_set: "inv st \<Longrightarrow> set (po st s) = {(p, ob). IdTriple s p ob \<in> content st}"
    and po_asc: "inv st \<Longrightarrow> ascending (po st s)"
    and ps_set: "inv st \<Longrightarrow> set (ps st ob) = {(p, s). IdTriple s p ob \<in> content st}"
    and ps_asc: "inv st \<Longrightarrow> ascending (ps st ob)"
    and so_set: "inv st \<Longrightarrow> set (so st p) = {(s, ob). IdTriple s p ob \<in> content st}"
    and so_asc: "inv st \<Longrightarrow> ascending (so st p)"
    and ob_sp_set: "inv st \<Longrightarrow> set (ob_sp st s p) = {ob. IdTriple s p ob \<in> content st}"
    and ob_sp_asc: "inv st \<Longrightarrow> ascending (ob_sp st s p)"
    and pr_so_set: "inv st \<Longrightarrow> set (pr_so st s ob) = {p. IdTriple s p ob \<in> content st}"
    and pr_so_asc: "inv st \<Longrightarrow> ascending (pr_so st s ob)"
    and su_po_set: "inv st \<Longrightarrow> set (su_po st p ob) = {s. IdTriple s p ob \<in> content st}"
    and su_po_asc: "inv st \<Longrightarrow> ascending (su_po st p ob)"
    and all_set: "inv st \<Longrightarrow> set (all st) = content st"
    and all_distinct: "inv st \<Longrightarrow> distinct (all st)"
    and count_eq: "inv st \<Longrightarrow> count st = word_of_nat (length (all st))"
begin

text \<open>Two states with the same content give the same answer to every access pattern, whatever
  operations led to them.\<close>

lemma answers_determined:
  assumes "inv a" and "inv b" and "content a = content b"
  shows "ex a s p ob = ex b s p ob" and "po a s = po b s" and "ps a ob = ps b ob" and "so a p = so b p"
    and "ob_sp a s p = ob_sp b s p" and "pr_so a s ob = pr_so b s ob" and "su_po a p ob = su_po b p ob"
    and "set (all a) = set (all b)" and "count a = count b"
proof -
  show all: "set (all a) = set (all b)" using assms by (simp add: all_set)
  then have "length (all a) = length (all b)" by (metis assms(1,2) all_distinct distinct_card)
  then show "count a = count b" using assms by (simp add: count_eq)
qed (use assms in \<open>auto intro!: ascending_eqI
      simp: ex_iff po_set po_asc ps_set ps_asc so_set so_asc ob_sp_set ob_sp_asc
        pr_so_set pr_so_asc su_po_set su_po_asc\<close>)

text \<open>The two-column lists are refined by the one-column lookups.\<close>

lemma ob_sp_from_po: "inv st \<Longrightarrow> ob_sp st s p = map snd (filter (\<lambda>(q, _). q = p) (po st s))"
proof -
  assume inv: "inv st"
  have "sorted_wrt (\<lambda>x y. snd x < snd y) (filter (\<lambda>(q, _). q = p) (po st s))"
    by (rule sorted_wrt_mono_rel [OF _ ascending_filter [OF po_asc [OF inv]]]) (auto simp: less_prod_def)
  then show ?thesis
    using inv by (intro ascending_eqI) (force simp: sorted_wrt_map ob_sp_asc ob_sp_set po_set image_iff)+
qed

end

text \<open>The trait \<open>MutableStore\<close> over a source.\<close>

locale mutable_store = triple_source +
  fixes ins :: "'a \<Rightarrow> IdTriple \<Rightarrow> bool \<times> 'a"
    and rem :: "'a \<Rightarrow> IdTriple \<Rightarrow> bool \<times> 'a"
    and bulk :: "'a \<Rightarrow> IdTriple list \<Rightarrow> 'a"
    and empty :: "'a"
  assumes empty_inv: "inv empty" and empty_content: "content empty = {}"
    and ins_inv: "inv st \<Longrightarrow> inv (snd (ins st t))"
    and ins_content: "inv st \<Longrightarrow> content (snd (ins st t)) = insert t (content st)"
    and ins_new: "inv st \<Longrightarrow> fst (ins st t) \<longleftrightarrow> t \<notin> content st"
    and rem_inv: "inv st \<Longrightarrow> inv (snd (rem st t))"
    and rem_content: "inv st \<Longrightarrow> content (snd (rem st t)) = content st - {t}"
    and rem_old: "inv st \<Longrightarrow> fst (rem st t) \<longleftrightarrow> t \<in> content st"
    and bulk_inv: "inv st \<Longrightarrow> inv (bulk st ts)"
    and bulk_content: "inv st \<Longrightarrow> content (bulk st ts) = content st \<union> set ts"
begin

lemma ins_all_content:
  "inv st \<Longrightarrow> inv (fold (\<lambda>t s. snd (ins s t)) ts st) \<and>
    content (fold (\<lambda>t s. snd (ins s t)) ts st) = content st \<union> set ts"
  by (induction ts arbitrary: st) (auto simp: ins_inv ins_content)

lemma bulk_is_inserts:
  assumes "inv st"
  shows "content (bulk st ts) = content (fold (\<lambda>t s. snd (ins s t)) ts st)"
  using assms by (simp add: bulk_content ins_all_content)

lemma ins_rem_undo:
  assumes "inv st" and "t \<notin> content st"
  shows "content (snd (rem (snd (ins st t)) t)) = content st"
  using assms by (simp add: ins_inv ins_content rem_content)

end

section \<open>The in-memory store implements the interfaces\<close>

lemma ts_exists_iff: "store_inv st \<Longrightarrow> ts_exists st s p ob \<longleftrightarrow> IdTriple s p ob \<in> triples st"
proof -
  assume inv: "store_inv st"
  show ?thesis
  proof (cases "bm_get (s2po st) s")
    case (Some v)
    then have "ascending v" using store_invD(1) [OF inv] by (auto simp: adj_wf_def)
    from binary_search_found_iff [OF this, of "(p, ob)"] Some show ?thesis
      by (auto simp: ts_exists_def store_invD(4) [OF inv] adj_get_def split: sum.splits)
  qed (simp add: ts_exists_def store_invD(4) [OF inv] adj_get_def)
qed

lemma by_pair_spec:
  assumes "adj_wf m"
  shows "set (case bm_get m k of Some v \<Rightarrow> map snd (range_by_first v a) | None \<Rightarrow> []) = {b. (a, b) \<in> set (adj_get m k)}"
    "ascending (case bm_get m k of Some v \<Rightarrow> map snd (range_by_first v a) | None \<Rightarrow> [])"
proof -
  show "set (case bm_get m k of Some v \<Rightarrow> map snd (range_by_first v a) | None \<Rightarrow> []) = {b. (a, b) \<in> set (adj_get m k)}"
  proof (cases "bm_get m k")
    case (Some v)
    then have "ascending v" using assms by (auto simp: adj_wf_def)
    with Some show ?thesis using range_by_first_spec(1) [of v a] by (simp add: adj_get_def)
  qed (simp add: adj_get_def)
  show "ascending (case bm_get m k of Some v \<Rightarrow> map snd (range_by_first v a) | None \<Rightarrow> [])"
  proof (cases "bm_get m k")
    case (Some v)
    then have "ascending v" using assms by (auto simp: adj_wf_def)
    with Some show ?thesis using range_by_first_spec(2) [of v a] by simp
  qed simp
qed

lemma p_by_so_spec:
  assumes "store_inv st"
  shows "set (p_by_so st s ob) = {p. IdTriple s p ob \<in> triples st}" "ascending (p_by_so st s ob)"
proof -
  have "set (p_by_so st s ob) = {p. (p, ob) \<in> set (adj_get (s2po st) s)}"
  proof (cases "bm_get (s2po st) s")
    case (Some v)
    then show ?thesis by (force simp: p_by_so_def adj_get_def)
  qed (simp add: p_by_so_def adj_get_def)
  then show "set (p_by_so st s ob) = {p. IdTriple s p ob \<in> triples st}"
    by (simp add: store_invD(4) [OF assms])
  show "ascending (p_by_so st s ob)"
  proof (cases "bm_get (s2po st) s")
    case (Some v)
    then have "ascending v" using store_invD(1) [OF assms] by (auto simp: adj_wf_def)
    then show ?thesis using Some by (simp add: p_by_so_def remdups_adj_fst(2) ascending_filter)
  qed (simp add: p_by_so_def)
qed

lemma iter_all_adj_list: "iter_all st = map (\<lambda>(p, s, ob). IdTriple s p ob) (adj_list (p2so st))"
  by (simp add: iter_all_def adj_list_def map_concat comp_def split_def)

lemma iter_all_spec:
  assumes "store_inv st"
  shows "set (iter_all st) = triples st" "distinct (iter_all st)"
    "triple_count st = word_of_nat (length (iter_all st))"
proof -
  have rel: "set (adj_list (p2so st)) = adj_rel (p2so st)"
    using adj_list_set store_invD(3) [OF assms] by (auto simp: adj_wf_def)
  show set: "set (iter_all st) = triples st"
  proof (rule set_eqI)
    fix t
    obtain s p ob where t: "t = IdTriple s p ob" by (cases t)
    have "t \<in> set (iter_all st) \<longleftrightarrow> (p, s, ob) \<in> adj_rel (p2so st)"
      unfolding iter_all_adj_list set_map rel t by (force simp: image_iff simp del: adj_rel_iff)
    then show "t \<in> set (iter_all st) \<longleftrightarrow> t \<in> triples st" by (simp add: t store_invD(6) [OF assms])
  qed
  show dist: "distinct (iter_all st)"
    unfolding iter_all_adj_list distinct_map
    using adj_list_distinct store_invD(3) [OF assms] by (auto simp: inj_on_def)
  show "triple_count st = word_of_nat (length (iter_all st))"
    using set distinct_card [OF dist] store_invD(7) [OF assms] by simp
qed

lemmas adj_asc = adj_get_ascending [OF store_invD(1)] adj_get_ascending [OF store_invD(2)]
  adj_get_ascending [OF store_invD(3)]

lemmas access_specs = ts_exists_iff p_by_so_spec iter_all_spec adj_asc
  by_pair_spec [OF store_invD(1)] by_pair_spec [OF store_invD(2)]

interpretation mem: mutable_store store_inv triples ts_exists po_by_s ps_by_o so_by_p o_by_sp p_by_so
  s_by_po iter_all triple_count ts_insert ts_remove ts_bulk_load ts_new
  by unfold_locales
     (auto simp: access_specs po_by_s_def ps_by_o_def so_by_p_def o_by_sp_def s_by_po_def
       store_invD(4-6) [symmetric] store_inv_new ts_insert_spec ts_remove_spec ts_bulk_load_spec)

section \<open>A store state is determined by its content\<close>

lemma adj_wf_eqI:
  assumes "adj_wf a" and "adj_wf b" and "adj_rel a = adj_rel b"
  shows "a = b"
proof -
  have get: "adj_get a k = adj_get b k" for k
  proof (rule ascending_eqI)
    show "set (adj_get a k) = set (adj_get b k)"
      using assms(3) unfolding set_eq_iff split_paired_All adj_rel_iff by blast
  qed (use assms adj_get_ascending in blast)+
  have keys: "map fst a = map fst b"
  proof (rule ascending_eqI)
    show "ascending (map fst a)" "ascending (map fst b)"
      using assms(1,2) by (simp_all add: adj_wf_def bm_wf_def)
    show "set (map fst a) = set (map fst b)"
      unfolding set_eq_iff adj_wf_key_nonempty [OF assms(1)] adj_wf_key_nonempty [OF assms(2)] get by simp
  qed
  have in_get: "snd e = adj_get m (fst e)" if "adj_wf m" "e \<in> set m" for m e
    using that bm_in_iff [of m "fst e" "snd e"] by (simp add: adj_wf_def adj_get_def)
  have vals: "map snd m = map (adj_get m) (map fst m)" if "adj_wf m" for m
    using in_get [OF that] by simp
  have "map snd a = map snd b" unfolding vals [OF assms(1)] vals [OF assms(2)] keys using get by simp
  with keys show ?thesis by (metis zip_map_fst_snd)
qed

lemma store_eqI:
  assumes "store_inv (a :: TripleStore)" and "store_inv b" and "triples a = triples b"
  shows "a = b"
proof -
  have "adj_rel (s2po a) = adj_rel (s2po b)" "adj_rel (o2ps a) = adj_rel (o2ps b)"
    "adj_rel (p2so a) = adj_rel (p2so b)"
    using assms(3) store_invD(4-6) [OF assms(1)] store_invD(4-6) [OF assms(2)]
    unfolding set_eq_iff split_paired_All adj_rel_iff by metis+
  then have "s2po a = s2po b" "o2ps a = o2ps b" "p2so a = p2so b"
    using store_invD(1-3) [OF assms(1)] store_invD(1-3) [OF assms(2)] by (auto intro: adj_wf_eqI)
  then show ?thesis using assms store_invD(7) by (intro TripleStore.equality) auto
qed

section \<open>Properties\<close>

text \<open>The mutations as one alphabet of commands, run on the store and on a plain set of triples.\<close>

datatype StoreOp = Insert IdTriple | Remove IdTriple | BulkLoad "IdTriple list"

fun run_op :: "StoreOp \<Rightarrow> TripleStore \<Rightarrow> bool \<times> TripleStore" where
  "run_op (Insert t) st = ts_insert st t"
| "run_op (Remove t) st = ts_remove st t"
| "run_op (BulkLoad ts) st = (True, ts_bulk_load st ts)"

fun spec_op :: "StoreOp \<Rightarrow> IdTriple set \<Rightarrow> bool \<times> IdTriple set" where
  "spec_op (Insert t) S = (t \<notin> S, insert t S)"
| "spec_op (Remove t) S = (t \<in> S, S - {t})"
| "spec_op (BulkLoad ts) S = (True, S \<union> set ts)"

fun run_ops :: "StoreOp list \<Rightarrow> TripleStore \<Rightarrow> bool list \<times> TripleStore" where
  "run_ops [] st = ([], st)"
| "run_ops (c # cs) st = (case run_op c st of (r, st1) \<Rightarrow> (case run_ops cs st1 of (rs, st2) \<Rightarrow> (r # rs, st2)))"

fun spec_ops :: "StoreOp list \<Rightarrow> IdTriple set \<Rightarrow> bool list \<times> IdTriple set" where
  "spec_ops [] S = ([], S)"
| "spec_ops (c # cs) S = (case spec_op c S of (r, S1) \<Rightarrow> (case spec_ops cs S1 of (rs, S2) \<Rightarrow> (r # rs, S2)))"

lemma run_op_refines:
  "store_inv st \<Longrightarrow> store_inv (snd (run_op c st)) \<and>
    spec_op c (triples st) = (fst (run_op c st), triples (snd (run_op c st)))"
  by (cases c) (auto simp: ts_insert_spec ts_remove_spec ts_bulk_load_spec)

lemma run_ops_refines:
  "store_inv st \<Longrightarrow> store_inv (snd (run_ops cs st)) \<and>
    spec_ops cs (triples st) = (fst (run_ops cs st), triples (snd (run_ops cs st)))"
proof (induction cs arbitrary: st)
  case (Cons c cs)
  obtain r st1 where c: "run_op c st = (r, st1)" by force
  with run_op_refines [OF Cons.prems, of c]
  have "store_inv st1" "spec_op c (triples st) = (r, triples st1)" by auto
  with c show ?case using Cons.IH [of st1] by (auto split: prod.splits)
qed simp

text \<open>C4. Refinement: starting from \<open>TripleStore::new\<close>, any sequence of \<open>insert\<close>, \<open>remove\<close> and
  \<open>bulk_load\<close> keeps the three indexes and the count mutually consistent, answers every call exactly as
  a set of triples would (\<open>true\<close> from \<open>insert\<close> iff the triple was new, from \<open>remove\<close> iff it was there)
  and ends with that set as its content.\<close>

theorem store_refines_set:
  "store_inv (snd (run_ops cs ts_new)) \<and>
   spec_ops cs {} = (fst (run_ops cs ts_new), triples (snd (run_ops cs ts_new)))"
  using run_ops_refines [OF store_inv_new(1)] by (simp add: store_inv_new(2))

text \<open>Canonical form: a store is determined by its content, so \<open>bulk_load\<close>, which appends
  unsorted and rebuilds once, ends in the very state that inserting the triples one at a time
  reaches.\<close>

lemma bulk_load_eq_inserts:
  assumes "store_inv st"
  shows "ts_bulk_load st ts = fold (\<lambda>t s. snd (ts_insert s t)) ts st"
  using assms by (intro store_eqI) (simp_all add: mem.ins_all_content mem.bulk_inv mem.bulk_content)

text \<open>C28. Removing a triple that an insert has just added restores the state before it bit for bit:
  no empty adjacency list, stale key or wrong count is left behind.\<close>

theorem insert_remove_restores:
  assumes "store_inv st" and "t \<notin> triples st"
  shows "snd (ts_remove (snd (ts_insert st t)) t) = st"
  using assms
  by (intro store_eqI) (simp_all add: mem.ins_inv mem.rem_inv mem.ins_rem_undo)

lemma card_by_key:
  "ascending v \<Longrightarrow> length v = card (set v)"
  by (simp add: ascending_distinct distinct_card)

lemma key_card:
  assumes "adj_wf m"
  shows "length m = card {k. adj_get m k \<noteq> []}"
proof -
  have "length m = card (set (map fst m))"
    using assms by (metis adj_wf_def bm_wf_distinct distinct_card length_map)
  also have "set (map fst m) = {k. adj_get m k \<noteq> []}" using adj_wf_key_nonempty [OF assms] by blast
  finally show ?thesis .
qed

lemma key_card_image:
  fixes key :: "IdTriple \<Rightarrow> u32" and val :: "IdTriple \<Rightarrow> u32 \<times> u32"
  assumes wf: "adj_wf m" and mem: "\<forall>t. t \<in> S \<longleftrightarrow> val t \<in> set (adj_get m (key t))"
    and shape: "\<forall>k x. \<exists>t. key t = k \<and> val t = x"
  shows "length m = card (key ` S)"
proof -
  have "{k. adj_get m k \<noteq> []} = key ` S"
  proof (rule set_eqI)
    fix k
    have "adj_get m k \<noteq> [] \<longleftrightarrow> (\<exists>x. x \<in> set (adj_get m k))" by (cases "adj_get m k") auto
    also have "\<dots> \<longleftrightarrow> (\<exists>t. key t = k \<and> val t \<in> set (adj_get m k))"
    proof (intro iffI; elim exE)
      fix x assume "x \<in> set (adj_get m k)"
      moreover obtain t where "key t = k" "val t = x" using shape by blast
      ultimately show "\<exists>t. key t = k \<and> val t \<in> set (adj_get m k)" by (intro exI [of _ t]) simp
    qed blast
    also have "\<dots> \<longleftrightarrow> k \<in> key ` S" using mem by auto
    finally show "k \<in> {k. adj_get m k \<noteq> []} \<longleftrightarrow> k \<in> key ` S" by simp
  qed
  with key_card [OF wf] show ?thesis by simp
qed

lemma all_triples: "(\<forall>t. P t) \<longleftrightarrow> (\<forall>s p ob. P (IdTriple s p ob))"
  by (metis IdTriple.exhaust)

lemma key_shapes:
  "\<exists>t. sub t = k \<and> (pred t, obj t) = x" "\<exists>t. obj t = k \<and> (pred t, sub t) = x"
  "\<exists>t. pred t = k \<and> (sub t, obj t) = x"
  by (cases x; metis IdTriple.sel)+

lemma pred_lists_spec:
  assumes "store_inv st"
  shows "set (subs_by_p st p) = {s. \<exists>ob. IdTriple s p ob \<in> triples st}" "ascending (subs_by_p st p)"
    "set (objs_by_p st p) = {ob. \<exists>s. IdTriple s p ob \<in> triples st}" "ascending (objs_by_p st p)"
  using remdups_adj_fst [OF mem.so_asc [OF assms, of p]] mem.so_set [OF assms, of p]
  by (force simp: subs_by_p_def objs_by_p_def)+

lemma adj_list_ascending: "adj_wf m \<Longrightarrow> ascending (adj_list m)"
proof (induction m)
  case (Cons e m)
  obtain k v where e: "e = (k, v)" by (cases e)
  have gt: "\<forall>k' \<in> fst ` set m. k < k'" using Cons.prems e by (simp add: adj_wf_def bm_wf_def)
  then have none: "bm_get m k = None" by (auto simp: map_of_eq_None_iff)
  have "bm_get m k' = Some v' \<Longrightarrow> bm_get (e # m) k' = Some v'" for k' v'
    using none e by (cases "k' = k") auto
  then have "adj_wf m" using Cons.prems unfolding adj_wf_def bm_wf_def list.map sorted_wrt.simps by blast
  moreover have "ascending v" using Cons.prems e by (auto simp: adj_wf_def split: if_splits)
  then have v: "ascending (map (Pair k) v)" by (simp add: sorted_wrt_map)
  moreover have "(k, x) < y" if "y \<in> set (adj_list m)" for x y
  proof -
    have "fst y \<in> fst ` set m" using that by (fastforce simp: adj_list_def intro: rev_image_eqI)
    then show ?thesis using gt by (cases y) auto
  qed
  moreover have "adj_list (e # m) = map (Pair k) v @ adj_list m" by (simp add: adj_list_def e)
  ultimately show ?case using Cons.IH v by (auto simp: sorted_wrt_append)
qed (simp add: adj_list_def)

lemma iter_all_ascending: "store_inv st \<Longrightarrow> ascending (map (\<lambda>t. (pred t, sub t, obj t)) (iter_all st))"
  using adj_list_ascending [OF store_invD(3)] by (simp add: iter_all_adj_list comp_def split_def)

text \<open>C21. Access patterns: on every consistent store the bound/unbound combinations of a triple pattern, and the subjects and objects
  of a predicate, return exactly the matching bindings, in ascending order and without repetition; the scan \<open>iter_all\<close> yields every
  triple once, ascending by predicate, subject and object, and the stored count is the number it yields.\<close>

theorem access_patterns_exact:
  assumes "store_inv st"
  shows "(ts_exists st s p ob \<longleftrightarrow> IdTriple s p ob \<in> triples st) \<and>
    (set (po_by_s st s) = {(p, ob). IdTriple s p ob \<in> triples st} \<and> ascending (po_by_s st s)) \<and>
    (set (ps_by_o st ob) = {(p, s). IdTriple s p ob \<in> triples st} \<and> ascending (ps_by_o st ob)) \<and>
    (set (so_by_p st p) = {(s, ob). IdTriple s p ob \<in> triples st} \<and> ascending (so_by_p st p)) \<and>
    (set (o_by_sp st s p) = {ob. IdTriple s p ob \<in> triples st} \<and> ascending (o_by_sp st s p)) \<and>
    (set (s_by_po st p ob) = {s. IdTriple s p ob \<in> triples st} \<and> ascending (s_by_po st p ob)) \<and>
    (set (p_by_so st s ob) = {p. IdTriple s p ob \<in> triples st} \<and> ascending (p_by_so st s ob)) \<and>
    (set (subs_by_p st p) = {s. \<exists>ob. IdTriple s p ob \<in> triples st} \<and> ascending (subs_by_p st p)) \<and>
    (set (objs_by_p st p) = {ob. \<exists>s. IdTriple s p ob \<in> triples st} \<and> ascending (objs_by_p st p)) \<and>
    (set (iter_all st) = triples st \<and> ascending (map (\<lambda>t. (pred t, sub t, obj t)) (iter_all st))) \<and>
    triple_count st = word_of_nat (length (iter_all st))"
  by (intro conjI mem.ex_iff mem.po_set mem.po_asc mem.ps_set mem.ps_asc mem.so_set mem.so_asc
    mem.ob_sp_set mem.ob_sp_asc mem.su_po_set mem.su_po_asc mem.pr_so_set mem.pr_so_asc
    pred_lists_spec mem.all_set iter_all_ascending mem.count_eq assms)

text \<open>Statistics: the numbers the cost optimizer reads are the exact cardinalities of the content:
  triples and distinct subjects and objects per predicate (the subjects counted by the transitions of
  one sorted scan), distinct subjects, objects and predicates of the store, and the degree of a node.\<close>

lemma statistics_exact:
  assumes "store_inv st"
  shows "pred_card st p = card {(s, ob). IdTriple s p ob \<in> triples st} \<and>
    pred_distinct_subj st p = card {s. \<exists>ob. IdTriple s p ob \<in> triples st} \<and>
    pred_distinct_obj st p = card {ob. \<exists>s. IdTriple s p ob \<in> triples st} \<and>
    distinct_subjects st = card (sub ` triples st) \<and>
    distinct_objects st = card (obj ` triples st) \<and>
    num_predicates st = card (pred ` triples st) \<and>
    degree st i = card {(p, ob). IdTriple i p ob \<in> triples st} + card {(p, s). IdTriple s p i \<in> triples st}"
proof (intro conjI)
  note D = store_invD [OF assms]
  show "pred_card st p = card {(s, ob). IdTriple s p ob \<in> triples st}"
    using card_by_key [OF mem.so_asc [OF assms, of p]] mem.so_set [OF assms] by (simp add: pred_card_def)
  show "pred_distinct_subj st p = card {s. \<exists>ob. IdTriple s p ob \<in> triples st}"
    unfolding pred_distinct_subj_def count_transitions_remdups_adj(1)
    using pred_lists_spec(1,2) [OF assms, of p] card_by_key by (fastforce simp: subs_by_p_def)
  show "pred_distinct_obj st p = card {ob. \<exists>s. IdTriple s p ob \<in> triples st}"
    unfolding pred_distinct_obj_def
    using pred_lists_spec(3,4) [OF assms, of p] card_by_key by (fastforce simp: objs_by_p_def)
  show "distinct_subjects st = card (sub ` triples st)"
    using key_card_image [OF D(1), of "triples st" "\<lambda>t. (pred t, obj t)" sub] key_shapes(1) D(4)
    by (simp add: distinct_subjects_def all_triples)
  show "distinct_objects st = card (obj ` triples st)"
    using key_card_image [OF D(2), of "triples st" "\<lambda>t. (pred t, sub t)" obj] key_shapes(2) D(5)
    by (simp add: distinct_objects_def all_triples)
  show "num_predicates st = card (pred ` triples st)"
    using key_card_image [OF D(3), of "triples st" "\<lambda>t. (sub t, obj t)" pred] key_shapes(3) D(6)
    by (simp add: num_predicates_def all_triples)
  show "degree st i = card {(p, ob). IdTriple i p ob \<in> triples st} + card {(p, s). IdTriple s p i \<in> triples st}"
    using card_by_key [OF mem.po_asc [OF assms, of i]] mem.po_set [OF assms, of i]
      card_by_key [OF mem.ps_asc [OF assms, of i]] mem.ps_set [OF assms, of i]
    by (simp add: degree_def out_degree_def in_degree_def po_by_s_def ps_by_o_def)
qed

text \<open>Applications at concrete stores.\<close>

definition two_triples :: TripleStore where
  "two_triples = snd (ts_insert (snd (ts_insert ts_new (IdTriple 1 2 3))) (IdTriple 4 2 3))"

lemma two_triples_inv: "store_inv two_triples" "triples two_triples = {IdTriple 4 2 3, IdTriple 1 2 3}"
  by (simp_all add: two_triples_def ts_insert_spec store_inv_new)

theorem access_patterns_exact_witness:
  "store_inv two_triples \<and> s_by_po two_triples 2 3 = [1, 4] \<and>
   set (s_by_po two_triples 2 3) = {s. IdTriple s 2 3 \<in> triples two_triples}"
proof (intro conjI)
  show "s_by_po two_triples 2 3 = [1, 4]" by code_simp
qed (use access_patterns_exact [OF two_triples_inv(1), of 1 2 3] two_triples_inv(1) in blast)+

theorem insert_remove_restores_witness:
  "IdTriple 7 7 7 \<notin> triples two_triples \<and>
   snd (ts_remove (snd (ts_insert two_triples (IdTriple 7 7 7))) (IdTriple 7 7 7)) = two_triples"
proof -
  have "IdTriple 7 7 7 \<notin> triples two_triples" by (simp add: two_triples_inv(2))
  with insert_remove_restores [OF two_triples_inv(1) this] show ?thesis by blast
qed

end
