(* ===== verification/Candidates.thy ===== *)
theory Candidates
  imports TripleStore
begin

text \<open>
  Compiled triple patterns (\<open>Slot\<close>, \<open>PatPlan\<close> of \<open>src/query/engine.rs\<close>), what it means for a binding
  to be a solution of a list of them, and the candidate generation of \<open>src/query/candidates.rs\<close>. A
  candidate table is sound for a set of solutions when no solution binds a variable outside its
  list: \<open>generate\<close> is sound whatever its selectivity border decides. That border is a floating-point
  comparison of two lengths and is a parameter (\<open>border\<close>) of the definitions.
\<close>

section \<open>Patterns and bindings\<close>

datatype Slot = Const u32 | Var nat

record PatPlan =
  plan_s :: Slot
  plan_p :: Slot
  plan_o :: Slot

type_synonym Binding = "u32 option list"
type_synonym Candidates = "nat \<rightharpoonup> u32 list"

fun slot_var :: "Slot \<Rightarrow> nat option" where
  "slot_var (Var v) = Some v"
| "slot_var (Const _) = None"

fun slot_known :: "Slot \<Rightarrow> Binding \<Rightarrow> u32 option" where
  "slot_known (Const i) b = Some i"
| "slot_known (Var v) b = b ! v"

fun cand_ok :: "Slot \<Rightarrow> u32 \<Rightarrow> Candidates \<Rightarrow> bool" where
  "cand_ok (Var v) value cands = (case cands v of
     None \<Rightarrow> True
   | Some l \<Rightarrow> (case binary_search l value of Inr _ \<Rightarrow> True | Inl _ \<Rightarrow> False))"
| "cand_ok (Const _) value cands = True"

section \<open>Candidate generation\<close>

fun sorted_intersect :: "u32 list \<Rightarrow> u32 list \<Rightarrow> u32 list" where
  "sorted_intersect [] ys = []"
| "sorted_intersect xs [] = []"
| "sorted_intersect (x # xs) (y # ys) =
     (if x < y then sorted_intersect xs (y # ys)
      else if y < x then sorted_intersect (x # xs) ys
      else x # sorted_intersect xs ys)"

definition intersect_into :: "Candidates \<Rightarrow> nat \<Rightarrow> u32 list \<Rightarrow> Candidates" where
  "intersect_into cand var l = (let l' = sort_dedup l in
     case cand var of
       None \<Rightarrow> cand(var \<mapsto> l')
     | Some existing \<Rightarrow> cand(var \<mapsto> sorted_intersect existing l'))"

definition distinct_seconds :: "(u32 \<times> u32) list \<Rightarrow> u32 list" where
  "distinct_seconds pairs = sort_dedup (map snd pairs)"

definition should_propagate :: "(nat \<Rightarrow> nat \<Rightarrow> bool) \<Rightarrow> Candidates \<Rightarrow> nat \<Rightarrow> nat \<Rightarrow> bool" where
  "should_propagate border cand var card_p = (case cand var of
     None \<Rightarrow> False | Some c \<Rightarrow> border (max (length c) 2) card_p)"

definition pass1 :: "TripleStore \<Rightarrow> PatPlan \<Rightarrow> Candidates \<Rightarrow> Candidates" where
  "pass1 st plan cand = (case (plan_s plan, plan_o plan) of
     (Var sv, Const ob) \<Rightarrow>
       intersect_into cand sv (case plan_p plan of
         Const p \<Rightarrow> s_by_po st p ob | Var _ \<Rightarrow> distinct_seconds (ps_by_o st ob))
   | (Const s, Var ov) \<Rightarrow>
       intersect_into cand ov (case plan_p plan of
         Const p \<Rightarrow> o_by_sp st s p | Var _ \<Rightarrow> distinct_seconds (po_by_s st s))
   | _ \<Rightarrow> cand)"

definition pass2 :: "(nat \<Rightarrow> nat \<Rightarrow> bool) \<Rightarrow> TripleStore \<Rightarrow> PatPlan \<Rightarrow> Candidates \<Rightarrow> Candidates" where
  "pass2 border st plan cand = (case (plan_p plan, plan_s plan, plan_o plan) of
     (Const p, Var sv, Var ov) \<Rightarrow>
       (let c1 = (if should_propagate border cand sv (pred_card st p)
                  then intersect_into cand sv (subs_by_p st p) else cand)
        in if should_propagate border c1 ov (pred_card st p)
           then intersect_into c1 ov (objs_by_p st p) else c1)
   | _ \<Rightarrow> cand)"

definition generate :: "(nat \<Rightarrow> nat \<Rightarrow> bool) \<Rightarrow> PatPlan list \<Rightarrow> TripleStore \<Rightarrow> Candidates" where
  "generate border plans st = fold (pass2 border st) plans (fold (pass1 st) plans Map.empty)"

section \<open>Solutions\<close>

definition plan_vars_set :: "PatPlan \<Rightarrow> nat set" where
  "plan_vars_set plan = {v. Var v \<in> {plan_s plan, plan_p plan, plan_o plan}}"

definition bound :: "Binding \<Rightarrow> nat set" where
  "bound b = {v. v < length b \<and> b ! v \<noteq> None}"

definition plan_match :: "IdTriple set \<Rightarrow> Binding \<Rightarrow> PatPlan \<Rightarrow> bool" where
  "plan_match T b plan \<longleftrightarrow> (\<exists>s p ob. slot_known (plan_s plan) b = Some s \<and> slot_known (plan_p plan) b = Some p \<and>
     slot_known (plan_o plan) b = Some ob \<and> IdTriple s p ob \<in> T)"

text \<open>The solutions of a basic graph pattern over \<open>n\<close> variables: bindings of exactly the pattern's
  variables under which every pattern is a triple of the graph.\<close>

definition bgp_solutions :: "IdTriple set \<Rightarrow> nat \<Rightarrow> PatPlan set \<Rightarrow> Binding set" where
  "bgp_solutions T n P = {b. length b = n \<and> bound b = (\<Union>plan \<in> P. plan_vars_set plan) \<and> (\<forall>plan \<in> P. plan_match T b plan)}"

section \<open>Soundness\<close>

definition cands_sound :: "Candidates \<Rightarrow> Binding set \<Rightarrow> bool" where
  "cands_sound cand S \<longleftrightarrow> (\<forall>v l. cand v = Some l \<longrightarrow> ascending l \<and> (\<forall>b \<in> S. \<exists>x \<in> set l. b ! v = Some x))"

lemma sorted_intersect_spec:
  "ascending xs \<Longrightarrow> ascending ys \<Longrightarrow>
    set (sorted_intersect xs ys) = set xs \<inter> set ys \<and> ascending (sorted_intersect xs ys)"
proof (induction xs ys rule: sorted_intersect.induct)
  case (3 x xs y ys)
  consider "x < y" | "y < x" | "x = y" by fastforce
  then show ?case
  proof cases
    case 1
    then have "x \<notin> set (y # ys)" using 3(5) by auto
    then show ?thesis using 1 3 by auto
  next
    case 2
    then have "y \<notin> set (x # xs)" using 3(4) by auto
    then show ?thesis using 2 3 by auto
  next
    case eq: 3
    then have "x \<notin> set xs" "x \<notin> set ys" using 3(4,5) by auto
    then show ?thesis using eq 3 by auto
  qed
qed auto

lemma intersect_into_sound:
  assumes "cands_sound cand S" and "\<forall>b \<in> S. \<exists>x \<in> set l. b ! v = Some x"
  shows "cands_sound (intersect_into cand v l) S"
proof (cases "cand v")
  case None
  then show ?thesis using assms by (auto simp: cands_sound_def intersect_into_def Let_def)
next
  case (Some e)
  then have "ascending e" using assms(1) by (auto simp: cands_sound_def)
  then have spec: "set (sorted_intersect e (sort_dedup l)) = set e \<inter> set l" "ascending (sorted_intersect e (sort_dedup l))"
    using sorted_intersect_spec [of e "sort_dedup l"] by auto
  have "\<exists>x \<in> set e \<inter> set l. b ! v = Some x" if "b \<in> S" for b
    using assms Some that unfolding cands_sound_def by fastforce
  then show ?thesis
    using assms Some spec unfolding cands_sound_def intersect_into_def Let_def by (auto split: if_splits)
qed

lemma plan_matchE:
  assumes "plan_match T b plan"
  obtains s p ob where "slot_known (plan_s plan) b = Some s" "slot_known (plan_p plan) b = Some p"
    "slot_known (plan_o plan) b = Some ob" "IdTriple s p ob \<in> T"
  using assms by (auto simp: plan_match_def)

lemma pass1_sound:
  assumes "store_inv st" and "cands_sound cand S" and "\<forall>b \<in> S. plan_match (triples st) b plan"
  shows "cands_sound (pass1 st plan cand) S"
proof -
  note sets = mem.su_po_set [OF assms(1)] mem.ps_set [OF assms(1)] mem.ob_sp_set [OF assms(1)] mem.po_set [OF assms(1)]
  show ?thesis
  proof (cases "plan_s plan"; cases "plan_o plan")
    fix s ob assume "plan_s plan = Const s" "plan_o plan = Const ob"
    then show ?thesis using assms(2) by (simp add: pass1_def)
  next
    fix s v assume sh: "plan_s plan = Const s" "plan_o plan = Var v"
    have "\<exists>x \<in> set (case plan_p plan of Const p \<Rightarrow> o_by_sp st s p | Var _ \<Rightarrow> distinct_seconds (po_by_s st s)). b ! v = Some x"
      if "b \<in> S" for b
    proof -
      from assms(3) that have "plan_match (triples st) b plan" by blast
      then show ?thesis
        by (rule plan_matchE) (use sh in \<open>auto simp: sets distinct_seconds_def image_iff split: Slot.split\<close>)
    qed
    then show ?thesis using assms(2) sh by (auto simp: pass1_def intro!: intersect_into_sound)
  next
    fix v ob assume sh: "plan_s plan = Var v" "plan_o plan = Const ob"
    have "\<exists>x \<in> set (case plan_p plan of Const p \<Rightarrow> s_by_po st p ob | Var _ \<Rightarrow> distinct_seconds (ps_by_o st ob)). b ! v = Some x"
      if "b \<in> S" for b
    proof -
      from assms(3) that have "plan_match (triples st) b plan" by blast
      then show ?thesis
        by (rule plan_matchE) (use sh in \<open>auto simp: sets distinct_seconds_def image_iff split: Slot.split\<close>)
    qed
    then show ?thesis using assms(2) sh by (auto simp: pass1_def intro!: intersect_into_sound)
  next
    fix v w assume "plan_s plan = Var v" "plan_o plan = Var w"
    then show ?thesis using assms(2) by (simp add: pass1_def)
  qed
qed

lemma pass2_sound:
  assumes "store_inv st" and "cands_sound cand S" and "\<forall>b \<in> S. plan_match (triples st) b plan"
  shows "cands_sound (pass2 border st plan cand) S"
proof -
  consider p sv ov where "plan_p plan = Const p" "plan_s plan = Var sv" "plan_o plan = Var ov"
    | "pass2 border st plan cand = cand"
    by (cases "plan_p plan"; cases "plan_s plan"; cases "plan_o plan") (auto simp: pass2_def)
  then show ?thesis
  proof cases
    case 1
    have "(\<exists>x \<in> set (subs_by_p st p). b ! sv = Some x) \<and> (\<exists>x \<in> set (objs_by_p st p). b ! ov = Some x)" if "b \<in> S" for b
    proof -
      from assms(3) that have "plan_match (triples st) b plan" by blast
      then show ?thesis by (rule plan_matchE) (use 1 in \<open>auto simp: pred_lists_spec [OF assms(1)]\<close>)
    qed
    then have s: "cands_sound c S \<Longrightarrow> cands_sound (intersect_into c sv (subs_by_p st p)) S"
      and ov: "cands_sound c S \<Longrightarrow> cands_sound (intersect_into c ov (objs_by_p st p)) S" for c
      by (auto intro!: intersect_into_sound)
    show ?thesis using 1 assms(2) by (auto simp: pass2_def Let_def intro!: s ov)
  qed (use assms(2) in simp)
qed

lemma generate_sound_set:
  assumes "store_inv st" and "\<forall>b \<in> S. \<forall>plan \<in> set plans. plan_match (triples st) b plan"
  shows "cands_sound (generate border plans st) S"
proof -
  have 1: "cands_sound c S \<Longrightarrow> set ps \<subseteq> set plans \<Longrightarrow> cands_sound (fold (pass1 st) ps c) S" for ps c
    using assms(2) by (induction ps arbitrary: c) (auto intro!: pass1_sound [OF assms(1)])
  have 2: "cands_sound c S \<Longrightarrow> set ps \<subseteq> set plans \<Longrightarrow> cands_sound (fold (pass2 border st) ps c) S" for ps c
    using assms(2) by (induction ps arbitrary: c) (auto intro!: pass2_sound [OF assms(1)])
  show ?thesis unfolding generate_def
    by (intro 1 2) (auto simp: cands_sound_def)
qed

section \<open>Properties\<close>

text \<open>Candidate generation never loses an answer: for every consistent store, every list of
  compiled patterns and whatever the selectivity border decides, each candidate list is ascending and
  contains the value that any solution of the patterns gives the variable.\<close>

lemma generate_candidates_sound:
  assumes "store_inv st" and "generate border plans st v = Some l" and "b \<in> bgp_solutions (triples st) n (set plans)"
  shows "ascending l \<and> (\<exists>x \<in> set l. b ! v = Some x)"
proof -
  have "cands_sound (generate border plans st) {b}"
    using assms(3) by (intro generate_sound_set [OF assms(1)]) (auto simp: bgp_solutions_def)
  then show ?thesis using assms(2) by (auto simp: cands_sound_def)
qed

definition plan_example :: PatPlan where
  "plan_example = \<lparr>plan_s = Var 0, plan_p = Const 2, plan_o = Const 3\<rparr>"

end
