(* ===== verification/Signature.thy ===== *)
theory Signature
  imports Model
begin

unbundle bit_operations_syntax

text \<open>
  The 944-bit entity signatures of \<open>src/signature/mod.rs\<close>, limb for limb: fifteen 64-bit words, the
  set operations on them, the edge encoders and the fixed-width byte form. \<open>sig_bits\<close> reads a
  signature as a set of bit positions; the lemmas show that every operation is the set operation it
  stands for and that the encoders never leave the signature's width. The encoding of a query edge,
  with unknown parts left out, is contained in the encoding of every data edge that matches it.
\<close>

section \<open>Geometry\<close>

datatype EdgeDir = Out | In

definition STR_SIG_LITERAL :: nat where "STR_SIG_LITERAL = 200"
definition STR_SIG_ENTITY :: nat where "STR_SIG_ENTITY = STR_SIG_LITERAL * 2"
definition STR_SIG_LENGTH :: nat where "STR_SIG_LENGTH = STR_SIG_ENTITY + STR_SIG_LITERAL"
definition EDGE_SIG_INTERVAL_NUM_HALF :: nat where "EDGE_SIG_INTERVAL_NUM_HALF = 10"
definition EDGE_SIG_INTERVAL_BASE :: nat where "EDGE_SIG_INTERVAL_BASE = 10"
definition EDGE_SIG_LENGTH :: nat where
  "EDGE_SIG_LENGTH = 2 * EDGE_SIG_INTERVAL_NUM_HALF * EDGE_SIG_INTERVAL_BASE"
definition STR_AND_EDGE_INTERVAL_BASE :: nat where "STR_AND_EDGE_INTERVAL_BASE = 48"
definition STR_AND_EDGE_INTERVAL_NUM :: nat where "STR_AND_EDGE_INTERVAL_NUM = 3"
definition STR_AND_EDGE_SIG_LENGTH :: nat where
  "STR_AND_EDGE_SIG_LENGTH = STR_AND_EDGE_INTERVAL_BASE * STR_AND_EDGE_INTERVAL_NUM"
definition ENTITY_SIG_LENGTH :: nat where
  "ENTITY_SIG_LENGTH = STR_SIG_LENGTH + EDGE_SIG_LENGTH + STR_AND_EDGE_SIG_LENGTH"
definition LIMBS :: nat where "LIMBS = (ENTITY_SIG_LENGTH + 63) div 64"
definition SIG_BYTES :: nat where "SIG_BYTES = LIMBS * 8"

lemmas sig_geometry = STR_SIG_LITERAL_def STR_SIG_ENTITY_def STR_SIG_LENGTH_def
  EDGE_SIG_INTERVAL_NUM_HALF_def EDGE_SIG_INTERVAL_BASE_def EDGE_SIG_LENGTH_def
  STR_AND_EDGE_INTERVAL_BASE_def STR_AND_EDGE_INTERVAL_NUM_def STR_AND_EDGE_SIG_LENGTH_def
  ENTITY_SIG_LENGTH_def SIG_BYTES_def

lemma LIMBS_15: "LIMBS = 15"
  by (simp add: LIMBS_def sig_geometry)

section \<open>Signatures\<close>

record Signature =
  bits :: "u64 list"

definition sig_new :: Signature where
  "sig_new = \<lparr>bits = replicate LIMBS 0\<rparr>"

definition sig_set :: "Signature \<Rightarrow> nat \<Rightarrow> Signature" where
  "sig_set s b = s\<lparr>bits := (bits s)[b div 64 := (bits s ! (b div 64)) OR push_bit (b mod 64) 1]\<rparr>"

definition sig_test :: "Signature \<Rightarrow> nat \<Rightarrow> bool" where
  "sig_test s b \<longleftrightarrow> (bits s ! (b div 64)) AND push_bit (b mod 64) 1 \<noteq> 0"

definition union_with :: "Signature \<Rightarrow> Signature \<Rightarrow> Signature" where
  "union_with s t = s\<lparr>bits := map (\<lambda>i. (bits s ! i) OR (bits t ! i)) [0..<LIMBS]\<rparr>"

definition contains :: "Signature \<Rightarrow> Signature \<Rightarrow> bool" where
  "contains s t = list_all (\<lambda>i. (bits t ! i) AND NOT (bits s ! i) = 0) [0..<LIMBS]"

definition sig_is_empty :: "Signature \<Rightarrow> bool" where
  "sig_is_empty s = list_all (\<lambda>w. w = 0) (bits s)"

text \<open>\<open>u64::count_ones\<close>\<close>

definition count_ones :: "u64 \<Rightarrow> u32" where
  "count_ones w = word_of_nat (length (filter (bit w) [0..<64]))"

definition popcount :: "Signature \<Rightarrow> u32" where
  "popcount s = sum_list (map count_ones (bits s))"

definition distance :: "Signature \<Rightarrow> Signature \<Rightarrow> u32" where
  "distance s t = sum_list (map (\<lambda>i. count_ones ((bits s ! i) XOR (bits t ! i))) [0..<LIMBS])"

definition added_bits :: "Signature \<Rightarrow> Signature \<Rightarrow> u32" where
  "added_bits s t = sum_list (map (\<lambda>i. count_ones ((bits t ! i) AND NOT (bits s ! i))) [0..<LIMBS])"

definition write_le :: "Signature \<Rightarrow> bytes" where
  "write_le s = concat (map (le_bytes 8) (bits s))"

definition read_le :: "bytes \<Rightarrow> Signature" where
  "read_le b = \<lparr>bits = map (\<lambda>i. of_le_bytes (take 8 (drop (i * 8) b))) [0..<LIMBS]\<rparr>"

section \<open>Encoders\<close>

definition predicate_bit :: "u32 \<Rightarrow> EdgeDir \<Rightarrow> nat" where
  "predicate_bit pre_id dir =
     (let n = unat pre_id;
          seed_num = n mod EDGE_SIG_INTERVAL_NUM_HALF
                       + (if dir = Out then EDGE_SIG_INTERVAL_NUM_HALF else 0);
          seed = n * 5003 mod 49957
      in seed mod EDGE_SIG_INTERVAL_BASE + STR_SIG_LENGTH + EDGE_SIG_INTERVAL_BASE * seed_num)"

definition encode_predicate :: "Signature \<Rightarrow> u32 \<Rightarrow> EdgeDir \<Rightarrow> Signature" where
  "encode_predicate s pre_id dir = sig_set s (predicate_bit pre_id dir)"

definition str_bit :: "u32 \<Rightarrow> EdgeDir \<Rightarrow> nat" where
  "str_bit neighbor dir = unat neighbor mod STR_SIG_LITERAL
     + (if is_literal_id neighbor then STR_SIG_ENTITY else if dir = Out then STR_SIG_LITERAL else 0)"

definition encode_str :: "Signature \<Rightarrow> u32 \<Rightarrow> EdgeDir \<Rightarrow> Signature" where
  "encode_str s neighbor dir = sig_set s (str_bit neighbor dir)"

definition combined_bit :: "u32 \<Rightarrow> u32 \<Rightarrow> EdgeDir \<Rightarrow> nat" where
  "combined_bit pre_id neighbor dir =
     (let x = unat pre_id mod STR_AND_EDGE_INTERVAL_BASE;
          y = unat neighbor mod STR_AND_EDGE_INTERVAL_BASE;
          seed = (x + (x + y + 1) * (x + y) div 2) mod STR_AND_EDGE_INTERVAL_BASE
                   + (STR_SIG_LENGTH + EDGE_SIG_LENGTH)
      in seed + (if is_literal_id neighbor then STR_AND_EDGE_INTERVAL_BASE * 2
                 else if dir = Out then STR_AND_EDGE_INTERVAL_BASE else 0))"

definition encode_combined :: "Signature \<Rightarrow> u32 \<Rightarrow> u32 \<Rightarrow> EdgeDir \<Rightarrow> Signature" where
  "encode_combined s pre_id neighbor dir = sig_set s (combined_bit pre_id neighbor dir)"

definition encode_edge :: "Signature \<Rightarrow> u32 \<Rightarrow> u32 \<Rightarrow> EdgeDir \<Rightarrow> Signature" where
  "encode_edge s pre_id neighbor dir =
     encode_combined (encode_str (encode_predicate s pre_id dir) neighbor dir) pre_id neighbor dir"

definition encode_query_edge :: "Signature \<Rightarrow> u32 option \<Rightarrow> u32 option \<Rightarrow> EdgeDir \<Rightarrow> Signature" where
  "encode_query_edge s pre_id neighbor dir =
     (let s1 = (case pre_id of Some p \<Rightarrow> encode_predicate s p dir | None \<Rightarrow> s);
          s2 = (case neighbor of Some n \<Rightarrow> encode_str s1 n dir | None \<Rightarrow> s1)
      in case (pre_id, neighbor) of (Some p, Some n) \<Rightarrow> encode_combined s2 p n dir | _ \<Rightarrow> s2)"

section \<open>Signatures as sets of bits\<close>

definition sig_wf :: "Signature \<Rightarrow> bool" where
  "sig_wf s \<longleftrightarrow> length (bits s) = LIMBS"

definition sig_bits :: "Signature \<Rightarrow> nat set" where
  "sig_bits s = {b. b < LIMBS * 64 \<and> bit (bits s ! (b div 64)) (b mod 64)}"

lemma limb_index: "b < LIMBS * 64 \<Longrightarrow> b div 64 < LIMBS"
  by (simp add: LIMBS_15)

lemma sig_test_iff: "b < LIMBS * 64 \<Longrightarrow> sig_test s b \<longleftrightarrow> b \<in> sig_bits s"
proof -
  assume b: "b < LIMBS * 64"
  have "(w AND push_bit k 1 \<noteq> 0) \<longleftrightarrow> bit w k" if "k < 64" for w :: u64 and k
  proof
    assume "bit w k"
    then have "bit (w AND push_bit k 1) k" using that by (simp add: bit_and_iff bit_exp_iff)
    then show "w AND push_bit k 1 \<noteq> 0" by (metis bit_0_eq bot_apply bot_bool_def)
  next
    assume "w AND push_bit k 1 \<noteq> 0"
    then obtain n where "bit (w AND push_bit k 1) n" by (auto simp: bit_eq_iff)
    then show "bit w k" using that by (auto simp: bit_and_iff bit_push_bit_iff bit_exp_iff bit_1_iff)
  qed
  from this [of "b mod 64"] show ?thesis using b by (simp add: sig_test_def sig_bits_def)
qed

lemma sig_new_spec [simp]: "sig_wf sig_new" "sig_bits sig_new = {}"
  by (auto simp: sig_wf_def sig_new_def sig_bits_def limb_index)

lemma sig_set_wf [simp]: "sig_wf (sig_set s b) \<longleftrightarrow> sig_wf s"
  by (simp add: sig_wf_def sig_set_def)

lemma sig_bits_set:
  assumes "sig_wf s" and "b < LIMBS * 64"
  shows "sig_bits (sig_set s b) = insert b (sig_bits s)"
proof (rule set_eqI)
  fix c
  have eq: "b = c" if "b div 64 = c div 64" "b mod 64 = c mod 64"
    using that by (metis div_mult_mod_eq)
  have len: "b div 64 < length (bits s)" using assms by (simp add: sig_wf_def limb_index)
  show "c \<in> sig_bits (sig_set s b) \<longleftrightarrow> c \<in> insert b (sig_bits s)"
  proof (cases "b div 64 = c div 64")
    case True
    then show ?thesis using assms len eq
      by (auto simp: sig_bits_def sig_set_def bit_or_iff bit_push_bit_iff bit_exp_iff bit_1_iff)
  next
    case False
    then show ?thesis by (auto simp: sig_bits_def sig_set_def)
  qed
qed

lemma union_with_wf [simp]: "sig_wf (union_with s t)"
  by (simp add: sig_wf_def union_with_def)

lemma sig_bits_union [simp]: "sig_bits (union_with s t) = sig_bits s \<union> sig_bits t"
  by (auto simp: sig_bits_def union_with_def limb_index bit_or_iff)

lemma contains_iff: "contains s t \<longleftrightarrow> sig_bits t \<subseteq> sig_bits s"
proof
  assume "contains s t"
  then have z: "(bits t ! i) AND NOT (bits s ! i) = 0" if "i < LIMBS" for i
    using that by (auto simp: contains_def list_all_iff)
  show "sig_bits t \<subseteq> sig_bits s"
  proof
    fix b assume b: "b \<in> sig_bits t"
    then have "b div 64 < LIMBS" "bit (bits t ! (b div 64)) (b mod 64)" by (auto simp: sig_bits_def limb_index)
    moreover have "\<not> bit ((bits t ! (b div 64)) AND NOT (bits s ! (b div 64))) (b mod 64)"
      using z [OF calculation(1)] by simp
    ultimately show "b \<in> sig_bits s" using b by (auto simp: sig_bits_def bit_and_iff bit_not_iff)
  qed
next
  assume sub: "sig_bits t \<subseteq> sig_bits s"
  have "(bits t ! i) AND NOT (bits s ! i) = 0" if i: "i < LIMBS" for i
  proof (rule bit_word_eqI)
    fix n assume n: "n < LENGTH(64)"
    have "i * 64 + n < LIMBS * 64" "(i * 64 + n) div 64 = i" "(i * 64 + n) mod 64 = n"
      using i n by (auto simp: LIMBS_15)
    with sub have "bit (bits t ! i) n \<Longrightarrow> bit (bits s ! i) n" by (auto simp: sig_bits_def subset_iff)
    then show "bit ((bits t ! i) AND NOT (bits s ! i)) n \<longleftrightarrow> bit (0 :: u64) n"
      by (auto simp: bit_and_iff bit_not_iff)
  qed
  then show "contains s t" by (simp add: contains_def list_all_iff)
qed

lemma sig_is_empty_iff: "sig_wf s \<Longrightarrow> sig_is_empty s \<longleftrightarrow> sig_bits s = {}"
proof
  assume wf: "sig_wf s" and e: "sig_is_empty s"
  then have "bits s ! i = 0" if "i < LIMBS" for i
    using that by (auto simp: sig_is_empty_def list_all_iff sig_wf_def)
  then show "sig_bits s = {}" by (auto simp: sig_bits_def limb_index)
next
  assume wf: "sig_wf s" and e: "sig_bits s = {}"
  then have "contains sig_new s" by (simp add: contains_iff)
  then have "bits s ! i = 0" if "i < LIMBS" for i
    using that by (simp add: contains_def list_all_iff sig_new_def)
  then show "sig_is_empty s" using wf by (auto simp: sig_is_empty_def list_all_iff sig_wf_def in_set_conv_nth)
qed

section \<open>The encoders\<close>

lemma predicate_bit_range: "600 \<le> predicate_bit p dir" "predicate_bit p dir < 800"
proof -
  define r where "r = unat p * 5003 mod 49957 mod 10"
  define q where "q = unat p mod 10 + (if dir = Out then 10 else 0 :: nat)"
  have "r < 10" unfolding r_def by (rule mod_less_divisor) simp
  moreover have "unat p mod 10 < 10" by (rule mod_less_divisor) simp
  then have "q \<le> 19" by (cases "dir = Out") (simp_all add: q_def)
  moreover have "predicate_bit p dir = r + 600 + 10 * q"
    by (simp add: predicate_bit_def sig_geometry Let_def r_def q_def)
  ultimately show "600 \<le> predicate_bit p dir" "predicate_bit p dir < 800" by linarith+
qed

lemma str_bit_range: "str_bit n dir < 600"
proof -
  have "unat n mod 200 < 200" by (rule mod_less_divisor) simp
  then show ?thesis unfolding str_bit_def sig_geometry by auto
qed

lemma combined_bit_range: "800 \<le> combined_bit p n dir" "combined_bit p n dir < 944"
proof -
  define r where "r = (unat p mod 48 + (unat p mod 48 + unat n mod 48 + 1) * (unat p mod 48 + unat n mod 48) div 2) mod 48"
  have r: "r < 48" unfolding r_def by (rule mod_less_divisor) simp
  have "combined_bit p n dir = r + 800 + (if is_literal_id n then 96 else if dir = Out then 48 else 0)"
    by (simp add: combined_bit_def sig_geometry Let_def r_def)
  then show "800 \<le> combined_bit p n dir" "combined_bit p n dir < 944" using r by auto
qed

text \<open>The bits of one edge, and of the known part of a query edge.\<close>

definition edge_bits :: "u32 \<Rightarrow> u32 \<Rightarrow> EdgeDir \<Rightarrow> nat set" where
  "edge_bits p n dir = {predicate_bit p dir, str_bit n dir, combined_bit p n dir}"

definition query_bits :: "u32 option \<Rightarrow> u32 option \<Rightarrow> EdgeDir \<Rightarrow> nat set" where
  "query_bits p n dir = (\<lambda>p. predicate_bit p dir) ` set_option p \<union> (\<lambda>n. str_bit n dir) ` set_option n
     \<union> (\<lambda>(p, n). combined_bit p n dir) ` (set_option p \<times> set_option n)"

lemma encoder_bits:
  assumes "sig_wf s"
  shows "sig_bits (encode_predicate s p dir) = insert (predicate_bit p dir) (sig_bits s)"
    "sig_bits (encode_str s n dir) = insert (str_bit n dir) (sig_bits s)"
    "sig_bits (encode_combined s p n dir) = insert (combined_bit p n dir) (sig_bits s)"
  using sig_bits_set [OF assms, of "predicate_bit p dir"] predicate_bit_range [of p dir]
    sig_bits_set [OF assms, of "str_bit n dir"] str_bit_range [of n dir]
    sig_bits_set [OF assms, of "combined_bit p n dir"] combined_bit_range [of p n dir]
  by (simp_all add: encode_predicate_def encode_str_def encode_combined_def LIMBS_15)

lemma encoder_wf [simp]:
  "sig_wf (encode_predicate s p dir) \<longleftrightarrow> sig_wf s" "sig_wf (encode_str s n dir) \<longleftrightarrow> sig_wf s"
  "sig_wf (encode_combined s p n dir) \<longleftrightarrow> sig_wf s"
  by (simp_all add: encode_predicate_def encode_str_def encode_combined_def)

lemma encode_edge_spec:
  assumes "sig_wf s"
  shows "sig_wf (encode_edge s p n dir)" "sig_bits (encode_edge s p n dir) = sig_bits s \<union> edge_bits p n dir"
  using assms by (auto simp: encode_edge_def encoder_bits edge_bits_def)

lemma encode_query_edge_spec:
  assumes "sig_wf s"
  shows "sig_wf (encode_query_edge s p n dir)"
    "sig_bits (encode_query_edge s p n dir) = sig_bits s \<union> query_bits p n dir"
  using assms by (auto simp: encode_query_edge_def encoder_bits query_bits_def split: option.splits)

text \<open>An edge \<open>(p, n)\<close> fits a query edge when the known parts agree.\<close>

definition edge_matches :: "u32 option \<Rightarrow> u32 option \<Rightarrow> u32 \<Rightarrow> u32 \<Rightarrow> bool" where
  "edge_matches qp qn p n \<longleftrightarrow> (qp = None \<or> qp = Some p) \<and> (qn = None \<or> qn = Some n)"

lemma query_bits_matching: "edge_matches qp qn p n \<Longrightarrow> query_bits qp qn dir \<subseteq> edge_bits p n dir"
  by (auto simp: edge_matches_def query_bits_def edge_bits_def)

lemma encode_edges_spec:
  "sig_wf s \<Longrightarrow> sig_wf (fold (\<lambda>(p, n, d) s. encode_edge s p n d) es s) \<and>
    sig_bits (fold (\<lambda>(p, n, d) s. encode_edge s p n d) es s)
      = sig_bits s \<union> (\<Union>(p, n, d) \<in> set es. edge_bits p n d)"
  by (induction es arbitrary: s) (simp_all add: split_def encode_edge_spec Un_assoc)

lemma encode_query_edges_spec:
  "sig_wf s \<Longrightarrow> sig_wf (fold (\<lambda>(qp, qn, d) s. encode_query_edge s qp qn d) qs s) \<and>
    sig_bits (fold (\<lambda>(qp, qn, d) s. encode_query_edge s qp qn d) qs s)
      = sig_bits s \<union> (\<Union>(qp, qn, d) \<in> set qs. query_bits qp qn d)"
  by (induction qs arbitrary: s) (simp_all add: split_def encode_query_edge_spec Un_assoc)

section \<open>Properties\<close>

text \<open>Filter soundness of the encoding: build an entity's signature from any list of its edges and
  a query signature from any list of query edges; if every query edge is matched by some edge of the
  entity in the same direction (unknown predicate or neighbour matching anything), then the entity's
  signature passes the containment test. The signature filter never drops a true match.\<close>

lemma query_signature_sound:
  fixes es :: "(u32 \<times> u32 \<times> EdgeDir) list" and qs :: "(u32 option \<times> u32 option \<times> EdgeDir) list"
  assumes "\<forall>(qp, qn, d) \<in> set qs. \<exists>p n. (p, n, d) \<in> set es \<and> edge_matches qp qn p n"
  shows "contains (fold (\<lambda>(p, n, d) s. encode_edge s p n d) es sig_new)
                  (fold (\<lambda>(qp, qn, d) s. encode_query_edge s qp qn d) qs sig_new)"
  unfolding contains_iff encode_edges_spec [OF sig_new_spec(1), THEN conjunct2]
    encode_query_edges_spec [OF sig_new_spec(1), THEN conjunct2]
proof (clarsimp)
  fix b qp qn d assume q: "(qp, qn, d) \<in> set qs" and b: "b \<in> query_bits qp qn d"
  obtain p n where "(p, n, d) \<in> set es" "edge_matches qp qn p n" using assms q by blast
  with b query_bits_matching show "\<exists>x \<in> set es. b \<in> (case x of (p, n, d) \<Rightarrow> edge_bits p n d)" by fastforce
qed

text \<open>The byte form of a signature is lossless: \<open>read_le\<close> of \<open>write_le\<close>, with anything after
  the 120 bytes, returns the signature, so a signature stored in a page slot reads back unchanged.\<close>

lemma signature_le_roundtrip:
  assumes "sig_wf s"
  shows "length (write_le s) = SIG_BYTES \<and> read_le (write_le s @ rest) = s"
proof
  have len: "length (bits s) = LIMBS" using assms by (simp add: sig_wf_def)
  then show "length (write_le s) = SIG_BYTES"
    by (simp add: write_le_def SIG_BYTES_def length_concat comp_def sum_list_triv)
  have "take 8 (drop (i * 8) (write_le s @ rest)) = le_bytes 8 (bits s ! i)" if "i < LIMBS" for i
    using that len concat_slot [of "bits s" "le_bytes 8" 8 i rest] by (simp add: write_le_def)
  then have "bits (read_le (write_le s @ rest)) = map (\<lambda>i. of_le_bytes (le_bytes 8 (bits s ! i))) [0..<LIMBS]"
    unfolding read_le_def by simp
  also have "\<dots> = map (\<lambda>i. bits s ! i) [0..<LIMBS]"
    using of_le_bytes_le_bytes [where ?'a = 64 and n = 8] by simp
  also have "\<dots> = bits s" using len by (metis map_nth)
  finally show "read_le (write_le s @ rest) = s" by simp
qed

end
