(* ===== verification/VsTree.thy ===== *)
theory VsTree
  imports Signature "HOL-Library.Multiset"
begin

text \<open>
  The in-memory VS-tree of \<open>src/signature/vstree.rs\<close>: a height-balanced signature tree. Every
  operation is a definition here, with Rust's panics (an index out of range, \<open>unwrap\<close> of \<open>None\<close>) as the
  value \<open>None\<close>: bulk build, insertion with minimal enlargement and seeded node splits, in-place
  signature update and the pruned candidate search. \<open>node_ok h\<close> is the tree invariant: every node
  holds between one and \<open>FANOUT\<close> members, all leaves lie at height \<open>h\<close>, and a node's signature
  contains those of its members. The seam trait \<open>SigFilter\<close> is the locale \<open>sig_filter\<close>.
\<close>

section \<open>Nodes\<close>

definition FANOUT :: nat where "FANOUT = 64"

datatype Node =
    Leaf (node_sig: Signature) (leaf_entries: "(u32 \<times> Signature) list")
  | Internal (node_sig: Signature) (node_children: "Node list")

definition choose_step :: "Signature \<Rightarrow> nat \<times> Node \<Rightarrow> nat \<times> u32 \<times> u32 \<Rightarrow> nat \<times> u32 \<times> u32" where
  "choose_step sg = (\<lambda>(i, c) (best, best_added, best_pop).
     let added = added_bits (node_sig c) sg; pop = popcount (node_sig c) in
     if added < best_added \<or> (added = best_added \<and> pop < best_pop) then (i, added, pop)
     else (best, best_added, best_pop))"

definition choose_child :: "Node list \<Rightarrow> Signature \<Rightarrow> nat" where
  "choose_child children sg = fst (fold (choose_step sg) (enumerate 0 children) (0, - 1, - 1))"

text \<open>\<open>slots[i].take().unwrap()\<close> for each index in turn.\<close>

fun take_slots :: "'t option list \<Rightarrow> nat list \<Rightarrow> ('t list \<times> 't option list) option" where
  "take_slots slots [] = Some ([], slots)"
| "take_slots slots (i # is) =
     (if i < length slots then
        (case slots ! i of
           None \<Rightarrow> None
         | Some x \<Rightarrow> (case take_slots (slots[i := None]) is of
             None \<Rightarrow> None
           | Some (xs, slots') \<Rightarrow> Some (x # xs, slots')))
      else None)"

definition seed_pairs :: "nat \<Rightarrow> (nat \<times> nat) list" where
  "seed_pairs n = concat (map (\<lambda>i. map (Pair i) [i + 1..<n]) [0..<n])"

definition pick_seeds :: "Signature list \<Rightarrow> nat \<times> nat \<times> u32" where
  "pick_seeds sigs = fold (\<lambda>(i, j) (si, sj, best).
       let d = distance (sigs ! i) (sigs ! j) in if d \<ge> best then (i, j, d) else (si, sj, best))
     (seed_pairs (length sigs)) (0, 1, 0)"

definition assign_step ::
  "nat \<Rightarrow> nat \<Rightarrow> nat \<times> Signature \<Rightarrow> nat list \<times> Signature \<times> nat list \<times> Signature
    \<Rightarrow> nat list \<times> Signature \<times> nat list \<times> Signature" where
  "assign_step si sj = (\<lambda>(idx, sigi) (left_idx, lsig, right_idx, rsig).
     if idx = si \<or> idx = sj then (left_idx, lsig, right_idx, rsig)
     else let la = added_bits lsig sigi; ra = added_bits rsig sigi in
       if la < ra \<or> (la = ra \<and> length left_idx \<le> length right_idx)
       then (left_idx @ [idx], union_with lsig sigi, right_idx, rsig)
       else (left_idx, lsig, right_idx @ [idx], union_with rsig sigi))"

definition seed_split ::
  "'t list \<Rightarrow> ('t \<Rightarrow> Signature) \<Rightarrow> ('t list \<times> Signature \<times> 't list \<times> Signature) option" where
  "seed_split items sig_of =
     (let sigs = map sig_of items; (si, sj, _) = pick_seeds sigs in
      if si < length sigs \<and> sj < length sigs then
        (case fold (assign_step si sj) (enumerate 0 sigs) ([si], sigs ! si, [sj], sigs ! sj) of
           (left_idx, lsig, right_idx, rsig) \<Rightarrow>
             (case take_slots (map Some items) left_idx of
                None \<Rightarrow> None
              | Some (left, slots) \<Rightarrow> (case take_slots slots right_idx of
                  None \<Rightarrow> None
                | Some (right, _) \<Rightarrow> Some (left, lsig, right, rsig))))
      else None)"

fun node_split :: "Node \<Rightarrow> (Node \<times> Node) option" where
  "node_split (Leaf sg entries) = (case seed_split entries snd of
     None \<Rightarrow> None
   | Some (left, lsig, right, rsig) \<Rightarrow> Some (Leaf lsig left, Leaf rsig right))"
| "node_split (Internal sg children) = (case seed_split children node_sig of
     None \<Rightarrow> None
   | Some (left, lsig, right, rsig) \<Rightarrow> Some (Internal lsig left, Internal rsig right))"

lemma size_nth_less [termination_simp]:
  "i < length cs \<Longrightarrow> size (cs ! i) < Suc (size_list size cs)"
  using size_list_estimation' [OF nth_mem, of i cs "size (cs ! i)" size] by simp

text \<open>The result is the node after the call and the split-off sibling, if any.\<close>

definition split_some :: "Node \<Rightarrow> (Node \<times> Node option) option" where
  "split_some node = map_option (\<lambda>(l, r). (l, Some r)) (node_split node)"

fun node_insert :: "Node \<Rightarrow> u32 \<Rightarrow> Signature \<Rightarrow> (Node \<times> Node option) option" where
  "node_insert (Leaf nsig entries) i sg =
     (let node = Leaf (union_with nsig sg) (entries @ [(i, sg)]) in
      if length entries + 1 \<le> FANOUT then Some (node, None) else split_some node)"
| "node_insert (Internal nsig children) i sg =
     (let nsig' = union_with nsig sg; ci = choose_child children sg in
      if ci < length children then
        (case node_insert (children ! ci) i sg of
           None \<Rightarrow> None
         | Some (c, None) \<Rightarrow> Some (Internal nsig' (children[ci := c]), None)
         | Some (c, Some new_child) \<Rightarrow>
             (let children' = vec_insert (ci + 1) new_child (children[ci := c]) in
              if length children' \<le> FANOUT then Some (Internal nsig' children', None)
              else split_some (Internal nsig' children')))
      else None)"

fun update_entries :: "u32 \<Rightarrow> Signature \<Rightarrow> (u32 \<times> Signature) list \<Rightarrow> bool \<times> (u32 \<times> Signature) list" where
  "update_entries i new_sig [] = (False, [])"
| "update_entries i new_sig ((eid, esig) # es) =
     (if eid = i then (True, (eid, new_sig) # es)
      else (case update_entries i new_sig es of (r, es') \<Rightarrow> (r, (eid, esig) # es')))"

fun node_update :: "u32 \<Rightarrow> Signature \<Rightarrow> Node \<Rightarrow> bool \<times> Node"
  and update_children :: "u32 \<Rightarrow> Signature \<Rightarrow> Node list \<Rightarrow> bool \<times> Node list" where
  "node_update i new_sig (Leaf sg entries) = (case update_entries i new_sig entries of
     (True, es) \<Rightarrow> (True, Leaf (union_with sg new_sig) es)
   | (False, es) \<Rightarrow> (False, Leaf sg es))"
| "node_update i new_sig (Internal sg children) = (case update_children i new_sig children of
     (True, cs) \<Rightarrow> (True, Internal (union_with sg new_sig) cs)
   | (False, cs) \<Rightarrow> (False, Internal sg cs))"
| "update_children i new_sig [] = (False, [])"
| "update_children i new_sig (c # cs) = (case node_update i new_sig c of
     (True, c') \<Rightarrow> (True, c' # cs)
   | (False, c') \<Rightarrow> (case update_children i new_sig cs of (r, cs') \<Rightarrow> (r, c' # cs')))"

fun search :: "Node \<Rightarrow> Signature \<Rightarrow> u32 list" where
  "search (Leaf sg entries) query =
     (if \<not> contains sg query then [] else map fst (filter (\<lambda>(_, s). contains s query) entries))"
| "search (Internal sg children) query =
     (if \<not> contains sg query then [] else concat (map (\<lambda>c. search c query) children))"

section \<open>The tree\<close>

record VsTree =
  root :: "Node option"
  entity_count :: nat

definition vs_new :: VsTree where
  "vs_new = \<lparr>root = None, entity_count = 0\<rparr>"

text \<open>\<open>slice::chunks(n)\<close>, and the same for the \<open>by_ref().take(n)\<close> loop.\<close>

function chunks :: "nat \<Rightarrow> 'a list \<Rightarrow> 'a list list" where
  "chunks n xs = (if n = 0 \<or> xs = [] then [] else take n xs # chunks n (drop n xs))"
  by auto
termination by (relation "measure (\<lambda>(n, xs). length xs)") auto

declare chunks.simps [simp del]

definition union_all :: "Signature list \<Rightarrow> Signature" where
  "union_all sigs = fold (\<lambda>s acc. union_with acc s) sigs sig_new"

definition mk_leaf :: "(u32 \<times> Signature) list \<Rightarrow> Node" where
  "mk_leaf chunk = Leaf (union_all (map snd chunk)) chunk"

definition mk_internal :: "Node list \<Rightarrow> Node" where
  "mk_internal children = Internal (union_all (map node_sig children)) children"

lemma length_chunks: "0 < n \<Longrightarrow> length (chunks n xs) * n < length xs + n"
proof (induction n xs rule: chunks.induct)
  case (1 n xs)
  note eq = chunks.simps [of n xs]
  show ?case
  proof (cases "length xs \<le> n")
    case True
    then have "chunks n (drop n xs) = []" by (simp add: chunks.simps)
    then show ?thesis using eq 1(2) by simp
  next
    case False
    then show ?thesis using eq 1 by fastforce
  qed
qed

function build_levels :: "Node list \<Rightarrow> Node list" where
  "build_levels level = (if length level > 1 then build_levels (map mk_internal (chunks FANOUT level)) else level)"
  by auto
termination
proof (relation "measure length")
  fix level :: "Node list" assume "length level > 1"
  then show "(map mk_internal (chunks FANOUT level), level) \<in> measure length"
    using length_chunks [of FANOUT level] by (simp add: FANOUT_def)
qed simp

declare build_levels.simps [simp del]

definition sig_key :: "Signature \<Rightarrow> u64 list" where
  "sig_key sg = map (\<lambda>i. fold (\<lambda>b word. let bt = i * 64 + b in
       if bt < ENTITY_SIG_LENGTH \<and> sig_test sg bt then or word (push_bit b 1) else word) [0..<64] 0) [0..<LIMBS]"

definition vs_build :: "(u32 \<times> Signature) list \<Rightarrow> VsTree option" where
  "vs_build entries =
     (if entries = [] then Some vs_new
      else let sorted = sort_key (\<lambda>(_, s). sig_key s) entries;
               level = build_levels (map mk_leaf (chunks FANOUT sorted))
           in if level = [] then None
              else Some \<lparr>root = Some (last level), entity_count = length entries\<rparr>)"

definition vs_insert :: "VsTree \<Rightarrow> u32 \<Rightarrow> Signature \<Rightarrow> VsTree option" where
  "vs_insert t i sg = (case root t of
     None \<Rightarrow> Some (t\<lparr>root := Some (Leaf sg [(i, sg)]), entity_count := entity_count t + 1\<rparr>)
   | Some r \<Rightarrow> (case node_insert r i sg of
       None \<Rightarrow> None
     | Some (r', Some sibling) \<Rightarrow>
         Some (t\<lparr>root := Some (Internal (union_with (node_sig r') (node_sig sibling)) [r', sibling]),
                 entity_count := entity_count t + 1\<rparr>)
     | Some (r', None) \<Rightarrow> Some (t\<lparr>root := Some r', entity_count := entity_count t + 1\<rparr>)))"

fun vs_insert_all :: "VsTree \<Rightarrow> (u32 \<times> Signature) list \<Rightarrow> VsTree option" where
  "vs_insert_all t [] = Some t"
| "vs_insert_all t ((i, sg) # es) = (case vs_insert t i sg of None \<Rightarrow> None | Some t' \<Rightarrow> vs_insert_all t' es)"

definition vs_update :: "VsTree \<Rightarrow> u32 \<Rightarrow> Signature \<Rightarrow> bool \<times> VsTree" where
  "vs_update t i new_sig = (case root t of
     None \<Rightarrow> (False, t)
   | Some r \<Rightarrow> (case node_update i new_sig r of (b, r') \<Rightarrow> (b, t\<lparr>root := Some r'\<rparr>)))"

definition vs_is_empty :: "VsTree \<Rightarrow> bool" where
  "vs_is_empty t \<longleftrightarrow> root t = None"

definition candidates :: "VsTree \<Rightarrow> Signature \<Rightarrow> u32 list option" where
  "candidates t query = (case root t of None \<Rightarrow> None | Some r \<Rightarrow> Some (search r query))"

section \<open>Invariant\<close>

fun node_entries :: "Node \<Rightarrow> (u32 \<times> Signature) list" where
  "node_entries (Leaf sg es) = es"
| "node_entries (Internal sg cs) = concat (map node_entries cs)"

fun node_ok :: "nat \<Rightarrow> Node \<Rightarrow> bool" where
  "node_ok h (Leaf sg es) \<longleftrightarrow> h = 1 \<and> es \<noteq> [] \<and> length es \<le> FANOUT \<and>
     (\<forall>e \<in> set es. sig_bits (snd e) \<subseteq> sig_bits sg)"
| "node_ok h (Internal sg cs) \<longleftrightarrow> h > 1 \<and> cs \<noteq> [] \<and> length cs \<le> FANOUT \<and>
     (\<forall>c \<in> set cs. node_ok (h - 1) c \<and> sig_bits (node_sig c) \<subseteq> sig_bits sg)"

lemma node_ok_superset:
  "node_ok h n \<Longrightarrow> (i, s) \<in> set (node_entries n) \<Longrightarrow> sig_bits s \<subseteq> sig_bits (node_sig n)"
proof (induction h n rule: node_ok.induct)
  case (2 h sg cs)
  then obtain c where c: "c \<in> set cs" "(i, s) \<in> set (node_entries c)" by auto
  then have "sig_bits s \<subseteq> sig_bits (node_sig c)" using 2 by auto
  then show ?case using c 2 by auto
qed fastforce

lemma search_exact:
  "node_ok h n \<Longrightarrow> search n q = map fst (filter (\<lambda>(_, s). contains s q) (node_entries n))"
proof (induction h n rule: node_ok.induct)
  case (1 h sg es)
  have "contains sg q" if "(i, s) \<in> set es" "contains s q" for i s
    using that 1 unfolding contains_iff by fastforce
  then show ?case by (auto simp: filter_empty_conv)
next
  case (2 h sg cs)
  show ?case
  proof (cases "contains sg q")
    case True
    have "search c q = map fst (filter (\<lambda>(_, s). contains s q) (node_entries c))" if "c \<in> set cs" for c
      using 2 that by auto
    then show ?thesis using True by (simp add: filter_concat map_concat comp_def cong: map_cong)
  next
    case False
    have "\<not> contains s q" if "(i, s) \<in> set (node_entries (Internal sg cs))" for i s
      using node_ok_superset [OF 2(2) that] False by (auto simp: contains_iff)
    then have "filter (\<lambda>(_, s). contains s q) (node_entries (Internal sg cs)) = []"
      unfolding filter_empty_conv by blast
    then show ?thesis using False by (simp only: search.simps if_True not_False_eq_True list.map)
  qed
qed

section \<open>Splits\<close>

lemma choose_fold_range: "fst (fold (choose_step sg) xs acc) \<in> insert (fst acc) (fst ` set xs)"
proof (induction xs arbitrary: acc)
  case (Cons x xs)
  have "fst (choose_step sg x acc) \<in> {fst acc, fst x}"
    by (auto simp: choose_step_def Let_def split: prod.splits)
  with Cons [of "choose_step sg x acc"] show ?case by auto
qed simp

lemma choose_child_range: "cs \<noteq> [] \<Longrightarrow> choose_child cs sg < length cs"
  using choose_fold_range [of sg "enumerate 0 cs" "(0, - 1, - 1)"]
  by (auto simp: choose_child_def in_set_enumerate_eq)

lemma seed_pairs_range: "(i, j) \<in> set (seed_pairs n) \<Longrightarrow> i < j \<and> j < n"
  by (auto simp: seed_pairs_def)

lemma pick_seeds_range:
  assumes "length sigs \<ge> 2" and "pick_seeds sigs = (si, sj, d)"
  shows "si < sj" "sj < length sigs"
proof -
  have "\<forall>(i, j) \<in> set ps. i < j \<and> j < n \<Longrightarrow> a < b \<and> b < n \<Longrightarrow>
      fold (\<lambda>(i, j) (si, sj, best). let d = distance (sigs ! i) (sigs ! j) in
        if d \<ge> best then (i, j, d) else (si, sj, best)) ps (a, b, e) = (si, sj, d) \<Longrightarrow> si < sj \<and> sj < n"
    for ps a b e n
    by (induction ps arbitrary: a b e) (auto simp: Let_def split: if_splits)
  from this [of "seed_pairs (length sigs)" "length sigs" 0 1 0] show "si < sj" "sj < length sigs"
    using assms seed_pairs_range unfolding pick_seeds_def by fastforce+
qed

lemma assign_fold:
  assumes "fold (assign_step si sj) xs (L, ls, R, rs) = (L', ls', R', rs')"
    and "\<forall>(k, sg) \<in> set xs. sigs ! k = sg"
    and "sig_bits ls = (\<Union>k \<in> set L. sig_bits (sigs ! k))" and "sig_bits rs = (\<Union>k \<in> set R. sig_bits (sigs ! k))"
  shows "mset L' + mset R' = mset L + mset R + mset (filter (\<lambda>k. k \<noteq> si \<and> k \<noteq> sj) (map fst xs)) \<and>
    sig_bits ls' = (\<Union>k \<in> set L'. sig_bits (sigs ! k)) \<and> sig_bits rs' = (\<Union>k \<in> set R'. sig_bits (sigs ! k)) \<and>
    set L \<subseteq> set L' \<and> set R \<subseteq> set R'"
  using assms
proof (induction xs arbitrary: L ls R rs)
  case (Cons x xs)
  obtain k sg where x: "x = (k, sg)" by (cases x)
  obtain L1 l1 R1 r1 where st: "assign_step si sj x (L, ls, R, rs) = (L1, l1, R1, r1)" by (metis prod_cases4)
  have step: "mset L1 + mset R1 = mset L + mset R + mset (filter (\<lambda>k. k \<noteq> si \<and> k \<noteq> sj) [k])"
    "sig_bits l1 = (\<Union>k \<in> set L1. sig_bits (sigs ! k))" "sig_bits r1 = (\<Union>k \<in> set R1. sig_bits (sigs ! k))"
    "set L \<subseteq> set L1" "set R \<subseteq> set R1"
    using st Cons.prems x by (auto simp: assign_step_def Let_def split: if_splits)
  have "fold (assign_step si sj) xs (L1, l1, R1, r1) = (L', ls', R', rs')" using Cons.prems(1) st by simp
  from Cons.IH [OF this _ step(2,3)] Cons.prems(2) step x show ?case by (auto simp: ac_simps)
qed auto

lemma take_slots_spec:
  assumes "distinct is" and "\<forall>i \<in> set is. i < length slots \<and> slots ! i = Some (items ! i)"
  shows "\<exists>slots'. take_slots slots is = Some (map (nth items) is, slots') \<and> length slots' = length slots \<and>
    (\<forall>k. k \<notin> set is \<longrightarrow> slots' ! k = slots ! k)"
  using assms
proof (induction "is" arbitrary: slots)
  case (Cons i "is")
  have "\<forall>k \<in> set is. k < length (slots[i := None]) \<and> slots[i := None] ! k = Some (items ! k)"
    using Cons.prems by (auto simp: nth_list_update)
  from Cons.IH [OF _ this] Cons.prems(1)
  obtain slots' where "take_slots (slots[i := None]) is = Some (map (nth items) is, slots')"
    "length slots' = length slots" "\<forall>k. k \<notin> set is \<longrightarrow> slots' ! k = slots[i := None] ! k"
    by auto
  with Cons.prems show ?case by auto
qed simp

lemma split_indexes:
  assumes "si < sj" and "sj < n"
  shows "mset [si] + mset [sj] + mset (filter (\<lambda>k. k \<noteq> si \<and> k \<noteq> sj) [0..<n]) = mset [0..<n]"
proof -
  have "mset (filter (\<lambda>k. k \<noteq> si \<and> k \<noteq> sj) [0..<n]) = mset_set ({0..<n} - {sj} - {si})"
    by (simp add: mset_set_set [symmetric] flip: mset_filter)
       (intro arg_cong [of _ _ mset_set] set_eqI, simp, blast)
  then show ?thesis
    using assms mset_set.remove [of "{0..<n}" sj] mset_set.remove [of "{0..<n} - {sj}" si]
    by (simp add: mset_upt)
qed

lemma seed_split_spec:
  assumes "length items \<ge> 2"
  shows "\<exists>l ls r rs. seed_split items sig_of = Some (l, ls, r, rs) \<and> mset l + mset r = mset items \<and>
    l \<noteq> [] \<and> r \<noteq> [] \<and> sig_bits ls = (\<Union>x \<in> set l. sig_bits (sig_of x)) \<and>
    sig_bits rs = (\<Union>x \<in> set r. sig_bits (sig_of x))"
proof -
  define sigs where "sigs = map sig_of items"
  have n: "length sigs = length items" by (simp add: sigs_def)
  obtain si sj d where seeds: "pick_seeds sigs = (si, sj, d)" by (metis prod_cases3)
  have sij: "si < sj" "sj < length sigs" using pick_seeds_range [OF _ seeds] assms n by auto
  obtain L ls R rs where fd: "fold (assign_step si sj) (enumerate 0 sigs) ([si], sigs ! si, [sj], sigs ! sj) = (L, ls, R, rs)"
    by (metis prod_cases4)
  have enum: "\<forall>(k, sg) \<in> set (enumerate 0 sigs). sigs ! k = sg" by (auto simp: in_set_enumerate_eq)
  have A: "mset L + mset R = mset [0..<length items]"
    "sig_bits ls = (\<Union>k \<in> set L. sig_bits (sigs ! k))" "sig_bits rs = (\<Union>k \<in> set R. sig_bits (sigs ! k))"
    "si \<in> set L" "sj \<in> set R"
    using assign_fold [OF fd enum] split_indexes [OF sij] by (auto simp: n)
  have "distinct (L @ R)" "set (L @ R) = {0..<length items}"
    using A(1) by (metis distinct_upt mset_append mset_eq_imp_distinct_iff, metis mset_append mset_eq_setD set_upt)
  then have dist: "distinct L" "distinct R" "set L \<inter> set R = {}" "set L \<union> set R = {0..<length items}" by auto
  then have rng: "k \<in> set L \<union> set R \<Longrightarrow> k < length items" for k by auto
  have pre: "\<forall>i \<in> set L. i < length (map Some items) \<and> map Some items ! i = Some (items ! i)" using rng by simp
  obtain slots where t1: "take_slots (map Some items) L = Some (map (nth items) L, slots)"
    "length slots = length items" "\<forall>k. k \<notin> set L \<longrightarrow> slots ! k = map Some items ! k"
    using take_slots_spec [OF dist(1) pre] by auto
  have "\<forall>i \<in> set R. i \<notin> set L" using dist(3) by blast
  then have pre2: "\<forall>i \<in> set R. i < length slots \<and> slots ! i = Some (items ! i)" using rng t1(2,3) by simp
  obtain slots2 where t2: "take_slots slots R = Some (map (nth items) R, slots2)"
    using take_slots_spec [OF dist(2), of slots items] pre2 by auto
  have "seed_split items sig_of = Some (map (nth items) L, ls, map (nth items) R, rs)"
    using seeds sij fd t1(1) t2 by (simp add: seed_split_def sigs_def [symmetric] Let_def)
  moreover have "mset (map (nth items) L) + mset (map (nth items) R) = mset items"
  proof -
    have "mset (map (nth items) (L @ R)) = image_mset (nth items) (mset [0..<length items])"
      unfolding mset_map mset_append A(1) ..
    also have "\<dots> = mset items" by (metis map_nth mset_map)
    finally show ?thesis by simp
  qed
  moreover have "sig_bits ls = (\<Union>x \<in> set (map (nth items) L). sig_bits (sig_of x))"
    "sig_bits rs = (\<Union>x \<in> set (map (nth items) R). sig_bits (sig_of x))"
    using A(2,3) rng by (auto simp: sigs_def)
  ultimately show ?thesis using A(4,5) by (intro exI conjI) auto
qed

text \<open>A node that has just overflowed: one member too many, everything else in order.\<close>

fun node_full :: "nat \<Rightarrow> Node \<Rightarrow> bool" where
  "node_full h (Leaf sg es) \<longleftrightarrow> h = 1 \<and> length es = FANOUT + 1 \<and> (\<forall>e \<in> set es. sig_bits (snd e) \<subseteq> sig_bits sg)"
| "node_full h (Internal sg cs) \<longleftrightarrow> h > 1 \<and> length cs = FANOUT + 1 \<and>
     (\<forall>c \<in> set cs. node_ok (h - 1) c \<and> sig_bits (node_sig c) \<subseteq> sig_bits sg)"

lemma two_halves:
  assumes "mset l + mset r = mset items" and "length items = FANOUT + 1" and "l \<noteq> []" and "r \<noteq> []"
  shows "length l \<le> FANOUT \<and> length r \<le> FANOUT \<and> set l \<union> set r = set items"
proof -
  have "length l + length r = FANOUT + 1" using assms by (metis size_mset size_union)
  moreover have "length l \<ge> 1" "length r \<ge> 1" using assms(3,4) by (simp_all add: Suc_le_eq)
  moreover have "set l \<union> set r = set items" using assms(1) by (metis mset_eq_setD set_append mset_append)
  ultimately show ?thesis by simp
qed

lemma node_split_spec:
  assumes "node_full h n"
  shows "\<exists>l r. node_split n = Some (l, r) \<and> node_ok h l \<and> node_ok h r \<and>
    sig_bits (node_sig l) \<subseteq> sig_bits (node_sig n) \<and> sig_bits (node_sig r) \<subseteq> sig_bits (node_sig n) \<and>
    mset (node_entries l) + mset (node_entries r) = mset (node_entries n)"
proof (cases n)
  case (Leaf sg es)
  with assms have len: "length es = FANOUT + 1" "h = 1" and sub: "\<forall>e \<in> set es. sig_bits (snd e) \<subseteq> sig_bits sg"
    by auto
  from seed_split_spec [of es snd] len(1) obtain l ls r rs where
    s: "seed_split es snd = Some (l, ls, r, rs)" "mset l + mset r = mset es" "l \<noteq> []" "r \<noteq> []"
    "sig_bits ls = (\<Union>x \<in> set l. sig_bits (snd x))" "sig_bits rs = (\<Union>x \<in> set r. sig_bits (snd x))"
    by (auto simp: FANOUT_def)
  note h = two_halves [OF s(2) len(1) s(3,4)]
  have "sig_bits ls \<subseteq> sig_bits sg" "sig_bits rs \<subseteq> sig_bits sg" unfolding s(5,6) using sub h by blast+
  with s h Leaf len show ?thesis by auto
next
  case (Internal sg cs)
  with assms have len: "length cs = FANOUT + 1" "h > 1" "\<forall>c \<in> set cs. node_ok (h - 1) c"
    and sub: "\<forall>c \<in> set cs. sig_bits (node_sig c) \<subseteq> sig_bits sg" by auto
  from seed_split_spec [of cs node_sig] len(1) obtain l ls r rs where
    s: "seed_split cs node_sig = Some (l, ls, r, rs)" "mset l + mset r = mset cs" "l \<noteq> []" "r \<noteq> []"
    "sig_bits ls = (\<Union>x \<in> set l. sig_bits (node_sig x))" "sig_bits rs = (\<Union>x \<in> set r. sig_bits (node_sig x))"
    by (auto simp: FANOUT_def)
  have "mset (concat (map node_entries l)) + mset (concat (map node_entries r)) = mset (concat (map node_entries cs))"
    using arg_cong [OF s(2), of "\<lambda>m. \<Sum>\<^sub># (image_mset (\<lambda>c. mset (node_entries c)) m)"]
    by (simp add: mset_concat sum_mset_sum_list [symmetric] comp_def)
  moreover note h = two_halves [OF s(2) len(1) s(3,4)]
  moreover have "sig_bits ls \<subseteq> sig_bits sg" "sig_bits rs \<subseteq> sig_bits sg" unfolding s(5,6) using sub h by blast+
  moreover have "node_ok h (Internal ls l)" "node_ok h (Internal rs r)" using h len s by auto
  ultimately show ?thesis using s(1) Internal by simp
qed

section \<open>Insertion\<close>

lemma split_some_spec:
  assumes "node_full h n"
  shows "\<exists>l r. split_some n = Some (l, Some r) \<and> node_ok h l \<and> node_ok h r \<and>
    sig_bits (node_sig l) \<subseteq> sig_bits (node_sig n) \<and> sig_bits (node_sig r) \<subseteq> sig_bits (node_sig n) \<and>
    mset (node_entries l) + mset (node_entries r) = mset (node_entries n)"
  using node_split_spec [OF assms] by (auto simp: split_some_def)

lemma concat_update:
  "i < length cs \<Longrightarrow> mset (concat (map f (cs[i := c]))) + mset (f (cs ! i)) = mset (concat (map f cs)) + mset (f c)"
  by (induction cs arbitrary: i) (auto split: nat.split simp: nth_Cons ac_simps)

lemma concat_vec_insert: "mset (concat (map f (vec_insert k c cs))) = mset (f c) + mset (concat (map f cs))"
proof -
  have "mset (concat (map f cs)) = mset (concat (map f (take k cs @ drop k cs)))" by simp
  then show ?thesis unfolding vec_insert_def map_append concat_append mset_append by simp
qed

lemma vec_insert_set [simp]: "set (vec_insert k c cs) = insert c (set cs)"
  by (simp add: vec_insert_def) (metis append_take_drop_id set_append)

lemma length_vec_insert [simp]: "length (vec_insert k c cs) = length cs + 1"
  by (simp add: vec_insert_def)

definition sibling_entries :: "Node option \<Rightarrow> (u32 \<times> Signature) list" where
  "sibling_entries sib = (case sib of None \<Rightarrow> [] | Some n \<Rightarrow> node_entries n)"

definition inserted :: "nat \<Rightarrow> Node \<Rightarrow> u32 \<Rightarrow> Signature \<Rightarrow> Node \<Rightarrow> Node option \<Rightarrow> bool" where
  "inserted h n i sg n' sib \<longleftrightarrow> node_ok h n' \<and> sig_bits (node_sig n') \<subseteq> sig_bits (node_sig n) \<union> sig_bits sg \<and>
     (\<forall>x. sib = Some x \<longrightarrow> node_ok h x \<and> sig_bits (node_sig x) \<subseteq> sig_bits (node_sig n) \<union> sig_bits sg) \<and>
     mset (node_entries n') + mset (sibling_entries sib) = add_mset (i, sg) (mset (node_entries n))"

text \<open>The last step of an insertion: keep the grown node, or split it.\<close>

lemma grown_node:
  assumes "sig_bits (node_sig m) = sig_bits (node_sig n) \<union> sig_bits sg"
    and "mset (node_entries m) = add_mset (i, sg) (mset (node_entries n))"
    and "fits \<Longrightarrow> node_ok h m" and "\<not> fits \<Longrightarrow> node_full h m"
  shows "\<exists>n' sib. (if fits then Some (m, None) else split_some m) = Some (n', sib) \<and> inserted h n i sg n' sib"
proof (cases fits)
  case True
  then show ?thesis using assms by (auto simp: inserted_def sibling_entries_def)
next
  case False
  from split_some_spec [OF assms(4) [OF False]] obtain l r where
    "split_some m = Some (l, Some r)" "node_ok h l" "node_ok h r"
    "sig_bits (node_sig l) \<subseteq> sig_bits (node_sig m)" "sig_bits (node_sig r) \<subseteq> sig_bits (node_sig m)"
    "mset (node_entries l) + mset (node_entries r) = mset (node_entries m)" by blast
  then show ?thesis using False assms(1,2) by (auto simp: inserted_def sibling_entries_def)
qed

lemma mset_exchange:
  assumes "A + O1 = B + C" and "C + S = add_mset e O1"
  shows "A + S = add_mset e B"
proof -
  have "A + S + O1 = (A + O1) + S" by (simp add: ac_simps)
  also have "\<dots> = B + (C + S)" unfolding assms(1) by (simp add: ac_simps)
  also have "\<dots> = add_mset e B + O1" unfolding assms(2) by simp
  finally show ?thesis by (rule add_right_imp_eq)
qed

lemma node_insert_spec:
  "node_ok h n \<Longrightarrow> \<exists>n' sib. node_insert n i sg = Some (n', sib) \<and> inserted h n i sg n' sib"
proof (induction n arbitrary: h)
  case (Leaf nsig es)
  show ?case unfolding node_insert.simps Let_def
    by (rule grown_node) (use Leaf in auto)
next
  case (Internal nsig cs)
  let ?ci = "choose_child cs sg" and ?s = "union_with nsig sg"
  have ci: "?ci < length cs" using Internal.prems choose_child_range by simp
  then have mem: "cs ! ?ci \<in> set cs" by simp
  have ok: "node_ok (h - 1) (cs ! ?ci)" "sig_bits (node_sig (cs ! ?ci)) \<subseteq> sig_bits nsig"
    using Internal.prems mem by auto
  from Internal.IH [OF mem ok(1)] obtain c sib where
    ins: "node_insert (cs ! ?ci) i sg = Some (c, sib)" "inserted (h - 1) (cs ! ?ci) i sg c sib" by blast
  then have c: "node_ok (h - 1) c" "sig_bits (node_sig c) \<subseteq> sig_bits ?s"
    and sib: "\<And>x. sib = Some x \<Longrightarrow> node_ok (h - 1) x \<and> sig_bits (node_sig x) \<subseteq> sig_bits ?s"
    and entm: "mset (node_entries c) + mset (sibling_entries sib) = add_mset (i, sg) (mset (node_entries (cs ! ?ci)))"
    using ok(2) by (auto simp: inserted_def)
  have upd: "\<forall>x \<in> set (cs[?ci := c]). node_ok (h - 1) x \<and> sig_bits (node_sig x) \<subseteq> sig_bits ?s"
    using Internal.prems c by (auto dest!: set_update_subset_insert [THEN subsetD])
  have uent: "mset (concat (map node_entries (cs[?ci := c]))) + mset (sibling_entries sib)
      = add_mset (i, sg) (mset (concat (map node_entries cs)))"
    by (rule mset_exchange [OF concat_update [OF ci, of node_entries c] entm])
  show ?case
  proof (cases sib)
    case None
    then show ?thesis
      using ins ci upd uent Internal.prems by (auto simp: Let_def inserted_def sibling_entries_def)
  next
    case (Some x)
    let ?cs = "vec_insert (?ci + 1) x (cs[?ci := c])"
    have eq: "node_insert (Internal nsig cs) i sg
        = (if length ?cs \<le> FANOUT then Some (Internal ?s ?cs, None) else split_some (Internal ?s ?cs))"
      using ins ci Some by (simp add: Let_def)
    show ?thesis unfolding eq
      by (rule grown_node)
         (use Some sib upd uent Internal.prems concat_vec_insert [of node_entries "?ci + 1" x "cs[?ci := c]"]
           in \<open>auto simp: sibling_entries_def ac_simps\<close>)
  qed
qed

section \<open>Update\<close>

lemma update_entries_spec:
  "fst (update_entries i s es) \<longleftrightarrow> i \<in> fst ` set es"
  "map fst (snd (update_entries i s es)) = map fst es"
  "map_of (snd (update_entries i s es)) = (if fst (update_entries i s es) then (map_of es)(i \<mapsto> s) else map_of es)"
  "set (snd (update_entries i s es)) \<subseteq> insert (i, s) (set es)"
  "\<not> fst (update_entries i s es) \<Longrightarrow> snd (update_entries i s es) = es"
proof (induction i s es rule: update_entries.induct)
  case (2 i s eid esig es)
  note IH = 2
  obtain r es' where u: "update_entries i s es = (r, es')" by force
  { case 1 show ?case using IH(1) u by auto
  next case 2 show ?case using IH(2) u by auto
  next case 3 show ?case using IH(3) u by auto
  next case 4 show ?case using IH(4) u by auto
  next case 5 then show ?case using IH(5) u by (auto split: if_splits) }
qed auto

lemma update_entries_append:
  "update_entries i s (xs @ ys) = (if fst (update_entries i s xs) then (True, snd (update_entries i s xs) @ ys)
    else (fst (update_entries i s ys), snd (update_entries i s xs) @ snd (update_entries i s ys)))"
  by (induction i s xs rule: update_entries.induct) (auto split: prod.splits)

lemma update_is_entries:
  "update_entries i s (node_entries n) = (fst (node_update i s n), node_entries (snd (node_update i s n)))"
  "update_entries i s (concat (map node_entries cs)) =
     (fst (update_children i s cs), concat (map node_entries (snd (update_children i s cs))))"
proof (induction i s n and i s cs rule: node_update_update_children.induct)
  case (4 i s c cs)
  show ?case
  proof (cases "fst (node_update i s c)")
    case True
    then show ?thesis using 4(1) by (auto simp: update_entries_append split: prod.splits bool.splits)
  next
    case False
    then obtain c' where c: "node_update i s c = (False, c')" by (metis prod.collapse)
    then show ?thesis using 4(1) 4(2) [OF c [symmetric]]
      by (auto simp: update_entries_append split: prod.splits)
  qed
qed (auto split: prod.splits bool.splits)

lemma update_sig:
  "sig_bits (node_sig (snd (node_update i s n)))
    = sig_bits (node_sig n) \<union> (if fst (node_update i s n) then sig_bits s else {})"
  by (cases n) (auto split: prod.splits bool.splits)

lemma update_ok:
  "node_ok h n \<Longrightarrow> node_ok h (snd (node_update i s n))"
  "\<forall>c \<in> set cs. node_ok h c \<and> sig_bits (node_sig c) \<subseteq> B \<Longrightarrow>
    length (snd (update_children i s cs)) = length cs \<and>
    (\<forall>c \<in> set (snd (update_children i s cs)). node_ok h c \<and>
       sig_bits (node_sig c) \<subseteq> B \<union> (if fst (update_children i s cs) then sig_bits s else {}))"
proof (induction i s n and i s cs arbitrary: h and h B rule: node_update_update_children.induct)
  case (1 i s sg es)
  have "\<forall>e \<in> set (snd (update_entries i s es)). sig_bits (snd e) \<subseteq> sig_bits sg \<union> (if fst (update_entries i s es) then sig_bits s else {})"
  proof (cases "fst (update_entries i s es)")
    case True
    then show ?thesis using 1 update_entries_spec(4) [of i s es] by fastforce
  next
    case False
    then show ?thesis using 1 update_entries_spec(5) [of i s es] by simp
  qed
  moreover have "length (snd (update_entries i s es)) = length es"
    using update_entries_spec(2) [of i s es] by (metis length_map)
  ultimately show ?case using 1 by (cases "update_entries i s es"; cases "fst (update_entries i s es)") force+
next
  case (2 i s sg cs)
  then have "\<forall>c \<in> set cs. node_ok (h - 1) c \<and> sig_bits (node_sig c) \<subseteq> sig_bits sg" by simp
  from 2(1) [OF this] 2(2) show ?case
    by (cases "update_children i s cs"; cases "fst (update_children i s cs)") force+
next
  case (4 i s c cs)
  have c: "node_ok h (snd (node_update i s c))" using 4 by simp
  have sg: "sig_bits (node_sig (snd (node_update i s c))) \<subseteq> B \<union> (if fst (node_update i s c) then sig_bits s else {})"
    using 4(3) by (auto simp: update_sig)
  show ?case
  proof (cases "fst (node_update i s c)")
    case True
    then obtain c' where "node_update i s c = (True, c')" by (metis prod.collapse)
    then show ?thesis using 4(3) c sg by auto
  next
    case False
    then obtain c' where u: "node_update i s c = (False, c')" by (metis prod.collapse)
    obtain r cs' where r: "update_children i s cs = (r, cs')" by force
    let ?B = "B \<union> (if r then sig_bits s else {})"
    have "\<forall>c \<in> set cs. node_ok h c \<and> sig_bits (node_sig c) \<subseteq> B" using 4(3) by simp
    from 4(2) [OF u [symmetric] _ this] r
    have "length cs' = length cs" "\<forall>c \<in> set cs'. node_ok h c \<and> sig_bits (node_sig c) \<subseteq> ?B" by auto
    moreover have "node_ok h c'" "sig_bits (node_sig c') \<subseteq> ?B" using c sg u by auto
    moreover have "update_children i s (c # cs) = (r, c' # cs')" using u r by simp
    ultimately show ?thesis by (simp only: fst_conv snd_conv list.size list.set ball_simps simp_thms)
  qed
qed simp

section \<open>Bulk build\<close>

lemma chunks_spec:
  assumes "0 < n"
  shows "concat (chunks n xs) = xs" "\<forall>c \<in> set (chunks n xs). c \<noteq> [] \<and> length c \<le> n"
    "chunks n xs = [] \<longleftrightarrow> xs = []"
proof -
  have "concat (chunks n xs) = xs \<and> (\<forall>c \<in> set (chunks n xs). c \<noteq> [] \<and> length c \<le> n) \<and> (chunks n xs = [] \<longleftrightarrow> xs = [])"
    using assms
  proof (induction n xs rule: chunks.induct)
    case (1 n xs)
    then show ?case by (cases "xs = []") (auto simp: chunks.simps [of n xs] chunks.simps [of n "[]"])
  qed
  then show "concat (chunks n xs) = xs" "\<forall>c \<in> set (chunks n xs). c \<noteq> [] \<and> length c \<le> n"
    "chunks n xs = [] \<longleftrightarrow> xs = []" by blast+
qed

lemma union_all_bits [simp]: "sig_bits (union_all sigs) = (\<Union>s \<in> set sigs. sig_bits s)"
proof -
  have "sig_bits (fold (\<lambda>s acc. union_with acc s) sigs a) = sig_bits a \<union> (\<Union>s \<in> set sigs. sig_bits s)" for a
    by (induction sigs arbitrary: a) auto
  then show ?thesis by (simp add: union_all_def)
qed

lemma FANOUT_pos [simp]: "0 < FANOUT" "FANOUT \<noteq> 0"
  by (simp_all add: FANOUT_def)

lemma mk_leaf_ok: "c \<noteq> [] \<Longrightarrow> length c \<le> FANOUT \<Longrightarrow> node_ok 1 (mk_leaf c)"
  by (auto simp: mk_leaf_def)

lemma mk_internal_ok:
  "c \<noteq> [] \<Longrightarrow> length c \<le> FANOUT \<Longrightarrow> h > 0 \<Longrightarrow> \<forall>x \<in> set c. node_ok h x \<Longrightarrow> node_ok (Suc h) (mk_internal c)"
  by (auto simp: mk_internal_def)

lemma map_internal_chunks:
  "concat (map node_entries (map mk_internal css)) = concat (map node_entries (concat css))"
  by (induction css) (auto simp: mk_internal_def)

lemma build_levels_spec:
  assumes "level \<noteq> []" and "h > 0" and "\<forall>c \<in> set level. node_ok h c"
  shows "\<exists>h' r. build_levels level = [r] \<and> node_ok h' r \<and> node_entries r = concat (map node_entries level)"
  using assms
proof (induction level arbitrary: h rule: build_levels.induct)
  case (1 level)
  show ?case
  proof (cases "length level > 1")
    case True
    let ?next = "map mk_internal (chunks FANOUT level)"
    have "c \<subseteq> set level" if "c \<in> set ` set (chunks FANOUT level)" for c
      using that chunks_spec(1) [OF FANOUT_pos(1), of level] by (metis UN_upper imageE set_concat)
    then have ok: "\<forall>c \<in> set ?next. node_ok (Suc h) c"
      using chunks_spec(2) [OF FANOUT_pos(1), of level] 1(3,4) by (auto intro!: mk_internal_ok)
    have ne: "?next \<noteq> []" using 1(2) chunks_spec(3) [OF FANOUT_pos(1), of level] by simp
    from 1(1) [OF True ne _ ok] show ?thesis
      using True map_internal_chunks [of "chunks FANOUT level"] chunks_spec(1) [OF FANOUT_pos(1), of level]
      by (simp add: build_levels.simps [of level])
  next
    case False
    with 1(2) obtain r where "level = [r]" by (metis One_nat_def length_0_conv length_Suc_conv less_one nat_neq_iff)
    with 1(4) show ?thesis by (auto simp: build_levels.simps [of "[r]"])
  qed
qed

section \<open>The tree as a filter\<close>

definition vs_entries :: "VsTree \<Rightarrow> (u32 \<times> Signature) list" where
  "vs_entries t = (case root t of None \<Rightarrow> [] | Some r \<Rightarrow> node_entries r)"

definition vs_ok :: "VsTree \<Rightarrow> bool" where
  "vs_ok t \<longleftrightarrow> entity_count t = length (vs_entries t) \<and> (\<forall>r. root t = Some r \<longrightarrow> (\<exists>h. node_ok h r))"

lemma node_ok_nonempty: "node_ok h n \<Longrightarrow> node_entries n \<noteq> []"
  by (induction h n rule: node_ok.induct) (auto simp: neq_Nil_conv)

lemma vs_new_ok: "vs_ok vs_new" "vs_entries vs_new = []"
  by (simp_all add: vs_ok_def vs_entries_def vs_new_def)

lemma vs_insert_spec:
  assumes "vs_ok t"
  shows "\<exists>t'. vs_insert t i sg = Some t' \<and> vs_ok t' \<and> mset (vs_entries t') = add_mset (i, sg) (mset (vs_entries t))"
proof (cases "root t")
  case None
  then show ?thesis using assms
    by (intro exI [of _ "t\<lparr>root := Some (Leaf sg [(i, sg)]), entity_count := entity_count t + 1\<rparr>"])
       (auto simp: vs_insert_def vs_ok_def vs_entries_def FANOUT_def intro: exI [of _ 1])
next
  case (Some r)
  obtain h where ok: "node_ok h r" using assms Some by (auto simp: vs_ok_def)
  have cnt: "entity_count t = length (node_entries r)" using assms Some by (simp add: vs_ok_def vs_entries_def)
  from node_insert_spec [OF ok] obtain r' sib where ins: "node_insert r i sg = Some (r', sib)" "inserted h r i sg r' sib"
    by blast
  then have m: "node_ok h r'" "mset (node_entries r') + mset (sibling_entries sib) = add_mset (i, sg) (mset (node_entries r))"
    by (auto simp: inserted_def)
  then have len: "length (node_entries r') + length (sibling_entries sib) = Suc (length (node_entries r))"
    by (metis size_add_mset size_mset size_union)
  have "h > 0" using ok by (cases r) auto
  show ?thesis
  proof (cases sib)
    case None
    then show ?thesis using Some ins m len cnt
      by (auto simp: vs_insert_def vs_ok_def vs_entries_def sibling_entries_def)
  next
    case (Some x)
    with ins have "node_ok h x" by (simp add: inserted_def)
    then have "node_ok (Suc h) (Internal (union_with (node_sig r') (node_sig x)) [r', x])"
      using m(1) \<open>h > 0\<close> by (simp add: FANOUT_def)
    then show ?thesis using \<open>root t = Some r\<close> Some ins m len cnt
      by (auto simp: vs_insert_def vs_ok_def vs_entries_def sibling_entries_def)
  qed
qed

lemma vs_build_spec:
  "\<exists>t. vs_build es = Some t \<and> vs_ok t \<and> mset (vs_entries t) = mset es"
proof (cases "es = []")
  case True
  then show ?thesis using vs_new_ok by (simp add: vs_build_def)
next
  case False
  let ?sorted = "sort_key (\<lambda>(_, s). sig_key s) es"
  let ?leaves = "map mk_leaf (chunks FANOUT ?sorted)"
  have "?sorted \<noteq> []" using False by (metis mset.simps(1) mset_sort mset_zero_iff)
  then have "?leaves \<noteq> []" "\<forall>c \<in> set ?leaves. node_ok 1 c"
    using chunks_spec(2,3) [OF FANOUT_pos(1), of ?sorted] by (auto intro!: mk_leaf_ok [simplified])
  from build_levels_spec [OF this(1) _ this(2)] obtain h r where
    r: "build_levels ?leaves = [r]" "node_ok h r" "node_entries r = concat (map node_entries ?leaves)" by auto
  have "concat (map node_entries ?leaves) = ?sorted"
    using chunks_spec(1) [OF FANOUT_pos(1), of ?sorted] by (simp add: comp_def mk_leaf_def)
  with r False show ?thesis by (auto simp: vs_build_def Let_def vs_ok_def vs_entries_def)
qed

lemma vs_update_spec:
  assumes "vs_ok t"
  shows "vs_ok (snd (vs_update t i s))"
    and "update_entries i s (vs_entries t) = (fst (vs_update t i s), vs_entries (snd (vs_update t i s)))"
proof -
  show e: "update_entries i s (vs_entries t) = (fst (vs_update t i s), vs_entries (snd (vs_update t i s)))"
    by (cases "root t") (auto simp: vs_update_def vs_entries_def update_is_entries split: prod.splits)
  have "length (vs_entries (snd (vs_update t i s))) = length (vs_entries t)"
    using update_entries_spec(2) [of i s "vs_entries t"] e by (metis length_map snd_conv)
  moreover have "node_ok h n \<Longrightarrow> node_update i s n = (b, n') \<Longrightarrow> \<exists>h. node_ok h n'" for h n b n'
    using update_ok(1) [of h n i s] by auto
  ultimately show "vs_ok (snd (vs_update t i s))"
    using assms by (cases "root t") (auto simp: vs_update_def vs_ok_def vs_entries_def split: prod.splits)
qed

text \<open>The trait \<open>SigFilter\<close>: an index of (entity, signature) pairs answers a query signature with the
  ids whose signature contains it, or \<open>None\<close> for no filtering, which it may only do when empty.\<close>

locale sig_filter =
  fixes ok :: "'f \<Rightarrow> bool"
    and indexed :: "'f \<Rightarrow> (u32 \<times> Signature) list"
    and cands :: "'f \<Rightarrow> Signature \<Rightarrow> u32 list option"
  assumes cands_Some: "ok f \<Longrightarrow> cands f q = Some ids \<Longrightarrow>
      mset ids = image_mset fst (filter_mset (\<lambda>(_, s). contains s q) (mset (indexed f)))"
    and cands_None: "ok f \<Longrightarrow> cands f q = None \<longleftrightarrow> indexed f = []"
begin

lemma cands_set:
  assumes "ok f" and "cands f q = Some ids"
  shows "i \<in> set ids \<longleftrightarrow> (\<exists>s. (i, s) \<in> set (indexed f) \<and> contains s q)"
proof -
  have "set ids = fst ` {e \<in> set (indexed f). case e of (_, s) \<Rightarrow> contains s q}"
    using arg_cong [OF cands_Some [OF assms], of set_mset] by simp
  then show ?thesis by force
qed

text \<open>Pruning a candidate list through the filter loses no id whose signature contains the query.\<close>

lemma prune_sound:
  assumes "ok f" and "(i, s) \<in> set (indexed f)" and "contains s q"
  shows "\<exists>ids. cands f q = Some ids \<and> i \<in> set ids"
proof -
  have "indexed f \<noteq> []" using assms(2) by auto
  then obtain ids where "cands f q = Some ids" using cands_None [OF assms(1), of q] by auto
  then show ?thesis using cands_set [OF assms(1)] assms(2,3) by auto
qed

text \<open>The answer, as a multiset, depends on the indexed pairs alone and not on the tree's shape.\<close>

lemma answers_agree:
  assumes "ok f" and "ok g" and "mset (indexed f) = mset (indexed g)"
  shows "map_option mset (cands f q) = map_option mset (cands g q)"
proof (cases "indexed f = []")
  case True
  then have "indexed g = []" using assms(3) by simp
  with True show ?thesis using cands_None [OF assms(1), of q] cands_None [OF assms(2), of q] by simp
next
  case False
  then have "indexed g \<noteq> []" using assms(3) by auto
  then obtain a b where "cands f q = Some a" "cands g q = Some b"
    using False cands_None [OF assms(1), of q] cands_None [OF assms(2), of q] by auto
  then show ?thesis using cands_Some [OF assms(1)] cands_Some [OF assms(2)] assms(3) by simp
qed

end

interpretation mem_filter: sig_filter vs_ok vs_entries candidates
proof
  fix f q ids assume "vs_ok f" and "candidates f q = Some ids"
  then obtain r h where "root f = Some r" "node_ok h r" "ids = search r q"
    by (auto simp: candidates_def vs_ok_def split: option.splits)
  then show "mset ids = image_mset fst (filter_mset (\<lambda>(_, s). contains s q) (mset (vs_entries f)))"
    by (simp add: search_exact vs_entries_def)
next
  fix f q assume "vs_ok f"
  then show "candidates f q = None \<longleftrightarrow> vs_entries f = []"
    using node_ok_nonempty by (auto simp: candidates_def vs_ok_def vs_entries_def split: option.splits)
qed

section \<open>Properties\<close>

text \<open>C17. Bulk build: for every list of (entity, signature) pairs \<open>build\<close> terminates without a panic in
  a balanced tree that indexes exactly these pairs, and a candidate search on it returns exactly the ids
  whose signature contains the query (each as often as it is indexed); the answer is \<open>None\<close> only for the
  empty tree.\<close>

theorem vs_build_correct:
  "\<exists>t. vs_build es = Some t \<and> vs_ok t \<and>
    candidates t q = (if es = [] then None else Some (map fst (filter (\<lambda>(_, s). contains s q) (vs_entries t)))) \<and>
    mset (vs_entries t) = mset es"
proof -
  obtain t where t: "vs_build es = Some t" "vs_ok t" "mset (vs_entries t) = mset es" using vs_build_spec by blast
  then have e: "vs_entries t = [] \<longleftrightarrow> es = []" by (metis mset_zero_iff)
  have "candidates t q = (if es = [] then None else Some (map fst (filter (\<lambda>(_, s). contains s q) (vs_entries t))))"
  proof (cases "root t")
    case None
    then show ?thesis using e by (simp add: vs_entries_def candidates_def)
  next
    case (Some r)
    with t(2) obtain h where h: "node_ok h r" by (auto simp: vs_ok_def)
    then have "vs_entries t \<noteq> []" using Some node_ok_nonempty by (simp add: vs_entries_def)
    with h Some e show ?thesis by (simp add: vs_entries_def candidates_def search_exact)
  qed
  with t show ?thesis by blast
qed

text \<open>C22. Incremental insertion is equivalent to having built with the entity included: from any
  well-formed tree, inserting pairs one at a time, with all the splits and root growth this causes, never
  panics, keeps the tree well formed, and answers every query with the same multiset of ids as a tree
  bulk-built from all the pairs.\<close>

theorem vs_insert_all_as_build:
  assumes "vs_ok t"
  shows "\<exists>t' b. vs_insert_all t es = Some t' \<and> vs_ok t' \<and> vs_build (vs_entries t @ es) = Some b \<and>
    map_option mset (candidates t' q) = map_option mset (candidates b q)"
proof -
  have "\<exists>t'. vs_insert_all t es = Some t' \<and> vs_ok t' \<and> mset (vs_entries t') = mset (vs_entries t) + mset es"
    using assms
  proof (induction es arbitrary: t)
    case (Cons e es)
    obtain i sg where e: "e = (i, sg)" by (cases e)
    from vs_insert_spec [OF Cons.prems] obtain t1 where
      t1: "vs_insert t i sg = Some t1" "vs_ok t1" "mset (vs_entries t1) = add_mset (i, sg) (mset (vs_entries t))" by blast
    from Cons.IH [OF t1(2)] show ?case using t1 e by auto
  qed auto
  then obtain t' where t': "vs_insert_all t es = Some t'" "vs_ok t'" "mset (vs_entries t') = mset (vs_entries t @ es)"
    by auto
  obtain b where b: "vs_build (vs_entries t @ es) = Some b" "vs_ok b" "mset (vs_entries b) = mset (vs_entries t @ es)"
    using vs_build_spec by blast
  have "map_option mset (candidates t' q) = map_option mset (candidates b q)"
    using t'(2,3) b(2,3) by (intro mem_filter.answers_agree) simp_all
  with t' b show ?thesis by blast
qed

text \<open>In-place update: \<open>update\<close> reports whether the entity is indexed; if so its entry becomes exactly
  the new signature and every other entry is untouched, if not nothing changes. The tree invariant
  survives signatures that grow and signatures that shrink, so searches stay exact.\<close>

lemma vs_update_exact:
  assumes "vs_ok t"
  shows "vs_ok (snd (vs_update t i s)) \<and> (fst (vs_update t i s) \<longleftrightarrow> i \<in> fst ` set (vs_entries t)) \<and>
    map fst (vs_entries (snd (vs_update t i s))) = map fst (vs_entries t) \<and>
    map_of (vs_entries (snd (vs_update t i s))) =
      (if fst (vs_update t i s) then (map_of (vs_entries t))(i \<mapsto> s) else map_of (vs_entries t))"
  using vs_update_spec [OF assms, of i s] update_entries_spec(1-3) [of i s "vs_entries t"] by simp

text \<open>Applications at a concrete tree.\<close>

definition edge_sig :: Signature where
  "edge_sig = encode_edge sig_new 7 42 Out"

definition one_entity :: VsTree where
  "one_entity = \<lparr>root = Some (Leaf edge_sig [(5, edge_sig)]), entity_count = 1\<rparr>"

lemma one_entity_ok: "vs_ok one_entity"
  by (auto simp: one_entity_def vs_ok_def vs_entries_def FANOUT_def intro!: exI [of _ 1])

theorem vs_insert_all_as_build_witness:
  "\<exists>t' b. vs_insert_all one_entity [(6, sig_new), (8, edge_sig)] = Some t' \<and> vs_ok t' \<and>
    vs_build (vs_entries one_entity @ [(6, sig_new), (8, edge_sig)]) = Some b \<and>
    map_option mset (candidates t' edge_sig) = map_option mset (candidates b edge_sig)"
  using vs_insert_all_as_build [OF one_entity_ok] by blast

end
