(* ===== verification/Index.thy ===== *)
theory Index
  imports TripleStore VsTree
begin

text \<open>
  How \<open>Database\<close> (\<open>src/db/mod.rs\<close>) keeps the VS-tree in step with the triple store: signing every
  entity for a bulk build (\<open>vstree_entries\<close>, \<open>build_vstree\<close>) and the incremental path of an insert
  (\<open>vstree_index_insert\<close>, \<open>upsert_entity_signature\<close>). \<open>index_ok\<close> says that the tree is well formed and
  holds exactly one entry per entity of the store, carrying that entity's current signature.
\<close>

section \<open>Signing entities\<close>

definition entity_sig :: "TripleStore \<Rightarrow> u32 \<Rightarrow> Signature" where
  "entity_sig st e = fold (\<lambda>(p, s) sg. encode_edge sg p s In) (ps_by_o st e)
     (fold (\<lambda>(p, ob) sg. encode_edge sg p ob Out) (po_by_s st e) sig_new)"

definition vstree_entries :: "TripleStore \<Rightarrow> (u32 \<times> Signature) list" where
  "vstree_entries st = map (\<lambda>e. (e, entity_sig st e))
     (sort_dedup (subject_keys st @ filter is_entity_id (object_keys st)))"

definition build_vstree :: "TripleStore \<Rightarrow> VsTree option" where
  "build_vstree st = vs_build (vstree_entries st)"

definition upsert_entity_signature :: "TripleStore \<Rightarrow> VsTree \<Rightarrow> u32 \<Rightarrow> VsTree option" where
  "upsert_entity_signature st t e =
     (let sg = entity_sig st e in
      case vs_update t e sg of (True, t') \<Rightarrow> Some t' | (False, t') \<Rightarrow> vs_insert t' e sg)"

definition vstree_index_insert :: "TripleStore \<Rightarrow> VsTree \<Rightarrow> IdTriple \<Rightarrow> VsTree option" where
  "vstree_index_insert st t i = (case upsert_entity_signature st t (sub i) of
     None \<Rightarrow> None
   | Some t' \<Rightarrow> if is_entity_id (obj i) then upsert_entity_signature st t' (obj i) else Some t')"

section \<open>Consistency of tree and store\<close>

definition entity_ids :: "IdTriple set \<Rightarrow> u32 set" where
  "entity_ids T = sub ` T \<union> {e \<in> obj ` T. is_entity_id e}"

definition index_ok :: "TripleStore \<Rightarrow> VsTree \<Rightarrow> bool" where
  "index_ok st t \<longleftrightarrow> vs_ok t \<and> distinct (map fst (vs_entries t)) \<and>
     map_of (vs_entries t) = (\<lambda>e. if e \<in> entity_ids (triples st) then Some (entity_sig st e) else None)"

lemma sub_image_iff: "e \<in> sub ` T \<longleftrightarrow> (\<exists>p ob. IdTriple e p ob \<in> T)"
proof
  assume "e \<in> sub ` T"
  then obtain t where "t \<in> T" "e = sub t" by blast
  then show "\<exists>p ob. IdTriple e p ob \<in> T" by (cases t) auto
qed (auto intro: rev_image_eqI)

lemma obj_image_iff: "e \<in> obj ` T \<longleftrightarrow> (\<exists>p s. IdTriple s p e \<in> T)"
proof
  assume "e \<in> obj ` T"
  then obtain t where "t \<in> T" "e = obj t" by blast
  then show "\<exists>p s. IdTriple s p e \<in> T" by (cases t) auto
qed (auto intro: rev_image_eqI)

lemma keys_of_store:
  assumes "store_inv st"
  shows "set (subject_keys st) = sub ` triples st" "set (object_keys st) = obj ` triples st"
proof -
  note D = store_invD [OF assms]
  have ne: "adj_get m k \<noteq> [] \<longleftrightarrow> (\<exists>a b. (a, b) \<in> set (adj_get m k))" for m k
    by (cases "adj_get m k") auto
  have "e \<in> set (subject_keys st) \<longleftrightarrow> (\<exists>p ob. IdTriple e p ob \<in> triples st)" for e
    using adj_wf_key_nonempty [OF D(1), of e] ne [of "s2po st" e] D(4) by (simp add: subject_keys_def)
  moreover have "e \<in> set (object_keys st) \<longleftrightarrow> (\<exists>p s. IdTriple s p e \<in> triples st)" for e
    using adj_wf_key_nonempty [OF D(2), of e] ne [of "o2ps st" e] D(5) by (simp add: object_keys_def)
  ultimately show "set (subject_keys st) = sub ` triples st" "set (object_keys st) = obj ` triples st"
    unfolding set_eq_iff sub_image_iff obj_image_iff by blast+
qed

lemma vstree_entries_spec:
  assumes "store_inv st"
  shows "distinct (map fst (vstree_entries st))"
    "map_of (vstree_entries st) = (\<lambda>e. if e \<in> entity_ids (triples st) then Some (entity_sig st e) else None)"
proof -
  let ?ids = "sort_dedup (subject_keys st @ filter is_entity_id (object_keys st))"
  have set: "set ?ids = entity_ids (triples st)"
    by (auto simp: keys_of_store [OF assms] entity_ids_def)
  show "distinct (map fst (vstree_entries st))"
    by (simp add: vstree_entries_def comp_def ascending_distinct)
  show "map_of (vstree_entries st) = (\<lambda>e. if e \<in> entity_ids (triples st) then Some (entity_sig st e) else None)"
    unfolding vstree_entries_def map_of_map_keys set [symmetric]
    by (auto simp: fun_eq_iff map_of_map_restrict restrict_map_def)
qed

lemma map_of_mset:
  assumes "mset xs = mset ys" and "distinct (map fst ys)"
  shows "distinct (map fst xs)" "map_of xs = map_of ys"
proof -
  have "mset (map fst xs) = mset (map fst ys)" using assms(1) by simp
  then show d: "distinct (map fst xs)" using assms(2) mset_eq_imp_distinct_iff by blast
  show "map_of xs = map_of ys"
    using map_of_inject_set [OF d assms(2)] mset_eq_setD [OF assms(1)] by simp
qed

lemma upsert_spec:
  assumes "vs_ok t" and "distinct (map fst (vs_entries t))"
  shows "\<exists>t'. upsert_entity_signature st t e = Some t' \<and> vs_ok t' \<and> distinct (map fst (vs_entries t')) \<and>
    map_of (vs_entries t') = (map_of (vs_entries t))(e \<mapsto> entity_sig st e)"
proof -
  let ?s = "entity_sig st e"
  obtain b t1 where u: "vs_update t e ?s = (b, t1)" by force
  have ok: "vs_ok t1" and ent: "update_entries e ?s (vs_entries t) = (b, vs_entries t1)"
    using vs_update_spec [OF assms(1), of e ?s] u by auto
  note spec = update_entries_spec [of e ?s "vs_entries t", unfolded ent fst_conv snd_conv]
  have dist: "distinct (map fst (vs_entries t1))" using spec(2) assms(2) by simp
  show ?thesis
  proof (cases b)
    case True
    then show ?thesis using u ok dist spec(3) by (simp add: upsert_entity_signature_def Let_def)
  next
    case False
    obtain t2 where ins: "vs_insert t1 e ?s = Some t2" "vs_ok t2"
      "mset (vs_entries t2) = mset ((e, ?s) # vs_entries t1)" using vs_insert_spec [OF ok, of e ?s] by auto
    have "distinct (map fst ((e, ?s) # vs_entries t1))" using dist False spec(1,5) by simp
    from map_of_mset [OF ins(3) this] have "distinct (map fst (vs_entries t2))"
      "map_of (vs_entries t2) = (map_of (vs_entries t))(e \<mapsto> ?s)" using spec(5) False by auto
    then show ?thesis using u False ins by (simp add: upsert_entity_signature_def Let_def)
  qed
qed

lemma entity_sig_cong:
  assumes "store_inv a" and "store_inv b"
    and "\<And>p ob. IdTriple e p ob \<in> triples a \<longleftrightarrow> IdTriple e p ob \<in> triples b"
    and "\<And>p s. IdTriple s p e \<in> triples a \<longleftrightarrow> IdTriple s p e \<in> triples b"
  shows "entity_sig a e = entity_sig b e"
proof -
  have "po_by_s a e = po_by_s b e"
    by (rule ascending_eqI) (use assms in \<open>auto simp: mem.po_asc mem.po_set\<close>)
  moreover have "ps_by_o a e = ps_by_o b e"
    by (rule ascending_eqI) (use assms in \<open>auto simp: mem.ps_asc mem.ps_set\<close>)
  ultimately show ?thesis by (simp add: entity_sig_def)
qed

lemma build_vstree_spec:
  assumes "store_inv st"
  shows "\<exists>t. build_vstree st = Some t \<and> index_ok st t"
proof -
  obtain t where t: "build_vstree st = Some t" "vs_ok t" "mset (vs_entries t) = mset (vstree_entries st)"
    using vs_build_spec unfolding build_vstree_def by blast
  with map_of_mset [OF t(3) vstree_entries_spec(1) [OF assms]] vstree_entries_spec(2) [OF assms]
  show ?thesis by (auto simp: index_ok_def)
qed

text \<open>The object of an insertion keeps a stale entry if it is a literal that is a subject of the store and the new edge changes its
  signature; nothing else can go wrong.\<close>

definition refreshed :: "TripleStore \<Rightarrow> TripleStore \<Rightarrow> IdTriple \<Rightarrow> bool" where
  "refreshed st st' i \<longleftrightarrow> is_entity_id (obj i) \<or> obj i = sub i \<or> obj i \<notin> sub ` triples st \<or> entity_sig st' (obj i) = entity_sig st (obj i)"

lemma index_insert_step:
  assumes "store_inv st" and "index_ok st t"
  shows "\<exists>t'. vstree_index_insert (snd (ts_insert st i)) t i = Some t' \<and>
    (index_ok (snd (ts_insert st i)) t' \<longleftrightarrow> refreshed st (snd (ts_insert st i)) i)"
proof -
  let ?st = "snd (ts_insert st i)"
  have inv: "store_inv ?st" and T: "triples ?st = insert i (triples st)"
    using ts_insert_spec(2,3) [OF assms(1)] by auto
  have same: "entity_sig ?st e = entity_sig st e" if "e \<noteq> sub i" "e \<noteq> obj i" for e
    using that by (intro entity_sig_cong [OF inv assms(1)]) (auto simp: T)
  have ids: "entity_ids (insert i (triples st)) = insert (sub i) ({e. e = obj i \<and> is_entity_id e} \<union> entity_ids (triples st))"
    by (auto simp: entity_ids_def)
  note old = assms(2) [unfolded index_ok_def]
  obtain t1 where t1: "upsert_entity_signature ?st t (sub i) = Some t1" "vs_ok t1"
    "distinct (map fst (vs_entries t1))" "map_of (vs_entries t1) = (map_of (vs_entries t))(sub i \<mapsto> entity_sig ?st (sub i))"
    using upsert_spec [of t ?st "sub i"] old by blast
  show ?thesis
  proof (cases "is_entity_id (obj i)")
    case True
    obtain t2 where t2: "upsert_entity_signature ?st t1 (obj i) = Some t2" "vs_ok t2"
      "distinct (map fst (vs_entries t2))" "map_of (vs_entries t2) = (map_of (vs_entries t1))(obj i \<mapsto> entity_sig ?st (obj i))"
      using upsert_spec [OF t1(2,3)] by blast
    then have "index_ok ?st t2"
      using t1(4) old same True by (auto simp: index_ok_def T ids fun_eq_iff)
    then show ?thesis using True t1 t2 by (simp add: vstree_index_insert_def refreshed_def)
  next
    case False
    have lit: "obj i \<in> entity_ids (triples st) \<longleftrightarrow> obj i \<in> sub ` triples st" using False by (auto simp: entity_ids_def)
    have "index_ok ?st t1 \<longleftrightarrow> (\<forall>e. e \<noteq> sub i \<longrightarrow> e \<in> entity_ids (triples st) \<longrightarrow> entity_sig ?st e = entity_sig st e)"
      using t1 old False by (auto simp: index_ok_def T ids fun_eq_iff)
    also have "\<dots> \<longleftrightarrow> (obj i \<noteq> sub i \<longrightarrow> obj i \<in> sub ` triples st \<longrightarrow> entity_sig ?st (obj i) = entity_sig st (obj i))"
      using same lit by metis
    also have "\<dots> \<longleftrightarrow> refreshed st ?st i" using False by (auto simp: refreshed_def)
    finally show ?thesis using False t1 by (simp add: vstree_index_insert_def)
  qed
qed

lemma index_insert_entities:
  assumes "store_inv st" and "index_ok st t" and "\<forall>x \<in> insert i (triples st). is_entity_id (sub x)"
  shows "\<exists>t'. vstree_index_insert (snd (ts_insert st i)) t i = Some t' \<and> index_ok (snd (ts_insert st i)) t'"
proof -
  have "refreshed st (snd (ts_insert st i)) i" using assms(3) by (auto simp: refreshed_def)
  then show ?thesis using index_insert_step [OF assms(1,2), of i] by blast
qed

section \<open>Properties\<close>

text \<open>A full rebuild is consistent: over every consistent store \<open>build_vstree\<close> succeeds and indexes
  each subject and each entity object exactly once, with the signature of all its current edges.\<close>

lemma build_vstree_index_ok:
  assumes "store_inv st"
  shows "\<exists>t. build_vstree st = Some t \<and> index_ok st t"
  by (rule build_vstree_spec [OF assms])

text \<open>C18. Incremental maintenance against a rebuild: if the tree is consistent with the store, then inserting a triple and running
  \<open>vstree_index_insert\<close> never fails, and afterwards the tree is consistent with the grown store, that is, it holds the same entries a
  rebuild from scratch would, except in one case: the object is a literal other than the triple's subject that the store has as a
  subject (which the range rule of the reasoner can bring about) and whose signature the new edge changes. Then its entry is stale.\<close>

theorem index_insert_consistent:
  assumes "store_inv st" and "index_ok st t"
  shows "\<exists>t'. vstree_index_insert (snd (ts_insert st i)) t i = Some t' \<and>
    (index_ok (snd (ts_insert st i)) t' \<longleftrightarrow> \<not> (\<not> is_entity_id (obj i) \<and> obj i \<noteq> sub i \<and> obj i \<in> sub ` triples st \<and>
      entity_sig (snd (ts_insert st i)) (obj i) \<noteq> entity_sig st (obj i)))"
  using index_insert_step [OF assms, of i] by (simp add: refreshed_def)

theorem index_insert_consistent_witness:
  "\<exists>t'. vstree_index_insert (snd (ts_insert ts_new (IdTriple 1 2 3))) vs_new (IdTriple 1 2 3) = Some t' \<and>
    index_ok (snd (ts_insert ts_new (IdTriple 1 2 3))) t'"
proof -
  have "index_ok ts_new vs_new" by (simp add: index_ok_def vs_new_ok entity_ids_def store_inv_new)
  from index_insert_consistent [OF store_inv_new(1) this, of "IdTriple 1 2 3"] show ?thesis by (auto simp: store_inv_new)
qed

end
