(* ===== verification/Dict.thy ===== *)
theory Dict
  imports Model "HOL-Library.AList"
begin

text \<open>
  The dictionaries of \<open>src/dict/mod.rs\<close>: the interner (string to dense index and back, with a
  stack of reclaimed indices) and the three-space dictionary built from it.

  \<open>None\<close> as the result of an operation is a panic (an exhausted id space, an index out of range);
  the invariant lemmas show which states exclude it. The \<open>HashMap\<close> is an association list with
  distinct keys. The out-of-core backing (\<open>DiskTermSource\<close>) is a record of its lookup functions.
  The interface of a bidirectional dictionary is the locale \<open>id_dictionary\<close>; the interner
  interprets it, and the dictionary's properties rest on the interpretation.
\<close>

section \<open>Interner\<close>

record Interner =
  forward :: "(rstring \<times> u32) list"
  backward :: "rstring option list"
  free :: "u32 list"

definition interner_default :: Interner where
  "interner_default = \<lparr>forward = [], backward = [], free = []\<rparr>"

definition intern :: "Interner \<Rightarrow> rstring \<Rightarrow> (u32 \<times> Interner) option" where
  "intern i s = (case map_of (forward i) s of
     Some ix \<Rightarrow> Some (ix, i)
   | None \<Rightarrow>
       if free i \<noteq> [] then
         (let reused = last (free i) in
          if unat reused < length (backward i)
          then Some (reused, i\<lparr>free := butlast (free i),
                               backward := (backward i)[unat reused := Some s],
                               forward := AList.update s reused (forward i)\<rparr>)
          else None)
       else if length (backward i) < 2 ^ 32 then
         (let ix = word_of_nat (length (backward i)) in
          Some (ix, i\<lparr>backward := backward i @ [Some s], forward := AList.update s ix (forward i)\<rparr>))
       else None)"

definition interner_get :: "Interner \<Rightarrow> rstring \<Rightarrow> u32 option" where
  "interner_get i s = map_of (forward i) s"

definition resolve :: "Interner \<Rightarrow> u32 \<Rightarrow> rstring option" where
  "resolve i ix = (if unat ix < length (backward i) then backward i ! unat ix else None)"

definition interner_free :: "Interner \<Rightarrow> rstring \<Rightarrow> (u32 option \<times> Interner) option" where
  "interner_free i s = (case map_of (forward i) s of
     None \<Rightarrow> Some (None, i)
   | Some ix \<Rightarrow>
       if unat ix < length (backward i)
       then Some (Some ix, i\<lparr>forward := AList.delete s (forward i),
                             backward := (backward i)[unat ix := None],
                             free := free i @ [ix]\<rparr>)
       else None)"

definition interner_len :: "Interner \<Rightarrow> nat" where
  "interner_len i = length (forward i)"

definition strings :: "Interner \<Rightarrow> rstring list" where
  "strings i = List.map_filter id (backward i)"

definition entries :: "Interner \<Rightarrow> (u32 \<times> rstring) list" where
  "entries i = List.map_filter (\<lambda>(k, so). map_option (\<lambda>s. (word_of_nat k, s)) so)
                 (enumerate 0 (backward i))"

section \<open>Dictionary\<close>

record DiskTermSource =
  ds_entity_id :: "rstring \<Rightarrow> u32 option"
  ds_literal_id :: "rstring \<Rightarrow> u32 option"
  ds_predicate_id :: "rstring \<Rightarrow> u32 option"
  ds_id_to_string :: "u32 \<Rightarrow> rstring option"
  ds_predicate_to_string :: "u32 \<Rightarrow> rstring option"
  ds_entity_num :: nat
  ds_literal_num :: nat
  ds_predicate_num :: nat
  ds_resident_string_count :: nat

record Dictionary =
  entities :: Interner
  literals :: Interner
  predicates :: Interner
  backing :: "DiskTermSource option"

definition dict_new :: Dictionary where
  "dict_new = \<lparr>entities = interner_default, literals = interner_default,
               predicates = interner_default, backing = None\<rparr>"

definition from_backing :: "DiskTermSource \<Rightarrow> Dictionary" where
  "from_backing b = dict_new\<lparr>backing := Some b\<rparr>"

definition is_disk_backed :: "Dictionary \<Rightarrow> bool" where
  "is_disk_backed d \<longleftrightarrow> backing d \<noteq> None"

definition intern_entity :: "Dictionary \<Rightarrow> rstring \<Rightarrow> (u32 \<times> Dictionary) option" where
  "intern_entity d key =
     map_option (\<lambda>(ix, i). (ix, d\<lparr>entities := i\<rparr>)) (intern (entities d) key)"

definition entity_id :: "Dictionary \<Rightarrow> rstring \<Rightarrow> u32 option" where
  "entity_id d key = (case backing d of
     Some b \<Rightarrow> ds_entity_id b key | None \<Rightarrow> interner_get (entities d) key)"

definition intern_literal :: "Dictionary \<Rightarrow> rstring \<Rightarrow> (u32 \<times> Dictionary) option" where
  "intern_literal d key = (case intern (literals d) key of
     None \<Rightarrow> None
   | Some (ix, i) \<Rightarrow>
       map_option (\<lambda>pid. (pid, d\<lparr>literals := i\<rparr>)) (checked_add32 ix LITERAL_FIRST_ID))"

text \<open>The outer \<open>None\<close> is the panic of \<open>expect\<close>, the inner one an unknown key.\<close>

definition literal_id :: "Dictionary \<Rightarrow> rstring \<Rightarrow> u32 option option" where
  "literal_id d key = (case backing d of
     Some b \<Rightarrow> Some (ds_literal_id b key)
   | None \<Rightarrow> (case interner_get (literals d) key of
       None \<Rightarrow> Some None
     | Some ix \<Rightarrow> map_option Some (checked_add32 ix LITERAL_FIRST_ID)))"

definition intern_predicate :: "Dictionary \<Rightarrow> rstring \<Rightarrow> (u32 \<times> Dictionary) option" where
  "intern_predicate d key =
     map_option (\<lambda>(ix, i). (ix, d\<lparr>predicates := i\<rparr>)) (intern (predicates d) key)"

definition predicate_id :: "Dictionary \<Rightarrow> rstring \<Rightarrow> u32 option" where
  "predicate_id d key = (case backing d of
     Some b \<Rightarrow> ds_predicate_id b key | None \<Rightarrow> interner_get (predicates d) key)"

definition intern_term :: "Dictionary \<Rightarrow> Term \<Rightarrow> (u32 \<times> Dictionary) option" where
  "intern_term d t = (if is_literal t then intern_literal d (dict_key t)
                      else intern_entity d (dict_key t))"

definition term_id :: "Dictionary \<Rightarrow> Term \<Rightarrow> u32 option option" where
  "term_id d t = (if is_literal t then literal_id d (dict_key t)
                  else Some (entity_id d (dict_key t)))"

definition id_to_string :: "Dictionary \<Rightarrow> u32 \<Rightarrow> rstring option" where
  "id_to_string d ix =
     (if ix = INVALID_ENTITY_LITERAL_ID then None
      else case backing d of
        Some b \<Rightarrow> ds_id_to_string b ix
      | None \<Rightarrow> if ix \<ge> LITERAL_FIRST_ID then resolve (literals d) (ix - LITERAL_FIRST_ID)
                else resolve (entities d) ix)"

definition predicate_to_string :: "Dictionary \<Rightarrow> u32 \<Rightarrow> rstring option" where
  "predicate_to_string d ix =
     (if ix = INVALID_PRED_ID then None
      else case backing d of
        Some b \<Rightarrow> ds_predicate_to_string b ix | None \<Rightarrow> resolve (predicates d) ix)"

definition entity_num :: "Dictionary \<Rightarrow> nat" where
  "entity_num d = (case backing d of Some b \<Rightarrow> ds_entity_num b | None \<Rightarrow> interner_len (entities d))"

definition literal_num :: "Dictionary \<Rightarrow> nat" where
  "literal_num d = (case backing d of Some b \<Rightarrow> ds_literal_num b | None \<Rightarrow> interner_len (literals d))"

definition predicate_num :: "Dictionary \<Rightarrow> nat" where
  "predicate_num d =
     (case backing d of Some b \<Rightarrow> ds_predicate_num b | None \<Rightarrow> interner_len (predicates d))"

definition entity_literal_entries :: "Dictionary \<Rightarrow> (u32 \<times> rstring) list" where
  "entity_literal_entries d =
     (if backing d \<noteq> None then []
      else entries (entities d) @ map (\<lambda>(ix, s). (ix + LITERAL_FIRST_ID, s)) (entries (literals d)))"

definition all_strings_sorted :: "Dictionary \<Rightarrow> rstring list" where
  "all_strings_sorted d =
     sort_dedup (strings (entities d) @ strings (literals d) @ strings (predicates d))"

definition resident_string_count :: "Dictionary \<Rightarrow> nat" where
  "resident_string_count d = (case backing d of
     Some b \<Rightarrow> ds_resident_string_count b
   | None \<Rightarrow> interner_len (entities d) + interner_len (literals d) + interner_len (predicates d))"

definition free_entity :: "Dictionary \<Rightarrow> rstring \<Rightarrow> (u32 option \<times> Dictionary) option" where
  "free_entity d key =
     map_option (\<lambda>(r, i). (r, d\<lparr>entities := i\<rparr>)) (interner_free (entities d) key)"

definition free_literal :: "Dictionary \<Rightarrow> rstring \<Rightarrow> (u32 option \<times> Dictionary) option" where
  "free_literal d key = (case interner_free (literals d) key of
     None \<Rightarrow> None
   | Some (None, i) \<Rightarrow> Some (None, d\<lparr>literals := i\<rparr>)
   | Some (Some ix, i) \<Rightarrow>
       map_option (\<lambda>pid. (Some pid, d\<lparr>literals := i\<rparr>)) (checked_add32 ix LITERAL_FIRST_ID))"

definition free_predicate :: "Dictionary \<Rightarrow> rstring \<Rightarrow> (u32 option \<times> Dictionary) option" where
  "free_predicate d key =
     map_option (\<lambda>(r, i). (r, d\<lparr>predicates := i\<rparr>)) (interner_free (predicates d) key)"

text \<open>One \<open>for key in dead\<close> loop of \<open>reclaim_unused\<close>, counting what was freed.\<close>

fun free_keys :: "Interner \<Rightarrow> nat \<Rightarrow> rstring list \<Rightarrow> (nat \<times> Interner) option" where
  "free_keys i n [] = Some (n, i)"
| "free_keys i n (k # ks) = (case interner_free i k of
     None \<Rightarrow> None
   | Some (r, i') \<Rightarrow> free_keys i' (if r \<noteq> None then n + 1 else n) ks)"

definition dead_keys :: "(u32 \<Rightarrow> bool) \<Rightarrow> Interner \<Rightarrow> rstring list" where
  "dead_keys referenced i = map snd (filter (\<lambda>(ix, s). \<not> referenced ix) (entries i))"

definition reclaim_unused ::
    "Dictionary \<Rightarrow> u32 set \<Rightarrow> u32 set \<Rightarrow> (nat \<times> Dictionary) option" where
  "reclaim_unused d ref_el ref_p =
     (if backing d \<noteq> None then Some (0, d)
      else case free_keys (entities d) 0 (dead_keys (\<lambda>ix. ix \<in> ref_el) (entities d)) of
        None \<Rightarrow> None
      | Some (n1, es) \<Rightarrow>
        (case free_keys (literals d) n1
                (dead_keys (\<lambda>ix. ix + LITERAL_FIRST_ID \<in> ref_el) (literals d)) of
          None \<Rightarrow> None
        | Some (n2, ls) \<Rightarrow>
          (case free_keys (predicates d) n2 (dead_keys (\<lambda>ix. ix \<in> ref_p) (predicates d)) of
            None \<Rightarrow> None
          | Some (n3, ps) \<Rightarrow>
              Some (n3, d\<lparr>entities := es, literals := ls, predicates := ps\<rparr>))))"

section \<open>The interface of a bidirectional dictionary\<close>

locale id_dictionary =
  fixes get :: "'d \<Rightarrow> 'k \<Rightarrow> 'i option"
    and res :: "'d \<Rightarrow> 'i \<Rightarrow> 'k option"
    and add :: "'d \<Rightarrow> 'k \<Rightarrow> ('i \<times> 'd) option"
    and del :: "'d \<Rightarrow> 'k \<Rightarrow> ('i option \<times> 'd) option"
    and inv :: "'d \<Rightarrow> bool"
  assumes get_res: "inv d \<Longrightarrow> get d k = Some i \<longleftrightarrow> res d i = Some k"
    and add_inv: "inv d \<Longrightarrow> add d k = Some (i, d') \<Longrightarrow> inv d'"
    and add_get: "inv d \<Longrightarrow> add d k = Some (i, d') \<Longrightarrow> get d' = (get d)(k \<mapsto> i)"
    and add_known: "inv d \<Longrightarrow> get d k = Some i \<Longrightarrow> add d k = Some (i, d)"
    and del_total: "inv d \<Longrightarrow> del d k \<noteq> None"
    and del_inv: "inv d \<Longrightarrow> del d k = Some (r, d') \<Longrightarrow> inv d'"
    and del_get: "inv d \<Longrightarrow> del d k = Some (r, d') \<Longrightarrow> r = get d k \<and> get d' = (get d)(k := None)"
begin

lemma get_inj: "inv d \<Longrightarrow> get d k = Some i \<Longrightarrow> get d k' = Some i \<Longrightarrow> k = k'"
  by (simp add: get_res)

lemma add_res:
  assumes "inv d" "add d k = Some (i, d')"
  shows "res d' i = Some k"
  using assms add_inv add_get get_res by (metis fun_upd_same)

lemma add_keeps:
  assumes "inv d" "add d k = Some (i, d')" "res d j = Some k'"
  shows "res d' j = Some k'"
proof (cases "k' = k")
  case True
  with assms add_known get_res show ?thesis by (metis option.inject prod.inject)
next
  case False
  with assms have "get d' k' = Some j" by (simp add: add_get get_res)
  with assms show ?thesis using add_inv get_res by blast
qed

lemma add_fresh:
  assumes "inv d" "add d k = Some (i, d')" "get d k = None"
  shows "res d i = None"
proof (rule ccontr)
  assume "res d i \<noteq> None"
  then obtain k' where k': "res d i = Some k'" by blast
  with assms have "res d' i = Some k'" by (blast intro: add_keeps)
  with add_res [OF assms(1,2)] have "k' = k" by simp
  with k' assms show False using get_res by force
qed

lemma del_frame:
  assumes "inv d" "del d k = Some (r, d')" "res d j = Some k'" "k' \<noteq> k"
  shows "res d' j = Some k'"
proof -
  from assms have "get d' k' = Some j" by (simp add: del_get get_res)
  with assms show ?thesis using del_inv get_res by blast
qed

lemma del_gone:
  assumes "inv d" "del d k = Some (Some i, d')"
  shows "res d' i = None"
proof (rule ccontr)
  assume "res d' i \<noteq> None"
  then obtain k' where "res d' i = Some k'" by blast
  with assms have "get d' k' = Some i" using del_inv get_res by blast
  moreover from assms have "get d k = Some i" "get d' = (get d)(k := None)" using del_get by auto
  ultimately show False using get_inj [OF assms(1)] by (auto split: if_splits)
qed

end

section \<open>The interner implements it\<close>

definition interner_inv :: "Interner \<Rightarrow> bool" where
  "interner_inv i \<longleftrightarrow>
     (\<forall>s ix. map_of (forward i) s = Some ix \<longleftrightarrow> resolve i ix = Some s) \<and>
     (\<forall>ix \<in> set (free i). unat ix < length (backward i) \<and> backward i ! unat ix = None) \<and>
     distinct (free i) \<and> distinct (map fst (forward i)) \<and> length (backward i) \<le> 2 ^ 32"

lemma interner_inv_default [simp]: "interner_inv interner_default"
  by (simp add: interner_inv_def interner_default_def resolve_def)

lemma interner_default_simps [simp]:
  "free interner_default = []" "backward interner_default = []"
  "interner_get interner_default s = None" "resolve interner_default ix = None"
  by (simp_all add: interner_default_def interner_get_def resolve_def)

lemma resolve_Some_lt: "resolve i ix = Some s \<Longrightarrow> unat ix < length (backward i)"
  by (simp add: resolve_def split: if_splits)

lemma resolve_update:
  "unat ix < length (backward i) \<Longrightarrow>
   resolve (i\<lparr>free := f, backward := (backward i)[unat ix := v], forward := g\<rparr>) jx
     = (if jx = ix then v else resolve i jx)"
  by (auto simp: resolve_def nth_list_update word_unat_eq_iff)

lemma resolve_push:
  assumes "length (backward i) < 2 ^ 32"
  shows "resolve (i\<lparr>backward := backward i @ [v], forward := g\<rparr>) jx
     = (if jx = word_of_nat (length (backward i)) then v else resolve i jx)"
proof -
  have "unat (word_of_nat (length (backward i)) :: u32) = length (backward i)"
    using assms by simp
  then show ?thesis
    by (auto simp: resolve_def nth_append less_Suc_eq word_unat_eq_iff)
qed

lemma intern_cases:
  assumes "intern i s = Some (ix, i')"
  obtains (known) "interner_get i s = Some ix" "i' = i"
  | (reuse) "map_of (forward i) s = None" "free i = butlast (free i) @ [ix]"
      "unat ix < length (backward i)"
      "i' = i\<lparr>free := butlast (free i), backward := (backward i)[unat ix := Some s],
             forward := AList.update s ix (forward i)\<rparr>"
  | (extend) "map_of (forward i) s = None" "free i = []" "length (backward i) < 2 ^ 32"
      "ix = word_of_nat (length (backward i))"
      "i' = i\<lparr>backward := backward i @ [Some s], forward := AList.update s ix (forward i)\<rparr>"
  using assms
  by (auto simp: intern_def interner_get_def Let_def split: option.splits if_splits)

lemma interner_get_upd:
  "interner_get (i\<lparr>free := f, backward := b, forward := AList.update s ix (forward i)\<rparr>)
    = (interner_get i)(s \<mapsto> ix)"
  "interner_get (i\<lparr>backward := b, forward := AList.update s ix (forward i)\<rparr>)
    = (interner_get i)(s \<mapsto> ix)"
  by (simp_all add: interner_get_def fun_eq_iff update_conv')

lemma intern_get:
  assumes "intern i s = Some (ix, i')"
  shows "interner_get i' = (interner_get i)(s \<mapsto> ix)"
  using assms
  by (cases rule: intern_cases) (auto simp: interner_get_upd interner_get_def fun_eq_iff update_conv')

lemma intern_inv:
  assumes inv: "interner_inv i" and intern: "intern i s = Some (ix, i')"
  shows "interner_inv i'"
  using intern
proof (cases rule: intern_cases)
  case known
  with inv show ?thesis by simp
next
  case reuse
  from inv reuse have ix: "resolve i ix = None" "ix \<in> set (free i)"
    by (auto simp: interner_inv_def resolve_def) (metis in_set_conv_decomp)+
  have fresh: "resolve i jx \<noteq> Some s" for jx using inv reuse(1) by (auto simp: interner_inv_def)
  have "distinct (butlast (free i) @ [ix])" using inv reuse(2) by (metis interner_inv_def)
  then have "ix \<notin> set (butlast (free i))" "distinct (butlast (free i))" by auto
  moreover have "set (butlast (free i)) \<subseteq> set (free i)" by (auto dest: in_set_butlastD)
  ultimately show ?thesis
    using inv ix fresh reuse(3)
    unfolding reuse(4) interner_inv_def resolve_update [OF reuse(3)]
    by (auto simp: update_conv' distinct_update nth_list_update dest: unat_eqD)
next
  case extend
  have fresh: "resolve i jx \<noteq> Some s" for jx using inv extend(1) by (auto simp: interner_inv_def)
  have "resolve i ix = None" using extend(3,4) by (simp add: resolve_def)
  then show ?thesis
    using inv fresh extend(2,3,4)
    unfolding extend(5) interner_inv_def
    by (auto simp: resolve_push update_conv' distinct_update)
qed

lemma resolve_backward_update:
  "backward i' = (backward i)[unat ix := v] \<Longrightarrow> unat ix < length (backward i) \<Longrightarrow>
   resolve i' jx = (if jx = ix then v else resolve i jx)"
  by (auto simp: resolve_def nth_list_update dest: unat_eqD)

lemma interner_free_cases:
  assumes "interner_inv i"
  obtains (absent) "interner_get i s = None" "interner_free i s = Some (None, i)"
  | (present) ix i' where "interner_get i s = Some ix" "resolve i ix = Some s"
      "unat ix < length (backward i)" "interner_free i s = Some (Some ix, i')"
      "i' = i\<lparr>forward := AList.delete s (forward i), backward := (backward i)[unat ix := None],
             free := free i @ [ix]\<rparr>"
proof (cases "map_of (forward i) s")
  case None
  then show thesis by (intro absent) (simp_all add: interner_get_def interner_free_def)
next
  case (Some ix)
  with assms have "resolve i ix = Some s" by (simp add: interner_inv_def)
  moreover from this have "unat ix < length (backward i)" by (rule resolve_Some_lt)
  ultimately show thesis using Some by (intro present) (simp_all add: interner_get_def interner_free_def)
qed

lemma interner_free_total: "interner_inv i \<Longrightarrow> interner_free i s \<noteq> None"
  by (erule interner_free_cases [of i s]) auto

lemma interner_free_get:
  assumes "interner_inv i" and "interner_free i s = Some (r, i')"
  shows "r = interner_get i s \<and> interner_get i' = (interner_get i)(s := None)"
  using assms(1)
  by (cases rule: interner_free_cases [of i s])
     (use assms(2) in \<open>auto simp: interner_get_def fun_eq_iff delete_conv'\<close>)

lemma interner_free_inv:
  assumes inv: "interner_inv i" and fr: "interner_free i s = Some (r, i')"
  shows "interner_inv i'"
  using inv
proof (cases rule: interner_free_cases [of i s])
  case absent
  with inv fr show ?thesis by simp
next
  case (present ix i'')
  then have i': "i' = i''" using fr by simp
  then have res: "resolve i' jx = (if jx = ix then None else resolve i jx)" for jx
    using present by (intro resolve_backward_update) auto
  have uniq: "jx = ix" if "resolve i jx = Some s" for jx
    using that inv present(1,2) unfolding interner_inv_def interner_get_def by (metis option.inject)
  have fwd: "map_of (forward i') s' = Some jx \<longleftrightarrow> resolve i' jx = Some s'" for s' jx
  proof (cases "s' = s")
    case True
    then have "map_of (forward i') s' = None" by (simp add: i' present(5) delete_conv')
    with True show ?thesis using uniq by (auto simp: res)
  next
    case False
    then have "map_of (forward i') s' = map_of (forward i) s'" by (simp add: i' present(5) delete_conv')
    then show ?thesis using False inv present(2) unfolding interner_inv_def res by auto
  qed
  have "ix \<notin> set (free i)" using inv present(2) by (auto simp: interner_inv_def resolve_def)
  with inv present(3) have "(\<forall>jx \<in> set (free i'). unat jx < length (backward i') \<and> backward i' ! unat jx = None)
      \<and> distinct (free i') \<and> distinct (map fst (forward i')) \<and> length (backward i') \<le> 2 ^ 32"
    by (auto simp: interner_inv_def i' present(5) distinct_delete nth_list_update)
  with fwd show ?thesis unfolding interner_inv_def by blast
qed

interpretation interner: id_dictionary interner_get resolve intern interner_free interner_inv
proof unfold_locales
  fix d k i
  assume "interner_inv d"
  then show "interner_get d k = Some i \<longleftrightarrow> resolve d i = Some k"
    by (simp add: interner_inv_def interner_get_def)
next
  fix d k i d'
  assume "interner_inv d" "interner_get d k = Some i"
  then show "intern d k = Some (i, d)" by (simp add: intern_def interner_get_def)
next
  fix d k
  assume "interner_inv d"
  then show "interner_free d k \<noteq> None" by (rule interner_free_total)
qed (auto dest: intern_inv intern_get interner_free_inv interner_free_get)

section \<open>Runs of the interner\<close>

datatype InternerOp = OpIntern rstring | OpFree rstring

fun interner_run :: "Interner \<Rightarrow> InternerOp list \<Rightarrow> Interner option" where
  "interner_run i [] = Some i"
| "interner_run i (OpIntern s # ops) =
     (case intern i s of None \<Rightarrow> None | Some (_, i') \<Rightarrow> interner_run i' ops)"
| "interner_run i (OpFree s # ops) =
     (case interner_free i s of None \<Rightarrow> None | Some (_, i') \<Rightarrow> interner_run i' ops)"

lemma interner_run_inv:
  "interner_inv i \<Longrightarrow> interner_run i ops = Some i' \<Longrightarrow> interner_inv i'"
  by (induction i ops rule: interner_run.induct)
     (auto split: option.splits prod.splits dest: intern_inv interner_free_inv)

text \<open>
  C29. In every state an interner reaches from the empty one by interning and freeing strings, the
  forward and backward maps are inverse to each other: a string has an id exactly when that id
  resolves to the string. So reclaimed indices are never handed out while still in use.
\<close>

theorem interner_bijective:
  assumes "interner_run interner_default ops = Some i"
  shows "interner_get i s = Some ix \<longleftrightarrow> resolve i ix = Some s"
  using interner_run_inv [OF interner_inv_default assms] by (rule interner.get_res)

theorem interner_bijective_witness:
  "\<exists>i. interner_run interner_default [OpIntern (lit ''a''), OpIntern (lit ''b''), OpFree (lit ''a''),
      OpIntern (lit ''c'')] = Some i \<and> (interner_get i (lit ''c'') = Some 0 \<longleftrightarrow> resolve i 0 = Some (lit ''c''))"
  using interner_bijective [of "[OpIntern (lit ''a''), OpIntern (lit ''b''), OpFree (lit ''a''),
      OpIntern (lit ''c'')]" _ "lit ''c''" 0]
  by (simp add: intern_def interner_free_def interner_default_def)

lemma intern_new_dense:
  assumes "interner_get i s = None" "free i = []" "length (backward i) < 2 ^ 32"
  shows "\<exists>i'. intern i s = Some (word_of_nat (length (backward i)), i') \<and> free i' = []
    \<and> backward i' = backward i @ [Some s]"
  using assms by (simp add: intern_def interner_get_def Let_def)

fun intern_all :: "Interner \<Rightarrow> rstring list \<Rightarrow> Interner option" where
  "intern_all i [] = Some i"
| "intern_all i (s # ss) = (case intern i s of None \<Rightarrow> None | Some (_, i') \<Rightarrow> intern_all i' ss)"

lemma intern_all_dense:
  assumes "interner_inv i" "free i = []" "distinct ss" "\<forall>s \<in> set ss. interner_get i s = None"
    "length (backward i) + length ss \<le> 2 ^ 32"
  shows "\<exists>i'. intern_all i ss = Some i' \<and> interner_inv i' \<and> backward i' = backward i @ map Some ss"
  using assms
proof (induction ss arbitrary: i)
  case (Cons s ss)
  then obtain i1 where i1: "intern i s = Some (word_of_nat (length (backward i)), i1)"
    "free i1 = []" "backward i1 = backward i @ [Some s]"
    using intern_new_dense [of i s] by auto
  have "interner_inv i1" using Cons.prems(1) i1(1) by (rule intern_inv)
  moreover have "\<forall>x \<in> set ss. interner_get i1 x = None"
    using Cons.prems by (auto simp: intern_get [OF i1(1)])
  ultimately show ?case using Cons.IH [of i1] Cons.prems i1 by auto
qed simp

text \<open>
  Interning distinct strings into an empty interner gives dense ids in insertion order: the
  \<open>k\<close>-th string gets id \<open>k\<close>, and none of the calls panics as long as there are at most \<open>2^32\<close> of them.
\<close>

lemma intern_all_insertion_order:
  assumes "distinct ss" and "length ss \<le> 2 ^ 32"
  shows "\<exists>i. intern_all interner_default ss = Some i \<and>
    (\<forall>k < length ss. interner_get i (ss ! k) = Some (word_of_nat k))"
proof -
  obtain i where i: "intern_all interner_default ss = Some i" "interner_inv i" "backward i = map Some ss"
    using intern_all_dense [of interner_default ss] assms by auto
  have "interner_get i (ss ! k) = Some (word_of_nat k)" if "k < length ss" for k
    using that assms(2) i by (simp add: interner.get_res resolve_def)
  with i show ?thesis by blast
qed

section \<open>Terms and their ids\<close>

definition dict_inv :: "Dictionary \<Rightarrow> bool" where
  "dict_inv d \<longleftrightarrow> interner_inv (entities d) \<and> interner_inv (literals d) \<and>
     interner_inv (predicates d) \<and> backing d = None"

text \<open>The id spaces are not exhausted: another term still gets an id of its own range.\<close>

definition dict_room :: "Dictionary \<Rightarrow> bool" where
  "dict_room d \<longleftrightarrow> length (backward (entities d)) < 2000000000 \<and>
     length (backward (literals d)) < 2294967295"

definition dict_in_range :: "Dictionary \<Rightarrow> bool" where
  "dict_in_range d \<longleftrightarrow> length (backward (entities d)) \<le> 2000000000 \<and>
     length (backward (literals d)) \<le> 2294967295"

lemma dict_inv_new [simp]: "dict_inv dict_new"
  by (simp add: dict_inv_def dict_new_def)

lemma intern_length:
  "intern i s = Some (ix, i') \<Longrightarrow> length (backward i') \<le> Suc (length (backward i))"
  by (erule intern_cases) auto

lemma intern_room:
  assumes "interner_inv i" and "length (backward i) < 2 ^ 32"
  shows "\<exists>ix i'. intern i s = Some (ix, i')"
  using assms by (auto simp: intern_def interner_inv_def Let_def split: option.splits)

lemma intern_lt:
  assumes "interner_inv i" and "intern i s = Some (ix, i')"
  shows "unat ix < length (backward i')" and "interner_get i' s = Some ix"
  using interner.add_res [OF assms] intern_get [OF assms(2)] by (auto dest: resolve_Some_lt)

lemma literal_offset:
  assumes "unat ix < 2294967295"
  shows "checked_add32 ix LITERAL_FIRST_ID = Some (ix + LITERAL_FIRST_ID)"
    "ix + LITERAL_FIRST_ID \<ge> LITERAL_FIRST_ID" "ix + LITERAL_FIRST_ID \<noteq> INVALID_ENTITY_LITERAL_ID"
  using assms
  by (simp_all add: checked_add32_def id_defs word_le_nat_alt unat_word_ariths word_unat_eq_iff)

lemma intern_term_Some:
  assumes "dict_inv d" and "dict_room d"
  shows "\<exists>ix d'. intern_term d t = Some (ix, d')"
proof (cases "is_literal t")
  case True
  obtain ix i where i: "intern (literals d) (dict_key t) = Some (ix, i)"
    using intern_room [of "literals d" "dict_key t"] assms by (auto simp: dict_inv_def dict_room_def)
  have "interner_inv (literals d)" using assms by (simp add: dict_inv_def)
  from intern_lt [OF this i] intern_length [OF i] assms have "unat ix < 2294967295"
    by (simp add: dict_room_def)
  with True i show ?thesis by (simp add: intern_term_def intern_literal_def literal_offset)
next
  case False
  then show ?thesis
    using intern_room [of "entities d" "dict_key t"] assms
    by (auto simp: dict_inv_def dict_room_def intern_term_def intern_entity_def)
qed

lemma intern_term_literal:
  assumes "dict_inv d" "dict_room d" "is_literal t" "intern_term d t = Some (pid, d')"
  obtains ix i where "intern (literals d) (dict_key t) = Some (ix, i)" "unat ix < 2294967295"
    "pid = ix + LITERAL_FIRST_ID" "d' = d\<lparr>literals := i\<rparr>"
proof -
  obtain ix i where i: "intern (literals d) (dict_key t) = Some (ix, i)"
    "checked_add32 ix LITERAL_FIRST_ID = Some pid" "d' = d\<lparr>literals := i\<rparr>"
    using assms by (auto simp: intern_term_def intern_literal_def split: option.splits)
  have "unat ix < 2294967295"
    using intern_lt [OF _ i(1)] intern_length [OF i(1)] assms by (simp add: dict_inv_def dict_room_def)
  with i show thesis by (intro that) (auto simp: literal_offset)
qed

text \<open>
  Interning a term and resolving its id gives back the term's key, and looking the term up
  gives back the id: while both id spaces have room, \<open>intern_term\<close> does not panic, its id lies in
  the range of the term's kind, \<open>id_to_string\<close> resolves it to the term's key, \<open>term_id\<close> finds it, the
  invariant is kept and every id already handed out still resolves to its string.
\<close>

lemma intern_term_roundtrip:
  assumes "dict_inv d" and "dict_room d"
  shows "\<exists>ix d'. intern_term d t = Some (ix, d') \<and> dict_inv d' \<and>
    (is_literal t \<longleftrightarrow> is_literal_id ix) \<and> (is_entity t \<longleftrightarrow> is_entity_id ix) \<and>
    id_to_string d' ix = Some (dict_key t) \<and> term_id d' t = Some (Some ix) \<and>
    (\<forall>jx s. id_to_string d jx = Some s \<longrightarrow> id_to_string d' jx = Some s)"
proof -
  have inv: "interner_inv (entities d)" "interner_inv (literals d)" "backing d = None"
    using assms by (auto simp: dict_inv_def)
  obtain pid d' where t: "intern_term d t = Some (pid, d')" using intern_term_Some [OF assms] by blast
  show ?thesis
  proof (cases "is_literal t")
    case True
    obtain ix i where i: "intern (literals d) (dict_key t) = Some (ix, i)" "unat ix < 2294967295"
      "pid = ix + LITERAL_FIRST_ID" "d' = d\<lparr>literals := i\<rparr>"
      using intern_term_literal [OF assms True t] by blast
    have "resolve i ix = Some (dict_key t)" "interner_get i (dict_key t) = Some ix"
      using interner.add_res [OF inv(2) i(1)] intern_lt [OF inv(2) i(1)] by auto
    moreover have "is_literal_id pid" "\<not> is_entity_id pid"
      using literal_offset [OF i(2)] i(3) by (auto simp: is_literal_id_def is_entity_id_def)
    moreover have "dict_inv d'" using assms(1) intern_inv [OF inv(2) i(1)] i(4) by (simp add: dict_inv_def)
    moreover have "\<forall>jx s. id_to_string d jx = Some s \<longrightarrow> id_to_string d' jx = Some s"
      using interner.add_keeps [OF inv(2) i(1)] inv i(4) by (auto simp: id_to_string_def)
    ultimately show ?thesis
      using t True inv literal_offset [OF i(2)] i(3,4) is_entity_not_literal [of t]
      by (intro exI [of _ pid] exI [of _ d'])
         (simp add: id_to_string_def term_id_def literal_id_def)
  next
    case False
    then obtain i where i: "intern (entities d) (dict_key t) = Some (pid, i)" "d' = d\<lparr>entities := i\<rparr>"
      using t by (auto simp: intern_term_def intern_entity_def)
    have lt: "unat pid < 2000000000"
      using intern_lt [OF inv(1) i(1)] intern_length [OF i(1)] assms by (simp add: dict_room_def)
    have "resolve i pid = Some (dict_key t)" "interner_get i (dict_key t) = Some pid"
      using interner.add_res [OF inv(1) i(1)] intern_lt [OF inv(1) i(1)] by auto
    moreover have "is_entity_id pid" "\<not> is_literal_id pid" "pid \<noteq> INVALID_ENTITY_LITERAL_ID"
      using lt by (auto simp: id_defs word_less_nat_alt word_le_nat_alt)
    moreover have "dict_inv d'" using assms(1) intern_inv [OF inv(1) i(1)] i(2) by (simp add: dict_inv_def)
    moreover have "\<forall>jx s. id_to_string d jx = Some s \<longrightarrow> id_to_string d' jx = Some s"
      using interner.add_keeps [OF inv(1) i(1)] inv i(2) by (auto simp: id_to_string_def)
    ultimately show ?thesis
      using t False inv i(2) is_entity_not_literal [of t]
      by (intro exI [of _ pid] exI [of _ d'])
         (auto simp: id_to_string_def term_id_def entity_id_def is_entity_id_def)
  qed
qed

lemma term_id_resolves:
  assumes "dict_inv d" and "dict_in_range d" and "term_id d t = Some (Some ix)"
  shows "id_to_string d ix = Some (dict_key t)"
proof (cases "is_literal t")
  case True
  with assms obtain jx where jx: "interner_get (literals d) (dict_key t) = Some jx"
    "checked_add32 jx LITERAL_FIRST_ID = Some ix"
    by (auto simp: term_id_def literal_id_def dict_inv_def split: option.splits)
  have r: "resolve (literals d) jx = Some (dict_key t)"
    using jx(1) assms(1) by (simp add: dict_inv_def interner.get_res)
  then have "unat jx < 2294967295" using assms(2) by (auto dest!: resolve_Some_lt simp: dict_in_range_def)
  from literal_offset [OF this] jx(2) r assms(1) show ?thesis by (simp add: id_to_string_def dict_inv_def)
next
  case False
  with assms have r: "resolve (entities d) ix = Some (dict_key t)"
    by (simp add: term_id_def entity_id_def dict_inv_def interner.get_res)
  then have "unat ix < 2000000000" using assms(2) by (auto dest!: resolve_Some_lt simp: dict_in_range_def)
  then have "ix < LITERAL_FIRST_ID" "ix \<noteq> INVALID_ENTITY_LITERAL_ID"
    by (auto simp: id_defs word_less_nat_alt)
  with r assms(1) show ?thesis by (auto simp: id_to_string_def dict_inv_def)
qed

text \<open>
  One id, one term: in a dictionary whose id spaces are within their ranges, two terms (as the
  readers produce them) that are known under the same id are the same term, across the entity and
  literal spaces.
\<close>

lemma term_id_injective:
  assumes "dict_inv d" and "dict_in_range d" and "lit_ok a" and "lit_ok b"
    and "term_id d a = Some (Some ix)" and "term_id d b = Some (Some ix)"
  shows "a = b"
proof -
  have "id_to_string d ix = Some (dict_key a)" "id_to_string d ix = Some (dict_key b)"
    using term_id_resolves [OF assms(1,2)] assms(5,6) by blast+
  then have "dict_key a = dict_key b" by simp
  with assms(3,4) show ?thesis by (simp add: dict_key_eq_iff)
qed

definition dict_example :: Dictionary where
  "dict_example = dict_new\<lparr>entities := \<lparr>forward = [(dict_key (Iri (lit ''a'')), 0)],
     backward = [Some (dict_key (Iri (lit ''a'')))], free = []\<rparr>\<rparr>"

lemma dict_example_inv: "dict_inv dict_example"
proof -
  have "intern interner_default (dict_key (Iri (lit ''a''))) = Some (0, entities dict_example)"
    by (simp add: intern_def dict_example_def interner_default_def dict_new_def)
  then have "interner_inv (entities dict_example)" by (rule intern_inv [OF interner_inv_default])
  then show ?thesis by (simp add: dict_inv_def dict_example_def dict_new_def)
qed

text \<open>
  C40. The documented range of entity ids is not enforced: \<open>intern_entity\<close> hands out
  \<open>LITERAL_FIRST_ID\<close>, an id of the literal range, to the entity interned after two billion others.
\<close>

theorem intern_entity_leaves_range:
  assumes "free (entities d) = []" and "length (backward (entities d)) = 2000000000"
    and "interner_get (entities d) key = None"
  shows "\<exists>d'. intern_entity d key = Some (LITERAL_FIRST_ID, d') \<and> is_literal_id LITERAL_FIRST_ID"
  using assms by (simp add: intern_entity_def intern_def interner_get_def Let_def id_defs)

theorem intern_entity_leaves_range_witness:
  "\<exists>d d'. intern_all interner_default (map (\<lambda>n. [n]) [0..<2000000000]) = Some (entities d) \<and>
     intern_entity d [] = Some (LITERAL_FIRST_ID, d') \<and> is_literal_id LITERAL_FIRST_ID"
proof -
  define ks :: "rstring list" where "ks = map (\<lambda>n. [n]) [0..<2000000000]"
  have ks: "distinct ks" "length ks = 2000000000" "[] \<notin> set ks"
    by (auto simp: ks_def distinct_map inj_on_def)
  obtain i where i: "intern_all interner_default ks = Some i" "interner_inv i" "backward i = map Some ks"
    using intern_all_dense [of interner_default ks] ks by auto
  have "free i = []"
  proof (rule ccontr)
    assume "free i \<noteq> []"
    then have "hd (free i) \<in> set (free i)" by simp
    with i(2,3) show False by (auto simp: interner_inv_def)
  qed
  moreover have "interner_get i [] = None"
  proof (rule ccontr)
    assume "interner_get i [] \<noteq> None"
    then obtain ix where "interner_get i [] = Some ix" by blast
    then have "resolve i ix = Some []" using interner.get_res [OF i(2)] by blast
    then have "unat ix < length ks" "ks ! unat ix = []" using i(3) by (auto simp: resolve_def split: if_splits)
    with ks(3) show False by (metis nth_mem)
  qed
  ultimately have "\<exists>d'. intern_entity (dict_new\<lparr>entities := i\<rparr>) [] = Some (LITERAL_FIRST_ID, d')
      \<and> is_literal_id LITERAL_FIRST_ID"
    using intern_entity_leaves_range [of "dict_new\<lparr>entities := i\<rparr>" "[]"] i(3) ks(2) by simp
  then show ?thesis using i(1) unfolding ks_def by (fastforce intro: exI [of _ "dict_new\<lparr>entities := i\<rparr>"])
qed

section \<open>Reclamation\<close>

lemma set_map_filter: "set (List.map_filter f xs) = {y. \<exists>x \<in> set xs. f x = Some y}"
  by (auto simp: List.map_filter_def image_iff) force

lemma set_entries:
  assumes "interner_inv i"
  shows "set (entries i) = {(ix, s). resolve i ix = Some s}"
proof -
  have len: "length (backward i) \<le> 4294967296" using assms by (simp add: interner_inv_def)
  have "(ix, s) \<in> set (entries i) \<longleftrightarrow> resolve i ix = Some s" for ix s
  proof
    assume "(ix, s) \<in> set (entries i)"
    with len show "resolve i ix = Some s"
      by (auto simp: entries_def set_map_filter in_set_enumerate_eq resolve_def)
  next
    assume r: "resolve i ix = Some s"
    then have "(unat ix, Some s) \<in> set (enumerate 0 (backward i))"
      by (auto simp: in_set_enumerate_eq resolve_def split: if_splits)
    then show "(ix, s) \<in> set (entries i)"
      by (force simp: entries_def set_map_filter)
  qed
  then show ?thesis by auto
qed

lemma set_dead_keys:
  "interner_inv i \<Longrightarrow> set (dead_keys R i) = {s. \<exists>ix. resolve i ix = Some s \<and> \<not> R ix}"
  by (auto simp: dead_keys_def set_entries image_iff)

lemma length_delete_distinct:
  "distinct (map fst al) \<Longrightarrow> map_of al k = Some v \<Longrightarrow> Suc (length (AList.delete k al)) = length al"
proof (induction al)
  case (Cons a al)
  then show ?case by (auto split: if_splits)
qed simp

lemma interner_free_len:
  assumes "interner_inv i" and "interner_free i s = Some (r, i')"
  shows "(if r \<noteq> None then Suc (interner_len i') else interner_len i') = interner_len i"
  using assms(1)
proof (cases rule: interner_free_cases [of i s])
  case (present ix i'')
  then show ?thesis
    using assms length_delete_distinct [of "forward i" s ix]
    by (simp add: interner_len_def interner_get_def interner_inv_def)
qed (use assms in simp)

lemma free_keys_spec:
  "interner_inv i \<Longrightarrow> \<exists>n' i'. free_keys i n ks = Some (n', i') \<and> interner_inv i' \<and>
     n' + interner_len i' = n + interner_len i \<and>
     (\<forall>s. interner_get i' s = (if s \<in> set ks then None else interner_get i s))"
proof (induction ks arbitrary: i n)
  case (Cons k ks)
  obtain r i1 where f: "interner_free i k = Some (r, i1)"
    using interner_free_total [OF Cons.prems] by fastforce
  have i1: "interner_inv i1" by (rule interner_free_inv [OF Cons.prems f])
  obtain n' i' where "free_keys i1 (if r \<noteq> None then n + 1 else n) ks = Some (n', i')" "interner_inv i'"
    "n' + interner_len i' = (if r \<noteq> None then n + 1 else n) + interner_len i1"
    "\<forall>s. interner_get i' s = (if s \<in> set ks then None else interner_get i1 s)"
    using Cons.IH [OF i1] by blast
  with f interner_free_len [OF Cons.prems f] interner_free_get [OF Cons.prems f] show ?case
    by (auto split: if_splits)
qed simp

lemma reclaim_interner:
  assumes "interner_inv i"
  shows "\<exists>n' i'. free_keys i n (dead_keys R i) = Some (n', i') \<and> interner_inv i' \<and>
     n' + interner_len i' = n + interner_len i \<and>
     (\<forall>ix. resolve i' ix = (if R ix then resolve i ix else None))"
proof -
  obtain n' i' where i': "free_keys i n (dead_keys R i) = Some (n', i')" "interner_inv i'"
    "n' + interner_len i' = n + interner_len i"
    "\<And>s. interner_get i' s = (if s \<in> set (dead_keys R i) then None else interner_get i s)"
    using free_keys_spec [OF assms] by blast
  have "resolve i' ix = Some s \<longleftrightarrow> R ix \<and> resolve i ix = Some s" for ix s
    using interner.get_inj [OF assms] assms i'(2)
    by (auto simp: interner.get_res [symmetric] i'(4) set_dead_keys)
  then have "resolve i' ix = (if R ix then resolve i ix else None)" for ix
    by (metis not_None_eq)
  with i' show ?thesis by blast
qed

lemma free_keys_length: "free_keys i n ks = Some (n', i') \<Longrightarrow> length (backward i') = length (backward i)"
  by (induction i n ks rule: free_keys.induct) (auto simp: interner_free_def split: option.splits if_splits)

lemma reclaim_spec:
  assumes "dict_inv d"
  obtains n d' where "reclaim_unused d ref_el ref_p = Some (n, d')" "dict_inv d'"
    "n + resident_string_count d' = resident_string_count d"
    "\<forall>ix. resolve (entities d') ix = (if ix \<in> ref_el then resolve (entities d) ix else None)"
    "\<forall>ix. resolve (literals d') ix = (if ix + LITERAL_FIRST_ID \<in> ref_el then resolve (literals d) ix else None)"
    "\<forall>ix. resolve (predicates d') ix = (if ix \<in> ref_p then resolve (predicates d) ix else None)"
    "dict_in_range d \<longrightarrow> dict_in_range d'"
proof -
  have inv: "interner_inv (entities d)" "interner_inv (literals d)" "interner_inv (predicates d)"
    "backing d = None" using assms by (auto simp: dict_inv_def)
  obtain n1 e where e: "free_keys (entities d) 0 (dead_keys (\<lambda>ix. ix \<in> ref_el) (entities d)) = Some (n1, e)"
    "interner_inv e" "n1 + interner_len e = 0 + interner_len (entities d)"
    "\<forall>ix. resolve e ix = (if ix \<in> ref_el then resolve (entities d) ix else None)"
    using reclaim_interner [OF inv(1)] by blast
  obtain n2 l where l: "free_keys (literals d) n1
      (dead_keys (\<lambda>ix. ix + LITERAL_FIRST_ID \<in> ref_el) (literals d)) = Some (n2, l)"
    "interner_inv l" "n2 + interner_len l = n1 + interner_len (literals d)"
    "\<forall>ix. resolve l ix = (if ix + LITERAL_FIRST_ID \<in> ref_el then resolve (literals d) ix else None)"
    using reclaim_interner [OF inv(2)] by blast
  obtain n3 p where p: "free_keys (predicates d) n2 (dead_keys (\<lambda>ix. ix \<in> ref_p) (predicates d)) = Some (n3, p)"
    "interner_inv p" "n3 + interner_len p = n2 + interner_len (predicates d)"
    "\<forall>ix. resolve p ix = (if ix \<in> ref_p then resolve (predicates d) ix else None)"
    using reclaim_interner [OF inv(3)] by blast
  let ?d = "d\<lparr>entities := e, literals := l, predicates := p\<rparr>"
  show thesis
  proof (rule that)
    show "reclaim_unused d ref_el ref_p = Some (n3, ?d)"
      using e(1) l(1) p(1) inv(4) by (simp add: reclaim_unused_def)
    show "dict_inv ?d" using e(2) l(2) p(2) inv(4) by (simp add: dict_inv_def)
    show "n3 + resident_string_count ?d = resident_string_count d"
      using e(3) l(3) p(3) inv(4) by (simp add: resident_string_count_def)
    show "dict_in_range d \<longrightarrow> dict_in_range ?d"
      using free_keys_length [OF e(1)] free_keys_length [OF l(1)] by (simp add: dict_in_range_def)
  qed (use e(4) l(4) p(4) in simp_all)
qed

text \<open>
  C25. \<open>reclaim_unused\<close> frees exactly the ids that are not referenced: on an in-memory dictionary it
  does not panic, keeps the invariant, leaves every referenced entity, literal and predicate id
  resolving to the same string, makes every unreferenced one unresolvable, and returns the number
  of strings the dictionary has lost.
\<close>

theorem reclaim_unused_exact:
  assumes "dict_inv d"
  shows "\<exists>n d'. reclaim_unused d ref_el ref_p = Some (n, d') \<and> dict_inv d' \<and>
    n + resident_string_count d' = resident_string_count d \<and>
    (\<forall>ix. id_to_string d' ix = (if ix \<in> ref_el then id_to_string d ix else None)) \<and>
    (\<forall>ix. predicate_to_string d' ix = (if ix \<in> ref_p then predicate_to_string d ix else None))"
proof -
  obtain n d' where r: "reclaim_unused d ref_el ref_p = Some (n, d')" "dict_inv d'"
    "n + resident_string_count d' = resident_string_count d"
    "\<forall>ix. resolve (entities d') ix = (if ix \<in> ref_el then resolve (entities d) ix else None)"
    "\<forall>ix. resolve (literals d') ix = (if ix + LITERAL_FIRST_ID \<in> ref_el then resolve (literals d) ix else None)"
    "\<forall>ix. resolve (predicates d') ix = (if ix \<in> ref_p then resolve (predicates d) ix else None)"
    "dict_in_range d \<longrightarrow> dict_in_range d'"
    by (rule reclaim_spec [OF assms])
  have b: "backing d = None" "backing d' = None" using assms r(2) by (auto simp: dict_inv_def)
  have "\<forall>ix. id_to_string d' ix = (if ix \<in> ref_el then id_to_string d ix else None)"
    "\<forall>ix. predicate_to_string d' ix = (if ix \<in> ref_p then predicate_to_string d ix else None)"
    using r(4-6) b by (simp_all add: id_to_string_def predicate_to_string_def)
  then show ?thesis using r(1-3) by blast
qed

theorem reclaim_unused_exact_witness:
  "\<exists>n d'. reclaim_unused dict_example {} {} = Some (n, d') \<and> id_to_string d' 0 = None"
  using reclaim_unused_exact [OF dict_example_inv, of "{}" "{}"] by auto

end
