(* ===== verification/Bgp.thy ===== *)
theory Bgp
  imports Candidates Index Dict
begin

text \<open>
  Evaluation of a basic graph pattern (\<open>src/query/engine.rs\<close>): compiling triple patterns against the
  dictionary, candidate generation and its refinement through the VS-tree, the pipelined left-deep
  executor (\<open>extend\<close>), and the binary-join executor with its hash and nested-loop joins. The join
  order or join tree comes from the cost-based optimizer (\<open>src/query/optimizer.rs\<close>), whose estimates
  are floating-point: it is an argument of the evaluator, and the theorems hold for every plan that
  mentions each pattern once. A layout is the list of its variable names; the index of a variable is
  its position there. The cancellation flag and the substring pushdown are left out (a flag that is
  never raised, no constraints).
\<close>

section \<open>Patterns and layout\<close>

datatype PatternTerm = PVar rstring | PTerm Term

record TriplePattern =
  tp_subject :: PatternTerm
  tp_predicate :: PatternTerm
  tp_object :: PatternTerm

record VarLayout =
  names :: "rstring list"

definition layout_len :: "VarLayout \<Rightarrow> nat" where
  "layout_len l = length (names l)"

definition layout_index :: "VarLayout \<Rightarrow> rstring \<Rightarrow> nat" where
  "layout_index l v = length (takeWhile (\<lambda>w. w \<noteq> v) (names l))"

text \<open>\<open>self.dict.term_id(t)\<close>; its only panic, a literal index beyond the id space, counts as unknown.\<close>

definition known_term_id :: "Dictionary \<Rightarrow> Term \<Rightarrow> u32 option" where
  "known_term_id d t = (case term_id d t of Some r \<Rightarrow> r | None \<Rightarrow> None)"

fun compile_node_slot :: "Dictionary \<Rightarrow> VarLayout \<Rightarrow> PatternTerm \<Rightarrow> Slot option" where
  "compile_node_slot d l (PVar v) = Some (Var (layout_index l v))"
| "compile_node_slot d l (PTerm t) = map_option Const (known_term_id d t)"

fun compile_pred_slot :: "Dictionary \<Rightarrow> VarLayout \<Rightarrow> PatternTerm \<Rightarrow> Slot option" where
  "compile_pred_slot d l (PVar v) = Some (Var (layout_index l v))"
| "compile_pred_slot d l (PTerm (Iri iri)) = map_option Const (predicate_id d (dict_key (Iri iri)))"
| "compile_pred_slot d l (PTerm _) = None"

definition compile_pattern :: "Dictionary \<Rightarrow> VarLayout \<Rightarrow> TriplePattern \<Rightarrow> PatPlan option" where
  "compile_pattern d l tp = (case compile_node_slot d l (tp_subject tp) of
     None \<Rightarrow> None
   | Some s \<Rightarrow> (case compile_pred_slot d l (tp_predicate tp) of
       None \<Rightarrow> None
     | Some p \<Rightarrow> (case compile_node_slot d l (tp_object tp) of
         None \<Rightarrow> None
       | Some ob \<Rightarrow> Some \<lparr>plan_s = s, plan_p = p, plan_o = ob\<rparr>)))"

fun compile_all :: "Dictionary \<Rightarrow> VarLayout \<Rightarrow> TriplePattern list \<Rightarrow> PatPlan list option" where
  "compile_all d l [] = Some []"
| "compile_all d l (tp # tps) = (case compile_pattern d l tp of
     None \<Rightarrow> None
   | Some plan \<Rightarrow> map_option (Cons plan) (compile_all d l tps))"

section \<open>Extending bindings\<close>

fun unify :: "Binding \<Rightarrow> Slot \<Rightarrow> u32 \<Rightarrow> bool \<times> Binding" where
  "unify b (Const i) value = (i = value, b)"
| "unify b (Var v) value = (case b ! v of
     Some existing \<Rightarrow> (existing = value, b)
   | None \<Rightarrow> (True, b[v := Some value]))"

definition enumerate_triples ::
  "TripleStore \<Rightarrow> u32 option \<Rightarrow> u32 option \<Rightarrow> u32 option \<Rightarrow> (u32 \<times> u32 \<times> u32) list" where
  "enumerate_triples st ks kp ko = (case (ks, kp, ko) of
     (Some s, Some p, Some ob) \<Rightarrow> if ts_exists st s p ob then [(s, p, ob)] else []
   | (Some s, Some p, None) \<Rightarrow> map (\<lambda>ob. (s, p, ob)) (o_by_sp st s p)
   | (Some s, None, Some ob) \<Rightarrow> map (\<lambda>p. (s, p, ob)) (p_by_so st s ob)
   | (None, Some p, Some ob) \<Rightarrow> map (\<lambda>s. (s, p, ob)) (s_by_po st p ob)
   | (Some s, None, None) \<Rightarrow> map (\<lambda>(p, ob). (s, p, ob)) (po_by_s st s)
   | (None, Some p, None) \<Rightarrow> map (\<lambda>(s, ob). (s, p, ob)) (so_by_p st p)
   | (None, None, Some ob) \<Rightarrow> map (\<lambda>(p, s). (s, p, ob)) (ps_by_o st ob)
   | (None, None, None) \<Rightarrow> map (\<lambda>t. (sub t, pred t, obj t)) (iter_all st))"

definition try_triple :: "Binding \<Rightarrow> PatPlan \<Rightarrow> Candidates \<Rightarrow> u32 \<times> u32 \<times> u32 \<Rightarrow> Binding list" where
  "try_triple b plan cands = (\<lambda>(s, p, ob).
     if \<not> cand_ok (plan_s plan) s cands \<or> \<not> cand_ok (plan_o plan) ob cands then []
     else (case unify b (plan_s plan) s of
       (False, _) \<Rightarrow> []
     | (True, b1) \<Rightarrow> (case unify b1 (plan_p plan) p of
         (False, _) \<Rightarrow> []
       | (True, b2) \<Rightarrow> (case unify b2 (plan_o plan) ob of
           (False, _) \<Rightarrow> []
         | (True, b3) \<Rightarrow> [b3]))))"

definition extend_binding :: "TripleStore \<Rightarrow> Binding \<Rightarrow> PatPlan \<Rightarrow> Candidates \<Rightarrow> Binding list" where
  "extend_binding st b plan cands = concat (map (try_triple b plan cands)
     (enumerate_triples st (slot_known (plan_s plan) b) (slot_known (plan_p plan) b) (slot_known (plan_o plan) b)))"

section \<open>Joins\<close>

fun merge_bindings :: "Binding \<Rightarrow> Binding \<Rightarrow> Binding option" where
  "merge_bindings l [] = Some l"
| "merge_bindings [] (None # r) = merge_bindings [] r"
| "merge_bindings [] (Some rv # r) = None"
| "merge_bindings (lv # l) (None # r) = map_option (Cons lv) (merge_bindings l r)"
| "merge_bindings (lv # l) (Some rv # r) =
     (if lv \<noteq> None \<and> lv \<noteq> Some rv then None else map_option (Cons (Some rv)) (merge_bindings l r))"

datatype JoinMethod = Hash | NestedLoop

definition saturate :: "nat \<Rightarrow> nat" where
  "saturate n = min n (2 ^ 64 - 1)"

definition judge :: "nat \<Rightarrow> nat \<Rightarrow> JoinMethod" where
  "judge left_len right_len =
     (let smaller = min left_len right_len; bigger = max left_len right_len;
          nested_cost = saturate (smaller * bigger); hash_cost = saturate (left_len + right_len)
      in if nested_cost \<le> hash_cost then NestedLoop else Hash)"

definition key_of :: "nat list \<Rightarrow> Binding \<Rightarrow> u32 option list" where
  "key_of shared b = map (\<lambda>i. b ! i) shared"

fun hash_index :: "nat list \<Rightarrow> Binding list \<Rightarrow> (u32 option list \<rightharpoonup> Binding list) \<Rightarrow> (u32 option list \<rightharpoonup> Binding list)" where
  "hash_index shared [] m = m"
| "hash_index shared (r # rs) m = hash_index shared rs
     (m(key_of shared r \<mapsto> (case m (key_of shared r) of None \<Rightarrow> [] | Some v \<Rightarrow> v) @ [r]))"

definition merge_row :: "Binding \<Rightarrow> Binding list \<Rightarrow> Binding list" where
  "merge_row l rs = concat (map (\<lambda>r. case merge_bindings l r of Some m \<Rightarrow> [m] | None \<Rightarrow> []) rs)"

definition join_sets_hash :: "Binding list \<Rightarrow> Binding list \<Rightarrow> nat list \<Rightarrow> Binding list" where
  "join_sets_hash left right shared = (let index = hash_index shared right Map.empty in
     concat (map (\<lambda>l. case index (key_of shared l) of None \<Rightarrow> [] | Some matches \<Rightarrow> merge_row l matches) left))"

definition join_sets_nested :: "Binding list \<Rightarrow> Binding list \<Rightarrow> nat list \<Rightarrow> Binding list" where
  "join_sets_nested left right shared =
     concat (map (\<lambda>l. merge_row l (filter (\<lambda>r. list_all (\<lambda>i. l ! i = r ! i) shared) right)) left)"

definition join_sets :: "Binding list \<Rightarrow> nat list \<Rightarrow> Binding list \<Rightarrow> nat list \<Rightarrow> Binding list" where
  "join_sets left left_vars right right_vars =
     (let shared = filter (\<lambda>v. v \<in> set right_vars) left_vars;
          unbound_shared = list_ex (\<lambda>i. list_ex (\<lambda>b. b ! i = None) (left @ right)) shared
      in if shared = [] \<or> unbound_shared then concat (map (\<lambda>l. merge_row l right) left)
         else (case judge (length left) (length right) of
           Hash \<Rightarrow> join_sets_hash left right shared
         | NestedLoop \<Rightarrow> join_sets_nested left right shared))"

section \<open>Executors\<close>

datatype JoinTree = JLeaf nat | JJoin JoinTree JoinTree

record ExecPlan =
  order :: "nat list"
  tree :: "JoinTree option"

definition slot_vars :: "Slot \<Rightarrow> nat list \<Rightarrow> nat list" where
  "slot_vars slot v = (case slot of Var i \<Rightarrow> if i \<in> set v then v else v @ [i] | Const _ \<Rightarrow> v)"

definition plan_vars :: "PatPlan \<Rightarrow> nat list" where
  "plan_vars plan = slot_vars (plan_o plan) (slot_vars (plan_p plan) (slot_vars (plan_s plan) []))"

fun eval_join_tree ::
  "TripleStore \<Rightarrow> PatPlan list \<Rightarrow> Candidates \<Rightarrow> nat \<Rightarrow> JoinTree \<Rightarrow> Binding list \<times> nat list" where
  "eval_join_tree st plans cands n (JLeaf i) =
     (extend_binding st (replicate n None) (plans ! i) cands, plan_vars (plans ! i))"
| "eval_join_tree st plans cands n (JJoin l r) =
     (case eval_join_tree st plans cands n l of (lb, lv) \<Rightarrow>
        if lb = [] then ([], lv)
        else (case eval_join_tree st plans cands n r of (rb, rv) \<Rightarrow>
          (join_sets lb lv rb rv, fold (\<lambda>v vars. if v \<in> set vars then vars else vars @ [v]) rv lv)))"

fun eval_left_deep ::
  "TripleStore \<Rightarrow> PatPlan list \<Rightarrow> Candidates \<Rightarrow> nat list \<Rightarrow> Binding list \<Rightarrow> Binding list" where
  "eval_left_deep st plans cands [] sols = sols"
| "eval_left_deep st plans cands (pi # rest) sols =
     (let next = concat (map (\<lambda>b. extend_binding st b (plans ! pi) cands) sols) in
      if next = [] then [] else eval_left_deep st plans cands rest next)"

section \<open>Refinement through the VS-tree\<close>

fun pred_id_of :: "Dictionary \<Rightarrow> PatternTerm \<Rightarrow> u32 option" where
  "pred_id_of d (PTerm (Iri iri)) = predicate_id d (dict_key (Iri iri))"
| "pred_id_of d _ = None"

fun neighbor_id_of :: "Dictionary \<Rightarrow> PatternTerm \<Rightarrow> u32 option" where
  "neighbor_id_of d (PTerm t) = known_term_id d t"
| "neighbor_id_of d (PVar _) = None"

definition is_var_at :: "VarLayout \<Rightarrow> PatternTerm \<Rightarrow> nat \<Rightarrow> bool" where
  "is_var_at l pt vidx = (case pt of PVar v \<Rightarrow> layout_index l v = vidx | PTerm _ \<Rightarrow> False)"

definition query_sig_step :: "Dictionary \<Rightarrow> VarLayout \<Rightarrow> nat \<Rightarrow> TriplePattern \<Rightarrow> Signature \<Rightarrow> Signature" where
  "query_sig_step d l vidx tp sg =
     (let sg1 = (if is_var_at l (tp_subject tp) vidx
                 then encode_query_edge sg (pred_id_of d (tp_predicate tp)) (neighbor_id_of d (tp_object tp)) Out
                 else sg)
      in if is_var_at l (tp_object tp) vidx
         then encode_query_edge sg1 (pred_id_of d (tp_predicate tp)) (neighbor_id_of d (tp_subject tp)) In
         else sg1)"

definition query_sig :: "Dictionary \<Rightarrow> VarLayout \<Rightarrow> TriplePattern list \<Rightarrow> nat \<Rightarrow> Signature" where
  "query_sig d l tps vidx = fold (query_sig_step d l vidx) tps sig_new"

definition refine_var ::
  "Dictionary \<Rightarrow> VarLayout \<Rightarrow> VsTree \<Rightarrow> TriplePattern list \<Rightarrow> nat \<Rightarrow> Candidates \<Rightarrow> Candidates" where
  "refine_var d l vt tps vidx cands =
     (let sg = query_sig d l tps vidx in
      if sig_is_empty sg then cands
      else (case candidates vt sg of
        None \<Rightarrow> cands
      | Some vs0 \<Rightarrow> (let vs = sort_dedup vs0 in
          case cands vidx of
            Some existing \<Rightarrow> cands(vidx \<mapsto> filter (\<lambda>x. case binary_search vs x of Inr _ \<Rightarrow> True | Inl _ \<Rightarrow> False) existing)
          | None \<Rightarrow> cands(vidx \<mapsto> vs))))"

text \<open>Each round touches its own variable only, so the order in which the hash set of subject
  variables is walked does not matter; here it is that of first occurrence.\<close>

definition subj_vars :: "VarLayout \<Rightarrow> TriplePattern list \<Rightarrow> nat list" where
  "subj_vars l tps = remdups (concat (map (\<lambda>tp. case tp_subject tp of PVar v \<Rightarrow> [layout_index l v] | PTerm _ \<Rightarrow> []) tps))"

definition refine_candidates_with_vstree ::
  "Dictionary \<Rightarrow> VarLayout \<Rightarrow> VsTree option \<Rightarrow> TriplePattern list \<Rightarrow> Candidates \<Rightarrow> Candidates" where
  "refine_candidates_with_vstree d l vt tps cands = (case vt of
     None \<Rightarrow> cands
   | Some t \<Rightarrow> fold (refine_var d l t tps) (subj_vars l tps) cands)"

section \<open>Basic graph patterns\<close>

definition eval_bgp ::
  "(PatPlan list \<Rightarrow> Candidates \<Rightarrow> ExecPlan) \<Rightarrow> (nat \<Rightarrow> nat \<Rightarrow> bool) \<Rightarrow> Dictionary \<Rightarrow> TripleStore \<Rightarrow> VsTree option
    \<Rightarrow> VarLayout \<Rightarrow> TriplePattern list \<Rightarrow> Binding list" where
  "eval_bgp optimize border d st vt l tps = (case compile_all d l tps of
     None \<Rightarrow> []
   | Some plans \<Rightarrow>
       if plans = [] then [replicate (layout_len l) None]
       else (let cands = refine_candidates_with_vstree d l vt tps (generate border plans st);
                 plan = optimize plans cands
             in case tree plan of
               Some t \<Rightarrow> fst (eval_join_tree st plans cands (layout_len l) t)
             | None \<Rightarrow> eval_left_deep st plans cands (order plan) [replicate (layout_len l) None]))"

section \<open>Rows\<close>

text \<open>What an executor holds after processing a set of patterns: bindings of exactly their variables
  that match each of them within the candidate lists.\<close>

definition row_match :: "IdTriple set \<Rightarrow> Candidates \<Rightarrow> Binding \<Rightarrow> PatPlan \<Rightarrow> bool" where
  "row_match T C b plan \<longleftrightarrow> (\<exists>s p ob. slot_known (plan_s plan) b = Some s \<and> slot_known (plan_p plan) b = Some p \<and>
     slot_known (plan_o plan) b = Some ob \<and> IdTriple s p ob \<in> T \<and>
     cand_ok (plan_s plan) s C \<and> cand_ok (plan_o plan) ob C)"

definition rows_of :: "IdTriple set \<Rightarrow> Candidates \<Rightarrow> nat \<Rightarrow> PatPlan set \<Rightarrow> Binding set" where
  "rows_of T C n P = {b. length b = n \<and> bound b = (\<Union>plan \<in> P. plan_vars_set plan) \<and> (\<forall>plan \<in> P. row_match T C b plan)}"

definition plan_wf :: "nat \<Rightarrow> PatPlan \<Rightarrow> bool" where
  "plan_wf n plan \<longleftrightarrow> (\<forall>v \<in> plan_vars_set plan. v < n)"

definition extends :: "Binding \<Rightarrow> Binding \<Rightarrow> bool" where
  "extends b b' \<longleftrightarrow> length b' = length b \<and> (\<forall>v \<in> bound b. b' ! v = b ! v)"

lemma enumerate_triples_spec:
  assumes "store_inv st"
  shows "set (enumerate_triples st ks kp ko) = {(s, p, ob). IdTriple s p ob \<in> triples st \<and>
      (ks = None \<or> ks = Some s) \<and> (kp = None \<or> kp = Some p) \<and> (ko = None \<or> ko = Some ob)}"
    and "distinct (enumerate_triples st ks kp ko)"
proof -
  have all: "(s, p, ob) \<in> (\<lambda>t. (sub t, pred t, obj t)) ` triples st \<longleftrightarrow> IdTriple s p ob \<in> triples st" for s p ob
    using image_key_iff(1) [of "IdTriple s p ob" "triples st"] by simp
  note ascending_distinct [simp]
  note sets = mem.ex_iff mem.po_set mem.ps_set mem.so_set mem.ob_sp_set mem.pr_so_set mem.su_po_set mem.all_set
  note dists = mem.po_asc mem.ps_asc mem.so_asc mem.ob_sp_asc mem.pr_so_asc mem.su_po_asc mem.all_distinct
  show "set (enumerate_triples st ks kp ko) = {(s, p, ob). IdTriple s p ob \<in> triples st \<and>
      (ks = None \<or> ks = Some s) \<and> (kp = None \<or> kp = Some p) \<and> (ko = None \<or> ko = Some ob)}"
    by (cases ks; cases kp; cases ko) (use all in \<open>force simp: enumerate_triples_def sets assms\<close>)+
  show "distinct (enumerate_triples st ks kp ko)"
    by (cases ks; cases kp; cases ko)
       (auto simp: enumerate_triples_def distinct_map dists assms inj_on_def id_triple_eq_iff)
qed

text \<open>Restricting a binding to a set of variables.\<close>

definition restr :: "nat set \<Rightarrow> Binding \<Rightarrow> Binding" where
  "restr V b = map (\<lambda>v. if v \<in> V then b ! v else None) [0..<length b]"

definition slot_set :: "Slot \<Rightarrow> nat set" where
  "slot_set slot = {v. slot = Var v}"

lemma slot_set_simps [simp]: "slot_set (Var v) = {v}" "slot_set (Const i) = {}"
  by (auto simp: slot_set_def)

lemma plan_vars_set_slots: "plan_vars_set plan = slot_set (plan_s plan) \<union> slot_set (plan_p plan) \<union> slot_set (plan_o plan)"
  by (auto simp: plan_vars_set_def slot_set_def)

lemma restr_simps [simp]: "length (restr V b) = length b" "v < length b \<Longrightarrow> restr V b ! v = (if v \<in> V then b ! v else None)"
  by (simp_all add: restr_def)

lemma bound_restr [simp]: "bound (restr V b) = V \<inter> bound b"
  by (auto simp: bound_def split: if_splits)

lemma bound_less: "v \<in> bound b \<Longrightarrow> v < length b"
  by (simp add: bound_def)

lemma binding_eqI:
  assumes "length b = length c" and "bound b = bound c" and "\<And>v. v \<in> bound b \<Longrightarrow> b ! v = c ! v"
  shows "b = c"
proof (rule nth_equalityI)
  fix v assume v: "v < length b"
  show "b ! v = c ! v"
  proof (cases "v \<in> bound b")
    case False
    then have "v \<notin> bound c" using assms(2) by simp
    then show ?thesis using False v assms(1) by (simp add: bound_def)
  qed (rule assms(3))
qed (rule assms(1))

lemma extends_trans: "extends a b \<Longrightarrow> bound a \<subseteq> bound b \<Longrightarrow> extends b c \<Longrightarrow> extends a c"
  by (auto simp: extends_def)

lemma extends_restr_self: "extends (restr V c) c"
  unfolding extends_def bound_restr by (auto simp: bound_less)

lemma extends_restr:
  assumes "extends b c" and "bound b \<subseteq> V"
  shows "extends b (restr V c)"
proof -
  have "restr V c ! v = b ! v" if "v \<in> bound b" for v
    using that assms bound_less [OF that] by (auto simp: extends_def)
  then show ?thesis using assms by (simp add: extends_def)
qed

lemma extends_restr_mono: "V \<subseteq> W \<Longrightarrow> extends (restr V c) (restr W c)"
  unfolding extends_def bound_restr by (auto simp: bound_less)

lemma slot_known_extends:
  "extends b c \<Longrightarrow> slot_known slot b = Some x \<Longrightarrow> slot_set slot \<subseteq> {..<length b} \<Longrightarrow> slot_known slot c = Some x"
  by (cases slot) (auto simp: extends_def bound_def)

lemma slot_known_restr:
  "slot_set slot \<subseteq> V \<Longrightarrow> slot_set slot \<subseteq> {..<length b} \<Longrightarrow> slot_known slot (restr V b) = slot_known slot b"
  by (cases slot) auto

lemma bound_update: "v < length b \<Longrightarrow> bound (b[v := Some x]) = insert v (bound b)"
  by (auto simp: bound_def nth_list_update)

lemma unify_iff:
  assumes "slot_set slot \<subseteq> {..<length b}"
  shows "unify b slot x = (True, b1) \<longleftrightarrow>
    extends b b1 \<and> bound b1 = bound b \<union> slot_set slot \<and> slot_known slot b1 = Some x"
proof (cases slot)
  case (Const i)
  then show ?thesis by (auto simp: extends_def intro: binding_eqI [symmetric])
next
  case (Var v)
  then have v: "v < length b" using assms by simp
  show ?thesis
  proof (cases "b ! v")
    case None
    then have nb: "v \<notin> bound b" by (simp add: bound_def)
    have "b[v := Some x] = b1" if "extends b b1" "bound b1 = insert v (bound b)" "b1 ! v = Some x"
    proof (rule binding_eqI)
      show "b[v := Some x] ! w = b1 ! w" if "w \<in> bound (b[v := Some x])" for w
        using that v \<open>extends b b1\<close> \<open>b1 ! v = Some x\<close> by (auto simp: bound_update extends_def nth_list_update)
    qed (use that v in \<open>auto simp: extends_def bound_update\<close>)
    then show ?thesis using Var None v nb by (auto simp: extends_def bound_update nth_list_update)
  next
    case (Some y)
    then have "v \<in> bound b" using v by (simp add: bound_def)
    then show ?thesis using Var Some v by (auto simp: extends_def insert_absorb intro: binding_eqI [symmetric])
  qed
qed

lemma try_triple_iff:
  assumes "plan_wf (length b) plan"
  shows "b' \<in> set (try_triple b plan C (s, p, ob)) \<longleftrightarrow>
    cand_ok (plan_s plan) s C \<and> cand_ok (plan_o plan) ob C \<and> extends b b' \<and> bound b' = bound b \<union> plan_vars_set plan \<and>
    slot_known (plan_s plan) b' = Some s \<and> slot_known (plan_p plan) b' = Some p \<and> slot_known (plan_o plan) b' = Some ob"
    (is "_ \<longleftrightarrow> ?R")
proof -
  have wf: "slot_set (plan_s plan) \<subseteq> {..<length b}" "slot_set (plan_p plan) \<subseteq> {..<length b}" "slot_set (plan_o plan) \<subseteq> {..<length b}"
    using assms by (auto simp: plan_wf_def plan_vars_set_slots)
  have "b' \<in> set (try_triple b plan C (s, p, ob)) \<longleftrightarrow> cand_ok (plan_s plan) s C \<and> cand_ok (plan_o plan) ob C \<and>
      (\<exists>b1 b2. unify b (plan_s plan) s = (True, b1) \<and> unify b1 (plan_p plan) p = (True, b2) \<and> unify b2 (plan_o plan) ob = (True, b'))"
  proof -
    obtain r1 b1 where 1: "unify b (plan_s plan) s = (r1, b1)" by force
    obtain r2 b2 where 2: "unify b1 (plan_p plan) p = (r2, b2)" by force
    obtain r3 b3 where 3: "unify b2 (plan_o plan) ob = (r3, b3)" by force
    show ?thesis using 1 2 3 by (cases r1; cases r2; cases r3) (auto simp: try_triple_def)
  qed
  also have "\<dots> \<longleftrightarrow> ?R"
  proof (intro conj_cong refl iffI; (elim exE conjE)?)
    fix b1 b2 assume u: "unify b (plan_s plan) s = (True, b1)" "unify b1 (plan_p plan) p = (True, b2)" "unify b2 (plan_o plan) ob = (True, b')"
    have 1: "extends b b1" "bound b1 = bound b \<union> slot_set (plan_s plan)" "slot_known (plan_s plan) b1 = Some s"
      using u(1) unify_iff [OF wf(1)] by auto
    then have l1: "length b1 = length b" by (simp add: extends_def)
    have 2: "extends b1 b2" "bound b2 = bound b1 \<union> slot_set (plan_p plan)" "slot_known (plan_p plan) b2 = Some p"
      using u(2) unify_iff [of "plan_p plan" b1 p b2] wf(2) l1 by auto
    then have l2: "length b2 = length b" using l1 by (simp add: extends_def)
    have 3: "extends b2 b'" "bound b' = bound b2 \<union> slot_set (plan_o plan)" "slot_known (plan_o plan) b' = Some ob"
      using u(3) unify_iff [of "plan_o plan" b2 ob b'] wf(3) l2 by auto
    have e: "extends b1 b'" "extends b b'"
      using 1 2 3 extends_trans [of b1 b2 b'] extends_trans [of b b1 b'] by auto
    show "extends b b' \<and> bound b' = bound b \<union> plan_vars_set plan \<and>
      slot_known (plan_s plan) b' = Some s \<and> slot_known (plan_p plan) b' = Some p \<and> slot_known (plan_o plan) b' = Some ob"
      using e 1 2 3 slot_known_extends [OF e(1) 1(3)] slot_known_extends [OF 3(1) 2(3)] wf l1 l2
      by (auto simp: plan_vars_set_slots)
  next
    assume R: "extends b b'" "bound b' = bound b \<union> plan_vars_set plan"
      "slot_known (plan_s plan) b' = Some s" "slot_known (plan_p plan) b' = Some p" "slot_known (plan_o plan) b' = Some ob"
    then have len: "length b' = length b" by (simp add: extends_def)
    let ?b1 = "restr (bound b \<union> slot_set (plan_s plan)) b'"
    let ?V2 = "bound b \<union> slot_set (plan_s plan) \<union> slot_set (plan_p plan)"
    let ?b2 = "restr ?V2 b'"
    have b1: "bound ?b1 = bound b \<union> slot_set (plan_s plan)" and b2: "bound ?b2 = ?V2"
      using R(2) by (auto simp: plan_vars_set_slots)
    have "unify b (plan_s plan) s = (True, ?b1)"
      unfolding unify_iff [OF wf(1)] using R wf len b1 extends_restr [OF R(1)] by (simp add: slot_known_restr)
    moreover have "extends ?b1 ?b2" by (rule extends_restr_mono) auto
    then have "unify ?b1 (plan_p plan) p = (True, ?b2)"
      using unify_iff [of "plan_p plan" ?b1 p ?b2] R wf len b1 b2 by (auto simp: slot_known_restr)
    moreover have "extends ?b2 b'" by (rule extends_restr_self)
    then have "unify ?b2 (plan_o plan) ob = (True, b')"
      using unify_iff [of "plan_o plan" ?b2 ob b'] R wf len b2 by (auto simp: plan_vars_set_slots)
    ultimately show "\<exists>b1 b2. unify b (plan_s plan) s = (True, b1) \<and> unify b1 (plan_p plan) p = (True, b2) \<and> unify b2 (plan_o plan) ob = (True, b')"
      by blast
  qed
  finally show ?thesis .
qed

lemma try_triple_distinct: "distinct (try_triple b plan C t)"
  by (auto simp: try_triple_def split: prod.splits bool.splits)

lemma extend_binding_spec:
  assumes "store_inv st" and "plan_wf (length b) plan"
  shows "b' \<in> set (extend_binding st b plan C) \<longleftrightarrow>
      extends b b' \<and> bound b' = bound b \<union> plan_vars_set plan \<and> row_match (triples st) C b' plan"
    and "distinct (extend_binding st b plan C)"
proof -
  let ?E = "enumerate_triples st (slot_known (plan_s plan) b) (slot_known (plan_p plan) b) (slot_known (plan_o plan) b)"
  have known: "slot_known slot b = None \<or> slot_known slot b = Some x"
    if "extends b b'" "slot_known slot b' = Some x" "slot_set slot \<subseteq> plan_vars_set plan" for slot x
  proof (cases "slot_known slot b")
    case (Some y)
    have "slot_set slot \<subseteq> {..<length b}" using that(3) assms(2) by (auto simp: plan_wf_def)
    then show ?thesis using slot_known_extends [OF that(1) Some] that(2) Some by simp
  qed simp
  show "b' \<in> set (extend_binding st b plan C) \<longleftrightarrow>
      extends b b' \<and> bound b' = bound b \<union> plan_vars_set plan \<and> row_match (triples st) C b' plan"
  proof
    assume "b' \<in> set (extend_binding st b plan C)"
    then obtain s p ob where "(s, p, ob) \<in> set ?E" "b' \<in> set (try_triple b plan C (s, p, ob))"
      by (auto simp: extend_binding_def)
    then show "extends b b' \<and> bound b' = bound b \<union> plan_vars_set plan \<and> row_match (triples st) C b' plan"
      unfolding try_triple_iff [OF assms(2)] by (auto simp: enumerate_triples_spec [OF assms(1)] row_match_def)
  next
    assume R: "extends b b' \<and> bound b' = bound b \<union> plan_vars_set plan \<and> row_match (triples st) C b' plan"
    then obtain s p ob where m: "slot_known (plan_s plan) b' = Some s" "slot_known (plan_p plan) b' = Some p"
      "slot_known (plan_o plan) b' = Some ob" "IdTriple s p ob \<in> triples st"
      "cand_ok (plan_s plan) s C" "cand_ok (plan_o plan) ob C" by (auto simp: row_match_def)
    then have "b' \<in> set (try_triple b plan C (s, p, ob))" using R try_triple_iff [OF assms(2)] by simp
    moreover have "(s, p, ob) \<in> set ?E"
      using m R known [of "plan_s plan"] known [of "plan_p plan"] known [of "plan_o plan"]
      unfolding enumerate_triples_spec [OF assms(1)] plan_vars_set_slots by blast
    ultimately show "b' \<in> set (extend_binding st b plan C)" by (auto simp: extend_binding_def)
  qed
  have inj: "t = u" if "x \<in> set (try_triple b plan C t)" "x \<in> set (try_triple b plan C u)" for t u x
    using that try_triple_iff [OF assms(2)] by (cases t; cases u) auto
  have "distinct (concat (map (try_triple b plan C) E))" if "distinct E" for E
    using that by (induction E) (auto simp: try_triple_distinct dest: inj)
  then show "distinct (extend_binding st b plan C)"
    unfolding extend_binding_def using enumerate_triples_spec(2) [OF assms(1)] by blast
qed

section \<open>Executors compute the rows\<close>

abbreviation pvars :: "PatPlan set \<Rightarrow> nat set" where
  "pvars P \<equiv> \<Union>plan \<in> P. plan_vars_set plan"

lemma row_match_extends:
  assumes "extends b c" and "row_match T C b plan" and "plan_wf (length b) plan"
  shows "row_match T C c plan"
proof -
  have "slot_set (plan_s plan) \<subseteq> {..<length b}" "slot_set (plan_p plan) \<subseteq> {..<length b}" "slot_set (plan_o plan) \<subseteq> {..<length b}"
    using assms(3) by (auto simp: plan_wf_def plan_vars_set_slots)
  then show ?thesis using assms(1,2) slot_known_extends unfolding row_match_def by metis
qed

lemma row_match_restr:
  assumes "plan_vars_set plan \<subseteq> V" and "plan_wf (length b) plan"
  shows "row_match T C (restr V b) plan \<longleftrightarrow> row_match T C b plan"
proof -
  have "slot_set (plan_s plan) \<subseteq> {..<length b}" "slot_set (plan_p plan) \<subseteq> {..<length b}" "slot_set (plan_o plan) \<subseteq> {..<length b}"
    "slot_set (plan_s plan) \<subseteq> V" "slot_set (plan_p plan) \<subseteq> V" "slot_set (plan_o plan) \<subseteq> V"
    using assms by (auto simp: plan_wf_def plan_vars_set_slots)
  then show ?thesis unfolding row_match_def by (simp add: slot_known_restr)
qed

lemma rows_restr:
  assumes "b \<in> rows_of T C n Q" and "P \<subseteq> Q" and "\<forall>plan \<in> Q. plan_wf n plan"
  shows "restr (pvars P) b \<in> rows_of T C n P"
proof -
  have "row_match T C (restr (pvars P) b) plan" if "plan \<in> P" for plan
  proof -
    have "plan_vars_set plan \<subseteq> pvars P" using that by blast
    moreover have "plan \<in> Q" using that assms(2) by blast
    moreover from this have "plan_wf (length b) plan" "row_match T C b plan" using assms(1,3) by (auto simp: rows_of_def)
    ultimately show ?thesis using row_match_restr by blast
  qed
  then show ?thesis using assms by (auto simp: rows_of_def)
qed

lemma extends_bound: "extends b c \<Longrightarrow> bound b \<subseteq> bound c"
  by (auto simp: extends_def bound_def)

lemma restr_extends_eq:
  assumes "extends b c"
  shows "restr (bound b) c = b"
proof (rule binding_eqI)
  have bc: "bound b \<subseteq> bound c" by (rule extends_bound [OF assms])
  then show "bound (restr (bound b) c) = bound b" by auto
  fix v assume "v \<in> bound (restr (bound b) c)"
  then have "v \<in> bound b" "v < length c" using bc by (auto simp: bound_less)
  then show "restr (bound b) c ! v = b ! v" using assms by (simp add: extends_def)
qed (use assms in \<open>simp add: extends_def\<close>)

lemma concat_distinct_by:
  assumes "distinct xs" and "\<forall>x \<in> set xs. distinct (f x)"
    and "\<forall>x \<in> set xs. \<forall>y \<in> set (f x). g y = x"
  shows "distinct (concat (map f xs))"
  using assms
proof (induction xs)
  case (Cons x xs)
  have "set (f x) \<inter> set (concat (map f xs)) = {}"
    using Cons.prems by (auto simp: disjoint_iff)
  then show ?case using Cons by auto
qed simp

lemma extend_step:
  assumes "store_inv st" and "\<forall>q \<in> insert plan P. plan_wf n q"
    and "set sols = rows_of (triples st) C n P" and "distinct sols"
  shows "set (concat (map (\<lambda>b. extend_binding st b plan C) sols)) = rows_of (triples st) C n (insert plan P)"
    and "distinct (concat (map (\<lambda>b. extend_binding st b plan C) sols))"
proof -
  let ?T = "triples st"
  have len: "b \<in> set sols \<Longrightarrow> length b = n \<and> bound b = pvars P" for b
    using assms(3) by (auto simp: rows_of_def)
  have ext: "b' \<in> set (extend_binding st b plan C) \<longleftrightarrow>
      extends b b' \<and> bound b' = pvars (insert plan P) \<and> row_match ?T C b' plan" if "b \<in> set sols" for b b'
    using extend_binding_spec(1) [OF assms(1), of b plan b' C] assms(2) len [OF that] by (auto simp: Un_commute)
  show "set (concat (map (\<lambda>b. extend_binding st b plan C) sols)) = rows_of ?T C n (insert plan P)"
  proof (intro set_eqI iffI)
    fix b' assume "b' \<in> set (concat (map (\<lambda>b. extend_binding st b plan C) sols))"
    then obtain b where b: "b \<in> set sols" "b' \<in> set (extend_binding st b plan C)" by auto
    then have e: "extends b b'" "bound b' = pvars (insert plan P)" "row_match ?T C b' plan" using ext by auto
    have "row_match ?T C b' q" if "q \<in> P" for q
      using row_match_extends [OF e(1)] that b(1) assms(2,3) len [OF b(1)] by (auto simp: rows_of_def)
    then show "b' \<in> rows_of ?T C n (insert plan P)"
      using e len [OF b(1)] by (auto simp: rows_of_def extends_def)
  next
    fix b' assume b': "b' \<in> rows_of ?T C n (insert plan P)"
    have "restr (pvars P) b' \<in> set sols" using rows_restr [OF b' _ assms(2), of P] assms(3) by auto
    moreover have "extends (restr (pvars P) b') b'" by (rule extends_restr_self)
    ultimately have "b' \<in> set (extend_binding st (restr (pvars P) b') plan C)"
      using ext b' by (auto simp: rows_of_def)
    then show "b' \<in> set (concat (map (\<lambda>b. extend_binding st b plan C) sols))"
      using \<open>restr (pvars P) b' \<in> set sols\<close> by auto
  qed
  show "distinct (concat (map (\<lambda>b. extend_binding st b plan C) sols))"
  proof (rule concat_distinct_by [where g = "restr (pvars P)"])
    show "\<forall>b \<in> set sols. distinct (extend_binding st b plan C)"
      using extend_binding_spec(2) [OF assms(1)] assms(2) len by auto
    show "\<forall>b \<in> set sols. \<forall>b' \<in> set (extend_binding st b plan C). restr (pvars P) b' = b"
      using ext len restr_extends_eq by metis
  qed (rule assms(4))
qed

lemma rows_empty_plan: "rows_of T C n {} = {replicate n None}"
proof -
  have "b = replicate n None" if "length b = n" "bound b = {}" for b
    by (rule binding_eqI) (use that in \<open>auto simp: bound_def\<close>)
  then show ?thesis by (auto simp: rows_of_def bound_def)
qed

lemma rows_mono_empty:
  assumes "rows_of T C n P = {}" and "P \<subseteq> Q" and "\<forall>plan \<in> Q. plan_wf n plan"
  shows "rows_of T C n Q = {}"
  using rows_restr [OF _ assms(2,3)] assms(1) by fast

lemma eval_left_deep_rows:
  assumes "store_inv st" and "\<forall>q \<in> P \<union> set (map (nth plans) ord). plan_wf n q"
    and "set sols = rows_of (triples st) C n P" and "distinct sols"
  shows "set (eval_left_deep st plans C ord sols) = rows_of (triples st) C n (P \<union> set (map (nth plans) ord)) \<and>
    distinct (eval_left_deep st plans C ord sols)"
  using assms
proof (induction ord arbitrary: P sols)
  case (Cons i ord)
  let ?next = "concat (map (\<lambda>b. extend_binding st b (plans ! i) C) sols)"
  have step: "set ?next = rows_of (triples st) C n (insert (plans ! i) P)" "distinct ?next"
    using extend_step [OF assms(1) _ Cons.prems(3,4), of "plans ! i"] Cons.prems(2) by auto
  have unf: "eval_left_deep st plans C (i # ord) sols = (if ?next = [] then [] else eval_left_deep st plans C ord ?next)"
    by (simp only: eval_left_deep.simps Let_def)
  show ?case
  proof (cases "?next = []")
    case True
    then have "rows_of (triples st) C n (insert (plans ! i) P) = {}" using step(1) by simp
    then have "rows_of (triples st) C n (P \<union> set (map (nth plans) (i # ord))) = {}"
      by (rule rows_mono_empty) (use Cons.prems(2) in auto)
    moreover have "eval_left_deep st plans C (i # ord) sols = []" unfolding unf True by (rule if_P) (rule refl)
    ultimately show ?thesis by simp
  next
    case False
    have eq: "insert (plans ! i) P \<union> set (map (nth plans) ord) = P \<union> set (map (nth plans) (i # ord))" by simp
    have "eval_left_deep st plans C (i # ord) sols = eval_left_deep st plans C ord ?next"
      unfolding unf by (rule if_not_P) (rule False)
    moreover have "\<forall>q \<in> insert (plans ! i) P \<union> set (map (nth plans) ord). plan_wf n q"
      using Cons.prems(2) unfolding eq .
    ultimately show ?thesis using Cons.IH [OF assms(1) _ step] unfolding eq by (simp only:)
  qed
qed simp

section \<open>Joins compute the rows of the union\<close>

lemma merge_bindings_iff:
  assumes "length l = length r"
  shows "merge_bindings l r = Some m \<longleftrightarrow> length m = length l \<and> extends l m \<and> extends r m \<and> bound m = bound l \<union> bound r"
proof -
  have "merge_bindings l r = Some m \<longleftrightarrow> length m = length l \<and>
      (\<forall>v < length l. (l ! v \<noteq> None \<longrightarrow> m ! v = l ! v) \<and> (r ! v \<noteq> None \<longrightarrow> m ! v = r ! v) \<and>
         (l ! v = None \<and> r ! v = None \<longrightarrow> m ! v = None))"
    using assms
  proof (induction l r arbitrary: m rule: list_induct2)
    case (Cons lv l rv r)
    show ?case
      by (cases m; cases rv; cases lv) (auto simp: Cons.IH All_less_Suc2)
  qed auto
  also have "\<dots> \<longleftrightarrow> length m = length l \<and> extends l m \<and> extends r m \<and> bound m = bound l \<union> bound r"
    using assms by (auto simp: extends_def bound_def set_eq_iff) (metis not_None_eq)+
  finally show ?thesis .
qed

lemma merge_row_iff: "m \<in> set (merge_row l rs) \<longleftrightarrow> (\<exists>r \<in> set rs. merge_bindings l r = Some m)"
  by (force simp: merge_row_def split: option.splits)

lemma merge_row_filter:
  assumes "\<forall>r \<in> set rs. \<not> P r \<longrightarrow> merge_bindings l r = None"
  shows "merge_row l (filter P rs) = merge_row l rs"
  using assms by (induction rs) (auto simp: merge_row_def)

lemma hash_index_get:
  "hash_index shared rs m k = (let xs = filter (\<lambda>r. key_of shared r = k) rs in
     if xs = [] then m k else Some ((case m k of None \<Rightarrow> [] | Some v \<Rightarrow> v) @ xs))"
  by (induction rs arbitrary: m) (simp_all add: Let_def)

lemma join_methods_agree: "join_sets_hash left right shared = join_sets_nested left right shared"
proof -
  have key: "list_all (\<lambda>i. l ! i = r ! i) shared \<longleftrightarrow> key_of shared r = key_of shared l" for l r :: Binding
    by (auto simp: key_of_def list_all_iff)
  have "(case hash_index shared right Map.empty (key_of shared l) of None \<Rightarrow> [] | Some ms \<Rightarrow> merge_row l ms)
      = merge_row l (filter (\<lambda>r. list_all (\<lambda>i. l ! i = r ! i) shared) right)" for l
    unfolding hash_index_get key by (simp add: merge_row_def Let_def)
  then show ?thesis by (simp add: join_sets_hash_def join_sets_nested_def)
qed

lemma join_sets_cross:
  assumes "\<forall>b \<in> set left \<union> set right. length b = n" and "\<forall>v \<in> set lv \<inter> set rv. v < n"
  shows "join_sets left lv right rv = concat (map (\<lambda>l. merge_row l right) left)"
proof -
  let ?shared = "filter (\<lambda>v. v \<in> set rv) lv"
  have nested: "join_sets_nested left right ?shared = concat (map (\<lambda>l. merge_row l right) left)"
    if bnd: "\<not> list_ex (\<lambda>i. list_ex (\<lambda>b. b ! i = None) (left @ right)) ?shared"
  proof -
    have "merge_bindings l r = None"
      if lr: "l \<in> set left" "r \<in> set right" "\<not> list_all (\<lambda>i. l ! i = r ! i) ?shared" for l r
    proof -
      obtain i where i: "i \<in> set ?shared" "l ! i \<noteq> r ! i" using lr(3) by (auto simp: list_all_iff)
      have "l ! i \<noteq> None" "r ! i \<noteq> None" using bnd i(1) lr(1,2) by (auto simp: list_ex_iff)
      moreover have "i < n" using i(1) assms(2) by auto
      ultimately have "i \<in> bound l" "i \<in> bound r" using assms(1) lr(1,2) by (auto simp: bound_def)
      moreover have "m ! i = l ! i \<and> m ! i = r ! i" if "merge_bindings l r = Some m" for m
      proof -
        have "extends l m" "extends r m" using that merge_bindings_iff [of l r m] assms(1) lr(1,2) by simp_all
        then show ?thesis using calculation unfolding extends_def by blast
      qed
      ultimately show ?thesis using i(2) by (cases "merge_bindings l r") auto
    qed
    then show ?thesis unfolding join_sets_nested_def
      by (intro arg_cong [of _ _ concat] map_cong refl merge_row_filter) blast
  qed
  then show ?thesis
    unfolding join_sets_def Let_def join_methods_agree by (auto split: JoinMethod.split)
qed

lemma join_step:
  assumes "set left = rows_of T C n P" and "distinct left" and "set right = rows_of T C n Q" and "distinct right"
    and "\<forall>plan \<in> P \<union> Q. plan_wf n plan" and "set lv = pvars P" and "set rv = pvars Q"
  shows "set (join_sets left lv right rv) = rows_of T C n (P \<union> Q) \<and> distinct (join_sets left lv right rv)"
proof -
  have cross: "join_sets left lv right rv = concat (map (\<lambda>l. merge_row l right) left)"
    by (rule join_sets_cross [of _ _ n]) (use assms in \<open>auto simp: rows_of_def plan_wf_def\<close>)
  have mb: "merge_bindings l r = Some m \<longleftrightarrow> length m = n \<and> extends l m \<and> extends r m \<and> bound m = pvars P \<union> pvars Q"
    if "l \<in> set left" "r \<in> set right" for l r m
    using that assms(1,3) merge_bindings_iff [of l r m] by (auto simp: rows_of_def)
  have bl: "l \<in> set left \<Longrightarrow> bound l = pvars P \<and> length l = n" and br: "r \<in> set right \<Longrightarrow> bound r = pvars Q \<and> length r = n" for l r
    using assms(1,3) by (auto simp: rows_of_def)
  have "set (concat (map (\<lambda>l. merge_row l right) left)) = rows_of T C n (P \<union> Q)"
  proof (intro set_eqI iffI)
    fix m assume "m \<in> set (concat (map (\<lambda>l. merge_row l right) left))"
    then obtain l r where lr: "l \<in> set left" "r \<in> set right" "merge_bindings l r = Some m" by (auto simp: merge_row_iff)
    then have m: "length m = n" "extends l m" "extends r m" "bound m = pvars P \<union> pvars Q" using mb by auto
    have "row_match T C m plan" if "plan \<in> P \<union> Q" for plan
      using that row_match_extends [OF m(2)] row_match_extends [OF m(3)] lr assms bl [OF lr(1)] br [OF lr(2)]
      by (auto simp: rows_of_def)
    then show "m \<in> rows_of T C n (P \<union> Q)" using m by (auto simp: rows_of_def)
  next
    fix m assume m: "m \<in> rows_of T C n (P \<union> Q)"
    then have lr: "restr (pvars P) m \<in> set left" "restr (pvars Q) m \<in> set right"
      using rows_restr [OF m _ assms(5)] assms(1,3) by auto
    moreover have "merge_bindings (restr (pvars P) m) (restr (pvars Q) m) = Some m"
      unfolding mb [OF lr] using m by (auto simp: rows_of_def extends_restr_self)
    ultimately show "m \<in> set (concat (map (\<lambda>l. merge_row l right) left))" by (auto simp: merge_row_iff)
  qed
  moreover have "distinct (concat (map (\<lambda>l. merge_row l right) left))"
  proof (rule concat_distinct_by [where g = "restr (pvars P)"])
    show "\<forall>l \<in> set left. \<forall>m \<in> set (merge_row l right). restr (pvars P) m = l"
    proof (intro ballI)
      fix l m assume l: "l \<in> set left" and "m \<in> set (merge_row l right)"
      then obtain r where "r \<in> set right" "merge_bindings l r = Some m" by (auto simp: merge_row_iff)
      then have "extends l m" using mb [OF l] by simp
      then show "restr (pvars P) m = l" using restr_extends_eq [of l m] bl [OF l] by simp
    qed
    show "\<forall>l \<in> set left. distinct (merge_row l right)"
    proof
      fix l assume l: "l \<in> set left"
      show "distinct (merge_row l right)" unfolding merge_row_def
      proof (rule concat_distinct_by [where g = "restr (pvars Q)"])
        show "\<forall>r \<in> set right. \<forall>m \<in> set (case merge_bindings l r of None \<Rightarrow> [] | Some m \<Rightarrow> [m]). restr (pvars Q) m = r"
        proof (intro ballI)
          fix r m assume r: "r \<in> set right" and "m \<in> set (case merge_bindings l r of None \<Rightarrow> [] | Some m \<Rightarrow> [m])"
          then have "merge_bindings l r = Some m" by (simp split: option.splits)
          then have "extends r m" using mb [OF l r] by simp
          then show "restr (pvars Q) m = r" using restr_extends_eq [of r m] br [OF r] by simp
        qed
      qed (use assms(4) in \<open>auto split: option.split\<close>)
    qed
  qed (rule assms(2))
  ultimately show ?thesis unfolding cross by simp
qed

lemma join_sets_Nil: "join_sets left lv [] rv = []"
  by (simp add: join_sets_def join_methods_agree join_sets_nested_def merge_row_def Let_def split: JoinMethod.split)

lemma fold_push_set: "set (fold (\<lambda>v vars. if v \<in> set vars then vars else vars @ [v]) rv lv) = set lv \<union> set rv"
  by (induction rv arbitrary: lv) auto

lemma plan_vars_set: "set (plan_vars plan) = plan_vars_set plan"
  by (auto simp: plan_vars_def slot_vars_def plan_vars_set_def split: Slot.splits)

fun leaves :: "JoinTree \<Rightarrow> nat list" where
  "leaves (JLeaf i) = [i]"
| "leaves (JJoin l r) = leaves l @ leaves r"

lemma eval_join_tree_rows:
  assumes "store_inv st" and "\<forall>i \<in> set (leaves t). plan_wf n (plans ! i)"
  shows "set (fst (eval_join_tree st plans C n t)) = rows_of (triples st) C n ((!) plans ` set (leaves t)) \<and>
    distinct (fst (eval_join_tree st plans C n t)) \<and>
    (fst (eval_join_tree st plans C n t) \<noteq> [] \<longrightarrow> set (snd (eval_join_tree st plans C n t)) = pvars ((!) plans ` set (leaves t)))"
  using assms(2)
proof (induction t)
  case (JLeaf i)
  have "set [replicate n None] = rows_of (triples st) C n {}" by (simp add: rows_empty_plan)
  from extend_step [OF assms(1) _ this, of "plans ! i"] JLeaf show ?case by (simp add: plan_vars_set)
next
  case (JJoin l r)
  let ?P = "(!) plans ` set (leaves l)" and ?Q = "(!) plans ` set (leaves r)"
  obtain lb lv where l: "eval_join_tree st plans C n l = (lb, lv)" by force
  obtain rb rv where r: "eval_join_tree st plans C n r = (rb, rv)" by force
  have L: "set lb = rows_of (triples st) C n ?P" "distinct lb" "lb \<noteq> [] \<longrightarrow> set lv = pvars ?P"
    using JJoin.IH(1) JJoin.prems l by auto
  have R: "set rb = rows_of (triples st) C n ?Q" "distinct rb" "rb \<noteq> [] \<longrightarrow> set rv = pvars ?Q"
    using JJoin.IH(2) JJoin.prems r by auto
  have un: "(!) plans ` set (leaves (JJoin l r)) = ?P \<union> ?Q" by (simp add: image_Un)
  have wf: "\<forall>plan \<in> ?P \<union> ?Q. plan_wf n plan" using JJoin.prems by auto
  show ?case
  proof (cases "lb = [] \<or> rb = []")
    case True
    then have "rows_of (triples st) C n (?P \<union> ?Q) = {}"
      using L(1) R(1) rows_mono_empty [of "triples st" C n ?P "?P \<union> ?Q"] rows_mono_empty [of "triples st" C n ?Q "?P \<union> ?Q"] wf
      by auto
    moreover have "fst (eval_join_tree st plans C n (JJoin l r)) = []"
    proof (cases "lb = []")
      case False
      with True l r show ?thesis by (simp add: join_sets_Nil)
    qed (use l in simp)
    ultimately show ?thesis unfolding un by simp
  next
    case False
    then have "set (join_sets lb lv rb rv) = rows_of (triples st) C n (?P \<union> ?Q) \<and> distinct (join_sets lb lv rb rv)"
      using L R wf by (intro join_step) auto
    then show ?thesis using False L R l r unfolding un by (simp add: fold_push_set)
  qed
qed

section \<open>Candidate tables do not change the rows of a whole pattern\<close>

lemma cand_ok_iff:
  "cands_sound C S \<Longrightarrow> cand_ok slot x C \<longleftrightarrow> (\<forall>v l. slot = Var v \<longrightarrow> C v = Some l \<longrightarrow> x \<in> set l)"
proof (cases slot)
  case (Var v)
  assume C: "cands_sound C S"
  show ?thesis
  proof (cases "C v")
    case (Some l)
    then have "ascending l" using C by (auto simp: cands_sound_def)
    with Some Var show ?thesis
      using binary_search_found_iff [of l x] by (auto split: sum.splits)
  qed (use Var in simp)
qed simp

lemma rows_eq_solutions:
  assumes "cands_sound C (bgp_solutions T n P)"
  shows "rows_of T C n P = bgp_solutions T n P"
proof (intro set_eqI iffI)
  fix b assume "b \<in> rows_of T C n P"
  moreover have "row_match T C b plan \<Longrightarrow> plan_match T b plan" for plan
    by (auto simp: row_match_def plan_match_def)
  ultimately show "b \<in> bgp_solutions T n P" by (auto simp: rows_of_def bgp_solutions_def)
next
  fix b assume b: "b \<in> bgp_solutions T n P"
  have ok: "cand_ok slot x C" if "slot_known slot b = Some x" for slot x
    unfolding cand_ok_iff [OF assms]
  proof (intro allI impI)
    fix v l assume "slot = Var v" "C v = Some l"
    with assms b obtain y where "y \<in> set l" "b ! v = Some y" unfolding cands_sound_def by blast
    with \<open>slot = Var v\<close> that show "x \<in> set l" by simp
  qed
  have "row_match T C b plan" if "plan_match T b plan" for plan
    using that by (rule plan_matchE) (use ok in \<open>auto simp: row_match_def\<close>)
  then show "b \<in> rows_of T C n P" using b by (auto simp: rows_of_def bgp_solutions_def)
qed

section \<open>Refinement through the VS-tree is sound\<close>

lemma compile_all_spec:
  "compile_all d l tps = Some plans \<Longrightarrow>
    length plans = length tps \<and> (\<forall>i < length tps. compile_pattern d l (tps ! i) = Some (plans ! i))"
proof (induction tps arbitrary: plans)
  case (Cons tp tps)
  then show ?case by (auto split: option.splits simp: less_Suc_eq_0_disj)
qed simp

lemma compile_all_pattern:
  assumes "compile_all d l tps = Some plans" and "tp \<in> set tps"
  shows "\<exists>plan \<in> set plans. compile_pattern d l tp = Some plan"
  using compile_all_spec [OF assms(1)] assms(2) by (metis in_set_conv_nth)

lemma compiled_slots:
  assumes "compile_pattern d l tp = Some plan"
  shows "compile_node_slot d l (tp_subject tp) = Some (plan_s plan)"
    "compile_pred_slot d l (tp_predicate tp) = Some (plan_p plan)"
    "compile_node_slot d l (tp_object tp) = Some (plan_o plan)"
  using assms by (auto simp: compile_pattern_def split: option.splits)

lemma known_of_compiled:
  "compile_node_slot d l pt = Some slot \<Longrightarrow> slot_known slot b = Some x \<Longrightarrow> neighbor_id_of d pt \<in> {None, Some x}"
  "compile_pred_slot d l pt = Some slot \<Longrightarrow> slot_known slot b = Some x \<Longrightarrow> pred_id_of d pt \<in> {None, Some x}"
  by (cases pt; auto) (cases "(d, l, pt)" rule: compile_pred_slot.cases; auto)

text \<open>The bits a pattern contributes to the query signature of a variable are bits of the signature of
  every entity the variable can take.\<close>

lemma query_sig_step_bits:
  assumes "sig_wf sg"
  shows "sig_wf (query_sig_step d l v tp sg)"
    and "sig_bits (query_sig_step d l v tp sg) = sig_bits sg
      \<union> (if is_var_at l (tp_subject tp) v then query_bits (pred_id_of d (tp_predicate tp)) (neighbor_id_of d (tp_object tp)) Out else {})
      \<union> (if is_var_at l (tp_object tp) v then query_bits (pred_id_of d (tp_predicate tp)) (neighbor_id_of d (tp_subject tp)) In else {})"
  using assms by (auto simp: query_sig_step_def Let_def encode_query_edge_spec)

lemma query_sig_subset:
  assumes "\<forall>tp \<in> set tps. (is_var_at l (tp_subject tp) v \<longrightarrow>
        query_bits (pred_id_of d (tp_predicate tp)) (neighbor_id_of d (tp_object tp)) Out \<subseteq> B) \<and>
      (is_var_at l (tp_object tp) v \<longrightarrow>
        query_bits (pred_id_of d (tp_predicate tp)) (neighbor_id_of d (tp_subject tp)) In \<subseteq> B)"
  shows "sig_bits (query_sig d l tps v) \<subseteq> B \<and> sig_wf (query_sig d l tps v)"
proof -
  have "sig_wf sg \<Longrightarrow> sig_bits sg \<subseteq> B \<Longrightarrow> set ts \<subseteq> set tps \<Longrightarrow>
      sig_bits (fold (query_sig_step d l v) ts sg) \<subseteq> B \<and> sig_wf (fold (query_sig_step d l v) ts sg)" for ts sg
  proof (induction ts arbitrary: sg)
    case (Cons tp ts)
    have "sig_wf (query_sig_step d l v tp sg)" using query_sig_step_bits(1) Cons.prems(1) by blast
    moreover have "sig_bits (query_sig_step d l v tp sg) \<subseteq> B"
      using assms Cons.prems unfolding query_sig_step_bits(2) [OF Cons.prems(1)] by auto
    ultimately show ?case using Cons.IH Cons.prems(3) by simp
  qed simp
  then show ?thesis by (simp add: query_sig_def)
qed

lemma entity_sig_bits:
  assumes "store_inv st"
  shows "IdTriple e p ob \<in> triples st \<Longrightarrow> edge_bits p ob Out \<subseteq> sig_bits (entity_sig st e)"
    and "IdTriple s p e \<in> triples st \<Longrightarrow> edge_bits p s In \<subseteq> sig_bits (entity_sig st e)"
proof -
  let ?es = "map (\<lambda>(p, ob). (p, ob, Out)) (po_by_s st e) @ map (\<lambda>(p, s). (p, s, In)) (ps_by_o st e)"
  have "entity_sig st e = fold (\<lambda>(p, n, d) sg. encode_edge sg p n d) ?es sig_new"
    by (simp add: entity_sig_def fold_map comp_def split_def)
  then have bits: "sig_bits (entity_sig st e) = (\<Union>(p, n, d) \<in> set ?es. edge_bits p n d)"
    using encode_edges_spec [OF sig_new_spec(1), of ?es] by (simp only: sig_new_spec Un_empty_left)
  show "edge_bits p ob Out \<subseteq> sig_bits (entity_sig st e)" if "IdTriple e p ob \<in> triples st"
    using that mem.po_set [OF assms, of e] unfolding bits by (force simp: image_iff)
  show "edge_bits p s In \<subseteq> sig_bits (entity_sig st e)" if "IdTriple s p e \<in> triples st"
    using that mem.ps_set [OF assms, of e] unfolding bits by (force simp: image_iff)
qed

lemma var_at_compiled:
  assumes "is_var_at l pt v" and "compile_node_slot d l pt = Some slot"
  shows "slot = Var v"
  using assms by (cases pt) (auto simp: is_var_at_def)

lemma matching_bits:
  assumes "qp \<in> {None, Some p}" and "qn \<in> {None, Some n}"
  shows "query_bits qp qn dir \<subseteq> edge_bits p n dir"
  by (rule query_bits_matching) (use assms in \<open>auto simp: edge_matches_def\<close>)

lemma solution_contains_query_sig:
  assumes inv: "store_inv st" and comp: "compile_all d l tps = Some plans"
    and b: "\<forall>plan \<in> set plans. plan_match (triples st) b plan" and e: "b ! v = Some e"
  shows "sig_bits (query_sig d l tps v) \<subseteq> sig_bits (entity_sig st e)" and "sig_wf (query_sig d l tps v)"
proof -
  have "(is_var_at l (tp_subject tp) v \<longrightarrow>
        query_bits (pred_id_of d (tp_predicate tp)) (neighbor_id_of d (tp_object tp)) Out \<subseteq> sig_bits (entity_sig st e)) \<and>
      (is_var_at l (tp_object tp) v \<longrightarrow>
        query_bits (pred_id_of d (tp_predicate tp)) (neighbor_id_of d (tp_subject tp)) In \<subseteq> sig_bits (entity_sig st e))"
    if tp: "tp \<in> set tps" for tp
  proof -
    obtain plan where plan: "plan \<in> set plans" "compile_pattern d l tp = Some plan"
      using compile_all_pattern [OF comp tp] by blast
    note slots = compiled_slots [OF plan(2)]
    from b plan(1) have "plan_match (triples st) b plan" by blast
    then obtain s p ob where m: "slot_known (plan_s plan) b = Some s" "slot_known (plan_p plan) b = Some p"
      "slot_known (plan_o plan) b = Some ob" "IdTriple s p ob \<in> triples st" by (rule plan_matchE)
    note q = known_of_compiled(2) [OF slots(2) m(2)] known_of_compiled(1) [OF slots(3) m(3)] known_of_compiled(1) [OF slots(1) m(1)]
    have "is_var_at l (tp_subject tp) v \<Longrightarrow> s = e" using var_at_compiled [OF _ slots(1)] m(1) e by auto
    moreover have "is_var_at l (tp_object tp) v \<Longrightarrow> ob = e" using var_at_compiled [OF _ slots(3)] m(3) e by auto
    ultimately show ?thesis
      using entity_sig_bits [OF inv] m(4) matching_bits [OF q(1,2), of Out] matching_bits [OF q(1,3), of In] by blast
  qed
  then show "sig_bits (query_sig d l tps v) \<subseteq> sig_bits (entity_sig st e)" and "sig_wf (query_sig d l tps v)"
    using query_sig_subset [of tps l v d "sig_bits (entity_sig st e)"] by blast+
qed

lemma subj_vars_bound:
  assumes "v \<in> set (subj_vars l tps)" and "compile_all d l tps = Some plans"
    and "\<forall>plan \<in> set plans. plan_match T b plan"
  shows "\<exists>e. b ! v = Some e \<and> e \<in> sub ` T"
proof -
  obtain tp w where tp: "tp \<in> set tps" "tp_subject tp = PVar w" "v = layout_index l w"
  proof -
    obtain tp where "tp \<in> set tps" "v \<in> set (case tp_subject tp of PVar v \<Rightarrow> [layout_index l v] | PTerm _ \<Rightarrow> [])"
      using assms(1) by (auto simp: subj_vars_def)
    then show thesis using that by (cases "tp_subject tp") auto
  qed
  obtain plan where plan: "plan \<in> set plans" "compile_pattern d l tp = Some plan"
    using compile_all_pattern [OF assms(2) tp(1)] by blast
  then have "plan_s plan = Var v" using compiled_slots(1) [OF plan(2)] tp by simp
  moreover have "plan_match T b plan" using assms(3) plan(1) by blast
  then obtain s p ob where "slot_known (plan_s plan) b = Some s" "IdTriple s p ob \<in> T" by (rule plan_matchE)
  ultimately show ?thesis by (auto simp: sub_image_iff)
qed

lemma cands_sound_update:
  "cands_sound C S \<Longrightarrow> ascending l \<Longrightarrow> \<forall>b \<in> S. \<exists>x \<in> set l. b ! v = Some x \<Longrightarrow> cands_sound (C(v \<mapsto> l)) S"
  by (auto simp: cands_sound_def)

lemma refine_var_sound:
  assumes inv: "store_inv st" and idx: "index_ok st t" and comp: "compile_all d l tps = Some plans"
    and S: "\<forall>b \<in> S. \<forall>plan \<in> set plans. plan_match (triples st) b plan"
    and v: "v \<in> set (subj_vars l tps)" and C: "cands_sound C S"
  shows "cands_sound (refine_var d l t tps v C) S"
proof (cases "candidates t (query_sig d l tps v)")
  case None
  then show ?thesis using C by (simp add: refine_var_def Let_def)
next
  case (Some ids)
  let ?vs = "sort_dedup ids"
  have vs: "\<exists>x \<in> set ?vs. b ! v = Some x" if "b \<in> S" for b
  proof -
    from S that have pm: "\<forall>plan \<in> set plans. plan_match (triples st) b plan" by blast
    obtain e where e: "b ! v = Some e" "e \<in> sub ` triples st" using subj_vars_bound [OF v comp pm] by blast
    have "(e, entity_sig st e) \<in> set (vs_entries t)"
    proof (rule map_of_SomeD)
      show "map_of (vs_entries t) e = Some (entity_sig st e)" using idx e(2) by (simp add: index_ok_def entity_ids_def)
    qed
    moreover have "contains (entity_sig st e) (query_sig d l tps v)"
      using solution_contains_query_sig(1) [OF inv comp pm e(1)] by (simp add: contains_iff)
    ultimately have "e \<in> set ids"
      using mem_filter.cands_set [of t "query_sig d l tps v" ids e] idx Some by (auto simp: index_ok_def)
    then show ?thesis using e(1) by auto
  qed
  show ?thesis
  proof (cases "C v")
    case None
    then show ?thesis using Some C vs by (auto simp: refine_var_def Let_def cands_sound_def)
  next
    case Ex: (Some ex)
    let ?new = "filter (\<lambda>x. case binary_search ?vs x of Inr _ \<Rightarrow> True | Inl _ \<Rightarrow> False) ex"
    have asc: "ascending ?new" using C Ex by (auto simp: cands_sound_def intro: ascending_filter)
    have mem: "x \<in> set ?new \<longleftrightarrow> x \<in> set ex \<and> x \<in> set ?vs" for x
      using binary_search_found_iff [of ?vs x] by (auto split: sum.splits)
    have "\<exists>x \<in> set ?new. b ! v = Some x" if b: "b \<in> S" for b
    proof -
      obtain x where "b ! v = Some x" "x \<in> set ?vs" using vs [OF b] by blast
      moreover have "\<exists>x \<in> set ex. b ! v = Some x" using C Ex b unfolding cands_sound_def by blast
      ultimately have "x \<in> set ?new" "b ! v = Some x" unfolding mem by auto
      then show ?thesis by blast
    qed
    with asc have "cands_sound (C(v \<mapsto> ?new)) S" by (intro cands_sound_update C) blast+
    then show ?thesis using Some Ex C by (simp add: refine_var_def Let_def)
  qed
qed

lemma refine_sound:
  assumes "store_inv st" and "\<forall>t. vt = Some t \<longrightarrow> index_ok st t" and "compile_all d l tps = Some plans"
    and "\<forall>b \<in> S. \<forall>plan \<in> set plans. plan_match (triples st) b plan" and "cands_sound C S"
  shows "cands_sound (refine_candidates_with_vstree d l vt tps C) S"
proof (cases vt)
  case (Some t)
  have "cands_sound c S \<Longrightarrow> set vs \<subseteq> set (subj_vars l tps) \<Longrightarrow> cands_sound (fold (refine_var d l t tps) vs c) S" for vs c
  proof (induction vs arbitrary: c)
    case (Cons v vs)
    have "cands_sound (refine_var d l t tps v c) S"
      using refine_var_sound [OF assms(1) _ assms(3,4)] assms(2) Some Cons.prems by simp
    then show ?case using Cons by simp
  qed simp
  then show ?thesis using Some assms(5) by (simp add: refine_candidates_with_vstree_def)
qed (use assms(5) in \<open>simp add: refine_candidates_with_vstree_def\<close>)

section \<open>Properties\<close>

text \<open>A plan executes a list of \<open>n\<close> patterns when it mentions each of them and nothing else; a layout
  covers a pattern list when it names every variable in it.\<close>

definition valid_plan :: "nat \<Rightarrow> ExecPlan \<Rightarrow> bool" where
  "valid_plan n p \<longleftrightarrow> (case tree p of None \<Rightarrow> set (order p) = {..<n} | Some t \<Rightarrow> set (leaves t) = {..<n})"

definition term_covered :: "VarLayout \<Rightarrow> PatternTerm \<Rightarrow> bool" where
  "term_covered l pt \<longleftrightarrow> (case pt of PVar v \<Rightarrow> v \<in> set (names l) | PTerm _ \<Rightarrow> True)"

definition layout_covers :: "VarLayout \<Rightarrow> TriplePattern list \<Rightarrow> bool" where
  "layout_covers l tps \<longleftrightarrow> (\<forall>tp \<in> set tps. term_covered l (tp_subject tp) \<and>
     term_covered l (tp_predicate tp) \<and> term_covered l (tp_object tp))"

lemma layout_index_less: "v \<in> set (names l) \<Longrightarrow> layout_index l v < layout_len l"
  unfolding layout_index_def layout_len_def
  by (metis (mono_tags) length_takeWhile_le less_le set_takeWhileD takeWhile_eq_all_conv takeWhile_eq_take take_all order_refl)

lemma slot_covered:
  "term_covered l pt \<Longrightarrow> compile_node_slot d l pt = Some slot \<Longrightarrow> slot_set slot \<subseteq> {..<layout_len l}"
  "term_covered l pt \<Longrightarrow> compile_pred_slot d l pt = Some slot \<Longrightarrow> slot_set slot \<subseteq> {..<layout_len l}"
  by (cases pt; auto simp: term_covered_def layout_index_less)
     (cases "(d, l, pt)" rule: compile_pred_slot.cases; auto simp: term_covered_def layout_index_less)

lemma compiled_wf:
  assumes "layout_covers l tps" and "compile_all d l tps = Some plans" and "plan \<in> set plans"
  shows "plan_wf (layout_len l) plan"
proof -
  obtain i where i: "i < length tps" "plan = plans ! i" "compile_pattern d l (tps ! i) = Some plan"
    using compile_all_spec [OF assms(2)] assms(3) by (metis in_set_conv_nth)
  then have "tps ! i \<in> set tps" by simp
  then have "term_covered l (tp_subject (tps ! i))" "term_covered l (tp_predicate (tps ! i))" "term_covered l (tp_object (tps ! i))"
    using assms(1) unfolding layout_covers_def by blast+
  with compiled_slots [OF i(3)] slot_covered [of l _ d] show ?thesis
    unfolding plan_wf_def plan_vars_set_slots by blast
qed

lemma eval_bgp_solutions:
  assumes "store_inv st" and "\<forall>t. vt = Some t \<longrightarrow> index_ok st t" and "layout_covers l tps"
    and "compile_all d l tps = Some plans" and "\<forall>C. valid_plan (length plans) (optimize plans C)"
  shows "set (eval_bgp optimize border d st vt l tps) = bgp_solutions (triples st) (layout_len l) (set plans) \<and>
    distinct (eval_bgp optimize border d st vt l tps)"
proof (cases "plans = []")
  case True
  have "bgp_solutions (triples st) (layout_len l) {} = {replicate (layout_len l) None}"
    using rows_empty_plan [of "triples st" Map.empty] by (simp add: rows_of_def bgp_solutions_def)
  then show ?thesis using True assms(4) by (simp add: eval_bgp_def)
next
  case False
  let ?n = "layout_len l" and ?S = "bgp_solutions (triples st) (layout_len l) (set plans)"
  define C where "C = refine_candidates_with_vstree d l vt tps (generate border plans st)"
  have match: "\<forall>b \<in> ?S. \<forall>plan \<in> set plans. plan_match (triples st) b plan" by (auto simp: bgp_solutions_def)
  have "cands_sound C ?S" unfolding C_def
    by (rule refine_sound [OF assms(1,2,4) match generate_sound_set [OF assms(1) match]])
  then have rows: "rows_of (triples st) C ?n (set plans) = ?S" by (rule rows_eq_solutions)
  have wf: "\<forall>plan \<in> set plans. plan_wf ?n plan" using compiled_wf [OF assms(3,4)] by blast
  have all: "(!) plans ` {..<length plans} = set plans" by (auto simp: in_set_conv_nth)
  show ?thesis
  proof (cases "tree (optimize plans C)")
    case None
    then have "set (order (optimize plans C)) = {..<length plans}"
      using assms(5) by (auto simp: valid_plan_def dest: spec [of _ C])
    then have ord: "{} \<union> set (map (nth plans) (order (optimize plans C))) = set plans" using all by simp
    have "set (eval_left_deep st plans C (order (optimize plans C)) [replicate ?n None]) = ?S \<and>
        distinct (eval_left_deep st plans C (order (optimize plans C)) [replicate ?n None])"
      using eval_left_deep_rows [OF assms(1), of "{}" plans "order (optimize plans C)" ?n "[replicate ?n None]" C]
      unfolding ord rows using wf by (simp add: rows_empty_plan)
    then show ?thesis using None False assms(4) by (simp add: eval_bgp_def C_def [symmetric] Let_def)
  next
    case (Some t)
    then have lv: "set (leaves t) = {..<length plans}"
      using assms(5) by (auto simp: valid_plan_def dest: spec [of _ C])
    have "\<forall>i \<in> set (leaves t). plan_wf ?n (plans ! i)" using wf unfolding lv by simp
    with eval_join_tree_rows [OF assms(1), of t ?n plans C] rows all lv
    show ?thesis using Some False assms(4) by (simp add: eval_bgp_def C_def [symmetric] Let_def)
  qed
qed

text \<open>C1. The evaluator is sound and complete for basic graph patterns: over a consistent store, with no
  VS-tree or with one that is consistent with the store, and with whatever join order or join tree the
  optimizer picks, \<open>eval_bgp\<close> returns every solution of the compiled patterns exactly once and nothing
  else.\<close>

theorem eval_bgp_exact:
  assumes "store_inv st" and "\<forall>t. vt = Some t \<longrightarrow> index_ok st t" and "layout_covers l tps"
    and "compile_all d l tps = Some plans" and "\<forall>C. valid_plan (length plans) (optimize plans C)"
  shows "set (eval_bgp optimize border d st vt l tps) = bgp_solutions (triples st) (layout_len l) (set plans) \<and>
    distinct (eval_bgp optimize border d st vt l tps)"
  by (rule eval_bgp_solutions) (fact assms)+

text \<open>Pruning and planning are pure optimizations: with and without the VS-tree, with any two valid
  plans and any two selectivity borders, a pattern list gets the same answers the same number of
  times.\<close>

lemma eval_bgp_plan_independent:
  assumes "store_inv st" and "index_ok st t" and "layout_covers l tps"
    and "\<forall>ps C. valid_plan (length ps) (optimize1 ps C) \<and> valid_plan (length ps) (optimize2 ps C)"
  shows "mset (eval_bgp optimize1 border1 d st (Some t) l tps) = mset (eval_bgp optimize2 border2 d st None l tps)"
proof (cases "compile_all d l tps")
  case None
  then show ?thesis by (simp add: eval_bgp_def)
next
  case (Some plans)
  note a = eval_bgp_solutions [OF assms(1) _ assms(3) Some, of "Some t" optimize1 border1]
    eval_bgp_solutions [OF assms(1) _ assms(3) Some, of None optimize2 border2]
  then show ?thesis using assms(2,4) by (simp add: set_eq_iff_mset_eq_distinct [symmetric])
qed

text \<open>C23. The join method never changes the result: the hash join and the nested-loop join emit the same
  rows in the same order, whichever of them the cost rule \<open>judge\<close> picks.\<close>

theorem hash_join_eq_nested_loop:
  "join_sets_hash left right shared = join_sets_nested left right shared"
  by (rule join_methods_agree)

text \<open>Applications: the pattern \<open>?x ?p ?y\<close> over two triples.\<close>

definition xpy_layout :: VarLayout where
  "xpy_layout = \<lparr>names = [lit ''x'', lit ''p'', lit ''y'']\<rparr>"

definition xpy_pattern :: TriplePattern where
  "xpy_pattern = \<lparr>tp_subject = PVar (lit ''x''), tp_predicate = PVar (lit ''p''), tp_object = PVar (lit ''y'')\<rparr>"

definition in_order :: "PatPlan list \<Rightarrow> Candidates \<Rightarrow> ExecPlan" where
  "in_order ps C = \<lparr>order = [0..<length ps], tree = None\<rparr>"

lemma in_order_valid: "valid_plan (length ps) (in_order ps C)"
  by (auto simp: valid_plan_def in_order_def)

lemma xpy_covered: "layout_covers xpy_layout [xpy_pattern]"
  by (simp add: layout_covers_def term_covered_def xpy_layout_def xpy_pattern_def)

lemma xpy_compiled:
  "compile_all d xpy_layout [xpy_pattern] = Some [\<lparr>plan_s = Var 0, plan_p = Var 1, plan_o = Var 2\<rparr>]"
  by (simp add: compile_pattern_def layout_index_def xpy_layout_def xpy_pattern_def)

theorem eval_bgp_exact_witness:
  "set (eval_bgp in_order (\<lambda>a b. True) dict_new two_triples None xpy_layout [xpy_pattern])
     = bgp_solutions (triples two_triples) 3 {\<lparr>plan_s = Var 0, plan_p = Var 1, plan_o = Var 2\<rparr>} \<and>
   eval_bgp in_order (\<lambda>a b. True) dict_new two_triples None xpy_layout [xpy_pattern]
     = [[Some 1, Some 2, Some 3], [Some 4, Some 2, Some 3]]"
proof
  show "eval_bgp in_order (\<lambda>a b. True) dict_new two_triples None xpy_layout [xpy_pattern]
     = [[Some 1, Some 2, Some 3], [Some 4, Some 2, Some 3]]" by code_simp
  show "set (eval_bgp in_order (\<lambda>a b. True) dict_new two_triples None xpy_layout [xpy_pattern])
     = bgp_solutions (triples two_triples) 3 {\<lparr>plan_s = Var 0, plan_p = Var 1, plan_o = Var 2\<rparr>}"
    using eval_bgp_exact [OF two_triples_inv(1) _ xpy_covered xpy_compiled, of None in_order "\<lambda>a b. True"]
    by (simp add: in_order_valid [of "[_]", simplified] layout_len_def xpy_layout_def numeral_3_eq_3)
qed

end
