(* ===== verification/Results.thy ===== *)
theory Results
  imports Bgp
begin

text \<open>
  From binding rows to strings (\<open>src/query/engine.rs\<close>): the synthetic ids of computed terms, their
  per-query interner \<open>Extras\<close>, and \<open>resolve_string\<close>, which turns an id of a row into the string of a
  result cell.
\<close>

definition SYNTH_BASE :: u32 where
  "SYNTH_BASE = 4200000000"

definition is_synth :: "u32 \<Rightarrow> bool" where
  "is_synth ix \<longleftrightarrow> ix \<ge> SYNTH_BASE"

record Extras =
  extra_terms :: "Term list"
  extra_index :: "(Term \<times> u32) list"

definition extras_default :: Extras where
  "extras_default = \<lparr>extra_terms = [], extra_index = []\<rparr>"

text \<open>The addition is unchecked in a release build and wraps; the id space holds 94967296 terms.\<close>

definition extras_intern :: "Extras \<Rightarrow> Term \<Rightarrow> u32 \<times> Extras" where
  "extras_intern x t = (case map_of (extra_index x) t of
     Some ix \<Rightarrow> (ix, x)
   | None \<Rightarrow> (let ix = SYNTH_BASE + word_of_nat (length (extra_terms x))
              in (ix, x\<lparr>extra_terms := extra_terms x @ [t], extra_index := AList.update t ix (extra_index x)\<rparr>)))"

definition extras_term :: "Extras \<Rightarrow> u32 \<Rightarrow> Term option" where
  "extras_term x ix = (let k = unat (ix - SYNTH_BASE) in if k < length (extra_terms x) then Some (extra_terms x ! k) else None)"

definition resolve_string :: "Dictionary \<Rightarrow> Extras \<Rightarrow> u32 option \<Rightarrow> bool \<Rightarrow> rstring option" where
  "resolve_string d x ix is_pred = (case ix of
     None \<Rightarrow> None
   | Some i \<Rightarrow>
       if is_synth i then map_option term_to_string (extras_term x i)
       else if is_pred then predicate_to_string d i else id_to_string d i)"

section \<open>The interner of computed terms\<close>

definition extras_inv :: "Extras \<Rightarrow> bool" where
  "extras_inv x \<longleftrightarrow> distinct (extra_terms x) \<and> length (extra_terms x) \<le> 94967296 \<and>
     (\<forall>t ix. map_of (extra_index x) t = Some ix \<longleftrightarrow>
        (\<exists>k < length (extra_terms x). extra_terms x ! k = t \<and> ix = SYNTH_BASE + word_of_nat k))"

fun extras_intern_all :: "Extras \<Rightarrow> Term list \<Rightarrow> u32 list \<times> Extras" where
  "extras_intern_all x [] = ([], x)"
| "extras_intern_all x (t # ts) = (case extras_intern x t of (ix, x1) \<Rightarrow>
     (case extras_intern_all x1 ts of (ixs, x2) \<Rightarrow> (ix # ixs, x2)))"

lemma synth_id:
  assumes "k < 94967296"
  shows "unat (SYNTH_BASE + word_of_nat k :: u32) = 4200000000 + k" "is_synth (SYNTH_BASE + word_of_nat k)"
    "unat (SYNTH_BASE + word_of_nat k - SYNTH_BASE :: u32) = k"
proof -
  have k: "unat (word_of_nat k :: u32) = k" using assms by (simp add: unat_of_nat take_bit_nat_eq_self)
  show u: "unat (SYNTH_BASE + word_of_nat k :: u32) = 4200000000 + k"
    using assms by (subst unat_add_lem [THEN iffD1]) (simp_all add: k SYNTH_BASE_def)
  show "is_synth (SYNTH_BASE + word_of_nat k)" by (simp add: is_synth_def word_le_nat_alt u) (simp add: SYNTH_BASE_def)
  show "unat (SYNTH_BASE + word_of_nat k - SYNTH_BASE :: u32) = k" by (simp add: k)
qed

lemma extras_intern_spec:
  assumes inv: "extras_inv x" and room: "length (extra_terms x) < 94967296" and r: "extras_intern x t = (ix, x')"
  shows "extras_inv x' \<and> extras_term x' ix = Some t \<and> is_synth ix \<and> length (extra_terms x') \<le> Suc (length (extra_terms x)) \<and>
    (\<exists>ts. extra_terms x' = extra_terms x @ ts)"
proof (cases "map_of (extra_index x) t")
  case (Some jx)
  then obtain k where k: "k < length (extra_terms x)" "extra_terms x ! k = t" "jx = SYNTH_BASE + word_of_nat k"
    using inv by (auto simp: extras_inv_def)
  have "x' = x" "ix = jx" using r Some by (auto simp: extras_intern_def)
  moreover have "k < 94967296" using k(1) room by simp
  ultimately show ?thesis using inv k synth_id [of k] by (auto simp: extras_term_def Let_def)
next
  case None
  let ?n = "length (extra_terms x)"
  have x': "ix = SYNTH_BASE + word_of_nat ?n" "extra_terms x' = extra_terms x @ [t]"
    "extra_index x' = AList.update t ix (extra_index x)"
    using r None by (auto simp: extras_intern_def Let_def)
  have new: "t \<notin> set (extra_terms x)"
  proof
    assume "t \<in> set (extra_terms x)"
    then obtain k where "k < ?n" "extra_terms x ! k = t" by (auto simp: in_set_conv_nth)
    then have "map_of (extra_index x) t = Some (SYNTH_BASE + word_of_nat k)" using inv by (auto simp: extras_inv_def)
    with None show False by simp
  qed
  have "map_of (extra_index x') u = Some jx \<longleftrightarrow>
      (\<exists>k < Suc ?n. extra_terms x' ! k = u \<and> jx = SYNTH_BASE + word_of_nat k)" for u jx
  proof (cases "u = t")
    case True
    have "extra_terms x' ! k = t \<longleftrightarrow> k = ?n" if "k < Suc ?n" for k
      using that new by (cases "k = ?n") (auto simp: x'(2) nth_append)
    then have "(\<exists>k < Suc ?n. extra_terms x' ! k = t \<and> jx = SYNTH_BASE + word_of_nat k) \<longleftrightarrow> jx = SYNTH_BASE + word_of_nat ?n"
      by blast
    then show ?thesis using True by (simp only: x'(3) update_conv fun_upd_same option.inject) (use x'(1) in blast)
  next
    case False
    then have "map_of (extra_index x') u = map_of (extra_index x) u" by (simp add: x'(3) update_conv)
    moreover have "extra_terms x' ! k = u \<longleftrightarrow> k < ?n \<and> extra_terms x ! k = u" if "k < Suc ?n" for k
      using that False by (cases "k = ?n") (auto simp: x'(2) nth_append)
    then have "(\<exists>k < Suc ?n. extra_terms x' ! k = u \<and> jx = SYNTH_BASE + word_of_nat k) \<longleftrightarrow>
        (\<exists>k < ?n. extra_terms x ! k = u \<and> jx = SYNTH_BASE + word_of_nat k)" using less_SucI by blast
    ultimately show ?thesis using inv unfolding extras_inv_def by metis
  qed
  then have "extras_inv x'" using inv room new by (simp add: extras_inv_def x'(2))
  then show ?thesis using room synth_id [of ?n] by (auto simp: x' extras_term_def Let_def)
qed

lemma extras_term_mono:
  assumes "extra_terms x' = extra_terms x @ ts" and "extras_term x ix = Some t"
  shows "extras_term x' ix = Some t"
  using assms by (auto simp: extras_term_def Let_def nth_append split: if_splits)

lemma extras_intern_all_spec:
  assumes "extras_inv x" and "length (extra_terms x) + length ts \<le> 94967296"
  shows "\<exists>ixs x' us. extras_intern_all x ts = (ixs, x') \<and> extras_inv x' \<and> extra_terms x' = extra_terms x @ us \<and>
    map (extras_term x') ixs = map Some ts \<and> list_all is_synth ixs"
  using assms
proof (induction ts arbitrary: x)
  case (Cons t ts)
  obtain ix x1 where i: "extras_intern x t = (ix, x1)" by fastforce
  note s = extras_intern_spec [OF Cons.prems(1) _ i]
  then obtain vs where vs: "extra_terms x1 = extra_terms x @ vs" using Cons.prems(2) by auto
  obtain ixs x2 us where r: "extras_intern_all x1 ts = (ixs, x2)" "extras_inv x2" "extra_terms x2 = extra_terms x1 @ us"
    "map (extras_term x2) ixs = map Some ts" "list_all is_synth ixs"
    using Cons.IH [of x1] s Cons.prems(2) by auto
  have "extras_term x2 ix = Some t" using extras_term_mono [OF r(3)] s Cons.prems(2) by simp
  then show ?case using i r vs s Cons.prems(2) by auto
qed simp

text \<open>
  Computed terms survive the id-based join machinery: the terms of a query interned one after
  another all get synthetic ids, each of which resolves to the printed form of its term in the final
  state, whatever the dictionary and the variable's position, as long as there are at most 94967296
  of them.
\<close>

lemma computed_terms_resolve:
  assumes "length ts \<le> 94967296"
  shows "\<exists>ixs x. extras_intern_all extras_default ts = (ixs, x) \<and>
    map (\<lambda>ix. resolve_string d x (Some ix) is_pred) ixs = map (\<lambda>t. Some (term_to_string t)) ts"
proof -
  have "extras_inv extras_default" by (simp add: extras_inv_def extras_default_def)
  then obtain ixs x us where r: "extras_intern_all extras_default ts = (ixs, x)" "map (extras_term x) ixs = map Some ts" "list_all is_synth ixs"
    using extras_intern_all_spec [of extras_default ts] assms by (auto simp: extras_default_def)
  have "map (\<lambda>ix. resolve_string d x (Some ix) is_pred) ixs = map (map_option term_to_string) (map (extras_term x) ixs)"
    using r(3) by (induction ixs) (simp_all add: resolve_string_def)
  then show ?thesis using r by (simp add: comp_def)
qed

end
