(* ===== verification/Paths.thy ===== *)
theory Paths
  imports Results
begin

text \<open>
  Property paths (\<open>src/query/engine.rs\<close>, \<open>eval_path_pattern\<close> to \<open>path_closure\<close>). A \<open>HashSet\<close> of ids is
  a list without duplicates in insertion order; the order in which the program iterates over one is
  unspecified and only the set of results is stated. The breadth-first closure terminates because
  the visited ids grow within the finite type of ids.
\<close>

datatype PathExpr =
    Pred rstring
  | Inverse PathExpr
  | Seq PathExpr PathExpr
  | Alt PathExpr PathExpr
  | ZeroOrMore PathExpr
  | OneOrMore PathExpr
  | ZeroOrOne PathExpr
  | NegatedSet "(rstring \<times> bool) list"

record PathPattern =
  pp_subject :: PatternTerm
  pp_path :: PathExpr
  pp_object :: PatternTerm

section \<open>Evaluation\<close>

definition hs_insert :: "u32 \<Rightarrow> u32 list \<Rightarrow> u32 list" where
  "hs_insert x s = (if x \<in> set s then s else s @ [x])"

definition hs_extend :: "u32 list \<Rightarrow> u32 list \<Rightarrow> u32 list" where
  "hs_extend s xs = fold hs_insert xs s"

definition path_pred_id :: "Dictionary \<Rightarrow> rstring \<Rightarrow> u32 option" where
  "path_pred_id d iri = predicate_id d (dict_key (Iri iri))"

text \<open>One neighbour of the node popped from the frontier (the top of the stack is the list's head).\<close>

definition visit_step :: "u32 \<Rightarrow> u32 list \<times> u32 list \<times> u32 list \<Rightarrow> u32 list \<times> u32 list \<times> u32 list" where
  "visit_step nxt s = (case s of (frontier, visited, out) \<Rightarrow>
     if nxt \<in> set visited then s else (nxt # frontier, nxt # visited, hs_insert nxt out))"

lemma fold_visit_step_conj:
  "fold visit_step ns (fr, vis, out) = (fr', vis', out') \<Longrightarrow>
    set vis' = set vis \<union> set ns \<and> set out' = set out \<union> (set ns - set vis) \<and> set fr' = set fr \<union> (set ns - set vis) \<and>
    (set ns \<subseteq> set vis \<longrightarrow> fr' = fr)"
proof (induction ns arbitrary: fr vis out)
  case (Cons x ns)
  then show ?case
  proof (cases "x \<in> set vis")
    case True
    then show ?thesis using Cons.IH [of fr vis out] Cons.prems by (auto simp: visit_step_def)
  next
    case False
    then show ?thesis using Cons.IH [of "x # fr" "x # vis" "hs_insert x out"] Cons.prems by (auto simp: visit_step_def hs_insert_def)
  qed
qed simp

lemma fold_visit_step:
  assumes "fold visit_step ns (fr, vis, out) = (fr', vis', out')"
  shows "set vis' = set vis \<union> set ns" "set out' = set out \<union> (set ns - set vis)" "set fr' = set fr \<union> (set ns - set vis)"
    "set ns \<subseteq> set vis \<Longrightarrow> fr' = fr"
  using fold_visit_step_conj [OF assms] by blast+

function closure_loop :: "(u32 \<Rightarrow> u32 list) \<Rightarrow> u32 list \<Rightarrow> u32 list \<Rightarrow> u32 list \<Rightarrow> u32 list" where
  "closure_loop r [] vis out = out"
| "closure_loop r (n # fr) vis out =
     (case fold visit_step (r n) (fr, vis, out) of (fr', vis', out') \<Rightarrow> closure_loop r fr' vis' out')"
  by pat_completeness auto

termination
proof (relation "measures [\<lambda>(r, fr, vis, out). card (- set vis), \<lambda>(r, fr, vis, out). length fr]", goal_cases)
  case (2 r n fr vis out fr' y vis' out')
  then have f: "fold visit_step (r n) (fr, vis, out) = (fr', vis', out')" by simp
  show ?case
  proof (cases "set (r n) \<subseteq> set vis")
    case True
    then show ?thesis using fold_visit_step(1,4) [OF f] by (simp add: Un_absorb2)
  next
    case False
    then have "- set vis' \<subset> - set vis" using fold_visit_step(1) [OF f] by auto
    then show ?thesis by (simp add: psubset_card_mono)
  qed
qed simp

definition path_closure :: "(u32 \<Rightarrow> u32 list) \<Rightarrow> u32 \<Rightarrow> bool \<Rightarrow> u32 list" where
  "path_closure reach start reflexive =
     closure_loop reach [start] (if reflexive then [start] else []) (if reflexive then [start] else [])"

fun path_reach :: "Dictionary \<Rightarrow> TripleStore \<Rightarrow> PathExpr \<Rightarrow> bool \<Rightarrow> u32 \<Rightarrow> u32 list" where
  "path_reach d st (Pred iri) rv start = (case path_pred_id d iri of
     None \<Rightarrow> []
   | Some p \<Rightarrow> hs_extend [] (if rv then s_by_po st p start else o_by_sp st start p))"
| "path_reach d st (Inverse p) rv start = path_reach d st p (\<not> rv) start"
| "path_reach d st (Seq a b) rv start =
     (let first = path_reach d st (if rv then b else a) rv; second = path_reach d st (if rv then a else b) rv
      in fold (\<lambda>mid out. hs_extend out (second mid)) (first start) [])"
| "path_reach d st (Alt a b) rv start = hs_extend (hs_extend [] (path_reach d st a rv start)) (path_reach d st b rv start)"
| "path_reach d st (ZeroOrOne p) rv start = hs_extend [start] (path_reach d st p rv start)"
| "path_reach d st (ZeroOrMore p) rv start = path_closure (path_reach d st p rv) start True"
| "path_reach d st (OneOrMore p) rv start = path_closure (path_reach d st p rv) start False"
| "path_reach d st (NegatedSet ps) rv start =
     (let banned = List.map_filter (\<lambda>(iri, inv). if inv = rv then path_pred_id d iri else None) ps
      in hs_extend [] (map snd (filter (\<lambda>(p, x). p \<notin> set banned) (if rv then ps_by_o st start else po_by_s st start))))"

definition path_pairs :: "Dictionary \<Rightarrow> TripleStore \<Rightarrow> PathExpr \<Rightarrow> u32 option \<Rightarrow> u32 option \<Rightarrow> (u32 \<times> u32) list" where
  "path_pairs d st path subj ob = (case (subj, ob) of
     (Some s, _) \<Rightarrow> map (Pair s) (filter (\<lambda>e. case ob of None \<Rightarrow> True | Some x \<Rightarrow> x = e) (path_reach d st path False s))
   | (None, Some x) \<Rightarrow> map (\<lambda>s. (s, x)) (path_reach d st path True x)
   | (None, None) \<Rightarrow> concat (map (\<lambda>s. map (Pair s) (path_reach d st path False s))
       (sort_dedup (subject_keys st @ object_keys st))))"

fun bind_node :: "VarLayout \<Rightarrow> Binding \<Rightarrow> PatternTerm \<Rightarrow> u32 \<Rightarrow> Binding option" where
  "bind_node l b (PVar v) ix = (case b ! layout_index l v of
     Some x \<Rightarrow> if x = ix then Some b else None
   | None \<Rightarrow> Some (b[layout_index l v := Some ix]))"
| "bind_node l b (PTerm t) ix = Some b"

fun endpoint :: "Dictionary \<Rightarrow> PatternTerm \<Rightarrow> u32 option option" where
  "endpoint d (PVar v) = None"
| "endpoint d (PTerm t) = Some (known_term_id d t)"

definition eval_path_pattern :: "Dictionary \<Rightarrow> TripleStore \<Rightarrow> PathPattern \<Rightarrow> VarLayout \<Rightarrow> Binding list" where
  "eval_path_pattern d st p l =
     (if endpoint d (pp_subject p) = Some None \<or> endpoint d (pp_object p) = Some None then []
      else List.map_filter (\<lambda>(s, x). Option.bind (bind_node l (replicate (layout_len l) None) (pp_subject p) s)
               (\<lambda>b. bind_node l b (pp_object p) x))
             (path_pairs d st (pp_path p) (Option.bind (endpoint d (pp_subject p)) id) (Option.bind (endpoint d (pp_object p)) id)))"

section \<open>The relation a path denotes\<close>

fun path_rel :: "Dictionary \<Rightarrow> IdTriple set \<Rightarrow> PathExpr \<Rightarrow> (u32 \<times> u32) set" where
  "path_rel d T (Pred iri) = {(s, x). \<exists>p. path_pred_id d iri = Some p \<and> IdTriple s p x \<in> T}"
| "path_rel d T (Inverse p) = (path_rel d T p)\<inverse>"
| "path_rel d T (Seq a b) = path_rel d T a O path_rel d T b"
| "path_rel d T (Alt a b) = path_rel d T a \<union> path_rel d T b"
| "path_rel d T (ZeroOrOne p) = Id \<union> path_rel d T p"
| "path_rel d T (ZeroOrMore p) = (path_rel d T p)\<^sup>*"
| "path_rel d T (OneOrMore p) = (path_rel d T p)\<^sup>+"
| "path_rel d T (NegatedSet ps) = {(s, x). \<exists>p. IdTriple s p x \<in> T \<and> p \<notin> {q. \<exists>iri. (iri, False) \<in> set ps \<and> path_pred_id d iri = Some q}}"

fun neg_free :: "PathExpr \<Rightarrow> bool" where
  "neg_free (Pred iri) = True"
| "neg_free (Inverse p) = neg_free p"
| "neg_free (Seq a b) = (neg_free a \<and> neg_free b)"
| "neg_free (Alt a b) = (neg_free a \<and> neg_free b)"
| "neg_free (ZeroOrOne p) = neg_free p"
| "neg_free (ZeroOrMore p) = neg_free p"
| "neg_free (OneOrMore p) = neg_free p"
| "neg_free (NegatedSet ps) = False"

lemma set_hs_extend [simp]: "set (hs_extend s xs) = set s \<union> set xs"
  unfolding hs_extend_def by (induction xs arbitrary: s) (auto simp: hs_insert_def)

lemma trancl_image_closed_except:
  assumes "\<forall>a \<in> A - F. R `` {a} \<subseteq> A" and "z \<in> A" and "(z, y) \<in> R\<^sup>+"
  shows "y \<in> A \<union> R\<^sup>+ `` F"
  using assms(3)
proof (induction rule: trancl_induct)
  case (base y)
  then show ?case using assms(1,2) by blast
next
  case (step y w)
  then show ?case using assms(1) by (blast intro: trancl_into_trancl)
qed

lemma closure_loop_spec:
  assumes "set out = set vis" and "\<forall>a \<in> set vis - set fr. set (r a) \<subseteq> set vis"
  shows "set (closure_loop r fr vis out) = set vis \<union> {(a, b). b \<in> set (r a)}\<^sup>+ `` set fr"
  using assms
proof (induction r fr vis out rule: closure_loop.induct)
  case (2 r n fr vis out)
  let ?R = "{(a, b). b \<in> set (r a)}"
  obtain fr' vis' out' where f: "fold visit_step (r n) (fr, vis, out) = (fr', vis', out')" by (metis prod_cases3)
  note v = fold_visit_step(1-3) [OF f]
  have out: "set out' = set vis'" using v "2.prems"(1) by auto
  have closed: "\<forall>a \<in> set vis' - set fr'. set (r a) \<subseteq> set vis'" using v "2.prems"(2) by auto
  have ih: "set (closure_loop r (n # fr) vis out) = set vis' \<union> ?R\<^sup>+ `` set fr'"
    using "2.IH" [OF f [symmetric] refl out closed] f by simp
  have "y \<in> set vis' \<union> ?R\<^sup>+ `` set fr'" if ny: "(n, y) \<in> ?R\<^sup>+" for y
  proof -
    obtain z where z: "z \<in> set (r n)" "z = y \<or> (z, y) \<in> ?R\<^sup>+"
      using tranclD [OF ny] by (auto simp: rtrancl_eq_or_trancl)
    then have "z \<in> set vis'" using v(1) by simp
    moreover have "\<forall>a \<in> set vis' - set fr'. ?R `` {a} \<subseteq> set vis'" using closed by auto
    ultimately show ?thesis using z(2) trancl_image_closed_except [of "set vis'" "set fr'" ?R z y] by blast
  qed
  moreover have "set vis' \<union> ?R\<^sup>+ `` set fr' \<subseteq> set vis \<union> ?R\<^sup>+ `` set (n # fr)"
  proof -
    have "?R\<^sup>+ `` set (r n) \<subseteq> ?R\<^sup>+ `` {n}" by (auto intro: trancl_into_trancl2)
    moreover have "set (r n) \<subseteq> ?R\<^sup>+ `` {n}" by auto
    ultimately show ?thesis unfolding v(1,3) by auto
  qed
  ultimately show ?case unfolding ih using v(1,3) by auto
qed simp

lemma path_closure_spec:
  "set (path_closure r start refx) = (if refx then {(a, b). b \<in> set (r a)}\<^sup>* `` {start} else {(a, b). b \<in> set (r a)}\<^sup>+ `` {start})"
  unfolding path_closure_def by (subst closure_loop_spec) (auto simp: rtrancl_eq_or_trancl)

lemma path_reach_spec:
  assumes "store_inv st" and "neg_free path"
  shows "set (path_reach d st path rv start) =
    (if rv then {x. (x, start) \<in> path_rel d (triples st) path} else {x. (start, x) \<in> path_rel d (triples st) path})"
  using assms(2)
proof (induction path arbitrary: rv start)
  case (Pred iri)
  show ?case by (cases "path_pred_id d iri") (simp_all add: mem.su_po_set [OF assms(1)] mem.ob_sp_set [OF assms(1)])
next
  case (Seq a b)
  have fold: "set (fold (\<lambda>mid out. hs_extend out (f mid)) ms out) = set out \<union> (\<Union>m \<in> set ms. set (f m))" for f ms out
    by (induction ms arbitrary: out) auto
  show ?case using Seq by (auto simp: Let_def fold)
next
  case (ZeroOrMore p)
  have "{(a, b). b \<in> set (path_reach d st p rv a)} = (if rv then (path_rel d (triples st) p)\<inverse> else path_rel d (triples st) p)"
    using ZeroOrMore by auto
  then show ?case by (simp add: path_closure_spec rtrancl_converse) auto
next
  case (OneOrMore p)
  have "{(a, b). b \<in> set (path_reach d st p rv a)} = (if rv then (path_rel d (triples st) p)\<inverse> else path_rel d (triples st) p)"
    using OneOrMore by auto
  then show ?case by (simp add: path_closure_spec trancl_converse) auto
qed auto

section \<open>Pairs and rows\<close>

definition graph_nodes :: "IdTriple set \<Rightarrow> u32 set" where
  "graph_nodes T = sub ` T \<union> obj ` T"

text \<open>The endpoints a query gives restrict the relation; two free ends range over the graph's nodes.\<close>

definition pairs_between :: "IdTriple set \<Rightarrow> (u32 \<times> u32) set \<Rightarrow> u32 option \<Rightarrow> u32 option \<Rightarrow> (u32 \<times> u32) set" where
  "pairs_between T R subj ob = {(s, x) \<in> R. (\<forall>a. subj = Some a \<longrightarrow> s = a) \<and> (\<forall>b. ob = Some b \<longrightarrow> x = b) \<and>
     (subj = None \<and> ob = None \<longrightarrow> s \<in> graph_nodes T)}"

lemma path_pairs_spec:
  assumes "store_inv st" and "neg_free path"
  shows "set (path_pairs d st path subj ob) = pairs_between (triples st) (path_rel d (triples st) path) subj ob"
proof -
  note reach = path_reach_spec [OF assms]
  define N where "N = sort_dedup (subject_keys st @ object_keys st)"
  have nodes: "set N = graph_nodes (triples st)" by (simp add: N_def graph_nodes_def keys_of_store [OF assms(1)])
  show ?thesis
  proof (cases subj)
    case (Some s)
    then show ?thesis by (auto simp: path_pairs_def pairs_between_def reach split: option.splits)
  next
    case None
    then show ?thesis by (cases ob) (auto simp: path_pairs_def pairs_between_def reach nodes N_def [symmetric])
  qed
qed

text \<open>The value a row gives to an endpoint of a pattern.\<close>

fun endpoint_value :: "Dictionary \<Rightarrow> VarLayout \<Rightarrow> Binding \<Rightarrow> PatternTerm \<Rightarrow> u32 option" where
  "endpoint_value d l b (PVar v) = b ! layout_index l v"
| "endpoint_value d l b (PTerm t) = known_term_id d t"

definition endpoint_vars :: "VarLayout \<Rightarrow> PathPattern \<Rightarrow> nat set" where
  "endpoint_vars l p = {layout_index l v | v. PVar v \<in> {pp_subject p, pp_object p}}"

lemma bind_two:
  assumes "term_covered l a" and "term_covered l c"
  shows "Option.bind (bind_node l (replicate (layout_len l) None) a s) (\<lambda>b. bind_node l b c x) = Some row \<longleftrightarrow>
    length row = layout_len l \<and> bound row = {layout_index l v | v. PVar v \<in> {a, c}} \<and>
    (\<forall>v. a = PVar v \<longrightarrow> row ! layout_index l v = Some s) \<and> (\<forall>v. c = PVar v \<longrightarrow> row ! layout_index l v = Some x)"
proof -
  let ?n = "layout_len l"
  have lt: "layout_index l v < ?n" if "a = PVar v \<or> c = PVar v" for v
    using that assms layout_index_less by (auto simp: term_covered_def)
  define R where "R = Option.bind (bind_node l (replicate ?n None) a s) (\<lambda>b. bind_node l b c x)"
  define fits where "fits row \<longleftrightarrow> length row = ?n \<and> bound row = {layout_index l v | v. PVar v \<in> {a, c}} \<and>
    (\<forall>v. a = PVar v \<longrightarrow> row ! layout_index l v = Some s) \<and> (\<forall>v. c = PVar v \<longrightarrow> row ! layout_index l v = Some x)" for row
  have props: "fits row" if "R = Some row" for row
    using that lt unfolding R_def fits_def
    by (cases a; cases c) (auto simp: bound_def nth_list_update split: option.splits if_splits)
  have ex: "R \<noteq> None" if "fits row" for row
    using that lt unfolding R_def fits_def
    by (cases a; cases c) (auto simp: nth_list_update split: option.splits if_splits)
  have uniq: "row = row'" if f: "fits row" "fits row'" for row row'
  proof (rule nth_equalityI)
    show "length row = length row'" using f by (simp add: fits_def)
    fix k assume k: "k < length row"
    show "row ! k = row' ! k"
    proof (cases "k \<in> bound row")
      case True
      then show ?thesis using f unfolding fits_def by auto
    next
      case False
      then have "row ! k = None" using k by (simp add: bound_def)
      moreover have "k \<notin> bound row'" "k < length row'" using False f k by (auto simp: fits_def)
      then have "row' ! k = None" by (simp add: bound_def)
      ultimately show ?thesis by simp
    qed
  qed
  have "R = Some row \<longleftrightarrow> fits row" using props ex uniq by (metis not_None_eq)
  then show ?thesis by (simp only: R_def fits_def)
qed

lemma in_map_filter: "y \<in> set (List.map_filter f xs) \<longleftrightarrow> (\<exists>x \<in> set xs. f x = Some y)"
  by (induction xs) (auto simp: List.map_filter_simps split: option.splits)

section \<open>Properties\<close>

text \<open>
  C16. Property paths are exact, except for negated sets. A row is in the answer to \<open>subject path object\<close>
  if and only if it binds exactly the pattern's variables and its endpoints are related by the relation
  the path denotes: composition for sequences, union for alternatives, converse for inverses, and the
  (reflexive) transitive closure for \<open>+\<close> and \<open>*\<close>, which the breadth-first search computes in finitely many
  steps on cyclic graphs too. With two free ends the start ranges over the nodes of the graph.
\<close>

theorem path_pattern_exact:
  assumes "store_inv st" and "neg_free (pp_path p)" and "term_covered l (pp_subject p)" and "term_covered l (pp_object p)"
  shows "row \<in> set (eval_path_pattern d st p l) \<longleftrightarrow>
    length row = layout_len l \<and> bound row = endpoint_vars l p \<and>
    (\<exists>s x. endpoint_value d l row (pp_subject p) = Some s \<and> endpoint_value d l row (pp_object p) = Some x \<and>
      (s, x) \<in> path_rel d (triples st) (pp_path p) \<and>
      ((\<exists>v w. pp_subject p = PVar v \<and> pp_object p = PVar w) \<longrightarrow> s \<in> graph_nodes (triples st)))"
    (is "?L \<longleftrightarrow> ?R")
proof (cases "endpoint d (pp_subject p) = Some None \<or> endpoint d (pp_object p) = Some None")
  case True
  then have "endpoint_value d l row (pp_subject p) = None \<or> endpoint_value d l row (pp_object p) = None"
    by (cases "pp_subject p"; cases "pp_object p") auto
  then show ?thesis using True by (auto simp: eval_path_pattern_def)
next
  case False
  let ?sub = "Option.bind (endpoint d (pp_subject p)) id" and ?ob = "Option.bind (endpoint d (pp_object p)) id"
  have "?L \<longleftrightarrow> (\<exists>s x. (s, x) \<in> set (path_pairs d st (pp_path p) ?sub ?ob) \<and>
      Option.bind (bind_node l (replicate (layout_len l) None) (pp_subject p) s) (\<lambda>b. bind_node l b (pp_object p) x) = Some row)"
    using False by (simp add: eval_path_pattern_def in_map_filter Bex_def split_paired_Ex)
  also have "\<dots> \<longleftrightarrow> (\<exists>s x. (s, x) \<in> pairs_between (triples st) (path_rel d (triples st) (pp_path p)) ?sub ?ob \<and>
      length row = layout_len l \<and> bound row = endpoint_vars l p \<and>
      (\<forall>v. pp_subject p = PVar v \<longrightarrow> row ! layout_index l v = Some s) \<and> (\<forall>v. pp_object p = PVar v \<longrightarrow> row ! layout_index l v = Some x))"
    by (simp only: path_pairs_spec [OF assms(1,2)] bind_two [OF assms(3,4)] endpoint_vars_def)
  also have "\<dots> \<longleftrightarrow> ?R"
    using False by (cases "pp_subject p"; cases "pp_object p") (auto simp: pairs_between_def)
  finally show ?thesis .
qed

definition edge_store :: TripleStore where
  "edge_store = snd (ts_insert ts_new (IdTriple 0 0 1))"

definition edge_dict :: Dictionary where
  "edge_dict = dict_new\<lparr>predicates := \<lparr>forward = [(lit ''<b>'', 0)], backward = [Some (lit ''<b>'')], free = []\<rparr>\<rparr>"

definition star_pattern :: PathPattern where
  "star_pattern = \<lparr>pp_subject = PVar (lit ''x''), pp_path = ZeroOrMore (Pred (lit ''b'')), pp_object = PVar (lit ''y'')\<rparr>"

lemma edge_store_inv: "store_inv edge_store" "triples edge_store = {IdTriple 0 0 1}"
  using ts_insert_spec [OF store_inv_new(1), of "IdTriple 0 0 1"] by (simp_all add: edge_store_def store_inv_new)

theorem path_pattern_exact_witness:
  "[Some 0, Some 1] \<in> set (eval_path_pattern edge_dict edge_store star_pattern \<lparr>names = [lit ''x'', lit ''y'']\<rparr>)"
proof -
  have "path_pred_id edge_dict (lit ''b'') = Some 0"
    by (simp add: path_pred_id_def predicate_id_def edge_dict_def dict_new_def interner_get_def dict_key_def)
  then have "(0, 1) \<in> path_rel edge_dict (triples edge_store) (pp_path star_pattern)"
    by (auto simp: star_pattern_def edge_store_inv)
  moreover have "bound [Some 0, Some 1] = endpoint_vars \<lparr>names = [lit ''x'', lit ''y'']\<rparr> star_pattern"
  proof -
    let ?l = "\<lparr>names = [lit ''x'', lit ''y'']\<rparr>"
    have "endpoint_vars ?l star_pattern = {layout_index ?l (lit ''x''), layout_index ?l (lit ''y'')}"
      unfolding endpoint_vars_def star_pattern_def PathPattern.simps by blast
    also have "\<dots> = {0, 1}" by (simp add: layout_index_def)
    also have "{0, 1} = bound [Some (0::u32), Some 1]"
      unfolding bound_def by (auto simp: less_Suc_eq nth_Cons' split: if_splits)
    finally show ?thesis by simp
  qed
  ultimately show ?thesis
    by (subst path_pattern_exact [OF edge_store_inv(1)])
       (auto simp: star_pattern_def term_covered_def layout_len_def layout_index_def edge_store_inv graph_nodes_def)
qed

lemma negated_reach:
  assumes "store_inv st"
  shows "set (path_reach d st (NegatedSet ps) False x) = {ob. \<exists>p. IdTriple x p ob \<in> triples st \<and> (\<forall>iri. (iri, False) \<in> set ps \<longrightarrow> path_pred_id d iri \<noteq> Some p)}"
    "set (path_reach d st (NegatedSet ps) True x) = {s. \<exists>p. IdTriple s p x \<in> triples st \<and> (\<forall>iri. (iri, True) \<in> set ps \<longrightarrow> path_pred_id d iri \<noteq> Some p)}"
proof -
  have banned: "p \<in> set (List.map_filter (\<lambda>(iri, inv). if inv = rv then path_pred_id d iri else None) ps) \<longleftrightarrow>
      (\<exists>iri. (iri, rv) \<in> set ps \<and> path_pred_id d iri = Some p)" for p rv
    by (force simp: in_map_filter split: if_splits)
  show "set (path_reach d st (NegatedSet ps) False x) = {ob. \<exists>p. IdTriple x p ob \<in> triples st \<and> (\<forall>iri. (iri, False) \<in> set ps \<longrightarrow> path_pred_id d iri \<noteq> Some p)}"
    using banned [of _ False] mem.po_set [OF assms, of x] by (force simp: image_iff)
  show "set (path_reach d st (NegatedSet ps) True x) = {s. \<exists>p. IdTriple s p x \<in> triples st \<and> (\<forall>iri. (iri, True) \<in> set ps \<longrightarrow> path_pred_id d iri \<noteq> Some p)}"
    using banned [of _ True] mem.ps_set [OF assms, of x] by (force simp: image_iff)
qed

text \<open>
  C38. A negated set is not exact when only the object of the pattern is known: the backward walk drops the restriction. For every
  store and every negated set of forward members, a walk from a known subject follows exactly the edges whose predicate is not in the
  set, while a walk back from a known object returns the subjects of all its edges, those with a banned predicate included.
\<close>

theorem negated_set_ignored_backwards:
  assumes "store_inv st" and "\<forall>(iri, inv) \<in> set ps. \<not> inv"
  shows "set (path_pairs d st (NegatedSet ps) (Some s) None) =
      {(s, ob) | ob. \<exists>p. IdTriple s p ob \<in> triples st \<and> (\<forall>iri. (iri, False) \<in> set ps \<longrightarrow> path_pred_id d iri \<noteq> Some p)} \<and>
    set (path_pairs d st (NegatedSet ps) None (Some ob)) = {(s, ob) | s. \<exists>p. IdTriple s p ob \<in> triples st}"
proof -
  have "(iri, True) \<notin> set ps" for iri using assms(2) by auto
  then show ?thesis unfolding path_pairs_def using negated_reach [OF assms(1), of d ps] by auto
qed

theorem negated_set_ignored_backwards_witness:
  "set (path_pairs edge_dict edge_store (NegatedSet [(lit ''b'', False)]) (Some 0) None) = {} \<and>
   set (path_pairs edge_dict edge_store (NegatedSet [(lit ''b'', False)]) None (Some 1)) = {(0, 1)}"
proof -
  have "path_pred_id edge_dict (lit ''b'') = Some 0"
    by (simp add: path_pred_id_def predicate_id_def edge_dict_def dict_new_def interner_get_def dict_key_def)
  then show ?thesis
    using negated_set_ignored_backwards [OF edge_store_inv(1), of "[(lit ''b'', False)]" edge_dict 0 1] by (auto simp: edge_store_inv)
qed

end
