(* ===== verification/Database.thy ===== *)
theory Database
  imports Bgp
begin

text \<open>
  The \<open>Database\<close> facade (\<open>src/db/mod.rs\<close>): dictionary, default graph, named graphs, VS-tree with its
  validity flag, query cache, single-writer transactions with an undo log, and the redo log. Every
  mutation of triples is a definition; a panic of the dictionary (id space exhausted) is \<open>None\<close>. The
  default backend is the in-memory store, the VS-tree is resident, and the redo log file is the list
  of records appended to it. \<open>db_ok\<close> is the invariant, \<open>present\<close> the term-level content.
\<close>

section \<open>Query cache\<close>

record 'q LruCache =
  cache_map :: "(rstring \<times> 'q \<times> nat) list"
  cap :: nat
  tick :: nat

definition lru_new :: "nat \<Rightarrow> 'q LruCache" where
  "lru_new c = \<lparr>cache_map = [], cap = c, tick = 0\<rparr>"

definition lru_get :: "'q LruCache \<Rightarrow> rstring \<Rightarrow> 'q option \<times> 'q LruCache" where
  "lru_get c key = (let tk = tick c + 1 in
     case map_of (cache_map c) key of
       None \<Rightarrow> (None, c\<lparr>tick := tk\<rparr>)
     | Some (v, _) \<Rightarrow> (Some v, c\<lparr>tick := tk, cache_map := AList.update key (v, tk) (cache_map c)\<rparr>))"

text \<open>\<open>min_by_key\<close> over the entries; ticks are distinct, so the order of the map does not matter.\<close>

fun lru_victim :: "(rstring \<times> 'q \<times> nat) list \<Rightarrow> (rstring \<times> nat) option" where
  "lru_victim [] = None"
| "lru_victim ((k, _, t) # m) = (case lru_victim m of
     None \<Rightarrow> Some (k, t)
   | Some (k', t') \<Rightarrow> if t \<le> t' then Some (k, t) else Some (k', t'))"

definition lru_put :: "'q LruCache \<Rightarrow> rstring \<Rightarrow> 'q \<Rightarrow> 'q LruCache" where
  "lru_put c key v = (if cap c = 0 then c
     else let tk = tick c + 1;
              m = (if map_of (cache_map c) key = None \<and> length (cache_map c) \<ge> cap c
                   then (case lru_victim (cache_map c) of
                           Some (k, _) \<Rightarrow> AList.delete k (cache_map c) | None \<Rightarrow> cache_map c)
                   else cache_map c)
          in c\<lparr>tick := tk, cache_map := AList.update key (v, tk) m\<rparr>)"

definition lru_clear :: "'q LruCache \<Rightarrow> 'q LruCache" where
  "lru_clear c = c\<lparr>cache_map := []\<rparr>"

section \<open>The database\<close>

datatype UndoOp = Add "u32 option" IdTriple | Del "u32 option" IdTriple

record RedoRec =
  redo_op :: char
  redo_graph :: "rstring option"
  redo_triple :: rstring

record 'q Database =
  name :: rstring
  dict :: Dictionary
  store :: TripleStore
  named :: "(u32, TripleStore) btree_map"
  vstree :: VsTree
  index_valid :: bool
  txn :: "UndoOp list option"
  query_cache :: "'q LruCache"
  redo_log :: bool
  redo_file :: "RedoRec list"
  redo_pending :: "RedoRec list"

definition DEFAULT_QUERY_CACHE_CAP :: nat where
  "DEFAULT_QUERY_CACHE_CAP = 256"

definition db_new :: "rstring \<Rightarrow> 'q Database" where
  "db_new n = \<lparr>name = n, dict = dict_new, store = ts_new, named = [], vstree = vs_new, index_valid = True,
     txn = None, query_cache = lru_new DEFAULT_QUERY_CACHE_CAP, redo_log = False, redo_file = [], redo_pending = []\<rparr>"

definition rebuild_index :: "'q Database \<Rightarrow> 'q Database option" where
  "rebuild_index db = map_option (\<lambda>t. db\<lparr>vstree := t, index_valid := True\<rparr>) (build_vstree (store db))"

definition clear_cache :: "'q Database \<Rightarrow> 'q Database" where
  "clear_cache db = db\<lparr>query_cache := lru_clear (query_cache db)\<rparr>"

definition push_undo :: "UndoOp list \<Rightarrow> 'q Database \<Rightarrow> 'q Database" where
  "push_undo ops db = (case txn db of None \<Rightarrow> db | Some log \<Rightarrow> db\<lparr>txn := Some (log @ ops)\<rparr>)"

definition enable_redo_log :: "'q Database \<Rightarrow> 'q Database" where
  "enable_redo_log db = db\<lparr>redo_log := True\<rparr>"

definition flush_redo :: "'q Database \<Rightarrow> 'q Database" where
  "flush_redo db = (if redo_pending db = [] then db
     else db\<lparr>redo_file := (if redo_log db then redo_file db @ redo_pending db else redo_file db), redo_pending := []\<rparr>)"

definition strip_angle :: "rstring \<Rightarrow> rstring" where
  "strip_angle s = (if length s \<ge> 2 \<and> hd s = ch_lt \<and> last s = ch_gt then butlast (tl s) else s)"

definition record_redo :: "char \<Rightarrow> u32 option \<Rightarrow> IdTriple \<Rightarrow> 'q Database \<Rightarrow> 'q Database" where
  "record_redo op g i db = (if \<not> redo_log db then db
     else (case (id_to_string (dict db) (sub i), predicate_to_string (dict db) (pred i), id_to_string (dict db) (obj i)) of
       (Some s, Some p, Some ob) \<Rightarrow>
         (let graph = map_option strip_angle (Option.bind g (id_to_string (dict db)));
              r = \<lparr>redo_op = op, redo_graph = graph, redo_triple = s @ lit '' '' @ p @ lit '' '' @ ob @ lit '' .''\<rparr>;
              db1 = db\<lparr>redo_pending := redo_pending db @ [r]\<rparr>
          in if txn db1 = None then flush_redo db1 else db1)
     | _ \<Rightarrow> db))"

section \<open>Updates\<close>

definition encode_triple :: "Dictionary \<Rightarrow> Triple \<Rightarrow> (IdTriple \<times> Dictionary) option" where
  "encode_triple d t = (case intern_entity d (dict_key (subject t)) of
     None \<Rightarrow> None
   | Some (s, d1) \<Rightarrow> (case intern_predicate d1 (dict_key (predicate t)) of
       None \<Rightarrow> None
     | Some (p, d2) \<Rightarrow> (case intern_term d2 (object t) of
         None \<Rightarrow> None
       | Some (ob, d3) \<Rightarrow> Some (IdTriple s p ob, d3))))"

definition insert_triple :: "'q Database \<Rightarrow> Triple \<Rightarrow> (bool \<times> 'q Database) option" where
  "insert_triple db t = (case encode_triple (dict db) t of
     None \<Rightarrow> None
   | Some (i, d) \<Rightarrow> (case ts_insert (store db) i of
       (False, st) \<Rightarrow> Some (False, db\<lparr>dict := d, store := st\<rparr>)
     | (True, st) \<Rightarrow>
         (case (if index_valid db then vstree_index_insert st (vstree db) i else Some (vstree db)) of
            None \<Rightarrow> None
          | Some vt \<Rightarrow> Some (True, record_redo CHR ''I'' None i (push_undo [Del None i]
              (clear_cache (db\<lparr>dict := d, store := st, vstree := vt\<rparr>)))))))"

text \<open>The ids of a triple all of whose terms are known.\<close>

definition triple_id :: "Dictionary \<Rightarrow> Triple \<Rightarrow> IdTriple option" where
  "triple_id d t = (case (entity_id d (dict_key (subject t)), predicate_id d (dict_key (predicate t)), known_term_id d (object t)) of
     (Some s, Some p, Some ob) \<Rightarrow> Some (IdTriple s p ob) | _ \<Rightarrow> None)"

definition remove_triple :: "'q Database \<Rightarrow> Triple \<Rightarrow> bool \<times> 'q Database" where
  "remove_triple db t = (case triple_id (dict db) t of
     None \<Rightarrow> (False, db)
   | Some i \<Rightarrow> (case ts_remove (store db) i of
       (False, st) \<Rightarrow> (False, db\<lparr>store := st\<rparr>)
     | (True, st) \<Rightarrow> (True, record_redo CHR ''D'' None i (push_undo [Add None i]
         (clear_cache (db\<lparr>store := st, index_valid := False\<rparr>))))))"

section \<open>Transactions\<close>

definition db_begin :: "'q Database \<Rightarrow> GStoreError + 'q Database" where
  "db_begin db = (if txn db \<noteq> None then Inl (DatabaseError (lit ''a transaction is already active''))
     else Inr (db\<lparr>txn := Some []\<rparr>))"

definition db_commit :: "'q Database \<Rightarrow> GStoreError + 'q Database" where
  "db_commit db = (if txn db = None then Inl (DatabaseError (lit ''no active transaction''))
     else Inr (flush_redo (db\<lparr>txn := None\<rparr>)))"

text \<open>\<open>self.named.entry(gid).or_default()\<close>\<close>

definition named_or_default :: "(u32, TripleStore) btree_map \<Rightarrow> u32 \<Rightarrow> TripleStore" where
  "named_or_default m g = (case bm_get m g of None \<Rightarrow> ts_new | Some s \<Rightarrow> s)"

fun undo_op :: "UndoOp \<Rightarrow> 'q Database \<Rightarrow> 'q Database" where
  "undo_op (Add None i) db = db\<lparr>store := snd (ts_insert (store db) i)\<rparr>"
| "undo_op (Del None i) db = db\<lparr>store := snd (ts_remove (store db) i)\<rparr>"
| "undo_op (Add (Some g) i) db =
     db\<lparr>named := bm_insert g (snd (ts_insert (named_or_default (named db) g) i)) (named db)\<rparr>"
| "undo_op (Del (Some g) i) db = (case bm_get (named db) g of
     None \<Rightarrow> db | Some s \<Rightarrow> db\<lparr>named := bm_insert g (snd (ts_remove s i)) (named db)\<rparr>)"

definition db_rollback :: "'q Database \<Rightarrow> GStoreError + 'q Database" where
  "db_rollback db = (case txn db of
     None \<Rightarrow> Inl (DatabaseError (lit ''no active transaction''))
   | Some log \<Rightarrow> Inr (clear_cache (fold undo_op (rev log) (db\<lparr>txn := None, redo_pending := []\<rparr>)
       \<lparr>index_valid := False\<rparr>)))"

section \<open>Quads and graph management\<close>

definition insert_quad :: "'q Database \<Rightarrow> Triple \<Rightarrow> rstring option \<Rightarrow> (bool \<times> 'q Database) option" where
  "insert_quad db t graph = (case graph of
     None \<Rightarrow> insert_triple db t
   | Some g \<Rightarrow> (case intern_entity (dict db) (dict_key (Iri g)) of
       None \<Rightarrow> None
     | Some (gid, d0) \<Rightarrow> (case encode_triple d0 t of
         None \<Rightarrow> None
       | Some (i, d) \<Rightarrow> (case ts_insert (named_or_default (named db) gid) i of
           (changed, st) \<Rightarrow>
             (let db1 = db\<lparr>dict := d, named := bm_insert gid st (named db)\<rparr> in
              Some (changed, if changed
                then record_redo CHR ''I'' (Some gid) i (push_undo [Del (Some gid) i] (clear_cache db1)) else db1))))))"

definition delete_quad :: "'q Database \<Rightarrow> Triple \<Rightarrow> rstring option \<Rightarrow> bool \<times> 'q Database" where
  "delete_quad db t graph = (case graph of
     None \<Rightarrow> remove_triple db t
   | Some g \<Rightarrow> (case (entity_id (dict db) (dict_key (Iri g)), triple_id (dict db) t) of
       (Some gid, Some i) \<Rightarrow> (case bm_get (named db) gid of
         None \<Rightarrow> (False, db)
       | Some s \<Rightarrow> (case ts_remove s i of (changed, st) \<Rightarrow>
           (let db1 = db\<lparr>named := bm_insert gid st (named db)\<rparr> in
            (changed, if changed
              then record_redo CHR ''D'' (Some gid) i (push_undo [Add (Some gid) i] (clear_cache db1)) else db1))))
     | _ \<Rightarrow> (False, db)))"

fun insert_data :: "'q Database \<Rightarrow> (Triple \<times> rstring option) list \<Rightarrow> (nat \<times> 'q Database) option" where
  "insert_data db [] = Some (0, db)"
| "insert_data db ((t, g) # ts) = (case insert_quad db t g of
     None \<Rightarrow> None
   | Some (r, db1) \<Rightarrow> map_option (\<lambda>(n, db2). (if r then n + 1 else n, db2)) (insert_data db1 ts))"

fun delete_data :: "'q Database \<Rightarrow> (Triple \<times> rstring option) list \<Rightarrow> nat \<times> 'q Database" where
  "delete_data db [] = (0, db)"
| "delete_data db ((t, g) # ts) = (case delete_quad db t g of
     (r, db1) \<Rightarrow> (case delete_data db1 ts of (n, db2) \<Rightarrow> (if r then n + 1 else n, db2)))"

definition clear_default :: "'q Database \<Rightarrow> nat \<times> 'q Database" where
  "clear_default db = (let n = unat (triple_count (store db)) in
     (n, if n > 0
         then clear_cache ((push_undo (map (Add None) (iter_all (store db))) db)\<lparr>store := ts_new, index_valid := False\<rparr>)
         else db))"

definition clear_named :: "'q Database \<Rightarrow> rstring \<Rightarrow> nat \<times> 'q Database" where
  "clear_named db graph = (case entity_id (dict db) (dict_key (Iri graph)) of
     None \<Rightarrow> (0, db)
   | Some gid \<Rightarrow>
       (let n = (case bm_get (named db) gid of None \<Rightarrow> 0 | Some s \<Rightarrow> unat (triple_count s)) in
        (n, if n > 0
            then clear_cache ((push_undo (case bm_get (named db) gid of None \<Rightarrow> []
                     | Some s \<Rightarrow> map (Add (Some gid)) (iter_all s)) db)\<lparr>named := bm_remove gid (named db)\<rparr>)
            else db)))"

definition clear_all_named :: "'q Database \<Rightarrow> nat \<times> 'q Database" where
  "clear_all_named db = (let total = sum_list (map (\<lambda>(g, s). unat (triple_count s)) (named db)) in
     (total, if total > 0
             then clear_cache ((push_undo (concat (map (\<lambda>(g, s). map (Add (Some g)) (iter_all s)) (named db))) db)
                    \<lparr>named := []\<rparr>)
             else db))"

definition db_reclaim_unused :: "'q Database \<Rightarrow> (nat \<times> 'q Database) option" where
  "db_reclaim_unused db =
     (let ent_lit = set (subject_keys (store db)) \<union> set (object_keys (store db))
            \<union> (\<Union>(g, s) \<in> set (named db). insert g (set (subject_keys s) \<union> set (object_keys s)));
          preds = set (predicates_of (store db)) \<union> (\<Union>(g, s) \<in> set (named db). set (predicates_of s))
      in map_option (\<lambda>(n, d). (n, db\<lparr>dict := d\<rparr>)) (reclaim_unused (dict db) ent_lit preds))"

section \<open>Ids and the triples they name\<close>

definition tkey :: "Triple \<Rightarrow> rstring \<times> rstring \<times> bool \<times> rstring" where
  "tkey t = (dict_key (subject t), dict_key (predicate t), is_literal (object t), dict_key (object t))"

definition names_obj :: "Dictionary \<Rightarrow> u32 \<Rightarrow> Term \<Rightarrow> bool" where
  "names_obj d ix ob \<longleftrightarrow> (if is_literal ob
     then \<exists>jx. resolve (literals d) jx = Some (dict_key ob) \<and> ix = jx + LITERAL_FIRST_ID
     else resolve (entities d) ix = Some (dict_key ob))"

definition names_triple :: "Dictionary \<Rightarrow> IdTriple \<Rightarrow> Triple \<Rightarrow> bool" where
  "names_triple d i t \<longleftrightarrow> resolve (entities d) (sub i) = Some (dict_key (subject t)) \<and>
     resolve (predicates d) (pred i) = Some (dict_key (predicate t)) \<and> names_obj d (obj i) (object t)"

definition known :: "Dictionary \<Rightarrow> IdTriple \<Rightarrow> bool" where
  "known d i \<longleftrightarrow> resolve (entities d) (sub i) \<noteq> None \<and> resolve (predicates d) (pred i) \<noteq> None \<and>
     (resolve (entities d) (obj i) \<noteq> None \<or> (\<exists>jx. resolve (literals d) jx \<noteq> None \<and> obj i = jx + LITERAL_FIRST_ID))"

definition dict_ext :: "Dictionary \<Rightarrow> Dictionary \<Rightarrow> bool" where
  "dict_ext d d' \<longleftrightarrow> (\<forall>ix s. resolve (entities d) ix = Some s \<longrightarrow> resolve (entities d') ix = Some s) \<and>
     (\<forall>ix s. resolve (literals d) ix = Some s \<longrightarrow> resolve (literals d') ix = Some s) \<and>
     (\<forall>ix s. resolve (predicates d) ix = Some s \<longrightarrow> resolve (predicates d') ix = Some s)"

lemma dict_ext_refl [simp]: "dict_ext d d"
  by (simp add: dict_ext_def)

lemma dict_ext_trans: "dict_ext a b \<Longrightarrow> dict_ext b c \<Longrightarrow> dict_ext a c"
  by (simp add: dict_ext_def)

lemma literal_id_split:
  assumes "dict_in_range d" and "resolve (literals d) jx = Some s"
  shows "checked_add32 jx LITERAL_FIRST_ID = Some (jx + LITERAL_FIRST_ID)" "\<not> jx + LITERAL_FIRST_ID < LITERAL_FIRST_ID"
proof -
  have "unat jx < 2294967295" using assms resolve_Some_lt [OF assms(2)] by (simp add: dict_in_range_def)
  from literal_offset [OF this] show "checked_add32 jx LITERAL_FIRST_ID = Some (jx + LITERAL_FIRST_ID)"
    "\<not> jx + LITERAL_FIRST_ID < LITERAL_FIRST_ID" by auto
qed

lemma entity_id_small:
  assumes "dict_in_range d" and "resolve (entities d) ix = Some s"
  shows "is_entity_id ix"
  using assms resolve_Some_lt [OF assms(2)]
  by (simp add: dict_in_range_def is_entity_id_def LITERAL_FIRST_ID_def word_less_nat_alt)

lemma known_term_id_iff:
  assumes "dict_inv d" and "dict_in_range d"
  shows "known_term_id d ob = Some ix \<longleftrightarrow> names_obj d ix ob"
proof (cases "is_literal ob")
  case True
  have inv: "interner_inv (literals d)" "backing d = None" using assms(1) by (auto simp: dict_inv_def)
  show ?thesis
  proof (cases "interner_get (literals d) (dict_key ob)")
    case None
    then show ?thesis using True inv interner.get_res [OF inv(1), of "dict_key ob"]
      by (auto simp: known_term_id_def term_id_def literal_id_def names_obj_def)
  next
    case (Some jx)
    then have r: "resolve (literals d) jx = Some (dict_key ob)" using interner.get_res [OF inv(1)] by simp
    have "resolve (literals d) kx = Some (dict_key ob) \<longleftrightarrow> kx = jx" for kx
      using interner.get_res [OF inv(1), of "dict_key ob" kx] Some by auto
    then show ?thesis using True inv Some literal_id_split [OF assms(2) r]
      by (auto simp: known_term_id_def term_id_def literal_id_def names_obj_def)
  qed
next
  case False
  then show ?thesis using assms(1) interner.get_res [of "entities d" "dict_key ob" ix]
    by (auto simp: known_term_id_def term_id_def entity_id_def names_obj_def dict_inv_def)
qed

lemma triple_id_iff:
  assumes "dict_inv d" and "dict_in_range d"
  shows "triple_id d t = Some i \<longleftrightarrow> names_triple d i t"
proof -
  have "interner_inv (entities d)" "interner_inv (predicates d)" "backing d = None" using assms(1) by (auto simp: dict_inv_def)
  then have "entity_id d k = Some ix \<longleftrightarrow> resolve (entities d) ix = Some k"
    "predicate_id d k = Some ix \<longleftrightarrow> resolve (predicates d) ix = Some k" for k ix
    by (auto simp: entity_id_def predicate_id_def interner.get_res)
  moreover have "triple_id d t = Some i \<longleftrightarrow> entity_id d (dict_key (subject t)) = Some (sub i) \<and>
      predicate_id d (dict_key (predicate t)) = Some (pred i) \<and> known_term_id d (object t) = Some (obj i)"
    by (cases i) (auto simp: triple_id_def split: option.splits)
  ultimately show ?thesis by (simp add: names_triple_def known_term_id_iff [OF assms])
qed

lemma names_inj:
  assumes "dict_in_range d" and "names_triple d i t" and "names_triple d i u"
  shows "tkey t = tkey u"
proof -
  have "names_obj d ix a \<Longrightarrow> names_obj d ix b \<Longrightarrow> is_literal a = is_literal b \<and> dict_key a = dict_key b" for ix a b
    using literal_id_split(2) [OF assms(1)] entity_id_small [OF assms(1)]
    by (auto simp: names_obj_def is_entity_id_def split: if_splits)
  then show ?thesis using assms(2,3) unfolding names_triple_def tkey_def by auto
qed

lemma names_tkey: "tkey t = tkey u \<Longrightarrow> names_triple d i t \<longleftrightarrow> names_triple d i u"
  by (auto simp: names_triple_def tkey_def names_obj_def)

lemma names_known: "names_triple d i t \<Longrightarrow> known d i"
  by (auto simp: names_triple_def known_def names_obj_def split: if_splits)

lemma names_ext:
  assumes "dict_ext d d'" and "dict_in_range d'" and "known d i"
  shows "names_triple d' i t \<longleftrightarrow> names_triple d i t"
proof -
  have e: "resolve (entities d) ix \<noteq> None \<Longrightarrow> resolve (entities d') ix = resolve (entities d) ix"
    "resolve (predicates d) ix \<noteq> None \<Longrightarrow> resolve (predicates d') ix = resolve (predicates d) ix"
    "resolve (literals d) ix \<noteq> None \<Longrightarrow> resolve (literals d') ix = resolve (literals d) ix" for ix
    using assms(1) by (auto simp: dict_ext_def)
  have "names_obj d' (obj i) (object t) \<longleftrightarrow> names_obj d (obj i) (object t)"
  proof (cases "resolve (entities d) (obj i) \<noteq> None")
    case True
    then have "is_entity_id (obj i)" using e(1) entity_id_small [OF assms(2)] by fastforce
    then have no': "\<not> (resolve (literals d') jx = Some k \<and> obj i = jx + LITERAL_FIRST_ID)" for jx k
      using literal_id_split(2) [OF assms(2)] by (auto simp: is_entity_id_def)
    then have no: "\<not> (resolve (literals d) jx = Some k \<and> obj i = jx + LITERAL_FIRST_ID)" for jx k
      using assms(1) by (auto simp: dict_ext_def)
    show ?thesis
    proof (cases "is_literal (object t)")
      case lit: True
      then show ?thesis unfolding names_obj_def using no no' by meson
    qed (use e(1) [OF True] in \<open>simp add: names_obj_def\<close>)
  next
    case False
    then obtain jx s where jx: "resolve (literals d) jx = Some s" "obj i = jx + LITERAL_FIRST_ID"
      using assms(3) by (auto simp: known_def)
    then have jx': "resolve (literals d') jx = Some s" using assms(1) by (simp add: dict_ext_def)
    have "\<not> is_entity_id (obj i)" using literal_id_split(2) [OF assms(2) jx'] jx(2) by (simp add: is_entity_id_def)
    then have "resolve (entities d') (obj i) \<noteq> Some k" for k using entity_id_small [OF assms(2)] by blast
    with False jx jx' show ?thesis by (auto simp: names_obj_def)
  qed
  then show ?thesis using assms(3) e by (auto simp: names_triple_def known_def)
qed

text \<open>Room for the terms of one more quad in every id space.\<close>

definition db_room :: "Dictionary \<Rightarrow> bool" where
  "db_room d \<longleftrightarrow> length (backward (entities d)) + 3 \<le> 2000000000 \<and> length (backward (literals d)) < 2294967295 \<and>
     length (backward (predicates d)) < 2 ^ 32"

lemma intern_step:
  assumes "interner_inv i" and "length (backward i) < 2 ^ 32"
  obtains ix i' where "intern i s = Some (ix, i')" "interner_inv i'" "resolve i' ix = Some s"
    "length (backward i') \<le> Suc (length (backward i))" "\<forall>jx u. resolve i jx = Some u \<longrightarrow> resolve i' jx = Some u"
proof -
  obtain ix i' where e: "intern i s = Some (ix, i')" using intern_room [OF assms] by blast
  show thesis
    by (rule that [OF e intern_inv [OF assms(1) e] interner.add_res [OF assms(1) e] intern_length [OF e]])
       (use interner.add_keeps [OF assms(1) e] in blast)
qed

lemma intern_entity_step:
  assumes "dict_inv d" and "length (backward (entities d)) < 2000000000"
  obtains ix d' where "intern_entity d k = Some (ix, d')" "dict_inv d'" "dict_ext d d'" "resolve (entities d') ix = Some k"
    "length (backward (entities d')) \<le> Suc (length (backward (entities d)))"
    "literals d' = literals d" "predicates d' = predicates d"
proof -
  have "interner_inv (entities d)" "length (backward (entities d)) < 2 ^ 32" using assms by (auto simp: dict_inv_def)
  from intern_step [OF this, of k] obtain ix i' where
    i: "intern (entities d) k = Some (ix, i')" "interner_inv i'" "resolve i' ix = Some k"
    "length (backward i') \<le> Suc (length (backward (entities d)))" "\<forall>jx u. resolve (entities d) jx = Some u \<longrightarrow> resolve i' jx = Some u"
    by blast
  show thesis by (rule that [of ix "d\<lparr>entities := i'\<rparr>"]) (use i assms in \<open>auto simp: intern_entity_def dict_inv_def dict_ext_def\<close>)
qed

lemma encode_triple_step:
  assumes "dict_inv d" and "length (backward (entities d)) + 2 \<le> 2000000000"
    "length (backward (literals d)) < 2294967295" "length (backward (predicates d)) < 2 ^ 32"
  obtains i d' where "encode_triple d t = Some (i, d')" "dict_inv d'" "dict_in_range d'" "dict_ext d d'" "names_triple d' i t"
proof -
  have room: "length (backward (entities d)) < 2000000000" using assms(2) by simp
  obtain s d1 where
    s: "intern_entity d (dict_key (subject t)) = Some (s, d1)" "dict_inv d1" "dict_ext d d1"
    "resolve (entities d1) s = Some (dict_key (subject t))"
    "length (backward (entities d1)) \<le> Suc (length (backward (entities d)))"
    "literals d1 = literals d" "predicates d1 = predicates d"
    by (rule intern_entity_step [OF assms(1) room, of "dict_key (subject t)"])
  have pre: "interner_inv (predicates d1)" "length (backward (predicates d1)) < 2 ^ 32"
    using s(2,7) assms(4) by (auto simp: dict_inv_def)
  obtain p ip where
    p: "intern (predicates d1) (dict_key (predicate t)) = Some (p, ip)" "interner_inv ip" "resolve ip p = Some (dict_key (predicate t))"
    "length (backward ip) \<le> Suc (length (backward (predicates d1)))"
    "\<forall>jx u. resolve (predicates d1) jx = Some u \<longrightarrow> resolve ip jx = Some u"
    by (rule intern_step [OF pre, of "dict_key (predicate t)"])
  define d2 where "d2 = d1\<lparr>predicates := ip\<rparr>"
  have d2: "intern_predicate d1 (dict_key (predicate t)) = Some (p, d2)" "dict_inv d2" "dict_ext d1 d2"
    using p s(2) by (auto simp: intern_predicate_def d2_def dict_inv_def dict_ext_def)
  have d2': "entities d2 = entities d1" "literals d2 = literals d" "resolve (predicates d2) p = Some (dict_key (predicate t))"
    using s(6) p(3) by (auto simp: d2_def)
  show thesis
  proof (cases "is_literal (object t)")
    case True
    have pre: "interner_inv (literals d2)" "length (backward (literals d2)) < 2 ^ 32"
      using d2(2) d2'(2) assms(3) by (auto simp: dict_inv_def)
    obtain ob il where
      ob: "intern (literals d2) (dict_key (object t)) = Some (ob, il)" "interner_inv il" "resolve il ob = Some (dict_key (object t))"
      "length (backward il) \<le> Suc (length (backward (literals d2)))" "\<forall>jx u. resolve (literals d2) jx = Some u \<longrightarrow> resolve il jx = Some u"
      by (rule intern_step [OF pre, of "dict_key (object t)"])
    have "unat ob < 2294967295" using resolve_Some_lt [OF ob(3)] ob(4) assms(3) d2'(2) by simp
    then have t: "intern_term d2 (object t) = Some (ob + LITERAL_FIRST_ID, d2\<lparr>literals := il\<rparr>)"
      using True ob(1) by (simp add: intern_term_def intern_literal_def literal_offset)
    show thesis
    proof (rule that)
      show "encode_triple d t = Some (IdTriple s p (ob + LITERAL_FIRST_ID), d2\<lparr>literals := il\<rparr>)"
        using s(1) d2(1) t by (simp add: encode_triple_def)
      show "dict_inv (d2\<lparr>literals := il\<rparr>)" using d2(2) ob(2) by (simp add: dict_inv_def)
      show "dict_in_range (d2\<lparr>literals := il\<rparr>)" using s(5) d2' ob(4) assms(2,3) by (simp add: dict_in_range_def)
      show "dict_ext d (d2\<lparr>literals := il\<rparr>)"
        using dict_ext_trans [OF s(3) d2(3)] ob(5) by (auto simp: dict_ext_def)
      show "names_triple (d2\<lparr>literals := il\<rparr>) (IdTriple s p (ob + LITERAL_FIRST_ID)) t"
        using s(4) d2' ob(3) True by (auto simp: names_triple_def names_obj_def)
    qed
  next
    case False
    have room2: "length (backward (entities d2)) < 2000000000" using s(5) d2'(1) assms(2) by simp
    obtain ob d3 where
      ob: "intern_entity d2 (dict_key (object t)) = Some (ob, d3)" "dict_inv d3" "dict_ext d2 d3"
      "resolve (entities d3) ob = Some (dict_key (object t))"
      "length (backward (entities d3)) \<le> Suc (length (backward (entities d2)))"
      "literals d3 = literals d2" "predicates d3 = predicates d2"
      by (rule intern_entity_step [OF d2(2) room2, of "dict_key (object t)"])
    show thesis
    proof (rule that)
      show "encode_triple d t = Some (IdTriple s p ob, d3)"
        using s(1) d2(1) ob(1) False by (simp add: encode_triple_def intern_term_def)
      show "dict_in_range d3" using s(5) d2' ob(5,6) assms(2,3) by (simp add: dict_in_range_def)
      show "dict_ext d d3" using dict_ext_trans [OF dict_ext_trans [OF s(3) d2(3)] ob(3)] .
      show "names_triple d3 (IdTriple s p ob) t"
        using s(4) d2' ob(3,4,7) False by (auto simp: names_triple_def names_obj_def dict_ext_def)
    qed (rule ob(2))
  qed
qed

section \<open>Frames\<close>

lemma flush_redo_frame [simp]:
  "dict (flush_redo db) = dict db" "store (flush_redo db) = store db" "named (flush_redo db) = named db"
  "vstree (flush_redo db) = vstree db" "index_valid (flush_redo db) = index_valid db" "txn (flush_redo db) = txn db"
  "redo_log (flush_redo db) = redo_log db"
  by (simp_all add: flush_redo_def)

lemma record_redo_frame [simp]:
  "dict (record_redo c g i db) = dict db" "store (record_redo c g i db) = store db"
  "named (record_redo c g i db) = named db" "vstree (record_redo c g i db) = vstree db"
  "index_valid (record_redo c g i db) = index_valid db" "txn (record_redo c g i db) = txn db"
  "redo_log (record_redo c g i db) = redo_log db"
  by (auto simp: record_redo_def Let_def split: option.splits)

lemma record_redo_in_txn: "txn db \<noteq> None \<Longrightarrow> redo_file (record_redo c g i db) = redo_file db"
  by (auto simp: record_redo_def Let_def split: option.splits)

lemma clear_cache_frame [simp]:
  "dict (clear_cache db) = dict db" "store (clear_cache db) = store db" "named (clear_cache db) = named db"
  "vstree (clear_cache db) = vstree db" "index_valid (clear_cache db) = index_valid db" "txn (clear_cache db) = txn db"
  "redo_log (clear_cache db) = redo_log db" "redo_file (clear_cache db) = redo_file db"
  "redo_pending (clear_cache db) = redo_pending db"
  by (simp_all add: clear_cache_def)

lemma push_undo_frame [simp]:
  "dict (push_undo u db) = dict db" "store (push_undo u db) = store db" "named (push_undo u db) = named db"
  "vstree (push_undo u db) = vstree db" "index_valid (push_undo u db) = index_valid db"
  "txn (push_undo u db) = map_option (\<lambda>log. log @ u) (txn db)" "redo_file (push_undo u db) = redo_file db"
  by (simp_all add: push_undo_def split: option.split)

section \<open>Content and invariant\<close>

definition content :: "'q Database \<Rightarrow> u32 option \<Rightarrow> IdTriple set" where
  "content db g = (case g of None \<Rightarrow> triples (store db) | Some gid \<Rightarrow> triples (named_or_default (named db) gid))"

definition stores_ok :: "'q Database \<Rightarrow> bool" where
  "stores_ok db \<longleftrightarrow> store_inv (store db) \<and> bm_wf (named db) \<and> (\<forall>g s. bm_get (named db) g = Some s \<longrightarrow> store_inv s)"

text \<open>A triple of a graph, default or named, all of whose ids the dictionary resolves.\<close>

definition gknown :: "Dictionary \<Rightarrow> u32 option \<Rightarrow> IdTriple \<Rightarrow> bool" where
  "gknown d g i \<longleftrightarrow> known d i \<and> (\<forall>h. g = Some h \<longrightarrow> resolve (entities d) h \<noteq> None)"

fun undo_known :: "Dictionary \<Rightarrow> UndoOp \<Rightarrow> bool" where
  "undo_known d (Add g i) = gknown d g i"
| "undo_known d (Del g i) = gknown d g i"

definition db_ok :: "'q Database \<Rightarrow> bool" where
  "db_ok db \<longleftrightarrow> dict_inv (dict db) \<and> dict_in_range (dict db) \<and> stores_ok db \<and>
     (\<forall>g. \<forall>i \<in> content db g. gknown (dict db) g i) \<and>
     (\<forall>log. txn db = Some log \<longrightarrow> (\<forall>u \<in> set log. undo_known (dict db) u)) \<and>
     (index_valid db \<longrightarrow> index_ok (store db) (vstree db))"

definition present :: "'q Database \<Rightarrow> Triple \<Rightarrow> bool" where
  "present db t \<longleftrightarrow> (\<exists>i. triple_id (dict db) t = Some i \<and> ts_exists (store db) (sub i) (pred i) (obj i))"

lemma named_or_default_inv: "stores_ok db \<Longrightarrow> store_inv (named_or_default (named db) g)"
  by (auto simp: stores_ok_def named_or_default_def store_inv_new split: option.splits)

lemma named_or_default_insert: "named_or_default (bm_insert g s m) h = (if h = g then s else named_or_default m h)"
  by (simp add: named_or_default_def)

lemma content_simps:
  "content (db\<lparr>store := st\<rparr>) = (content db)(None := triples st)"
  "content (db\<lparr>named := bm_insert g s (named db)\<rparr>) = (content db)(Some g := triples s)"
  by (auto simp: content_def fun_eq_iff named_or_default_insert split: option.splits)

lemma content_cong: "store a = store b \<Longrightarrow> named a = named b \<Longrightarrow> content a = content b"
  by (simp add: content_def fun_eq_iff split: option.splits)

lemma stores_ok_cong: "store a = store b \<Longrightarrow> named a = named b \<Longrightarrow> stores_ok a \<longleftrightarrow> stores_ok b"
  by (simp add: stores_ok_def)

lemma present_iff:
  assumes "db_ok db"
  shows "present db t \<longleftrightarrow> (\<exists>i \<in> triples (store db). names_triple (dict db) i t)"
proof -
  have "triple_id (dict db) t = Some i \<longleftrightarrow> names_triple (dict db) i t" for i
    using assms by (intro triple_id_iff) (auto simp: db_ok_def)
  moreover have "ts_exists (store db) (sub i) (pred i) (obj i) \<longleftrightarrow> i \<in> triples (store db)" for i
    using assms by (simp add: mem.ex_iff db_ok_def stores_ok_def)
  ultimately show ?thesis by (auto simp: present_def)
qed

lemma known_ext: "dict_ext d d' \<Longrightarrow> known d i \<Longrightarrow> known d' i"
  by (auto simp: known_def dict_ext_def)

lemma gknown_None [simp]: "gknown d None i \<longleftrightarrow> known d i"
  by (simp add: gknown_def)

lemma gknown_ext: "dict_ext d d' \<Longrightarrow> gknown d g i \<Longrightarrow> gknown d' g i"
  using known_ext by (force simp: gknown_def dict_ext_def)

lemma undo_known_ext: "dict_ext d d' \<Longrightarrow> undo_known d u \<Longrightarrow> undo_known d' u"
  by (cases u) (auto intro: gknown_ext)

lemma subjects_are_entities: "dict_in_range d \<Longrightarrow> known d i \<Longrightarrow> is_entity_id (sub i)"
  using entity_id_small by (auto simp: known_def)

lemma db_new_ok: "db_ok (db_new n)"
  by (auto simp: db_ok_def db_new_def stores_ok_def content_def named_or_default_def store_inv_new index_ok_def
    vs_new_ok entity_ids_def dict_in_range_def split: option.splits) (simp_all add: dict_new_def)

text \<open>The invariant after a change of one graph.\<close>

lemma db_ok_graph_change:
  assumes ok: "db_ok db" and d: "dict_inv (dict db')" "dict_in_range (dict db')" "dict_ext (dict db) (dict db')"
    and st: "stores_ok db'" and c: "\<And>h. content db' h \<subseteq> content db h \<union> {j. h = g \<and> j = i}" and i: "gknown (dict db') g i"
    and tx: "txn db' = map_option (\<lambda>log. log @ us) (txn db)" "\<forall>u \<in> set us. undo_known (dict db') u"
    and idx: "index_valid db' \<Longrightarrow> index_ok (store db') (vstree db')"
  shows "db_ok db'"
proof -
  have "\<forall>h. \<forall>j \<in> content db' h. gknown (dict db') h j"
    using ok c i gknown_ext [OF d(3)] unfolding db_ok_def by blast
  moreover have "\<forall>log. txn db' = Some log \<longrightarrow> (\<forall>u \<in> set log. undo_known (dict db') u)"
    using ok tx undo_known_ext [OF d(3)] unfolding db_ok_def by auto
  ultimately show ?thesis using d st idx by (simp add: db_ok_def)
qed

section \<open>What the updates do\<close>

lemma encode_triple_of_room:
  assumes "dict_inv d" and "db_room d"
  obtains i d' where "encode_triple d t = Some (i, d')" "dict_inv d'" "dict_in_range d'" "dict_ext d d'" "names_triple d' i t"
  by (rule encode_triple_step [OF assms(1)]) (use assms(2) in \<open>auto simp: db_room_def\<close>)

lemma insert_triple_spec:
  assumes ok: "db_ok db" and room: "db_room (dict db)"
  obtains i db' where "insert_triple db t = Some (i \<notin> content db None, db')" "db_ok db'" "dict_ext (dict db) (dict db')"
    "names_triple (dict db') i t" "content db' = (content db)(None := insert i (content db None))"
    "txn db' = map_option (\<lambda>log. log @ (if i \<in> content db None then [] else [Del None i])) (txn db)"
    "txn db \<noteq> None \<longrightarrow> redo_file db' = redo_file db" "index_valid db' = index_valid db"
proof -
  have D: "dict_inv (dict db)" "stores_ok db" "store_inv (store db)" using ok by (auto simp: db_ok_def stores_ok_def)
  obtain i d where e: "encode_triple (dict db) t = Some (i, d)" "dict_inv d" "dict_in_range d" "dict_ext (dict db) d" "names_triple d i t"
    by (rule encode_triple_of_room [OF D(1) room])
  note ins = ts_insert_spec [OF D(3), of i]
  have c: "content db None = triples (store db)" by (simp add: content_def)
  have kn: "known d j" if "j \<in> insert i (triples (store db))" for j
    using that ok known_ext [OF e(4)] names_known [OF e(5)] unfolding db_ok_def c [symmetric] gknown_None [symmetric] by blast
  show thesis
  proof (cases "i \<in> content db None")
    case True
    then have "ts_insert (store db) i = (False, store db)" using ts_insert_present [OF D(3)] by (simp add: c)
    then have r: "insert_triple db t = Some (False, db\<lparr>dict := d\<rparr>)" using e(1) by (simp add: insert_triple_def)
    have cc: "content (db\<lparr>dict := d\<rparr>) = content db" by (rule content_cong) simp_all
    have so: "stores_ok (db\<lparr>dict := d\<rparr>)" using D(2) by (simp add: stores_ok_def)
    have "db_ok (db\<lparr>dict := d\<rparr>)"
      by (rule db_ok_graph_change [OF ok, where g = None and i = i and us = "[]"])
         (use e so ok names_known [OF e(5)] in \<open>auto simp: cc db_ok_def option.map_ident\<close>)
    then show thesis using True e r cc by (intro that [of i "db\<lparr>dict := d\<rparr>"]) (auto simp: insert_absorb option.map_ident)
  next
    case False
    then have b: "fst (ts_insert (store db) i)" using ins(1) by (simp add: c)
    let ?st = "snd (ts_insert (store db) i)"
    obtain vt where vt: "(if index_valid db then vstree_index_insert ?st (vstree db) i else Some (vstree db)) = Some vt"
      "index_valid db \<Longrightarrow> index_ok ?st vt"
    proof (cases "index_valid db")
      case True
      have "\<forall>x \<in> insert i (triples (store db)). is_entity_id (sub x)"
        using kn subjects_are_entities [OF e(3)] by blast
      then show thesis using index_insert_entities [OF D(3), of "vstree db" i] ok True that by (auto simp: db_ok_def)
    qed (use that in auto)
    let ?db = "record_redo CHR ''I'' None i (push_undo [Del None i] (clear_cache (db\<lparr>dict := d, store := ?st, vstree := vt\<rparr>)))"
    obtain st where st: "ts_insert (store db) i = (True, st)" using b by (metis prod.collapse)
    have r: "insert_triple db t = Some (True, ?db)"
      using e(1) vt(1) unfolding st snd_conv by (simp add: insert_triple_def st)
    have cc: "content ?db = (content db)(None := insert i (content db None))"
      using ins(2) content_simps(1) [of "?st" db] by (simp add: content_def fun_eq_iff split: option.splits)
    have so: "stores_ok ?db" using D(2) ins(3) by (simp add: stores_ok_def)
    have "db_ok ?db"
      by (rule db_ok_graph_change [OF ok, where g = None and i = i and us = "[Del None i]"])
         (use e so vt(2) names_known [OF e(5)] in \<open>auto simp: cc split: if_splits\<close>)
    then show thesis using False e r cc
      by (intro that [of i ?db]) (simp_all add: record_redo_in_txn)
  qed
qed

lemma remove_triple_spec:
  assumes ok: "db_ok db"
  shows "\<exists>R db'. remove_triple db t = (R \<noteq> {}, db') \<and> db_ok db' \<and> dict db' = dict db \<and>
    R = {i \<in> content db None. names_triple (dict db) i t} \<and> content db' = (content db)(None := content db None - R) \<and>
    (\<exists>us. txn db' = map_option (\<lambda>log. log @ us) (txn db) \<and> (R = {} \<and> us = [] \<or> (\<exists>i. R = {i} \<and> us = [Add None i]))) \<and>
    (txn db \<noteq> None \<longrightarrow> redo_file db' = redo_file db)"
proof -
  have D: "dict_inv (dict db)" "dict_in_range (dict db)" "stores_ok db" "store_inv (store db)"
    using ok by (auto simp: db_ok_def stores_ok_def)
  let ?R = "{i \<in> content db None. names_triple (dict db) i t}"
  have R: "?R = {i \<in> triples (store db). triple_id (dict db) t = Some i}"
    using triple_id_iff [OF D(1,2)] by (auto simp: content_def)
  show ?thesis
  proof (cases "?R = {}")
    case True
    have "remove_triple db t = (False, db)"
    proof (cases "triple_id (dict db) t")
      case (Some i)
      then have "i \<notin> triples (store db)" using True R by auto
      then show ?thesis using Some ts_remove_absent [OF D(4)] by (simp add: remove_triple_def)
    qed (simp add: remove_triple_def)
    then show ?thesis using True ok by (intro exI [of _ "{}"] exI [of _ db]) (auto simp: option.map_ident)
  next
    case False
    then obtain i where i: "triple_id (dict db) t = Some i" "i \<in> triples (store db)" "?R = {i}" using R by auto
    let ?st = "snd (ts_remove (store db) i)"
    let ?db = "record_redo CHR ''D'' None i (push_undo [Add None i] (clear_cache (db\<lparr>store := ?st, index_valid := False\<rparr>)))"
    note rem = ts_remove_spec [OF D(4), of i]
    obtain st where st: "ts_remove (store db) i = (True, st)" using i(2) rem(1) by (metis prod.collapse)
    have r: "remove_triple db t = (True, ?db)"
      using i(1) unfolding st snd_conv by (simp add: remove_triple_def st)
    have cc: "content ?db = (content db)(None := content db None - {i})"
      using rem(2) by (auto simp: content_def fun_eq_iff split: option.splits)
    have so: "stores_ok ?db" using D(3) rem(3) by (simp add: stores_ok_def)
    have "known (dict db) i" using triple_id_iff [OF D(1,2)] i(1) names_known by blast
    then have "db_ok ?db"
      by (intro db_ok_graph_change [OF ok, where g = None and i = i and us = "[Add None i]"])
         (use D so in \<open>auto simp: cc split: if_splits\<close>)
    then show ?thesis using r cc i(3)
      by (intro exI [of _ "{i}"] exI [of _ ?db]) (auto simp: record_redo_in_txn)
  qed
qed

lemma insert_named_spec:
  assumes ok: "db_ok db" and room: "db_room (dict db)"
  obtains g i db' where "insert_quad db t (Some gr) = Some (i \<notin> content db (Some g), db')" "db_ok db'"
    "content db' = (content db)(Some g := insert i (content db (Some g)))" "dict_ext (dict db) (dict db')"
    "names_triple (dict db') i t" "resolve (entities (dict db')) g = Some (dict_key (Iri gr))"
    "txn db' = map_option (\<lambda>log. log @ (if i \<in> content db (Some g) then [] else [Del (Some g) i])) (txn db)"
    "txn db \<noteq> None \<longrightarrow> redo_file db' = redo_file db"
proof -
  have D: "dict_inv (dict db)" "stores_ok db" using ok by (auto simp: db_ok_def)
  have lt: "length (backward (entities (dict db))) < 2000000000" using room by (simp add: db_room_def)
  obtain g d0 where g: "intern_entity (dict db) (dict_key (Iri gr)) = Some (g, d0)" "dict_inv d0" "dict_ext (dict db) d0"
    "resolve (entities d0) g = Some (dict_key (Iri gr))"
    "length (backward (entities d0)) \<le> Suc (length (backward (entities (dict db))))"
    "literals d0 = literals (dict db)" "predicates d0 = predicates (dict db)"
    by (rule intern_entity_step [OF D(1) lt, of "dict_key (Iri gr)"])
  obtain i d where e: "encode_triple d0 t = Some (i, d)" "dict_inv d" "dict_in_range d" "dict_ext d0 d" "names_triple d i t"
    by (rule encode_triple_step [OF g(2), of t]) (use g(5-7) room in \<open>auto simp: db_room_def\<close>)
  have ext: "dict_ext (dict db) d" using dict_ext_trans [OF g(3) e(4)] .
  let ?s = "named_or_default (named db) g"
  note inv = named_or_default_inv [OF D(2), of g]
  note ins = ts_insert_spec [OF inv, of i]
  have c: "content db (Some g) = triples ?s" by (simp add: content_def)
  let ?db1 = "db\<lparr>dict := d, named := bm_insert g (snd (ts_insert ?s i)) (named db)\<rparr>"
  define db' where "db' = (if i \<notin> content db (Some g)
    then record_redo CHR ''I'' (Some g) i (push_undo [Del (Some g) i] (clear_cache ?db1)) else ?db1)"
  have r: "insert_quad db t (Some gr) = Some (i \<notin> content db (Some g), db')"
    using g(1) e(1) ins(1) unfolding c db'_def
    by (cases "ts_insert ?s i") (simp add: insert_quad_def Let_def)
  have fr: "dict db' = d" "store db' = store db" "named db' = bm_insert g (snd (ts_insert ?s i)) (named db)"
    "vstree db' = vstree db" "index_valid db' = index_valid db"
    "txn db' = map_option (\<lambda>log. log @ (if i \<in> content db (Some g) then [] else [Del (Some g) i])) (txn db)"
    by (simp_all add: db'_def option.map_ident)
  have cc: "content db' = (content db)(Some g := insert i (content db (Some g)))"
    using ins(2) by (simp add: content_def fr fun_eq_iff named_or_default_insert split: option.splits)
  have so: "stores_ok db'" using D(2) ins(3) by (simp add: stores_ok_def fr)
  have gr: "resolve (entities d) g = Some (dict_key (Iri gr))" using g(4) e(4) by (simp add: dict_ext_def)
  then have gk: "gknown d (Some g) i" using names_known [OF e(5)] by (simp add: gknown_def)
  have "db_ok db'"
    by (rule db_ok_graph_change [OF ok, where g = "Some g" and i = i and us = "if i \<in> content db (Some g) then [] else [Del (Some g) i]"])
       (use e ext so ok gk in \<open>auto simp: cc fr db_ok_def split: if_splits\<close>)
  then show thesis using r cc ext fr(1,6) e(5) gr
    by (intro that [where g = g and i = i and db' = db']) (auto simp: db'_def record_redo_in_txn)
qed

end
