(* ===== verification/Reason.thy ===== *)
theory Reason
  imports Database
begin

text \<open>
  RDFS entailment by forward chaining (\<open>src/reason/mod.rs\<close>, first half). \<open>gather\<close> derives the direct
  consequences of one round, \<open>materialize\<close> inserts them until nothing is new. The loop is a partial
  function; it is proved to return on every consistent store, with the least set of triples closed
  under the rules as \<open>gather\<close> applies them, which is compared with the rule table of the module's
  documentation (\<open>rdfs_table\<close>).
\<close>

section \<open>Vocabulary\<close>

definition RDF_TYPE :: rstring where
  "RDF_TYPE = lit ''http://www.w3.org/1999/02/22-rdf-syntax-ns#type''"

definition RDFS_SUBCLASS :: rstring where
  "RDFS_SUBCLASS = lit ''http://www.w3.org/2000/01/rdf-schema#subClassOf''"

definition RDFS_SUBPROP :: rstring where
  "RDFS_SUBPROP = lit ''http://www.w3.org/2000/01/rdf-schema#subPropertyOf''"

definition RDFS_DOMAIN :: rstring where
  "RDFS_DOMAIN = lit ''http://www.w3.org/2000/01/rdf-schema#domain''"

definition RDFS_RANGE :: rstring where
  "RDFS_RANGE = lit ''http://www.w3.org/2000/01/rdf-schema#range''"

definition voc_key :: "rstring \<Rightarrow> rstring" where
  "voc_key iri = dict_key (Iri iri)"

text \<open>The predicate ids that \<open>gather\<close> takes as its five optional arguments.\<close>

record Vocab =
  type_p :: "u32 option"
  sco_p :: "u32 option"
  spo_p :: "u32 option"
  dom_p :: "u32 option"
  rng_p :: "u32 option"

definition ent_to_pred :: "Dictionary \<Rightarrow> u32 \<Rightarrow> u32 option" where
  "ent_to_pred d ent = (case id_to_string d ent of None \<Rightarrow> None | Some key \<Rightarrow> predicate_id d key)"

section \<open>One round\<close>

definition sub_index :: "(u32 \<times> u32) list \<Rightarrow> u32 \<Rightarrow> u32 list option" where
  "sub_index pairs = fold (\<lambda>(c, d) m. m(c \<mapsto> (case m c of None \<Rightarrow> [] | Some l \<Rightarrow> l) @ [d])) pairs Map.empty"

definition gather_trans :: "u32 \<Rightarrow> (u32 \<times> u32) list \<Rightarrow> IdTriple list" where
  "gather_trans p pairs = concat (map (\<lambda>(c, d). case sub_index pairs d of
     None \<Rightarrow> []
   | Some es \<Rightarrow> map (IdTriple c p) (filter (\<lambda>e. c \<noteq> e) es)) pairs)"

definition gather_type :: "u32 \<Rightarrow> (u32 \<times> u32) list \<Rightarrow> (u32 \<times> u32) list \<Rightarrow> IdTriple list" where
  "gather_type tp typed pairs = concat (map (\<lambda>(x, c). case sub_index pairs c of
     None \<Rightarrow> [] | Some ds \<Rightarrow> map (IdTriple x tp) ds) typed)"

definition gather_class :: "TripleStore \<Rightarrow> Vocab \<Rightarrow> IdTriple list" where
  "gather_class st v = (case sco_p v of
     None \<Rightarrow> []
   | Some sco \<Rightarrow> (let pairs = so_by_p st sco in gather_trans sco pairs @
       (case type_p v of None \<Rightarrow> [] | Some tp \<Rightarrow> gather_type tp (so_by_p st tp) pairs)))"

definition gather_prop :: "Dictionary \<Rightarrow> TripleStore \<Rightarrow> Vocab \<Rightarrow> IdTriple list" where
  "gather_prop d st v = (case spo_p v of
     None \<Rightarrow> []
   | Some spo \<Rightarrow> (let pairs = so_by_p st spo in gather_trans spo pairs @
       concat (map (\<lambda>(p_ent, q_ent). case (ent_to_pred d p_ent, ent_to_pred d q_ent) of
           (Some p_pred, Some q_pred) \<Rightarrow>
             if p_pred = q_pred then [] else map (\<lambda>(x, y). IdTriple x q_pred y) (so_by_p st p_pred)
         | _ \<Rightarrow> []) pairs)))"

definition gather_domain :: "Dictionary \<Rightarrow> TripleStore \<Rightarrow> Vocab \<Rightarrow> IdTriple list" where
  "gather_domain d st v = (case (dom_p v, type_p v) of
     (Some dm, Some tp) \<Rightarrow> concat (map (\<lambda>(p_ent, c). case ent_to_pred d p_ent of
         None \<Rightarrow> [] | Some p_pred \<Rightarrow> map (\<lambda>(x, y). IdTriple x tp c) (so_by_p st p_pred)) (so_by_p st dm))
   | _ \<Rightarrow> [])"

definition gather_range :: "Dictionary \<Rightarrow> TripleStore \<Rightarrow> Vocab \<Rightarrow> IdTriple list" where
  "gather_range d st v = (case (rng_p v, type_p v) of
     (Some rng, Some tp) \<Rightarrow> concat (map (\<lambda>(p_ent, c). case ent_to_pred d p_ent of
         None \<Rightarrow> [] | Some p_pred \<Rightarrow> map (\<lambda>(x, y). IdTriple y tp c) (so_by_p st p_pred)) (so_by_p st rng))
   | _ \<Rightarrow> [])"

definition gather :: "Dictionary \<Rightarrow> TripleStore \<Rightarrow> Vocab \<Rightarrow> IdTriple list" where
  "gather d st v = gather_class st v @ gather_prop d st v @ gather_domain d st v @ gather_range d st v"

section \<open>The fixpoint\<close>

fun add_new :: "TripleStore \<Rightarrow> IdTriple list \<Rightarrow> TripleStore \<times> IdTriple list" where
  "add_new st [] = (st, [])"
| "add_new st (t # ts) = (case ts_insert st t of
     (True, st1) \<Rightarrow> (case add_new st1 ts of (st2, added) \<Rightarrow> (st2, t # added))
   | (False, st1) \<Rightarrow> add_new st1 ts)"

partial_function (option) rdfs_loop :: "Dictionary \<Rightarrow> Vocab \<Rightarrow> TripleStore \<Rightarrow> IdTriple list \<Rightarrow> (TripleStore \<times> IdTriple list) option" where
  [code]: "rdfs_loop d v st added_all = (case add_new st (gather d st v) of (st1, added) \<Rightarrow>
     if added = [] then Some (st1, added_all) else rdfs_loop d v st1 (added_all @ added))"

fun intern_predicates :: "Dictionary \<Rightarrow> rstring list \<Rightarrow> Dictionary option" where
  "intern_predicates d [] = Some d"
| "intern_predicates d (k # ks) = (case intern_predicate d k of None \<Rightarrow> None | Some (_, d1) \<Rightarrow> intern_predicates d1 ks)"

text \<open>The keys of every property named in a \<open>subPropertyOf\<close> statement.\<close>

definition property_keys :: "Dictionary \<Rightarrow> TripleStore \<Rightarrow> u32 \<Rightarrow> rstring list" where
  "property_keys d st spo = List.map_filter (id_to_string d) (concat (map (\<lambda>(p, q). [p, q]) (so_by_p st spo)))"

definition materialize :: "Dictionary \<Rightarrow> TripleStore \<Rightarrow> (IdTriple list \<times> Dictionary \<times> TripleStore) option" where
  "materialize d st =
     (let sco = predicate_id d (voc_key RDFS_SUBCLASS); spo = predicate_id d (voc_key RDFS_SUBPROP);
          dm = predicate_id d (voc_key RDFS_DOMAIN); rng = predicate_id d (voc_key RDFS_RANGE) in
      if sco = None \<and> spo = None \<and> dm = None \<and> rng = None then Some ([], d, st)
      else (case (if sco \<noteq> None \<or> dm \<noteq> None \<or> rng \<noteq> None
                  then map_option (\<lambda>(ix, d1). (Some ix, d1)) (intern_predicate d (voc_key RDF_TYPE))
                  else Some (predicate_id d (voc_key RDF_TYPE), d)) of
        None \<Rightarrow> None
      | Some (tp, d1) \<Rightarrow> (case (case spo of None \<Rightarrow> Some d1 | Some p \<Rightarrow> intern_predicates d1 (property_keys d1 st p)) of
          None \<Rightarrow> None
        | Some d2 \<Rightarrow> map_option (\<lambda>(st', added). (added, d2, st'))
            (rdfs_loop d2 \<lparr>type_p = tp, sco_p = sco, spo_p = spo, dom_p = dm, rng_p = rng\<rparr> st []))))"

text \<open>\<open>Database::materialize_rdfs\<close>, which returns the number of inferred triples.\<close>

definition materialize_rdfs :: "'q Database \<Rightarrow> (nat \<times> 'q Database) option" where
  "materialize_rdfs db = (case materialize (dict db) (store db) of
     None \<Rightarrow> None
   | Some (added, d, st) \<Rightarrow> (let db1 = db\<lparr>dict := d, store := st\<rparr> in
       Some (length added, if added \<noteq> []
         then push_undo (map (Del None) added) (clear_cache (db1\<lparr>index_valid := False\<rparr>)) else db1)))"

section \<open>The entailment relation\<close>

text \<open>
  The rules as \<open>gather\<close> applies them, on ids. \<open>ent_to_pred\<close> bridges the two id spaces of a property. They differ from the module's
  table in one point: the transitivity rules never conclude that a class or a property is below itself.
\<close>

inductive_set rdfs_closure :: "Dictionary \<Rightarrow> Vocab \<Rightarrow> IdTriple set \<Rightarrow> IdTriple set"
  for d :: Dictionary and v :: Vocab and T :: "IdTriple set" where
  asserted: "t \<in> T \<Longrightarrow> t \<in> rdfs_closure d v T"
| class_trans: "sco_p v = Some sc \<Longrightarrow> IdTriple a sc b \<in> rdfs_closure d v T \<Longrightarrow> IdTriple b sc c \<in> rdfs_closure d v T \<Longrightarrow>
    a \<noteq> c \<Longrightarrow> IdTriple a sc c \<in> rdfs_closure d v T"
| class_type: "sco_p v = Some sc \<Longrightarrow> type_p v = Some tp \<Longrightarrow> IdTriple x tp a \<in> rdfs_closure d v T \<Longrightarrow>
    IdTriple a sc b \<in> rdfs_closure d v T \<Longrightarrow> IdTriple x tp b \<in> rdfs_closure d v T"
| prop_trans: "spo_p v = Some sp \<Longrightarrow> IdTriple a sp b \<in> rdfs_closure d v T \<Longrightarrow> IdTriple b sp c \<in> rdfs_closure d v T \<Longrightarrow>
    a \<noteq> c \<Longrightarrow> IdTriple a sp c \<in> rdfs_closure d v T"
| prop_data: "spo_p v = Some sp \<Longrightarrow> IdTriple a sp b \<in> rdfs_closure d v T \<Longrightarrow> ent_to_pred d a = Some p \<Longrightarrow>
    ent_to_pred d b = Some q \<Longrightarrow> IdTriple x p y \<in> rdfs_closure d v T \<Longrightarrow> IdTriple x q y \<in> rdfs_closure d v T"
| domain: "dom_p v = Some dm \<Longrightarrow> type_p v = Some tp \<Longrightarrow> IdTriple a dm c \<in> rdfs_closure d v T \<Longrightarrow>
    ent_to_pred d a = Some p \<Longrightarrow> IdTriple x p y \<in> rdfs_closure d v T \<Longrightarrow> IdTriple x tp c \<in> rdfs_closure d v T"
| range: "rng_p v = Some rg \<Longrightarrow> type_p v = Some tp \<Longrightarrow> IdTriple a rg c \<in> rdfs_closure d v T \<Longrightarrow>
    ent_to_pred d a = Some p \<Longrightarrow> IdTriple x p y \<in> rdfs_closure d v T \<Longrightarrow> IdTriple y tp c \<in> rdfs_closure d v T"

text \<open>The rules of the module's table as they stand there.\<close>

inductive_set rdfs_table :: "Dictionary \<Rightarrow> Vocab \<Rightarrow> IdTriple set \<Rightarrow> IdTriple set"
  for d :: Dictionary and v :: Vocab and T :: "IdTriple set" where
  table_asserted: "t \<in> T \<Longrightarrow> t \<in> rdfs_table d v T"
| table_class_trans: "sco_p v = Some sc \<Longrightarrow> IdTriple a sc b \<in> rdfs_table d v T \<Longrightarrow> IdTriple b sc c \<in> rdfs_table d v T \<Longrightarrow>
    IdTriple a sc c \<in> rdfs_table d v T"
| table_class_type: "sco_p v = Some sc \<Longrightarrow> type_p v = Some tp \<Longrightarrow> IdTriple x tp a \<in> rdfs_table d v T \<Longrightarrow>
    IdTriple a sc b \<in> rdfs_table d v T \<Longrightarrow> IdTriple x tp b \<in> rdfs_table d v T"
| table_prop_trans: "spo_p v = Some sp \<Longrightarrow> IdTriple a sp b \<in> rdfs_table d v T \<Longrightarrow> IdTriple b sp c \<in> rdfs_table d v T \<Longrightarrow>
    IdTriple a sp c \<in> rdfs_table d v T"
| table_prop_data: "spo_p v = Some sp \<Longrightarrow> IdTriple a sp b \<in> rdfs_table d v T \<Longrightarrow> ent_to_pred d a = Some p \<Longrightarrow>
    ent_to_pred d b = Some q \<Longrightarrow> IdTriple x p y \<in> rdfs_table d v T \<Longrightarrow> IdTriple x q y \<in> rdfs_table d v T"
| table_domain: "dom_p v = Some dm \<Longrightarrow> type_p v = Some tp \<Longrightarrow> IdTriple a dm c \<in> rdfs_table d v T \<Longrightarrow>
    ent_to_pred d a = Some p \<Longrightarrow> IdTriple x p y \<in> rdfs_table d v T \<Longrightarrow> IdTriple x tp c \<in> rdfs_table d v T"
| table_range: "rng_p v = Some rg \<Longrightarrow> type_p v = Some tp \<Longrightarrow> IdTriple a rg c \<in> rdfs_table d v T \<Longrightarrow>
    ent_to_pred d a = Some p \<Longrightarrow> IdTriple x p y \<in> rdfs_table d v T \<Longrightarrow> IdTriple y tp c \<in> rdfs_table d v T"

section \<open>One round derives the direct consequences\<close>

lemma sub_index_set: "(case sub_index pairs c of None \<Rightarrow> {} | Some l \<Rightarrow> set l) = {d. (c, d) \<in> set pairs}"
proof -
  have "(case fold (\<lambda>(c, d) m. m(c \<mapsto> (case m c of None \<Rightarrow> [] | Some l \<Rightarrow> l) @ [d])) pairs m c of None \<Rightarrow> {} | Some l \<Rightarrow> set l)
      = {d. (c, d) \<in> set pairs} \<union> (case m c of None \<Rightarrow> {} | Some l \<Rightarrow> set l)" for m
    by (induction pairs arbitrary: m) (auto split: option.splits if_splits)
  from this [of Map.empty] show ?thesis by (simp add: sub_index_def)
qed

lemma sub_index_mem: "(\<exists>l. sub_index pairs c = Some l \<and> d \<in> set l) \<longleftrightarrow> (c, d) \<in> set pairs"
  using sub_index_set [of pairs c] by (cases "sub_index pairs c") auto

text \<open>Membership in the lists the nested loops build.\<close>

lemma in_for_pairs: "t \<in> set (concat (map (\<lambda>(a, b). f a b) xs)) \<longleftrightarrow> (\<exists>a b. (a, b) \<in> set xs \<and> t \<in> set (f a b))"
  by force

lemma in_if_some: "t \<in> set (case opt of None \<Rightarrow> [] | Some x \<Rightarrow> f x) \<longleftrightarrow> (\<exists>x. opt = Some x \<and> t \<in> set (f x))"
  by (cases opt) auto

lemma in_if_both:
  "t \<in> set (case (o1, o2) of (Some x, Some y) \<Rightarrow> f x y | _ \<Rightarrow> []) \<longleftrightarrow> (\<exists>x y. o1 = Some x \<and> o2 = Some y \<and> t \<in> set (f x y))"
  by (cases o1; cases o2) auto

lemma in_map_pairs: "t \<in> set (map (\<lambda>(x, y). f x y) xs) \<longleftrightarrow> (\<exists>x y. (x, y) \<in> set xs \<and> t = f x y)"
  by force

lemmas loop_mem = in_for_pairs in_if_some in_if_both in_map_pairs

lemma gather_trans_mem: "t \<in> set (gather_trans p pairs) \<longleftrightarrow> (\<exists>a b c. (a, b) \<in> set pairs \<and> (b, c) \<in> set pairs \<and> a \<noteq> c \<and> t = IdTriple a p c)"
proof -
  have "t \<in> set (gather_trans p pairs) \<longleftrightarrow>
      (\<exists>a b c. (a, b) \<in> set pairs \<and> (\<exists>l. sub_index pairs b = Some l \<and> c \<in> set l) \<and> a \<noteq> c \<and> t = IdTriple a p c)"
    unfolding gather_trans_def loop_mem by auto
  then show ?thesis unfolding sub_index_mem .
qed

lemma gather_type_mem: "t \<in> set (gather_type tp typed pairs) \<longleftrightarrow> (\<exists>x a b. (x, a) \<in> set typed \<and> (a, b) \<in> set pairs \<and> t = IdTriple x tp b)"
proof -
  have "t \<in> set (gather_type tp typed pairs) \<longleftrightarrow>
      (\<exists>x a b. (x, a) \<in> set typed \<and> (\<exists>l. sub_index pairs a = Some l \<and> b \<in> set l) \<and> t = IdTriple x tp b)"
    unfolding gather_type_def loop_mem by auto
  then show ?thesis unfolding sub_index_mem .
qed

lemma so_mem: "store_inv st \<Longrightarrow> (s, ob) \<in> set (so_by_p st p) \<longleftrightarrow> IdTriple s p ob \<in> triples st"
  by (simp add: mem.so_set)

lemma gather_class_mem:
  assumes "store_inv st"
  shows "t \<in> set (gather_class st v) \<longleftrightarrow>
    (\<exists>sc a b c. sco_p v = Some sc \<and> IdTriple a sc b \<in> triples st \<and> IdTriple b sc c \<in> triples st \<and> a \<noteq> c \<and> t = IdTriple a sc c) \<or>
    (\<exists>sc tp x a b. sco_p v = Some sc \<and> type_p v = Some tp \<and> IdTriple x tp a \<in> triples st \<and> IdTriple a sc b \<in> triples st \<and>
       t = IdTriple x tp b)"
  unfolding gather_class_def Let_def loop_mem set_append Un_iff gather_trans_mem gather_type_mem so_mem [OF assms] by blast

lemma gather_prop_mem:
  assumes "store_inv st"
  shows "t \<in> set (gather_prop d st v) \<longleftrightarrow>
    (\<exists>sp a b c. spo_p v = Some sp \<and> IdTriple a sp b \<in> triples st \<and> IdTriple b sp c \<in> triples st \<and> a \<noteq> c \<and> t = IdTriple a sp c) \<or>
    (\<exists>sp a b p q x y. spo_p v = Some sp \<and> IdTriple a sp b \<in> triples st \<and> ent_to_pred d a = Some p \<and> ent_to_pred d b = Some q \<and>
       p \<noteq> q \<and> IdTriple x p y \<in> triples st \<and> t = IdTriple x q y)"
proof (cases "spo_p v")
  case (Some sp)
  have inner: "t \<in> set (if p = q then [] else map (\<lambda>(x, y). IdTriple x q y) (so_by_p st p)) \<longleftrightarrow>
      p \<noteq> q \<and> (\<exists>x y. IdTriple x p y \<in> triples st \<and> t = IdTriple x q y)" for p q
    using in_map_pairs [of t "\<lambda>x y. IdTriple x q y"] by (simp add: so_mem [OF assms])
  have "t \<in> set (gather_prop d st v) \<longleftrightarrow>
      (\<exists>a b c. IdTriple a sp b \<in> triples st \<and> IdTriple b sp c \<in> triples st \<and> a \<noteq> c \<and> t = IdTriple a sp c) \<or>
      (\<exists>a b. IdTriple a sp b \<in> triples st \<and> (\<exists>p q. ent_to_pred d a = Some p \<and> ent_to_pred d b = Some q \<and>
        p \<noteq> q \<and> (\<exists>x y. IdTriple x p y \<in> triples st \<and> t = IdTriple x q y)))"
    unfolding gather_prop_def Some option.case Let_def set_append Un_iff gather_trans_mem so_mem [OF assms] in_for_pairs in_if_both inner ..
  then show ?thesis by (simp add: Some)
qed (simp add: gather_prop_def)

lemma gather_domain_mem:
  assumes "store_inv st"
  shows "t \<in> set (gather_domain d st v) \<longleftrightarrow> (\<exists>dm tp a p c x y. dom_p v = Some dm \<and> type_p v = Some tp \<and>
    IdTriple a dm c \<in> triples st \<and> ent_to_pred d a = Some p \<and> IdTriple x p y \<in> triples st \<and> t = IdTriple x tp c)"
  unfolding gather_domain_def loop_mem so_mem [OF assms] by blast

lemma gather_range_mem:
  assumes "store_inv st"
  shows "t \<in> set (gather_range d st v) \<longleftrightarrow> (\<exists>rg tp a p c x y. rng_p v = Some rg \<and> type_p v = Some tp \<and>
    IdTriple a rg c \<in> triples st \<and> ent_to_pred d a = Some p \<and> IdTriple x p y \<in> triples st \<and> t = IdTriple y tp c)"
  unfolding gather_range_def loop_mem so_mem [OF assms] by blast

lemma gather_mem: "t \<in> set (gather d st v) \<longleftrightarrow> t \<in> set (gather_class st v) \<or> t \<in> set (gather_prop d st v) \<or>
    t \<in> set (gather_domain d st v) \<or> t \<in> set (gather_range d st v)"
  by (auto simp: gather_def)

lemma gather_sound:
  assumes "store_inv st" and "triples st \<subseteq> rdfs_closure d v T"
  shows "set (gather d st v) \<subseteq> rdfs_closure d v T"
proof
  fix t assume "t \<in> set (gather d st v)"
  then consider "t \<in> set (gather_class st v)" | "t \<in> set (gather_prop d st v)" | "t \<in> set (gather_domain d st v)" | "t \<in> set (gather_range d st v)"
    unfolding gather_mem by blast
  then show "t \<in> rdfs_closure d v T"
  proof cases
    case 1
    then show ?thesis unfolding gather_class_mem [OF assms(1)] using assms(2) class_trans class_type by blast
  next
    case 2
    then show ?thesis unfolding gather_prop_mem [OF assms(1)] using assms(2) prop_trans prop_data by blast
  next
    case 3
    then show ?thesis unfolding gather_domain_mem [OF assms(1)] using assms(2) domain by blast
  next
    case 4
    then show ?thesis unfolding gather_range_mem [OF assms(1)] using assms(2) range by blast
  qed
qed

lemma gather_closed:
  assumes inv: "store_inv st" and closed: "set (gather d st v) \<subseteq> triples st" and "T \<subseteq> triples st"
  shows "rdfs_closure d v T \<subseteq> triples st"
proof
  have g: "set (gather_class st v) \<subseteq> triples st" "set (gather_prop d st v) \<subseteq> triples st"
    "set (gather_domain d st v) \<subseteq> triples st" "set (gather_range d st v) \<subseteq> triples st"
    using closed by (auto simp: gather_def)
  fix t assume "t \<in> rdfs_closure d v T"
  then show "t \<in> triples st"
  proof (induction rule: rdfs_closure.induct)
    case (asserted t)
    then show ?case using assms(3) by blast
  next
    case (class_trans sc a b c)
    then have "IdTriple a sc c \<in> set (gather_class st v)" unfolding gather_class_mem [OF inv] by blast
    then show ?case using g by blast
  next
    case (class_type sc tp x a b)
    then have "IdTriple x tp b \<in> set (gather_class st v)" unfolding gather_class_mem [OF inv] by blast
    then show ?case using g by blast
  next
    case (prop_trans sp a b c)
    then have "IdTriple a sp c \<in> set (gather_prop d st v)" unfolding gather_prop_mem [OF inv] by blast
    then show ?case using g by blast
  next
    case (prop_data sp a b p q x y)
    then have "p = q \<or> IdTriple x q y \<in> set (gather_prop d st v)" unfolding gather_prop_mem [OF inv] by blast
    then show ?case using g prop_data.IH by blast
  next
    case (domain dm tp a c p x y)
    then have "IdTriple x tp c \<in> set (gather_domain d st v)" unfolding gather_domain_mem [OF inv] by blast
    then show ?case using g by blast
  next
    case (range rg tp a c p x y)
    then have "IdTriple y tp c \<in> set (gather_range d st v)" unfolding gather_range_mem [OF inv] by blast
    then show ?case using g by blast
  qed
qed

section \<open>The loop reaches the least fixpoint\<close>

lemma add_new_spec:
  assumes "store_inv st" and "add_new st ts = (st', added)"
  shows "store_inv st' \<and> triples st' = triples st \<union> set ts \<and> distinct added \<and> set added = set ts - triples st"
  using assms
proof (induction st ts arbitrary: st' added rule: add_new.induct)
  case (2 st t ts)
  obtain b st1 where i: "ts_insert st t = (b, st1)" by (cases "ts_insert st t")
  have st1: "store_inv st1" "triples st1 = insert t (triples st)" "b \<longleftrightarrow> t \<notin> triples st"
    using mem.ins_inv [OF "2.prems"(1), of t] mem.ins_content [OF "2.prems"(1), of t] mem.ins_new [OF "2.prems"(1), of t] i by auto
  obtain st2 a where r: "add_new st1 ts = (st2, a)" by (cases "add_new st1 ts")
  have "store_inv st2 \<and> triples st2 = triples st1 \<union> set ts \<and> distinct a \<and> set a = set ts - triples st1"
    using "2.IH" i r st1(1) by (cases b) auto
  then show ?case using "2.prems"(2) i r st1 by (cases b) auto
qed auto

lemma rdfs_loop_total:
  assumes "store_inv st" and "triples st \<subseteq> rdfs_closure d v T" and "T \<subseteq> triples st" and "distinct acc" and "set acc = triples st - T"
  shows "\<exists>st' acc'. rdfs_loop d v st acc = Some (st', acc') \<and> store_inv st' \<and> triples st' = rdfs_closure d v T \<and>
    distinct acc' \<and> set acc' = triples st' - T"
  using assms
proof (induction "card (UNIV - triples st)" arbitrary: st acc rule: less_induct)
  case less
  obtain st1 added where r: "add_new st (gather d st v) = (st1, added)" by (cases "add_new st (gather d st v)")
  note a = add_new_spec [OF less.prems(1) r]
  have sub: "triples st1 \<subseteq> rdfs_closure d v T" using a gather_sound [OF less.prems(1,2)] less.prems(2) by blast
  show ?case
  proof (cases "added = []")
    case True
    then have "set (gather d st v) \<subseteq> triples st" using a by auto
    then have "rdfs_closure d v T \<subseteq> triples st" by (rule gather_closed [OF less.prems(1) _ less.prems(3)])
    moreover have "rdfs_loop d v st acc = Some (st1, acc)" using r True by (subst rdfs_loop.simps) simp
    moreover have "triples st1 = triples st" using a True by auto
    ultimately show ?thesis using a sub less.prems(4,5) by auto
  next
    case False
    then have "triples st \<subset> triples st1" using a by (cases added) auto
    then have "UNIV - triples st1 \<subset> UNIV - triples st" by blast
    then have "card (UNIV - triples st1) < card (UNIV - triples st)"
      by (intro psubset_card_mono) simp_all
    moreover have "rdfs_loop d v st acc = rdfs_loop d v st1 (acc @ added)" using r False by (subst rdfs_loop.simps) simp
    moreover have "distinct (acc @ added)" "set (acc @ added) = triples st1 - T" using a less.prems(3-5) by auto
    ultimately show ?thesis using less.hyps [of st1 "acc @ added"] a sub less.prems(3) by auto
  qed
qed

lemma intern_predicates_spec:
  assumes "dict_inv d" and "length (backward (predicates d)) + length ks \<le> 2 ^ 32"
  shows "\<exists>d'. intern_predicates d ks = Some d' \<and> dict_inv d' \<and> dict_ext d d' \<and> entities d' = entities d \<and> literals d' = literals d \<and>
    length (backward (predicates d')) \<le> length (backward (predicates d)) + length ks"
  using assms
proof (induction ks arbitrary: d)
  case (Cons k ks)
  have "interner_inv (predicates d)" using Cons.prems(1) by (simp add: dict_inv_def)
  moreover have "length (backward (predicates d)) < 2 ^ 32" using Cons.prems(2) by simp
  ultimately obtain ix i' where
    i: "intern (predicates d) k = Some (ix, i')" "interner_inv i'" "length (backward i') \<le> Suc (length (backward (predicates d)))"
    "\<forall>jx u. resolve (predicates d) jx = Some u \<longrightarrow> resolve i' jx = Some u" by (rule intern_step [of _ k])
  have e: "intern_predicate d k = Some (ix, d\<lparr>predicates := i'\<rparr>)" by (simp add: intern_predicate_def i(1))
  have inv: "dict_inv (d\<lparr>predicates := i'\<rparr>)" using Cons.prems(1) i(2) by (simp add: dict_inv_def)
  have ext: "dict_ext d (d\<lparr>predicates := i'\<rparr>)" using i(4) by (simp add: dict_ext_def)
  have "length (backward (predicates (d\<lparr>predicates := i'\<rparr>))) + length ks \<le> 2 ^ 32" using Cons.prems(2) i(3) by simp
  from Cons.IH [OF inv this] show ?case using e dict_ext_trans [OF ext] i(3) by fastforce
qed simp

lemma intern_predicates_known:
  assumes "dict_inv d" and "length (backward (predicates d)) + length ks \<le> 2 ^ 32" and "intern_predicates d ks = Some d'" and "k \<in> set ks"
  shows "\<exists>ix. resolve (predicates d') ix = Some k"
  using assms
proof (induction ks arbitrary: d)
  case (Cons j ks)
  obtain ix d1 where i: "intern_predicate d j = Some (ix, d1)" "intern_predicates d1 ks = Some d'"
    using Cons.prems(3) by (auto split: option.splits prod.splits)
  then obtain i' where i': "intern (predicates d) j = Some (ix, i')" "d1 = d\<lparr>predicates := i'\<rparr>" by (auto simp: intern_predicate_def)
  have inv: "interner_inv (predicates d)" using Cons.prems(1) by (simp add: dict_inv_def)
  have d1: "dict_inv d1" using Cons.prems(1) intern_inv [OF inv i'(1)] by (simp add: i'(2) dict_inv_def)
  have room: "length (backward (predicates d1)) + length ks \<le> 2 ^ 32" using Cons.prems(2) intern_length [OF i'(1)] by (simp add: i'(2))
  have "resolve (predicates d1) ix = Some j" using interner.add_res [OF inv i'(1)] by (simp add: i'(2))
  moreover have "dict_ext d1 d'" using intern_predicates_spec [OF d1 room] i(2) by simp
  ultimately have "resolve (predicates d') ix = Some j" by (simp add: dict_ext_def)
  then show ?case using Cons.IH [OF d1 room i(2)] Cons.prems(4) by auto
qed simp

lemma intern_predicate_other:
  assumes "dict_inv d" and "intern_predicate d j = Some (ix, d')" and "k \<noteq> j"
  shows "predicate_id d' k = predicate_id d k"
proof -
  obtain i' where i: "intern (predicates d) j = Some (ix, i')" "d' = d\<lparr>predicates := i'\<rparr>" using assms(2) by (auto simp: intern_predicate_def)
  have "interner_inv (predicates d)" "backing d = None" using assms(1) by (simp_all add: dict_inv_def)
  then show ?thesis using interner.add_get [OF _ i(1)] assms(3) by (simp add: predicate_id_def i(2))
qed

lemma intern_predicates_other:
  assumes "dict_inv d" and "length (backward (predicates d)) + length ks \<le> 2 ^ 32" and "intern_predicates d ks = Some d'" and "k \<notin> set ks"
  shows "predicate_id d' k = predicate_id d k"
  using assms
proof (induction ks arbitrary: d)
  case (Cons j ks)
  obtain ix d1 where i: "intern_predicate d j = Some (ix, d1)" "intern_predicates d1 ks = Some d'"
    using Cons.prems(3) by (auto split: option.splits prod.splits)
  then obtain i' where i': "intern (predicates d) j = Some (ix, i')" "d1 = d\<lparr>predicates := i'\<rparr>" by (auto simp: intern_predicate_def)
  have inv: "interner_inv (predicates d)" using Cons.prems(1) by (simp add: dict_inv_def)
  have d1: "dict_inv d1" using Cons.prems(1) intern_inv [OF inv i'(1)] by (simp add: i'(2) dict_inv_def)
  have room: "length (backward (predicates d1)) + length ks \<le> 2 ^ 32" using Cons.prems(2) intern_length [OF i'(1)] by (simp add: i'(2))
  show ?case using Cons.IH [OF d1 room i(2)] intern_predicate_other [OF Cons.prems(1) i(1)] Cons.prems(4) by simp
qed simp

section \<open>Materialization\<close>

definition rdfs_vocab :: "Dictionary \<Rightarrow> Dictionary \<Rightarrow> Vocab" where
  "rdfs_vocab d d' = \<lparr>type_p = predicate_id d' (voc_key RDF_TYPE), sco_p = predicate_id d (voc_key RDFS_SUBCLASS),
     spo_p = predicate_id d (voc_key RDFS_SUBPROP), dom_p = predicate_id d (voc_key RDFS_DOMAIN), rng_p = predicate_id d (voc_key RDFS_RANGE)\<rparr>"

definition reason_room :: "Dictionary \<Rightarrow> TripleStore \<Rightarrow> bool" where
  "reason_room d st \<longleftrightarrow> length (backward (predicates d)) + 2 * card (triples st) + 1 \<le> 2 ^ 32"

lemma predicate_id_iff: "dict_inv d \<Longrightarrow> predicate_id d k = Some ix \<longleftrightarrow> resolve (predicates d) ix = Some k"
  using interner.get_res [of "predicates d"] by (simp add: predicate_id_def dict_inv_def)

lemma predicate_id_ext: "dict_inv d \<Longrightarrow> dict_inv d' \<Longrightarrow> dict_ext d d' \<Longrightarrow> predicate_id d k = Some ix \<Longrightarrow> predicate_id d' k = Some ix"
  by (simp add: predicate_id_iff dict_ext_def)

lemma id_to_string_ext:
  assumes "dict_inv d" and "dict_inv d'" and "dict_ext d d'" and "id_to_string d ix = Some k"
  shows "id_to_string d' ix = Some k"
  using assms by (auto simp: id_to_string_def dict_inv_def dict_ext_def split: if_splits)

lemma property_keys_length:
  assumes "store_inv st"
  shows "length (property_keys d st p) \<le> 2 * card (triples st)"
proof -
  have "length (so_by_p st p) = card {(s, ob). IdTriple s p ob \<in> triples st}"
    using mem.so_set [OF assms, of p] distinct_card [OF ascending_distinct [OF mem.so_asc [OF assms, of p]]] by simp
  also have "\<dots> \<le> card (triples st)"
    by (rule card_inj_on_le [of "\<lambda>(s, ob). IdTriple s p ob"]) (auto simp: inj_on_def)
  finally have le: "length (so_by_p st p) \<le> card (triples st)" .
  have two: "length (concat (map (\<lambda>(p, q). [p, q]) xs)) = 2 * length xs" for xs :: "(u32 \<times> u32) list"
    by (induction xs) auto
  have "length (List.map_filter f xs) \<le> length xs" for f :: "u32 \<Rightarrow> rstring option" and xs
    by (induction xs) (auto simp: List.map_filter_simps split: option.split)
  from this [of "id_to_string d" "concat (map (\<lambda>(p, q). [p, q]) (so_by_p st p))"] show ?thesis
    using le unfolding property_keys_def two by linarith
qed

lemma closure_no_type:
  assumes "sco_p v = None" and "dom_p v = None" and "rng_p v = None"
  shows "rdfs_closure d (v\<lparr>type_p := tp\<rparr>) T = rdfs_closure d v T"
proof -
  have "t \<in> rdfs_closure d v T \<Longrightarrow> t \<in> rdfs_closure d (v\<lparr>type_p := tp\<rparr>) T" for t
    by (induction rule: rdfs_closure.induct) (auto simp: assms intro: rdfs_closure.intros)
  moreover have "t \<in> rdfs_closure d (v\<lparr>type_p := tp\<rparr>) T \<Longrightarrow> t \<in> rdfs_closure d v T" for t
    by (induction rule: rdfs_closure.induct) (auto simp: assms intro: rdfs_closure.intros)
  ultimately show ?thesis by blast
qed

lemma closure_empty_vocab:
  assumes "sco_p v = None" and "spo_p v = None" and "dom_p v = None" and "rng_p v = None"
  shows "rdfs_closure d v T = T"
proof -
  have "t \<in> rdfs_closure d v T \<Longrightarrow> t \<in> T" for t
    by (induction rule: rdfs_closure.induct) (simp_all add: assms)
  then show ?thesis by (auto intro: asserted)
qed

text \<open>The dictionary after the vocabulary has been interned.\<close>

lemma intern_vocab:
  assumes inv: "dict_inv d" and st: "store_inv st" and room: "reason_room d st"
  obtains tp d1 d2 where
    "(if sco_p (rdfs_vocab d d) \<noteq> None \<or> dom_p (rdfs_vocab d d) \<noteq> None \<or> rng_p (rdfs_vocab d d) \<noteq> None
      then map_option (\<lambda>(ix, d1). (Some ix, d1)) (intern_predicate d (voc_key RDF_TYPE))
      else Some (predicate_id d (voc_key RDF_TYPE), d)) = Some (tp, d1)"
    "(case spo_p (rdfs_vocab d d) of None \<Rightarrow> Some d1 | Some p \<Rightarrow> intern_predicates d1 (property_keys d1 st p)) = Some d2"
    "dict_inv d2" "dict_ext d d2" "entities d2 = entities d" "literals d2 = literals d"
    "sco_p (rdfs_vocab d d) \<noteq> None \<or> dom_p (rdfs_vocab d d) \<noteq> None \<or> rng_p (rdfs_vocab d d) \<noteq> None \<longrightarrow> tp = predicate_id d2 (voc_key RDF_TYPE) \<and> tp \<noteq> None"
    "\<forall>p a b k. spo_p (rdfs_vocab d d) = Some p \<longrightarrow> IdTriple a p b \<in> triples st \<longrightarrow> k \<in> {a, b} \<longrightarrow> id_to_string d k \<noteq> None \<longrightarrow> ent_to_pred d2 k \<noteq> None"
    "length (backward (predicates d2)) \<le> length (backward (predicates d)) + 2 * card (triples st) + 1"
    "\<forall>k. k \<noteq> voc_key RDF_TYPE \<longrightarrow> (\<forall>ix. id_to_string d ix \<noteq> Some k) \<longrightarrow> predicate_id d2 k = predicate_id d k"
proof -
  let ?need = "sco_p (rdfs_vocab d d) \<noteq> None \<or> dom_p (rdfs_vocab d d) \<noteq> None \<or> rng_p (rdfs_vocab d d) \<noteq> None"
  have "interner_inv (predicates d)" using inv by (simp add: dict_inv_def)
  moreover have "length (backward (predicates d)) < 2 ^ 32" using room by (simp add: reason_room_def)
  ultimately obtain ix i' where
    i: "intern (predicates d) (voc_key RDF_TYPE) = Some (ix, i')" "interner_inv i'" "resolve i' ix = Some (voc_key RDF_TYPE)"
      "length (backward i') \<le> Suc (length (backward (predicates d)))" "\<forall>jx u. resolve (predicates d) jx = Some u \<longrightarrow> resolve i' jx = Some u"
    by (rule intern_step [of _ "voc_key RDF_TYPE"])
  define d1 where "d1 = (if ?need then d\<lparr>predicates := i'\<rparr> else d)"
  define tp where "tp = (if ?need then Some ix else predicate_id d (voc_key RDF_TYPE))"
  have d1: "dict_inv d1" "dict_ext d d1" "entities d1 = entities d" "literals d1 = literals d"
    "length (backward (predicates d1)) \<le> Suc (length (backward (predicates d)))"
    using inv i(2,4,5) by (simp_all add: d1_def dict_inv_def dict_ext_def)
  have len: "length (backward (predicates d1)) + length (property_keys d1 st p) \<le> 2 ^ 32" for p
    using d1(5) property_keys_length [OF st, of d1 p] room by (simp add: reason_room_def)
  then have "\<exists>d2. (case spo_p (rdfs_vocab d d) of None \<Rightarrow> Some d1 | Some p \<Rightarrow> intern_predicates d1 (property_keys d1 st p)) = Some d2 \<and>
      dict_inv d2 \<and> dict_ext d1 d2 \<and> entities d2 = entities d1 \<and> literals d2 = literals d1 \<and>
      length (backward (predicates d2)) \<le> length (backward (predicates d)) + 2 * card (triples st) + 1"
  proof (cases "spo_p (rdfs_vocab d d)")
    case None
    then show ?thesis using d1(1,5) by simp
  next
    case (Some p)
    then show ?thesis using intern_predicates_spec [OF d1(1) len [of p]] d1(5) property_keys_length [OF st, of d1 p] by fastforce
  qed
  then obtain d2 where d2: "(case spo_p (rdfs_vocab d d) of None \<Rightarrow> Some d1 | Some p \<Rightarrow> intern_predicates d1 (property_keys d1 st p)) = Some d2"
      "dict_inv d2" "dict_ext d1 d2" "entities d2 = entities d1" "literals d2 = literals d1"
      "length (backward (predicates d2)) \<le> length (backward (predicates d)) + 2 * card (triples st) + 1" by blast
  have same: "id_to_string d2 = id_to_string d" "id_to_string d1 = id_to_string d"
    using d1(1,3,4) d2(2,4,5) inv by (auto simp: id_to_string_def dict_inv_def fun_eq_iff)
  have "ent_to_pred d2 k \<noteq> None" if v: "spo_p (rdfs_vocab d d) = Some p" "IdTriple a p b \<in> triples st" "k \<in> {a, b}" "id_to_string d k = Some u" for p a b k u
  proof -
    have "(a, b) \<in> set (so_by_p st p)" using v(2) by (simp add: so_mem [OF st])
    then have "k \<in> set (concat (map (\<lambda>(p, q). [p, q]) (so_by_p st p)))" using v(3) by force
    then have "u \<in> set (property_keys d1 st p)" using v(4) same by (force simp: property_keys_def set_map_filter)
    moreover have "intern_predicates d1 (property_keys d1 st p) = Some d2" using d2(1) v(1) by simp
    ultimately obtain ix where "resolve (predicates d2) ix = Some u" using intern_predicates_known [OF d1(1) len] by blast
    then have "predicate_id d2 u = Some ix" using predicate_id_iff [OF d2(2)] by blast
    then show ?thesis using v(4) by (simp add: ent_to_pred_def same)
  qed
  then have total: "\<forall>p a b k. spo_p (rdfs_vocab d d) = Some p \<longrightarrow> IdTriple a p b \<in> triples st \<longrightarrow> k \<in> {a, b} \<longrightarrow> id_to_string d k \<noteq> None \<longrightarrow> ent_to_pred d2 k \<noteq> None"
    by blast
  have keep: "predicate_id d2 k = predicate_id d k" if k: "k \<noteq> voc_key RDF_TYPE" "\<forall>ix. id_to_string d ix \<noteq> Some k" for k
  proof -
    have "predicate_id d1 k = predicate_id d k"
      using intern_predicate_other [OF inv, of "voc_key RDF_TYPE" ix "d\<lparr>predicates := i'\<rparr>" k] k(1) i(1) by (simp add: d1_def intern_predicate_def)
    moreover have "k \<notin> set (property_keys d1 st p)" for p using k(2) same by (auto simp: property_keys_def set_map_filter)
    then have "predicate_id d2 k = predicate_id d1 k"
      using d2(1) intern_predicates_other [OF d1(1) len] by (cases "spo_p (rdfs_vocab d d)") auto
    ultimately show ?thesis by simp
  qed
  show thesis
  proof (rule that [of tp d1 d2])
    show "\<forall>k. k \<noteq> voc_key RDF_TYPE \<longrightarrow> (\<forall>ix. id_to_string d ix \<noteq> Some k) \<longrightarrow> predicate_id d2 k = predicate_id d k" using keep by blast
    show "(if ?need then map_option (\<lambda>(ix, d1). (Some ix, d1)) (intern_predicate d (voc_key RDF_TYPE))
      else Some (predicate_id d (voc_key RDF_TYPE), d)) = Some (tp, d1)"
      by (simp add: tp_def d1_def intern_predicate_def i(1))
    show "?need \<longrightarrow> tp = predicate_id d2 (voc_key RDF_TYPE) \<and> tp \<noteq> None"
      using predicate_id_ext [OF d1(1) d2(2,3), of "voc_key RDF_TYPE" ix] predicate_id_iff [OF d1(1)] i(3) by (simp add: tp_def d1_def)
    show "entities d2 = entities d" "literals d2 = literals d" using d1(3,4) d2(4,5) by simp_all
    show "dict_ext d d2" by (rule dict_ext_trans [OF d1(2) d2(3)])
  qed (fact d2 total)+
qed

lemma materialize_full:
  assumes "dict_inv d" and "store_inv st" and "reason_room d st"
  shows "\<exists>added d' st'. materialize d st = Some (added, d', st') \<and> dict_inv d' \<and> dict_ext d d' \<and> store_inv st' \<and>
    triples st' = rdfs_closure d' (rdfs_vocab d d') (triples st) \<and> distinct added \<and> set added = triples st' - triples st \<and>
    (\<forall>p a b k. spo_p (rdfs_vocab d d) = Some p \<longrightarrow> IdTriple a p b \<in> triples st \<longrightarrow> k \<in> {a, b} \<longrightarrow> id_to_string d k \<noteq> None \<longrightarrow> ent_to_pred d' k \<noteq> None) \<and>
    (sco_p (rdfs_vocab d d) \<noteq> None \<or> dom_p (rdfs_vocab d d) \<noteq> None \<or> rng_p (rdfs_vocab d d) \<noteq> None \<longrightarrow> type_p (rdfs_vocab d d') \<noteq> None) \<and>
    length (backward (predicates d')) \<le> length (backward (predicates d)) + 2 * card (triples st) + 1 \<and>
    entities d' = entities d \<and> literals d' = literals d \<and>
    (\<forall>k. k \<noteq> voc_key RDF_TYPE \<longrightarrow> (\<forall>ix. id_to_string d ix \<noteq> Some k) \<longrightarrow> predicate_id d' k = predicate_id d k)"
proof -
  let ?v = "rdfs_vocab d d"
  note voc = rdfs_vocab_def
  show ?thesis
  proof (cases "sco_p ?v = None \<and> spo_p ?v = None \<and> dom_p ?v = None \<and> rng_p ?v = None")
    case True
    then have "materialize d st = Some ([], d, st)" by (simp add: materialize_def voc)
    then show ?thesis using closure_empty_vocab [of ?v d "triples st"] True assms(1,2) by simp
  next
    case False
    obtain tp d1 d2 where v:
      "(if sco_p ?v \<noteq> None \<or> dom_p ?v \<noteq> None \<or> rng_p ?v \<noteq> None
        then map_option (\<lambda>(ix, d1). (Some ix, d1)) (intern_predicate d (voc_key RDF_TYPE))
        else Some (predicate_id d (voc_key RDF_TYPE), d)) = Some (tp, d1)"
      "(case spo_p ?v of None \<Rightarrow> Some d1 | Some p \<Rightarrow> intern_predicates d1 (property_keys d1 st p)) = Some d2"
      "dict_inv d2" "dict_ext d d2" "entities d2 = entities d" "literals d2 = literals d"
      "sco_p ?v \<noteq> None \<or> dom_p ?v \<noteq> None \<or> rng_p ?v \<noteq> None \<longrightarrow> tp = predicate_id d2 (voc_key RDF_TYPE) \<and> tp \<noteq> None"
      "\<forall>p a b k. spo_p ?v = Some p \<longrightarrow> IdTriple a p b \<in> triples st \<longrightarrow> k \<in> {a, b} \<longrightarrow> id_to_string d k \<noteq> None \<longrightarrow> ent_to_pred d2 k \<noteq> None"
      "length (backward (predicates d2)) \<le> length (backward (predicates d)) + 2 * card (triples st) + 1"
      "\<forall>k. k \<noteq> voc_key RDF_TYPE \<longrightarrow> (\<forall>ix. id_to_string d ix \<noteq> Some k) \<longrightarrow> predicate_id d2 k = predicate_id d k"
      by (rule intern_vocab [OF assms])
    have cl: "rdfs_closure d2 (?v\<lparr>type_p := tp\<rparr>) T = rdfs_closure d2 (rdfs_vocab d d2) T" for T
    proof (cases "sco_p ?v \<noteq> None \<or> dom_p ?v \<noteq> None \<or> rng_p ?v \<noteq> None")
      case True
      then show ?thesis using v(7) by (simp add: voc)
    next
      case False
      then show ?thesis using closure_no_type [of "rdfs_vocab d d2" d2 tp T] by (simp add: voc)
    qed
    have "triples st \<subseteq> rdfs_closure d2 (?v\<lparr>type_p := tp\<rparr>) (triples st)" by (auto intro: asserted)
    from rdfs_loop_total [OF assms(2) this order_refl, of "[]"] obtain st' added where
      l: "rdfs_loop d2 (?v\<lparr>type_p := tp\<rparr>) st [] = Some (st', added)" "store_inv st'"
        "triples st' = rdfs_closure d2 (?v\<lparr>type_p := tp\<rparr>) (triples st)" "distinct added" "set added = triples st' - triples st" by auto
    have "materialize d st = Some (added, d2, st')"
      using False v(1,2) l(1) unfolding materialize_def Let_def by (auto simp: voc)
    moreover have "sco_p ?v \<noteq> None \<or> dom_p ?v \<noteq> None \<or> rng_p ?v \<noteq> None \<longrightarrow> type_p (rdfs_vocab d d2) \<noteq> None"
      using v(7) by (auto simp: voc)
    ultimately show ?thesis using l(2-5) v(3-6,8-10) cl by blast
  qed
qed

lemma materialize_spec:
  assumes "dict_inv d" and "store_inv st" and "reason_room d st"
  shows "\<exists>added d' st'. materialize d st = Some (added, d', st') \<and> dict_inv d' \<and> dict_ext d d' \<and> store_inv st' \<and>
    triples st' = rdfs_closure d' (rdfs_vocab d d') (triples st) \<and> distinct added \<and> set added = triples st' - triples st \<and>
    (\<forall>p a b k. spo_p (rdfs_vocab d d) = Some p \<longrightarrow> IdTriple a p b \<in> triples st \<longrightarrow> k \<in> {a, b} \<longrightarrow> id_to_string d k \<noteq> None \<longrightarrow> ent_to_pred d' k \<noteq> None) \<and>
    (sco_p (rdfs_vocab d d) \<noteq> None \<or> dom_p (rdfs_vocab d d) \<noteq> None \<or> rng_p (rdfs_vocab d d) \<noteq> None \<longrightarrow> type_p (rdfs_vocab d d') \<noteq> None) \<and>
    length (backward (predicates d')) \<le> length (backward (predicates d)) + 2 * card (triples st) + 1"
  using materialize_full [OF assms] by (elim exE conjE) (intro exI conjI; assumption)

section \<open>The rules of the table\<close>

text \<open>The terms of the schema vocabulary are not themselves entities of the data.\<close>

definition plain_schema :: "Dictionary \<Rightarrow> bool" where
  "plain_schema d \<longleftrightarrow> (\<forall>ix. \<forall>iri \<in> {RDFS_SUBCLASS, RDFS_SUBPROP, RDFS_DOMAIN, RDFS_RANGE}. id_to_string d ix \<noteq> Some (voc_key iri))"

text \<open>What the table derives and \<open>gather\<close> does not: a class below itself, a property below itself.\<close>

definition trivial_loop :: "Vocab \<Rightarrow> IdTriple \<Rightarrow> bool" where
  "trivial_loop v t \<longleftrightarrow> sub t = obj t \<and> (sco_p v = Some (pred t) \<or> spo_p v = Some (pred t))"

lemma closure_in_table:
  assumes "dict_inv d" and "dict_inv d'" and "dict_ext d d'"
  shows "rdfs_closure d' (rdfs_vocab d d') T \<subseteq> rdfs_table d' (rdfs_vocab d' d') T"
proof
  note up = predicate_id_ext [OF assms]
  have v: "sco_p (rdfs_vocab d d') = Some x \<Longrightarrow> sco_p (rdfs_vocab d' d') = Some x" "spo_p (rdfs_vocab d d') = Some x \<Longrightarrow> spo_p (rdfs_vocab d' d') = Some x"
    "dom_p (rdfs_vocab d d') = Some x \<Longrightarrow> dom_p (rdfs_vocab d' d') = Some x" "rng_p (rdfs_vocab d d') = Some x \<Longrightarrow> rng_p (rdfs_vocab d' d') = Some x"
    "type_p (rdfs_vocab d d') = Some x \<Longrightarrow> type_p (rdfs_vocab d' d') = Some x" for x
    by (simp_all add: rdfs_vocab_def up)
  fix t assume "t \<in> rdfs_closure d' (rdfs_vocab d d') T"
  then show "t \<in> rdfs_table d' (rdfs_vocab d' d') T"
    by (induction rule: rdfs_closure.induct) (blast intro: rdfs_table.intros v)+
qed

lemma voc_distinct: "distinct [voc_key RDF_TYPE, voc_key RDFS_SUBCLASS, voc_key RDFS_SUBPROP, voc_key RDFS_DOMAIN, voc_key RDFS_RANGE]"
  by (simp add: voc_key_def dict_key_def RDF_TYPE_def RDFS_SUBCLASS_def RDFS_SUBPROP_def RDFS_DOMAIN_def RDFS_RANGE_def)

lemma schema_vocab:
  assumes "plain_schema d" and "\<forall>k. k \<noteq> voc_key RDF_TYPE \<longrightarrow> (\<forall>ix. id_to_string d ix \<noteq> Some k) \<longrightarrow> predicate_id d' k = predicate_id d k"
  shows "rdfs_vocab d' d' = rdfs_vocab d d'"
proof -
  have ne: "voc_key iri \<noteq> voc_key RDF_TYPE" if "iri \<in> {RDFS_SUBCLASS, RDFS_SUBPROP, RDFS_DOMAIN, RDFS_RANGE}" for iri
    using that voc_distinct by auto
  have same: "predicate_id d' (voc_key iri) = predicate_id d (voc_key iri)" if iri: "iri \<in> {RDFS_SUBCLASS, RDFS_SUBPROP, RDFS_DOMAIN, RDFS_RANGE}" for iri
  proof -
    have "\<forall>ix. id_to_string d ix \<noteq> Some (voc_key iri)" using assms(1) iri unfolding plain_schema_def by blast
    then show ?thesis using assms(2) [rule_format, OF ne [OF iri]] by simp
  qed
  show ?thesis unfolding rdfs_vocab_def by (simp only: same [OF insertI1] same [OF insertI2 [OF insertI1]] same [OF insertI2 [OF insertI2 [OF insertI1]]]
    same [OF insertI2 [OF insertI2 [OF insertI2 [OF insertI1]]]])
qed

lemma table_in_closure:
  assumes inv: "dict_inv d" and plain: "plain_schema d" and v: "v = rdfs_vocab d d" and t: "t \<in> rdfs_table d v T"
  shows "t \<in> rdfs_closure d v T \<or> trivial_loop v t"
proof -
  have id: "predicate_id d (voc_key i) = Some x \<longleftrightarrow> resolve (predicates d) x = Some (voc_key i)" for i x by (rule predicate_id_iff [OF inv])
  have other: "\<not> trivial_loop v (IdTriple a q b)" if "type_p v = Some q \<or> dom_p v = Some q \<or> rng_p v = Some q" for a b q
    using that voc_distinct by (auto simp: trivial_loop_def v rdfs_vocab_def id)
  have data: "\<not> trivial_loop v (IdTriple x q y)" if e: "ent_to_pred d a = Some q" for a q x y
  proof
    assume "trivial_loop v (IdTriple x q y)"
    then obtain iri where iri: "iri \<in> {RDFS_SUBCLASS, RDFS_SUBPROP}" "resolve (predicates d) q = Some (voc_key iri)"
      by (auto simp: trivial_loop_def v rdfs_vocab_def id)
    obtain k where k: "id_to_string d a = Some k" "predicate_id d k = Some q" using e unfolding ent_to_pred_def by (cases "id_to_string d a") auto
    then have "resolve (predicates d) q = Some k" by (simp add: predicate_id_iff [OF inv])
    then have "k = voc_key iri" using iri(2) by simp
    then show False using k(1) plain iri(1) unfolding plain_schema_def by blast
  qed
  show ?thesis using t
  proof (induction rule: rdfs_table.induct)
    case (table_asserted t)
    then show ?case by (blast intro: asserted)
  next
    case (table_class_trans sc a b c)
    then show ?case by (cases "a = c") (auto simp: trivial_loop_def intro: class_trans)
  next
    case (table_class_type sc tp x a b)
    then have "IdTriple x tp a \<in> rdfs_closure d v T" using other by blast
    then show ?case using table_class_type by (auto simp: trivial_loop_def intro: class_type)
  next
    case (table_prop_trans sp a b c)
    then show ?case by (cases "a = c") (auto simp: trivial_loop_def intro: prop_trans)
  next
    case (table_prop_data sp a b p q x y)
    then have "IdTriple x p y \<in> rdfs_closure d v T" using data by blast
    then show ?case using table_prop_data by (auto simp: trivial_loop_def intro: prop_data)
  next
    case (table_domain dm tp a c p x y)
    then show ?case using other data by (blast intro: domain)
  next
    case (table_range rg tp a c p x y)
    then show ?case using other data by (blast intro: range)
  qed
qed

text \<open>C15. Materialization computes the RDFS closure: on every consistent store and dictionary with room for the vocabulary it returns.
  The store then holds exactly the least set of triples that contains the original ones and is closed under the rules as \<open>gather\<close> applies
  them, with the schema vocabulary looked up in the dictionary before the run and no transitivity conclusion of a class or property
  below itself; the reported list is the inferred triples, each once. Measured by the module's table with the vocabulary of the
  resulting dictionary, every stored triple is entailed; and unless a term of the schema vocabulary is itself an entity of the data,
  the table entails nothing else but such trivial loops. Every property named in a \<open>subPropertyOf\<close> statement has a predicate id,
  and at most two predicate ids per triple and the one of \<open>rdf:type\<close> are new.\<close>

theorem materialize_exact:
  assumes "dict_inv d" and "store_inv st" and "reason_room d st"
  shows "\<exists>added d' st'. materialize d st = Some (added, d', st') \<and> dict_inv d' \<and> dict_ext d d' \<and> store_inv st' \<and>
    triples st' = rdfs_closure d' (rdfs_vocab d d') (triples st) \<and> distinct added \<and> set added = triples st' - triples st \<and>
    triples st' \<subseteq> rdfs_table d' (rdfs_vocab d' d') (triples st) \<and>
    (plain_schema d \<longrightarrow> (\<forall>t \<in> rdfs_table d' (rdfs_vocab d' d') (triples st). t \<in> triples st' \<or> trivial_loop (rdfs_vocab d' d') t)) \<and>
    (\<forall>p a b k. spo_p (rdfs_vocab d d) = Some p \<longrightarrow> IdTriple a p b \<in> triples st \<longrightarrow> k \<in> {a, b} \<longrightarrow> id_to_string d k \<noteq> None \<longrightarrow> ent_to_pred d' k \<noteq> None) \<and>
    length (backward (predicates d')) \<le> length (backward (predicates d)) + 2 * card (triples st) + 1"
proof -
  from materialize_full [OF assms] obtain added d' st' where
    m: "materialize d st = Some (added, d', st')" "dict_inv d'" "dict_ext d d'" "store_inv st'"
      "triples st' = rdfs_closure d' (rdfs_vocab d d') (triples st)" "distinct added" "set added = triples st' - triples st"
      "\<forall>p a b k. spo_p (rdfs_vocab d d) = Some p \<longrightarrow> IdTriple a p b \<in> triples st \<longrightarrow> k \<in> {a, b} \<longrightarrow> id_to_string d k \<noteq> None \<longrightarrow> ent_to_pred d' k \<noteq> None"
      "length (backward (predicates d')) \<le> length (backward (predicates d)) + 2 * card (triples st) + 1"
      "entities d' = entities d" "literals d' = literals d"
      "\<forall>k. k \<noteq> voc_key RDF_TYPE \<longrightarrow> (\<forall>ix. id_to_string d ix \<noteq> Some k) \<longrightarrow> predicate_id d' k = predicate_id d k"
    by (elim exE conjE)
  have complete: "t \<in> triples st' \<or> trivial_loop (rdfs_vocab d' d') t"
    if plain: "plain_schema d" and t: "t \<in> rdfs_table d' (rdfs_vocab d' d') (triples st)" for t
  proof -
    have "id_to_string d' = id_to_string d" using m(2,10,11) assms(1) by (auto simp: id_to_string_def dict_inv_def fun_eq_iff)
    then have "plain_schema d'" using plain by (simp add: plain_schema_def)
    from table_in_closure [OF m(2) this refl t] show ?thesis using schema_vocab [OF plain m(12)] by (simp add: m(5))
  qed
  have "triples st' \<subseteq> rdfs_table d' (rdfs_vocab d' d') (triples st)" unfolding m(5) by (rule closure_in_table [OF assms(1) m(2,3)])
  then show ?thesis using m(1-9) complete by (intro exI [of _ added] exI [of _ d'] exI [of _ st'] conjI impI ballI) assumption+
qed

section \<open>Inferred triples name known terms\<close>

definition node_known :: "Dictionary \<Rightarrow> u32 \<Rightarrow> bool" where
  "node_known d ix \<longleftrightarrow> resolve (entities d) ix \<noteq> None \<or> (\<exists>jx. resolve (literals d) jx \<noteq> None \<and> ix = jx + LITERAL_FIRST_ID)"

lemma known_nodes: "known d i \<longleftrightarrow> resolve (entities d) (sub i) \<noteq> None \<and> resolve (predicates d) (pred i) \<noteq> None \<and> node_known d (obj i)"
  by (simp add: known_def node_known_def)

lemma closure_nodes:
  assumes inv: "dict_inv d" "dict_inv d'" and ext: "dict_ext d d'" and T: "\<forall>i \<in> T. known d' i" and t: "t \<in> rdfs_closure d' (rdfs_vocab d d') T"
  shows "node_known d' (sub t) \<and> resolve (predicates d') (pred t) \<noteq> None \<and> node_known d' (obj t)"
proof -
  have voc: "resolve (predicates d') x \<noteq> None" if "predicate_id d' k = Some x" for k x
    using that by (simp add: predicate_id_iff [OF inv(2)])
  have tp: "resolve (predicates d') x \<noteq> None" if "type_p (rdfs_vocab d d') = Some x" for x
    using that voc by (simp add: rdfs_vocab_def)
  have ent: "resolve (predicates d') q \<noteq> None" if "ent_to_pred d' a = Some q" for a q
    using that voc unfolding ent_to_pred_def by (cases "id_to_string d' a") auto
  show ?thesis using t
  proof (induction rule: rdfs_closure.induct)
    case (asserted t)
    then show ?case using T by (auto simp: known_nodes node_known_def)
  next
    case (prop_data sp a b p q x y)
    then show ?case using ent by simp
  next
    case (domain dm tp a c p x y)
    then show ?case using tp by simp
  next
    case (range rg tp a c p x y)
    then show ?case using tp by simp
  qed simp_all
qed

text \<open>An id below the literal range that names a term names an entity.\<close>

lemma entity_node: "dict_in_range d \<Longrightarrow> node_known d ix \<Longrightarrow> is_entity_id ix \<Longrightarrow> resolve (entities d) ix \<noteq> None"
proof -
  assume r: "dict_in_range d" and n: "node_known d ix" and e: "is_entity_id ix"
  have "\<not> is_entity_id (jx + LITERAL_FIRST_ID)" if "resolve (literals d) jx = Some s" for jx s
  proof -
    have "unat jx < 2294967295" using resolve_Some_lt [OF that] r by (simp add: dict_in_range_def)
    then have "unat (jx + LITERAL_FIRST_ID) = unat jx + 2000000000" by (simp add: LITERAL_FIRST_ID_def unat_add_lem [THEN iffD1])
    then show ?thesis by (simp add: is_entity_id_def LITERAL_FIRST_ID_def word_less_nat_alt)
  qed
  then show ?thesis using n e by (auto simp: node_known_def)
qed

lemma materialize_rdfs_spec:
  assumes inv: "dict_inv (dict db)" "dict_in_range (dict db)" "store_inv (store db)" and kn: "\<forall>i \<in> triples (store db). known (dict db) i"
    and room: "reason_room (dict db) (store db)" and m: "materialize_rdfs db = Some (n, db')" and ent: "\<forall>i \<in> triples (store db'). is_entity_id (sub i)"
  obtains added where "dict_inv (dict db')" "dict_ext (dict db) (dict db')" "entities (dict db') = entities (dict db)" "literals (dict db') = literals (dict db)"
    "store_inv (store db')" "set added = triples (store db') - triples (store db)" "triples (store db) \<subseteq> triples (store db')"
    "\<forall>i \<in> triples (store db'). known (dict db') i" "named db' = named db" "txn db' = map_option (\<lambda>log. log @ map (Del None) added) (txn db)"
    "redo_file db' = redo_file db" "index_valid db' \<longrightarrow> index_valid db \<and> added = [] \<and> vstree db' = vstree db"
proof -
  from materialize_full [OF inv(1,3) room] obtain added d' st' where
    r: "materialize (dict db) (store db) = Some (added, d', st')" "dict_inv d'" "dict_ext (dict db) d'" "store_inv st'"
      "triples st' = rdfs_closure d' (rdfs_vocab (dict db) d') (triples (store db))" "set added = triples st' - triples (store db)"
      "entities d' = entities (dict db)" "literals d' = literals (dict db)"
    by (elim exE conjE)
  let ?e = "db\<lparr>dict := d', store := st'\<rparr>"
  have db': "db' = (if added \<noteq> [] then push_undo (map (Del None) added) (clear_cache (?e\<lparr>index_valid := False\<rparr>)) else ?e)"
    using m r(1) by (simp add: materialize_rdfs_def Let_def)
  have f: "dict db' = d'" "store db' = st'" "named db' = named db" "redo_file db' = redo_file db" by (simp_all add: db')
  have range: "dict_in_range d'" using inv(2) r(7,8) by (simp add: dict_in_range_def)
  have kn': "\<forall>i \<in> triples (store db). known d' i" using kn known_ext [OF r(3)] by blast
  have all: "known d' i" if i: "i \<in> triples st'" for i
  proof -
    have "node_known d' (sub i) \<and> resolve (predicates d') (pred i) \<noteq> None \<and> node_known d' (obj i)"
      by (rule closure_nodes [OF inv(1) r(2,3) kn' i [unfolded r(5)]])
    then show ?thesis unfolding known_nodes using entity_node [OF range] ent i f(2) by blast
  qed
  have mono: "triples (store db) \<subseteq> triples st'" unfolding r(5) by (auto intro: asserted)
  have t: "txn db' = map_option (\<lambda>log. log @ map (Del None) added) (txn db)" by (simp add: db' option.map_ident)
  have "index_valid db' \<longrightarrow> index_valid db \<and> added = [] \<and> vstree db' = vstree db" by (simp add: db' split: if_splits)
  then show thesis using that [of added] r f all mono t by simp
qed

section \<open>Examples\<close>

text \<open>An interner filled from empty with distinct strings.\<close>

definition dense :: "rstring list \<Rightarrow> Interner" where
  "dense ks = \<lparr>forward = zip ks (map word_of_nat [0..<length ks]), backward = map Some ks, free = []\<rparr>"

lemma dense_resolve: "resolve (dense ks) ix = (if unat ix < length ks then Some (ks ! unat ix) else None)"
  by (simp add: resolve_def dense_def)

lemma dense_inv:
  assumes "distinct ks" and "length ks < 2 ^ 32"
  shows "interner_inv (dense ks)"
proof -
  have "map_of (forward (dense ks)) k = Some ix \<longleftrightarrow> resolve (dense ks) ix = Some k" for k ix
  proof -
    have "map_of (zip ks (map word_of_nat [0..<length ks])) k = Some ix \<longleftrightarrow> (\<exists>n < length ks. ks ! n = k \<and> word_of_nat n = ix)"
      using assms(1) by (subst map_of_eq_Some_iff) (auto simp: in_set_zip)
    also have "\<dots> \<longleftrightarrow> unat ix < length ks \<and> ks ! unat ix = k"
    proof
      assume "\<exists>n < length ks. ks ! n = k \<and> word_of_nat n = ix"
      then obtain n where n: "n < length ks" "ks ! n = k" "word_of_nat n = ix" by blast
      then have "unat ix = n" using assms(2) by (auto simp: unat_of_nat take_bit_nat_eq_self)
      then show "unat ix < length ks \<and> ks ! unat ix = k" using n by simp
    next
      assume "unat ix < length ks \<and> ks ! unat ix = k"
      then show "\<exists>n < length ks. ks ! n = k \<and> word_of_nat n = ix" by (intro exI [of _ "unat ix"]) simp
    qed
    finally show ?thesis by (simp add: dense_resolve) (simp add: dense_def)
  qed
  moreover have "distinct (map fst (zip ks (map (word_of_nat :: nat \<Rightarrow> u32) [0..<length ks])))" using assms(1) by simp
  ultimately show ?thesis using assms(2) by (simp add: interner_inv_def) (simp add: dense_def)
qed

definition dense_dict :: "rstring list \<Rightarrow> rstring list \<Rightarrow> rstring list \<Rightarrow> Dictionary" where
  "dense_dict es ls ps = \<lparr>entities = dense es, literals = dense ls, predicates = dense ps, backing = None\<rparr>"

lemma dense_dict_inv:
  assumes "distinct es" "distinct ls" "distinct ps" "length es < 2 ^ 32" "length ls < 2 ^ 32" "length ps < 2 ^ 32"
  shows "dict_inv (dense_dict es ls ps)"
  using assms by (simp add: dict_inv_def dense_dict_def dense_inv)

lemma ins_list_spec: "store_inv (fold (\<lambda>t st. snd (ts_insert st t)) ts ts_new)" "triples (fold (\<lambda>t st. snd (ts_insert st t)) ts ts_new) = set ts"
  using mem.ins_all_content [OF mem.empty_inv, of ts] by (simp_all add: mem.empty_content)

lemma voc_keys:
  "distinct [voc_key RDF_TYPE, voc_key RDFS_SUBCLASS, voc_key RDFS_SUBPROP, voc_key RDFS_DOMAIN, voc_key RDFS_RANGE, lit ''<m>'', lit ''<A>'', lit ''<B>'', lit ''<x>'']"
  by (simp add: voc_key_def dict_key_def RDF_TYPE_def RDFS_SUBCLASS_def RDFS_SUBPROP_def RDFS_DOMAIN_def RDFS_RANGE_def)

lemma dense_predicate:
  assumes "dict_inv (dense_dict es ls ps)" and "n < length ps" and "length ps < 2 ^ 32"
  shows "predicate_id (dense_dict es ls ps) (ps ! n) = Some (word_of_nat n)"
  using assms(2,3) unfolding predicate_id_iff [OF assms(1)] by (simp add: dense_dict_def dense_resolve unat_of_nat take_bit_nat_eq_self)

lemma dense_no_predicate:
  assumes "dict_inv (dense_dict es ls ps)" and "k \<notin> set ps"
  shows "predicate_id (dense_dict es ls ps) k = None"
proof (cases "predicate_id (dense_dict es ls ps) k")
  case (Some ix)
  then show ?thesis using assms(2) unfolding predicate_id_iff [OF assms(1)] by (auto simp: dense_dict_def dense_resolve split: if_splits)
qed

text \<open>\<open><A>\<close> is a subclass of \<open><B>\<close>, which is a subclass of \<open><x>\<close>.\<close>

definition chain_dict :: Dictionary where
  "chain_dict = dense_dict [lit ''<A>'', lit ''<B>'', lit ''<x>''] [] [voc_key RDFS_SUBCLASS]"

definition chain_store :: TripleStore where
  "chain_store = fold (\<lambda>t st. snd (ts_insert st t)) [IdTriple 0 0 1, IdTriple 1 0 2] ts_new"

theorem materialize_exact_witness:
  "\<exists>added d' st'. materialize chain_dict chain_store = Some (added, d', st') \<and> IdTriple 0 0 2 \<in> set added"
proof -
  have inv: "dict_inv chain_dict" unfolding chain_dict_def by (rule dense_dict_inv) (use voc_keys in auto)
  have st: "store_inv chain_store" "triples chain_store = {IdTriple 0 0 1, IdTriple 1 0 2}"
    unfolding chain_store_def using ins_list_spec [of "[IdTriple 0 0 1, IdTriple 1 0 2]"] by simp_all
  have room: "reason_room chain_dict chain_store" by (simp add: reason_room_def st(2) chain_dict_def dense_dict_def dense_def card_insert_if)
  have sco: "predicate_id chain_dict (voc_key RDFS_SUBCLASS) = Some 0"
    using dense_predicate [OF inv [unfolded chain_dict_def], of 0] by (simp add: chain_dict_def)
  obtain added d' st' where m: "materialize chain_dict chain_store = Some (added, d', st')"
    "triples st' = rdfs_closure d' (rdfs_vocab chain_dict d') (triples chain_store)" "set added = triples st' - triples chain_store"
    using materialize_exact [OF inv st(1) room] by (elim exE conjE)
  have "IdTriple 0 0 2 \<in> rdfs_closure d' (rdfs_vocab chain_dict d') (triples chain_store)"
    by (rule class_trans [where b = 1]) (simp_all add: rdfs_vocab_def sco st(2) asserted)
  then show ?thesis using m st(2) by auto
qed

text \<open>\<open><m>\<close> is a subproperty of \<open>rdfs:subClassOf\<close>, \<open><A> <m> <B>\<close>, and \<open><x>\<close> is an \<open><A>\<close>.\<close>

definition meta_dict :: Dictionary where
  "meta_dict = dense_dict [lit ''<m>'', voc_key RDFS_SUBCLASS, lit ''<A>'', lit ''<B>'', lit ''<x>''] []
     [lit ''<m>'', voc_key RDFS_SUBPROP, voc_key RDF_TYPE]"

definition meta_store :: TripleStore where
  "meta_store = fold (\<lambda>t st. snd (ts_insert st t)) [IdTriple 0 1 1, IdTriple 2 0 3, IdTriple 4 2 2] ts_new"

lemma meta_facts:
  "dict_inv meta_dict" "store_inv meta_store" "triples meta_store = {IdTriple 0 1 1, IdTriple 2 0 3, IdTriple 4 2 2}"
  "predicate_id meta_dict (lit ''<m>'') = Some 0" "predicate_id meta_dict (voc_key RDFS_SUBPROP) = Some 1"
  "predicate_id meta_dict (voc_key RDF_TYPE) = Some 2" "predicate_id meta_dict (voc_key RDFS_SUBCLASS) = None"
  "predicate_id meta_dict (voc_key RDFS_DOMAIN) = None" "predicate_id meta_dict (voc_key RDFS_RANGE) = None"
  "id_to_string meta_dict 0 = Some (lit ''<m>'')" "id_to_string meta_dict 1 = Some (voc_key RDFS_SUBCLASS)"
proof -
  show inv: "dict_inv meta_dict" unfolding meta_dict_def by (rule dense_dict_inv) (use voc_keys in auto)
  show "store_inv meta_store" "triples meta_store = {IdTriple 0 1 1, IdTriple 2 0 3, IdTriple 4 2 2}"
    unfolding meta_store_def using ins_list_spec [of "[IdTriple 0 1 1, IdTriple 2 0 3, IdTriple 4 2 2]"] by simp_all
  note p = dense_predicate [OF inv [unfolded meta_dict_def]] and np = dense_no_predicate [OF inv [unfolded meta_dict_def]]
  show "predicate_id meta_dict (lit ''<m>'') = Some 0" "predicate_id meta_dict (voc_key RDFS_SUBPROP) = Some 1"
    "predicate_id meta_dict (voc_key RDF_TYPE) = Some 2"
    using p [of 0] p [of 1] p [of 2] by (simp_all add: meta_dict_def)
  show "predicate_id meta_dict (voc_key RDFS_SUBCLASS) = None" "predicate_id meta_dict (voc_key RDFS_DOMAIN) = None"
    "predicate_id meta_dict (voc_key RDFS_RANGE) = None"
    unfolding meta_dict_def by (rule np; use voc_keys in auto)+
  show "id_to_string meta_dict 0 = Some (lit ''<m>'')" "id_to_string meta_dict 1 = Some (voc_key RDFS_SUBCLASS)"
    by (simp_all add: id_to_string_def meta_dict_def dense_dict_def dense_resolve LITERAL_FIRST_ID_def INVALID_ENTITY_LITERAL_ID_def word_le_nat_alt)
qed

text \<open>C37. A second run can still infer triples: the predicate ids of the vocabulary are looked up before the
  properties of \<open>subPropertyOf\<close> statements get theirs, so a subproperty of \<open>rdfs:subClassOf\<close> gives rise to
  subclass triples whose consequences only the next run draws.\<close>

theorem materialize_not_idempotent:
  "\<exists>a1 d1 st1 a2 d2 st2. materialize meta_dict meta_store = Some (a1, d1, st1) \<and> materialize d1 st1 = Some (a2, d2, st2) \<and>
    IdTriple 4 2 3 \<in> set a2"
proof -
  note f = meta_facts
  have room: "reason_room meta_dict meta_store"
    by (simp add: reason_room_def f(3) meta_dict_def dense_dict_def dense_def card_insert_if)
  obtain a1 d1 st1 where m1: "materialize meta_dict meta_store = Some (a1, d1, st1)" "dict_inv d1" "dict_ext meta_dict d1" "store_inv st1"
    "triples st1 = rdfs_closure d1 (rdfs_vocab meta_dict d1) (triples meta_store)"
    "\<forall>p a b k. spo_p (rdfs_vocab meta_dict meta_dict) = Some p \<longrightarrow> IdTriple a p b \<in> triples meta_store \<longrightarrow> k \<in> {a, b} \<longrightarrow>
      id_to_string meta_dict k \<noteq> None \<longrightarrow> ent_to_pred d1 k \<noteq> None"
    "length (backward (predicates d1)) \<le> length (backward (predicates meta_dict)) + 2 * card (triples meta_store) + 1"
    using materialize_spec [OF f(1,2) room] by blast
  note p1 = predicate_id_ext [OF f(1) m1(2,3)] and ids = id_to_string_ext [OF f(1) m1(2,3)]
  obtain j where j: "ent_to_pred d1 1 = Some j" using m1(6) f(3,5,11) by (fastforce simp: rdfs_vocab_def)
  then have sco: "predicate_id d1 (voc_key RDFS_SUBCLASS) = Some j" using ids [OF f(11)] by (simp add: ent_to_pred_def)
  have ent0: "ent_to_pred d1 0 = Some 0" using ids [OF f(10)] p1 [OF f(4)] by (simp add: ent_to_pred_def)
  have j1: "j \<noteq> 1" using sco p1 [OF f(5)] voc_keys unfolding predicate_id_iff [OF m1(2)] by auto
  have "t \<in> {IdTriple 0 1 1, IdTriple 2 0 3, IdTriple 4 2 2, IdTriple 2 j 3}"
    if "t \<in> rdfs_closure d1 (rdfs_vocab meta_dict d1) (triples meta_store)" for t
    using that
  proof (induction rule: rdfs_closure.induct)
    case (prop_data sp a b p q x y)
    then have "a = 0" "b = 1" using j1 f(5) by (auto simp: rdfs_vocab_def)
    then have "p = 0" "q = j" using prop_data.hyps ent0 j by auto
    then show ?case using prop_data.IH j1 by auto
  qed (use f j1 in \<open>auto simp: rdfs_vocab_def\<close>)
  then have st1: "triples st1 \<subseteq> {IdTriple 0 1 1, IdTriple 2 0 3, IdTriple 4 2 2, IdTriple 2 j 3}" using m1(5) by blast
  then have "card (triples st1) \<le> card {IdTriple 0 1 1, IdTriple 2 0 3, IdTriple 4 2 2, IdTriple 2 j 3}" by (intro card_mono) simp_all
  also have "\<dots> \<le> 4" by (intro order_trans [OF card_insert_le_m1] card_insert_le_m1) simp_all
  finally have "reason_room d1 st1" using m1(7) f(3) by (simp add: reason_room_def meta_dict_def dense_dict_def dense_def card_insert_if)
  from materialize_spec [OF m1(2,4) this] obtain a2 d2 st2 where m2: "materialize d1 st1 = Some (a2, d2, st2)" "dict_inv d2" "dict_ext d1 d2"
    "triples st2 = rdfs_closure d2 (rdfs_vocab d1 d2) (triples st1)" "set a2 = triples st2 - triples st1" by blast
  have "IdTriple 2 j 3 \<in> triples st1" unfolding m1(5)
    by (rule prop_data [where a = 0 and b = 1 and sp = 1 and p = 0]) (use f(3,5) ent0 j in \<open>auto simp: rdfs_vocab_def intro: asserted\<close>)
  moreover have "IdTriple 4 2 2 \<in> triples st1" unfolding m1(5) using f(3) by (auto intro: asserted)
  moreover have "sco_p (rdfs_vocab d1 d2) = Some j" "type_p (rdfs_vocab d1 d2) = Some 2"
    using sco predicate_id_ext [OF m1(2) m2(2,3) p1 [OF f(6)]] by (simp_all add: rdfs_vocab_def)
  ultimately have "IdTriple 4 2 3 \<in> triples st2" unfolding m2(4) using class_type asserted by blast
  moreover have "IdTriple 4 2 3 \<notin> triples st1" using st1 by auto
  ultimately show ?thesis using m1(1) m2(1,5) by blast
qed

text \<open>\<open><m>\<close> has range \<open><A>\<close>, and \<open><x> <m>\<close> a literal.\<close>

definition range_dict :: Dictionary where
  "range_dict = dense_dict [lit ''<m>'', lit ''<A>'', lit ''<x>''] [dict_key (plain_literal (lit ''v''))] [voc_key RDFS_RANGE, lit ''<m>'']"

definition range_store :: TripleStore where
  "range_store = fold (\<lambda>t st. snd (ts_insert st t)) [IdTriple 0 0 1, IdTriple 2 1 LITERAL_FIRST_ID] ts_new"

text \<open>The range rule types literals: for a property with a declared range and a literal value it stores a
  triple whose subject is the literal's id, which no entity has.\<close>

lemma range_rule_literal_subject:
  "\<exists>added d' st' t. materialize range_dict range_store = Some (added, d', st') \<and> t \<in> set added \<and> is_literal_id (sub t)"
proof -
  have inv: "dict_inv range_dict" unfolding range_dict_def by (rule dense_dict_inv) (use voc_keys in auto)
  have st: "store_inv range_store" "triples range_store = {IdTriple 0 0 1, IdTriple 2 1 LITERAL_FIRST_ID}"
    unfolding range_store_def using ins_list_spec [of "[IdTriple 0 0 1, IdTriple 2 1 LITERAL_FIRST_ID]"] by simp_all
  have room: "reason_room range_dict range_store" by (simp add: reason_room_def st(2) range_dict_def dense_dict_def dense_def card_insert_if)
  have p: "predicate_id range_dict (voc_key RDFS_RANGE) = Some 0" "predicate_id range_dict (lit ''<m>'') = Some 1"
    using dense_predicate [OF inv [unfolded range_dict_def], of 0] dense_predicate [OF inv [unfolded range_dict_def], of 1]
    by (simp_all add: range_dict_def)
  have m: "id_to_string range_dict 0 = Some (lit ''<m>'')"
    by (simp add: id_to_string_def range_dict_def dense_dict_def dense_resolve LITERAL_FIRST_ID_def INVALID_ENTITY_LITERAL_ID_def)
  obtain added d' st' where r: "materialize range_dict range_store = Some (added, d', st')" "dict_inv d'" "dict_ext range_dict d'"
    "triples st' = rdfs_closure d' (rdfs_vocab range_dict d') (triples range_store)" "set added = triples st' - triples range_store"
    "sco_p (rdfs_vocab range_dict range_dict) \<noteq> None \<or> dom_p (rdfs_vocab range_dict range_dict) \<noteq> None \<or>
      rng_p (rdfs_vocab range_dict range_dict) \<noteq> None \<longrightarrow> type_p (rdfs_vocab range_dict d') \<noteq> None"
    using materialize_spec [OF inv st(1) room] by blast
  obtain tp where tp: "predicate_id d' (voc_key RDF_TYPE) = Some tp"
    using r(6) p(1) by (auto simp: rdfs_vocab_def)
  have "ent_to_pred d' 0 = Some 1"
    using id_to_string_ext [OF inv r(2,3) m] predicate_id_ext [OF inv r(2,3) p(2)] by (simp add: ent_to_pred_def)
  moreover have "rng_p (rdfs_vocab range_dict d') = Some 0" "type_p (rdfs_vocab range_dict d') = Some tp"
    by (simp_all add: rdfs_vocab_def p(1) tp)
  moreover have "IdTriple 0 0 1 \<in> rdfs_closure d' (rdfs_vocab range_dict d') (triples range_store)"
    "IdTriple 2 1 LITERAL_FIRST_ID \<in> rdfs_closure d' (rdfs_vocab range_dict d') (triples range_store)"
    by (rule asserted, simp add: st(2))+
  ultimately have "IdTriple LITERAL_FIRST_ID tp 1 \<in> triples st'" unfolding r(4) by (metis range)
  moreover have "IdTriple LITERAL_FIRST_ID tp 1 \<notin> triples range_store" by (simp add: st(2) LITERAL_FIRST_ID_def)
  ultimately have "IdTriple LITERAL_FIRST_ID tp 1 \<in> set added" by (simp add: r(5))
  moreover have "is_literal_id (sub (IdTriple LITERAL_FIRST_ID tp 1))" by (simp add: is_literal_id_def LITERAL_FIRST_ID_def INVALID_ENTITY_LITERAL_ID_def)
  ultimately show ?thesis using r(1) by blast
qed

end
