(* ===== verification/Transactions.thy ===== *)
theory Transactions
  imports Reason
begin

text \<open>
  Sequences of operations on a \<open>Database\<close> (\<open>src/db/mod.rs\<close>): one step per public mutation, the
  undo log as the inverse of the steps of an open transaction, and the states the facade can reach.
\<close>

section \<open>Undoing on the abstract content\<close>

fun cundo :: "UndoOp \<Rightarrow> (u32 option \<Rightarrow> IdTriple set) \<Rightarrow> u32 option \<Rightarrow> IdTriple set" where
  "cundo (Add g i) c = c(g := insert i (c g))"
| "cundo (Del g i) c = c(g := c g - {i})"

lemma fold_cundo_adds:
  assumes "\<forall>u \<in> set us. \<exists>g i. u = Add g i"
  shows "fold cundo us c = (\<lambda>g. c g \<union> {i. Add g i \<in> set us})"
  using assms
proof (induction us arbitrary: c)
  case (Cons u us)
  then obtain g i where "u = Add g i" by auto
  with Cons show ?case by (auto simp: fun_eq_iff)
qed simp

text \<open>Fields that undoing does not touch.\<close>

lemma undo_op_frame [simp]:
  "dict (undo_op u db) = dict db" "txn (undo_op u db) = txn db" "redo_file (undo_op u db) = redo_file db"
  "redo_pending (undo_op u db) = redo_pending db" "redo_log (undo_op u db) = redo_log db"
  "index_valid (undo_op u db) = index_valid db"
  by (cases "(u, db)" rule: undo_op.cases; simp split: option.splits)+

lemma undo_op_content:
  assumes "stores_ok db"
  shows "stores_ok (undo_op u db) \<and> content (undo_op u db) = cundo u (content db)"
proof -
  have def: "store_inv (named_or_default (named db) g)" for g using named_or_default_inv [OF assms] .
  have inv: "store_inv (store db)" using assms by (simp add: stores_ok_def)
  note specs = ts_insert_spec(2,3) ts_remove_spec(2,3)
  show ?thesis
  proof (cases "(u, db)" rule: undo_op.cases)
    case (4 g i db')
    show ?thesis
    proof (cases "bm_get (named db) g")
      case None
      then have "content db (Some g) = {}" by (simp add: content_def named_or_default_def store_inv_new)
      with 4 None assms show ?thesis by (simp add: fun_eq_iff)
    next
      case (Some s)
      then have "store_inv s" "named_or_default (named db) g = s" using def [of g] by (auto simp: named_or_default_def)
      with 4 Some assms specs show ?thesis
        by (auto simp: stores_ok_def content_def fun_eq_iff named_or_default_insert split: option.splits)
    qed
  qed (use assms inv def specs in \<open>auto simp: stores_ok_def content_def fun_eq_iff named_or_default_insert split: option.splits\<close>)
qed

lemma fold_undo_op:
  assumes "stores_ok db"
  shows "stores_ok (fold undo_op us db) \<and> content (fold undo_op us db) = fold cundo us (content db)"
  using assms by (induction us arbitrary: db) (auto simp: undo_op_content)

lemma fold_undo_op_frame [simp]:
  "dict (fold undo_op us db) = dict db" "txn (fold undo_op us db) = txn db"
  "redo_file (fold undo_op us db) = redo_file db" "redo_pending (fold undo_op us db) = redo_pending db"
  "redo_log (fold undo_op us db) = redo_log db"
  by (induction us arbitrary: db) simp_all

section \<open>Quads by their surface form\<close>

text \<open>
  The abstract content of a database: a set of quads, each a graph name (\<open>None\<close> for the default
  graph) and the dictionary keys of a triple.
\<close>

type_synonym quad_key = "rstring option \<times> rstring \<times> rstring \<times> bool \<times> rstring"

fun graph_name :: "Dictionary \<Rightarrow> u32 option \<Rightarrow> rstring option \<Rightarrow> bool" where
  "graph_name d None g = (g = None)"
| "graph_name d (Some h) g = (\<exists>gr. g = Some gr \<and> resolve (entities d) h = Some (dict_key (Iri gr)))"

definition surf :: "Dictionary \<Rightarrow> (u32 option \<Rightarrow> IdTriple set) \<Rightarrow> quad_key set" where
  "surf d c = {(g, k). \<exists>h i t. graph_name d h g \<and> i \<in> c h \<and> names_triple d i t \<and> k = tkey t}"

definition surface :: "'q Database \<Rightarrow> quad_key set" where
  "surface db = surf (dict db) (content db)"

lemma surfI: "graph_name d h g \<Longrightarrow> i \<in> c h \<Longrightarrow> names_triple d i t \<Longrightarrow> (g, tkey t) \<in> surf d c"
  by (auto simp: surf_def)

lemma surfE:
  assumes "x \<in> surf d c"
  obtains g h i t where "x = (g, tkey t)" "graph_name d h g" "i \<in> c h" "names_triple d i t"
  using assms by (auto simp: surf_def)

lemma graph_name_right: "graph_name d h g \<Longrightarrow> graph_name d h g' \<Longrightarrow> g = g'"
  by (cases h) (auto simp: dict_key_def)

lemma entity_id_iff:
  assumes "dict_inv d"
  shows "entity_id d k = Some ix \<longleftrightarrow> resolve (entities d) ix = Some k"
  using assms interner.get_res [of "entities d" k ix] by (auto simp: entity_id_def dict_inv_def)

lemma graph_name_left: "dict_inv d \<Longrightarrow> graph_name d h g \<Longrightarrow> graph_name d h' g \<Longrightarrow> h = h'"
  by (cases h; cases h') (auto simp: entity_id_iff [symmetric])

lemma graph_name_ext:
  assumes "dict_ext d d'" and "\<forall>x. h = Some x \<longrightarrow> resolve (entities d) x \<noteq> None"
  shows "graph_name d' h g \<longleftrightarrow> graph_name d h g"
  using assms by (cases h) (auto simp: dict_ext_def)

lemma names_left: "dict_inv d \<Longrightarrow> dict_in_range d \<Longrightarrow> names_triple d i t \<Longrightarrow> names_triple d j u \<Longrightarrow> tkey t = tkey u \<Longrightarrow> i = j"
  using triple_id_iff names_tkey by (metis option.inject)

lemma surf_ext:
  assumes "dict_ext d d'" and "dict_in_range d'" and kn: "\<forall>h. \<forall>i \<in> c h. gknown d h i"
  shows "surf d' c = surf d c"
proof -
  have "graph_name d' h g \<and> i \<in> c h \<and> names_triple d' i t \<and> k = tkey t \<longleftrightarrow>
      graph_name d h g \<and> i \<in> c h \<and> names_triple d i t \<and> k = tkey t" for h g i t k
    using names_ext [OF assms(1,2), of i t] graph_name_ext [OF assms(1), of h g] kn unfolding gknown_def by blast
  then show ?thesis by (simp only: surf_def)
qed

lemma surf_mono: "(\<And>h. c h \<subseteq> c' h) \<Longrightarrow> surf d c \<subseteq> surf d c'"
  unfolding surf_def by blast

lemma surf_insert:
  assumes "dict_in_range d" and g: "graph_name d h g" and t: "names_triple d i t"
  shows "surf d (c(h := insert i (c h))) = insert (g, tkey t) (surf d c)"
proof (rule set_eqI)
  fix x
  show "x \<in> surf d (c(h := insert i (c h))) \<longleftrightarrow> x \<in> insert (g, tkey t) (surf d c)"
  proof
    assume "x \<in> surf d (c(h := insert i (c h)))"
    then obtain g' h' j u where u: "x = (g', tkey u)" "graph_name d h' g'" "j \<in> (c(h := insert i (c h))) h'" "names_triple d j u"
      by (rule surfE)
    show "x \<in> insert (g, tkey t) (surf d c)"
    proof (cases "h' = h \<and> j = i")
      case True
      then show ?thesis using u graph_name_right [OF g, of g'] names_inj [OF assms(1) t, of u] by simp
    next
      case False
      then have "j \<in> c h'" using u(3) by (auto split: if_splits)
      then show ?thesis using u surfI by simp
    qed
  next
    assume "x \<in> insert (g, tkey t) (surf d c)"
    then show "x \<in> surf d (c(h := insert i (c h)))"
      using surfI [OF g _ t, of "c(h := insert i (c h))"] surf_mono [of c "c(h := insert i (c h))" d] by fastforce
  qed
qed

lemma surf_delete:
  assumes "dict_inv d" and "dict_in_range d"
  shows "surf d (\<lambda>h. c h - {i. graph_name d h g \<and> names_triple d i t}) = surf d c - {(g, tkey t)}"
proof (rule set_eqI)
  fix x
  show "x \<in> surf d (\<lambda>h. c h - {i. graph_name d h g \<and> names_triple d i t}) \<longleftrightarrow> x \<in> surf d c - {(g, tkey t)}"
  proof
    assume "x \<in> surf d (\<lambda>h. c h - {i. graph_name d h g \<and> names_triple d i t})"
    then obtain g' h i u where u: "x = (g', tkey u)" "graph_name d h g'" "i \<in> c h - {i. graph_name d h g \<and> names_triple d i t}" "names_triple d i u"
      by (rule surfE)
    then have "\<not> (g' = g \<and> tkey u = tkey t)" using names_tkey [of u t] by auto
    then show "x \<in> surf d c - {(g, tkey t)}" using u surfI [of d h g' i c u] by simp
  next
    assume x: "x \<in> surf d c - {(g, tkey t)}"
    then have "x \<in> surf d c" by blast
    then obtain g' h i u where u: "x = (g', tkey u)" "graph_name d h g'" "i \<in> c h" "names_triple d i u" by (rule surfE)
    have "\<not> (graph_name d h g \<and> names_triple d i t)"
    proof
      assume "graph_name d h g \<and> names_triple d i t"
      then have "x = (g, tkey t)" using u(1) graph_name_right [OF u(2)] names_inj [OF assms(2) u(4)] by metis
      then show False using x by simp
    qed
    then show "x \<in> surf d (\<lambda>h. c h - {i. graph_name d h g \<and> names_triple d i t})"
      using u(1) surfI [OF u(2) _ u(4)] u(3) by simp
  qed
qed

lemma surf_mem:
  assumes "dict_inv d" and "dict_in_range d" and "graph_name d h g" and "names_triple d i t"
  shows "(g, tkey t) \<in> surf d c \<longleftrightarrow> i \<in> c h"
proof
  assume "(g, tkey t) \<in> surf d c"
  then obtain g' h' j u where u: "(g, tkey t) = (g', tkey u)" "graph_name d h' g'" "j \<in> c h'" "names_triple d j u"
    by (rule surfE)
  then show "i \<in> c h" using graph_name_left [OF assms(1,3), of h'] names_left [OF assms(1,2,4), of j u] by auto
qed (use assms surfI in blast)

section \<open>Every mutation logs its inverse\<close>

definition logs_inverse :: "'q Database \<Rightarrow> 'q Database \<Rightarrow> bool" where
  "logs_inverse db db' \<longleftrightarrow> db_ok db' \<and> dict_ext (dict db) (dict db') \<and>
     (\<exists>us. txn db' = map_option (\<lambda>log. log @ us) (txn db) \<and> fold cundo (rev us) (content db') = content db) \<and>
     (txn db \<noteq> None \<longrightarrow> redo_file db' = redo_file db)"

lemma logs_inverseI:
  assumes "db_ok db'" "dict_ext (dict db) (dict db')" "txn db' = map_option (\<lambda>log. log @ us) (txn db)"
    "fold cundo (rev us) (content db') = content db" "txn db \<noteq> None \<Longrightarrow> redo_file db' = redo_file db"
  shows "logs_inverse db db'"
  using assms unfolding logs_inverse_def by blast

lemma insert_quad_spec:
  assumes "db_ok db" and "db_room (dict db)"
  obtains h i db' where "insert_quad db t g = Some (i \<notin> content db h, db')" "db_ok db'" "dict_ext (dict db) (dict db')"
    "content db' = (content db)(h := insert i (content db h))" "names_triple (dict db') i t" "graph_name (dict db') h g"
    "txn db' = map_option (\<lambda>log. log @ (if i \<in> content db h then [] else [Del h i])) (txn db)"
    "txn db \<noteq> None \<longrightarrow> redo_file db' = redo_file db"
proof (cases g)
  case None
  obtain i db' where s: "insert_triple db t = Some (i \<notin> content db None, db')" "db_ok db'" "dict_ext (dict db) (dict db')"
    "names_triple (dict db') i t" "content db' = (content db)(None := insert i (content db None))"
    "txn db' = map_option (\<lambda>log. log @ (if i \<in> content db None then [] else [Del None i])) (txn db)"
    "txn db \<noteq> None \<longrightarrow> redo_file db' = redo_file db" "index_valid db' = index_valid db"
    by (rule insert_triple_spec [OF assms, of t])
  then show thesis using None by (intro that [of i None db']) (simp_all add: insert_quad_def)
next
  case (Some gr)
  obtain g' i db' where s: "insert_quad db t (Some gr) = Some (i \<notin> content db (Some g'), db')" "db_ok db'"
    "content db' = (content db)(Some g' := insert i (content db (Some g')))" "dict_ext (dict db) (dict db')"
    "names_triple (dict db') i t" "resolve (entities (dict db')) g' = Some (dict_key (Iri gr))"
    "txn db' = map_option (\<lambda>log. log @ (if i \<in> content db (Some g') then [] else [Del (Some g') i])) (txn db)"
    "txn db \<noteq> None \<longrightarrow> redo_file db' = redo_file db"
    by (rule insert_named_spec [OF assms, of t gr])
  then show thesis using Some by (intro that [of i "Some g'" db']) simp_all
qed

lemma insert_quad_logs_inverse:
  assumes "db_ok db" and "db_room (dict db)"
  obtains b db' where "insert_quad db t g = Some (b, db')" "logs_inverse db db'"
proof -
  obtain h i db' where s: "insert_quad db t g = Some (i \<notin> content db h, db')" "db_ok db'" "dict_ext (dict db) (dict db')"
    "content db' = (content db)(h := insert i (content db h))" "names_triple (dict db') i t" "graph_name (dict db') h g"
    "txn db' = map_option (\<lambda>log. log @ (if i \<in> content db h then [] else [Del h i])) (txn db)"
    "txn db \<noteq> None \<longrightarrow> redo_file db' = redo_file db"
    by (rule insert_quad_spec [OF assms, of t g])
  have "logs_inverse db db'"
    by (rule logs_inverseI [OF s(2,3,7)]) (use s(8) in \<open>auto simp: s(4) insert_absorb fun_upd_idem\<close>)
  then show thesis using s(1) that by blast
qed

text \<open>Deleting a quad removes the triple with its name from the graph with its name.\<close>

definition deletes :: "'q Database \<Rightarrow> Triple \<Rightarrow> rstring option \<Rightarrow> bool \<Rightarrow> 'q Database \<Rightarrow> bool" where
  "deletes db t g b db' \<longleftrightarrow> logs_inverse db db' \<and> dict db' = dict db \<and>
     content db' = (\<lambda>h. content db h - {i. graph_name (dict db) h g \<and> names_triple (dict db) i t}) \<and>
     (b \<longleftrightarrow> (\<exists>h. \<exists>i \<in> content db h. graph_name (dict db) h g \<and> names_triple (dict db) i t))"

lemma deletes_nothing:
  assumes "db_ok db" and "\<forall>h. \<forall>i \<in> content db h. \<not> (graph_name (dict db) h g \<and> names_triple (dict db) i t)"
  shows "deletes db t g False db"
proof -
  have "content db h - {i. graph_name (dict db) h g \<and> names_triple (dict db) i t} = content db h" for h
    using assms(2) by auto
  then show ?thesis using assms unfolding deletes_def
    by (auto simp: fun_eq_iff option.map_ident intro!: logs_inverseI [where us = "[]"])
qed

lemma delete_named_spec:
  assumes ok: "db_ok db"
  obtains b db' where "delete_quad db t (Some gr) = (b, db')" "deletes db t (Some gr) b db'"
proof -
  have D: "stores_ok db" "dict_inv (dict db)" "dict_in_range (dict db)" using ok by (auto simp: db_ok_def)
  have gn: "graph_name (dict db) h (Some gr) \<longleftrightarrow> (\<exists>x. h = Some x \<and> entity_id (dict db) (dict_key (Iri gr)) = Some x)" for h
    using D(2) by (cases h) (auto simp: entity_id_iff)
  have nt: "names_triple (dict db) i t \<longleftrightarrow> triple_id (dict db) t = Some i" for i using triple_id_iff [OF D(2,3)] by simp
  show thesis
  proof (cases "\<exists>g i s. entity_id (dict db) (dict_key (Iri gr)) = Some g \<and> triple_id (dict db) t = Some i \<and> bm_get (named db) g = Some s")
    case False
    then have "delete_quad db t (Some gr) = (False, db)" by (auto simp: delete_quad_def split: option.splits)
    moreover have "content db (Some g) = {}" if "bm_get (named db) g = None" for g
      using that by (simp add: content_def named_or_default_def store_inv_new)
    then have "deletes db t (Some gr) False db"
      using False by (intro deletes_nothing [OF ok]) (force simp: gn nt)
    ultimately show thesis by (rule that)
  next
    case True
    then obtain g i s where g: "entity_id (dict db) (dict_key (Iri gr)) = Some g" "triple_id (dict db) t = Some i"
      "bm_get (named db) g = Some s" by blast
    have inv: "store_inv s" using D(1) g(3) by (auto simp: stores_ok_def)
    have c: "content db (Some g) = triples s" using g(3) by (simp add: content_def named_or_default_def)
    note rem = ts_remove_spec [OF inv, of i]
    define us where "us = (if i \<in> triples s then [Add (Some g) i] else [])"
    define db' where "db' = snd (delete_quad db t (Some gr))"
    have r: "delete_quad db t (Some gr) = (i \<in> triples s, db')"
      using rem(1) g unfolding db'_def by (cases "ts_remove s i") (simp add: delete_quad_def Let_def)
    have fr: "dict db' = dict db" "store db' = store db" "named db' = bm_insert g (snd (ts_remove s i)) (named db)"
      "vstree db' = vstree db" "index_valid db' = index_valid db" "txn db' = map_option (\<lambda>log. log @ us) (txn db)"
      "txn db \<noteq> None \<Longrightarrow> redo_file db' = redo_file db"
      using rem(1) g unfolding db'_def us_def
      by (cases "ts_remove s i"; simp add: delete_quad_def Let_def record_redo_in_txn option.map_ident)+
    have cc: "content db' = (content db)(Some g := content db (Some g) - {i})"
      using rem(2) c by (simp add: content_def fr fun_eq_iff named_or_default_insert split: option.splits)
    have so: "stores_ok db'" using D(1) rem(3) by (simp add: stores_ok_def fr)
    have "known (dict db) i" using g(2) nt names_known [of "dict db" i t] by simp
    moreover have "resolve (entities (dict db)) g \<noteq> None" using g(1) entity_id_iff [OF D(2)] by simp
    ultimately have kn: "gknown (dict db) (Some g) i" by (simp add: gknown_def)
    have "db_ok db'"
      by (rule db_ok_graph_change [OF ok, where g = "Some g" and i = i and us = us])
         (use D so kn ok in \<open>auto simp: cc fr us_def db_ok_def split: if_splits\<close>)
    then have "logs_inverse db db'"
      by (rule logs_inverseI [where us = us]) (use fr(6,7) in \<open>auto simp: fr(1) cc us_def c insert_absorb fun_upd_idem\<close>)
    then have "deletes db t (Some gr) (i \<in> triples s) db'"
      using g c by (auto simp: deletes_def fr(1) cc gn nt fun_eq_iff)
    with r show thesis by (rule that)
  qed
qed

lemma delete_quad_spec:
  assumes "db_ok db"
  obtains b db' where "delete_quad db t g = (b, db')" "deletes db t g b db'"
proof (cases g)
  case None
  obtain R db' us where r: "remove_triple db t = (R \<noteq> {}, db')" "db_ok db'" "dict db' = dict db"
    "R = {i \<in> content db None. names_triple (dict db) i t}" "content db' = (content db)(None := content db None - R)"
    "txn db' = map_option (\<lambda>log. log @ us) (txn db)" "R = {} \<and> us = [] \<or> (\<exists>i. R = {i} \<and> us = [Add None i])"
    "txn db \<noteq> None \<longrightarrow> redo_file db' = redo_file db"
    using remove_triple_spec [OF assms, of t] by blast
  have gn: "graph_name (dict db) h None \<longleftrightarrow> h = None" for h by (cases h) simp_all
  have "R \<subseteq> content db None" using r(4) by auto
  then have "fold cundo (rev us) (content db') = content db"
    using r(7) by (auto simp: r(5) insert_absorb fun_upd_idem)
  then have "logs_inverse db db'" using r by (intro logs_inverseI [where us = us]) auto
  moreover have "content db' = (\<lambda>h. content db h - {i. graph_name (dict db) h None \<and> names_triple (dict db) i t})"
    using r(4) by (auto simp: r(5) gn fun_eq_iff)
  ultimately have "deletes db t None (R \<noteq> {}) db'" using r(3,4) unfolding deletes_def gn by auto
  then show thesis using r(1) None by (intro that) (simp_all add: delete_quad_def)
next
  case (Some gr)
  then show thesis using delete_named_spec [OF assms, of t gr] that by blast
qed

text \<open>A clear empties a set of graphs and logs every triple it drops.\<close>

lemma clear_logs_inverse:
  assumes ok: "db_ok db" and fr: "dict db' = dict db" "txn db' = map_option (\<lambda>log. log @ us) (txn db)" "redo_file db' = redo_file db"
    and so: "stores_ok db'" and adds: "\<forall>u \<in> set us. \<exists>g i. u = Add g i"
    and dropped: "\<And>g. content db g = content db' g \<union> {i. Add g i \<in> set us}"
    and idx: "index_valid db' \<Longrightarrow> index_ok (store db') (vstree db')"
  shows "logs_inverse db db'"
proof (rule logs_inverseI [OF _ _ fr(2)])
  have us: "undo_known (dict db) u" if u_in: "u \<in> set us" for u
  proof -
    obtain g i where u: "u = Add g i" using adds u_in by blast
    then have "i \<in> content db g" using dropped [of g] u_in by auto
    then show ?thesis using ok u by (auto simp: db_ok_def)
  qed
  have "\<forall>g. \<forall>i \<in> content db' g. gknown (dict db') g i" using ok dropped unfolding db_ok_def fr(1) by blast
  moreover have "\<forall>log. txn db' = Some log \<longrightarrow> (\<forall>u \<in> set log. undo_known (dict db') u)"
    using ok us fr(1,2) unfolding db_ok_def by auto
  ultimately show "db_ok db'" using ok so idx fr(1) by (simp add: db_ok_def)
  show "fold cundo (rev us) (content db') = content db"
    using adds by (subst fold_cundo_adds) (simp_all add: fun_eq_iff dropped)
qed (use fr in simp_all)

lemma clear_default_logs_inverse:
  assumes ok: "db_ok db"
  shows "logs_inverse db (snd (clear_default db))"
proof (cases "unat (triple_count (store db)) > 0")
  case True
  have inv: "store_inv (store db)" "stores_ok db" using ok by (auto simp: db_ok_def stores_ok_def)
  note all = iter_all_spec(1) [OF inv(1)]
  show ?thesis
    by (rule clear_logs_inverse [OF ok, where us = "map (Add None) (iter_all (store db))"])
       (use True inv all in \<open>auto simp: clear_default_def Let_def stores_ok_def store_inv_new content_def split: option.splits\<close>)
next
  case False
  then show ?thesis using ok by (auto simp: clear_default_def Let_def intro!: logs_inverseI [where us = "[]"] simp: option.map_ident)
qed

lemma clear_named_logs_inverse:
  assumes ok: "db_ok db"
  shows "logs_inverse db (snd (clear_named db gr))"
proof (cases "\<exists>g s. entity_id (dict db) (dict_key (Iri gr)) = Some g \<and> bm_get (named db) g = Some s \<and> unat (triple_count s) > 0")
  case True
  then obtain g s where g: "entity_id (dict db) (dict_key (Iri gr)) = Some g" "bm_get (named db) g = Some s" "unat (triple_count s) > 0"
    by blast
  have inv: "stores_ok db" "store_inv s" using ok g(2) by (auto simp: db_ok_def stores_ok_def)
  show ?thesis
    by (rule clear_logs_inverse [OF ok, where us = "map (Add (Some g)) (iter_all s)"])
       (use g inv iter_all_spec(1) [OF inv(2)] ok in \<open>auto simp: clear_named_def Let_def stores_ok_def store_inv_new content_def
          named_or_default_def db_ok_def split: option.splits if_splits\<close>)
next
  case False
  then have "snd (clear_named db gr) = db"
    by (auto simp: clear_named_def Let_def split: option.splits)
  then show ?thesis using ok by (auto intro!: logs_inverseI [where us = "[]"] simp: option.map_ident)
qed

lemma clear_all_named_logs_inverse:
  assumes ok: "db_ok db"
  shows "logs_inverse db (snd (clear_all_named db))"
proof (cases "sum_list (map (\<lambda>(g, s). unat (triple_count s)) (named db)) > 0")
  case True
  have so: "stores_ok db" and wf: "bm_wf (named db)" using ok by (auto simp: db_ok_def stores_ok_def)
  define us where "us = concat (map (\<lambda>(g, s). map (Add (Some g)) (iter_all s)) (named db))"
  have set_us: "Add h i \<in> set us \<longleftrightarrow> (\<exists>g. h = Some g \<and> i \<in> content db (Some g))" for h i
  proof -
    have "Add h i \<in> set us \<longleftrightarrow> (\<exists>g s. bm_get (named db) g = Some s \<and> h = Some g \<and> i \<in> set (iter_all s))"
      unfolding us_def bm_in_iff [OF wf, symmetric] by force
    also have "\<dots> \<longleftrightarrow> (\<exists>g. h = Some g \<and> i \<in> content db (Some g))"
      using so by (auto simp: content_def named_or_default_def stores_ok_def iter_all_spec store_inv_new split: option.splits)
    finally show ?thesis .
  qed
  have adds: "\<forall>u \<in> set us. \<exists>g i. u = Add g i" by (auto simp: us_def)
  let ?db = "snd (clear_all_named db)"
  have e: "?db = clear_cache ((push_undo us db)\<lparr>named := []\<rparr>)" using True by (simp add: clear_all_named_def us_def Let_def)
  have cc: "content ?db g = (if g = None then content db None else {})" for g
    by (cases g) (simp_all add: e content_def named_or_default_def store_inv_new)
  show ?thesis
  proof (rule clear_logs_inverse [OF ok, where us = us])
    show "content db g = content ?db g \<union> {i. Add g i \<in> set us}" for g
      by (cases g) (auto simp: cc set_us)
  qed (use so adds ok in \<open>auto simp: cc e stores_ok_def db_ok_def split: if_splits\<close>)
next
  case False
  then have "snd (clear_all_named db) = db" by (simp only: clear_all_named_def Let_def snd_conv if_False)
  then show ?thesis using ok by (auto intro!: logs_inverseI [where us = "[]"] simp: option.map_ident)
qed

lemma rebuild_index_logs_inverse:
  assumes ok: "db_ok db"
  obtains db' where "rebuild_index db = Some db'" "logs_inverse db db'" "index_valid db'" "store db' = store db"
proof -
  have "store_inv (store db)" using ok by (simp add: db_ok_def stores_ok_def)
  then obtain vt where vt: "build_vstree (store db) = Some vt" "index_ok (store db) vt"
    using build_vstree_spec by blast
  let ?db = "db\<lparr>vstree := vt, index_valid := True\<rparr>"
  have cc: "content ?db = content db" by (rule content_cong) simp_all
  have "db_ok ?db" using ok vt(2) by (simp add: db_ok_def cc) (simp add: stores_ok_def)
  then have "logs_inverse db ?db" by (intro logs_inverseI [where us = "[]"]) (simp_all add: cc option.map_ident)
  then show thesis using vt(1) by (intro that [of ?db]) (simp_all add: rebuild_index_def)
qed

lemma fold_cundo_dels:
  assumes "\<forall>u \<in> set us. \<exists>g i. u = Del g i"
  shows "fold cundo us c = (\<lambda>g. c g - {i. Del g i \<in> set us})"
  using assms
proof (induction us arbitrary: c)
  case (Cons u us)
  then obtain g i where "u = Del g i" by auto
  with Cons show ?case by (auto simp: fun_eq_iff)
qed simp

lemma materialize_logs_inverse:
  assumes ok: "db_ok db" and room: "reason_room (dict db) (store db)" and m: "materialize_rdfs db = Some (n, db')"
    and ent: "\<forall>i \<in> triples (store db'). is_entity_id (sub i)"
  shows "logs_inverse db db'"
proof -
  have D: "dict_inv (dict db)" "dict_in_range (dict db)" "stores_ok db" and kn: "\<forall>g. \<forall>i \<in> content db g. gknown (dict db) g i"
    and ix: "index_valid db \<Longrightarrow> index_ok (store db) (vstree db)" using ok by (auto simp: db_ok_def)
  have st: "store_inv (store db)" using D(3) by (simp add: stores_ok_def)
  have "content db None = triples (store db)" by (simp add: content_def)
  then have k0: "\<forall>i \<in> triples (store db). known (dict db) i" using kn gknown_None by metis
  obtain added where r: "dict_inv (dict db')" "dict_ext (dict db) (dict db')" "entities (dict db') = entities (dict db)" "literals (dict db') = literals (dict db)"
    "store_inv (store db')" "set added = triples (store db') - triples (store db)" "triples (store db) \<subseteq> triples (store db')"
    "\<forall>i \<in> triples (store db'). known (dict db') i" "named db' = named db" "txn db' = map_option (\<lambda>log. log @ map (Del None) added) (txn db)"
    "redo_file db' = redo_file db" "index_valid db' \<longrightarrow> index_valid db \<and> added = [] \<and> vstree db' = vstree db"
    by (rule materialize_rdfs_spec [OF D(1,2) st k0 room m ent])
  have c: "content db' = (content db)(None := triples (store db'))" using r(9) by (auto simp: content_def fun_eq_iff split: option.split)
  have range: "dict_in_range (dict db')" using D(2) r(3,4) by (simp add: dict_in_range_def)
  have so: "stores_ok db'" using D(3) r(5,9) by (simp add: stores_ok_def)
  have known': "\<forall>g. \<forall>i \<in> content db' g. gknown (dict db') g i" using kn r(8) gknown_ext [OF r(2)] by (simp add: c)
  have undo: "undo_known (dict db') u" if t: "txn db' = Some log" and u: "u \<in> set log" for log u
  proof -
    obtain l where l: "txn db = Some l" "log = l @ map (Del None) added" using t r(10) by auto
    show ?thesis
    proof (cases "u \<in> set l")
      case True
      then show ?thesis using ok l(1) undo_known_ext [OF r(2)] unfolding db_ok_def by blast
    next
      case False
      then show ?thesis using u l(2) r(6,8) by auto
    qed
  qed
  have idx: "index_ok (store db') (vstree db')" if "index_valid db'"
  proof -
    have v: "index_valid db" "added = []" "vstree db' = vstree db" using r(12) that by auto
    then have "store db' = store db" using r(5-7) st by (intro store_eqI) auto
    then show ?thesis using ix v by simp
  qed
  have "db_ok db'" unfolding db_ok_def using r(1) range so known' undo idx by blast
  moreover have "fold cundo (rev (map (Del None) added)) (content db') = content db"
    using r(6,7) by (subst fold_cundo_dels) (auto simp: c fun_eq_iff content_def)
  ultimately show ?thesis using r(2,10,11) by (intro logs_inverseI [where us = "map (Del None) added"]) auto
qed

section \<open>Steps and reachable states\<close>

lemma db_okD:
  assumes "db_ok db"
  shows "dict_inv (dict db)" "dict_in_range (dict db)" "\<forall>h. \<forall>i \<in> content db h. gknown (dict db) h i" "stores_ok db"
  using assms by (auto simp: db_ok_def)

text \<open>
  One public mutation. An insertion needs room for its terms in the id spaces of the dictionary; it
  panics or leaves the id ranges otherwise. Reasoning needs room for the vocabulary, and it is a step only where the range rule
  gives no literal a type: a triple with a literal subject has no name, as a quad's subject is looked up among the entities.
\<close>

inductive db_step :: "'q Database \<Rightarrow> 'q Database \<Rightarrow> bool" where
  step_insert: "db_room (dict db) \<Longrightarrow> insert_quad db t g = Some (b, db') \<Longrightarrow> db_step db db'"
| step_delete: "delete_quad db t g = (b, db') \<Longrightarrow> db_step db db'"
| step_clear_default: "clear_default db = (n, db') \<Longrightarrow> db_step db db'"
| step_clear_named: "clear_named db gr = (n, db') \<Longrightarrow> db_step db db'"
| step_clear_all_named: "clear_all_named db = (n, db') \<Longrightarrow> db_step db db'"
| step_rebuild: "rebuild_index db = Some db' \<Longrightarrow> db_step db db'"
| step_materialize: "reason_room (dict db) (store db) \<Longrightarrow> materialize_rdfs db = Some (n, db') \<Longrightarrow> \<forall>i \<in> triples (store db'). is_entity_id (sub i) \<Longrightarrow> db_step db db'"

inductive_cases db_stepE: "db_step db db'"

lemma db_step_logs_inverse:
  assumes "db_step db db'" and "db_ok db"
  shows "logs_inverse db db'"
  using assms
proof (cases rule: db_step.cases)
  case (step_insert t g b)
  then show ?thesis using insert_quad_logs_inverse [OF assms(2), of t g] by fastforce
next
  case (step_delete t g b)
  then show ?thesis using delete_quad_spec [OF assms(2), of t g] by (metis deletes_def prod.inject)
next
  case (step_clear_default n)
  then show ?thesis using clear_default_logs_inverse [OF assms(2)] by simp
next
  case (step_clear_named gr n)
  then show ?thesis using clear_named_logs_inverse [OF assms(2), of gr] by simp
next
  case (step_clear_all_named n)
  then show ?thesis using clear_all_named_logs_inverse [OF assms(2)] by simp
next
  case step_rebuild
  then show ?thesis using rebuild_index_logs_inverse [OF assms(2)] by fastforce
next
  case (step_materialize n)
  then show ?thesis by (intro materialize_logs_inverse [OF assms(2)])
qed

lemma logs_inverse_trans:
  assumes "logs_inverse a b" and "logs_inverse b c"
  shows "logs_inverse a c"
proof -
  obtain us vs where us: "txn b = map_option (\<lambda>log. log @ us) (txn a)" "fold cundo (rev us) (content b) = content a"
    and vs: "txn c = map_option (\<lambda>log. log @ vs) (txn b)" "fold cundo (rev vs) (content c) = content b"
    using assms unfolding logs_inverse_def by blast
  have "txn c = map_option (\<lambda>log. log @ us @ vs) (txn a)" using us(1) vs(1) by (simp add: option.map_comp comp_def)
  moreover have "fold cundo (rev (us @ vs)) (content c) = content a" using us(2) vs(2) by simp
  moreover have "dict_ext (dict a) (dict c)" "txn a \<noteq> None \<Longrightarrow> redo_file c = redo_file a"
    using assms us(1) dict_ext_trans unfolding logs_inverse_def by auto
  moreover have "db_ok c" using assms(2) by (simp add: logs_inverse_def)
  ultimately show ?thesis by (intro logs_inverseI [where us = "us @ vs"]) blast+
qed

lemma db_steps_logs_inverse:
  assumes "db_step\<^sup>*\<^sup>* a b" and "db_ok a"
  shows "logs_inverse a b"
  using assms(1)
proof (induction rule: rtranclp_induct)
  case base
  show ?case using assms(2) by (intro logs_inverseI [where us = "[]"]) (simp_all add: option.map_ident)
next
  case (step b c)
  then have "logs_inverse b c" using db_step_logs_inverse by (auto simp: logs_inverse_def)
  then show ?case using logs_inverse_trans step.IH by blast
qed

lemma ids_of_store:
  assumes "store_inv st" and "i \<in> triples st"
  shows "sub i \<in> set (subject_keys st)" "obj i \<in> set (object_keys st)" "pred i \<in> set (predicates_of st)"
proof -
  show "sub i \<in> set (subject_keys st)" "obj i \<in> set (object_keys st)" using assms by (auto simp: keys_of_store)
  show "pred i \<in> set (predicates_of st)"
    using assms store_invD(6) [OF assms(1), of "sub i" "pred i" "obj i"] adj_wf_key_nonempty [OF store_invD(3) [OF assms(1)], of "pred i"]
    by (auto simp: predicates_of_def)
qed

text \<open>Reclaiming dictionary ids between transactions keeps the content.\<close>

lemma reclaim_ok:
  assumes ok: "db_ok db" and tx: "txn db = None"
  obtains m db' where "db_reclaim_unused db = Some (m, db')" "db_ok db'" "store db' = store db" "named db' = named db"
    "surface db' = surface db"
proof -
  define E where "E = set (subject_keys (store db)) \<union> set (object_keys (store db))
    \<union> (\<Union>(g, s) \<in> set (named db). insert g (set (subject_keys s) \<union> set (object_keys s)))"
  define P where "P = set (predicates_of (store db)) \<union> (\<Union>(g, s) \<in> set (named db). set (predicates_of s))"
  note D = db_okD [OF ok]
  obtain m d where r: "reclaim_unused (dict db) E P = Some (m, d)" "dict_inv d"
    "m + resident_string_count d = resident_string_count (dict db)"
    "\<forall>ix. resolve (entities d) ix = (if ix \<in> E then resolve (entities (dict db)) ix else None)"
    "\<forall>ix. resolve (literals d) ix = (if ix + LITERAL_FIRST_ID \<in> E then resolve (literals (dict db)) ix else None)"
    "\<forall>ix. resolve (predicates d) ix = (if ix \<in> P then resolve (predicates (dict db)) ix else None)"
    "dict_in_range (dict db) \<longrightarrow> dict_in_range d"
    by (rule reclaim_spec [OF D(1)])
  let ?db = "db\<lparr>dict := d\<rparr>"
  have used: "sub i \<in> E \<and> obj i \<in> E \<and> pred i \<in> P \<and> (\<forall>g. h = Some g \<longrightarrow> g \<in> E)" if i: "i \<in> content db h" for h i
  proof (cases h)
    case None
    then show ?thesis using i D(4) ids_of_store [of "store db" i] by (simp add: content_def stores_ok_def E_def P_def)
  next
    case (Some g)
    then obtain s where s: "bm_get (named db) g = Some s" "i \<in> triples s"
      using i by (auto simp: content_def named_or_default_def store_inv_new split: option.splits)
    then have "(g, s) \<in> set (named db)" "store_inv s" using D(4) by (auto simp: stores_ok_def bm_in_iff)
    then show ?thesis using ids_of_store [of s i] s(2) Some unfolding E_def P_def by blast
  qed
  have kn: "\<forall>h. \<forall>i \<in> content db h. gknown d h i"
    using D(3) used r(4-6) unfolding gknown_def known_def by (metis (no_types, lifting))
  have cc: "content ?db = content db" by (rule content_cong) simp_all
  have shrink: "dict_ext d (dict db)" using r(4-6) by (auto simp: dict_ext_def split: if_splits)
  have "db_ok ?db" using ok r(2,7) kn tx by (simp add: db_ok_def cc) (simp add: stores_ok_def)
  moreover have "surface ?db = surface db"
    using surf_ext [OF shrink D(2) kn] by (simp add: surface_def cc)
  moreover have "db_reclaim_unused db = Some (m, ?db)"
    using r(1) by (simp add: db_reclaim_unused_def Let_def E_def P_def)
  ultimately show thesis using that by simp
qed

text \<open>The states of a database that is used as its operations need it. Reclamation is restricted to states without a transaction: inside one
  it frees ids that the undo log still holds.\<close>

inductive reachable :: "rstring \<Rightarrow> 'q Database \<Rightarrow> bool" for n :: rstring where
  reach_new: "reachable n (db_new n)"
| reach_step: "reachable n db \<Longrightarrow> db_step db db' \<Longrightarrow> reachable n db'"
| reach_begin: "reachable n db \<Longrightarrow> db_begin db = Inr db' \<Longrightarrow> reachable n db'"
| reach_commit: "reachable n db \<Longrightarrow> db_commit db = Inr db' \<Longrightarrow> reachable n db'"
| reach_rollback: "reachable n db \<Longrightarrow> db_rollback db = Inr db' \<Longrightarrow> reachable n db'"
| reach_enable_redo: "reachable n db \<Longrightarrow> reachable n (enable_redo_log db)"
| reach_reclaim: "reachable n db \<Longrightarrow> txn db = None \<Longrightarrow> db_reclaim_unused db = Some (m, db') \<Longrightarrow> reachable n db'"

lemma db_ok_same_graphs:
  assumes "db_ok db" "dict db' = dict db" "store db' = store db" "named db' = named db" "vstree db' = vstree db"
    "index_valid db' = index_valid db" "\<And>log u. txn db' = Some log \<Longrightarrow> u \<in> set log \<Longrightarrow> undo_known (dict db) u"
  shows "db_ok db'"
  using assms content_cong [OF assms(3,4)] stores_ok_cong [OF assms(3,4)] by (auto simp: db_ok_def)

lemma rollback_ok:
  assumes ok: "db_ok db" and r: "db_rollback db = Inr db'"
  shows "db_ok db' \<and> (\<exists>log. txn db = Some log \<and> content db' = fold cundo (rev log) (content db)) \<and> dict db' = dict db \<and>
    txn db' = None \<and> redo_pending db' = [] \<and> redo_file db' = redo_file db \<and> \<not> index_valid db'"
proof -
  obtain log where log: "txn db = Some log" using r by (auto simp: db_rollback_def split: option.splits)
  let ?a = "db\<lparr>txn := None, redo_pending := []\<rparr>"
  let ?f = "fold undo_op (rev log) ?a"
  have db': "db' = clear_cache (?f\<lparr>index_valid := False\<rparr>)" using r log by (simp add: db_rollback_def)
  have so: "stores_ok ?a" using ok by (simp add: db_ok_def stores_ok_def)
  have ca: "content ?a = content db" by (rule content_cong) simp_all
  note f = fold_undo_op [OF so, of "rev log"]
  have c: "content db' = fold cundo (rev log) (content db)"
    using f content_cong [of db' ?f] by (simp add: db' ca)
  have kn: "undo_known (dict db) u" if "u \<in> set log" for u using ok log that by (auto simp: db_ok_def)
  have "\<forall>g. \<forall>i \<in> fold cundo us k g. gknown (dict db) g i"
    if "\<forall>g. \<forall>i \<in> k g. gknown (dict db) g i" "\<forall>u \<in> set us. undo_known (dict db) u" for us k
    using that
  proof (induction us arbitrary: k)
    case (Cons u us)
    then have "\<forall>g. \<forall>i \<in> cundo u k g. gknown (dict db) g i" by (cases u) (auto split: if_splits)
    then show ?case using Cons by simp
  qed simp
  from this [of "content db" "rev log"] have "\<forall>g. \<forall>i \<in> content db' g. gknown (dict db) g i"
    using ok kn unfolding c db_ok_def by simp
  moreover have "stores_ok db'" using f stores_ok_cong [of db' ?f] by (simp add: db')
  ultimately have "db_ok db'" using ok by (simp add: db_ok_def db')
  then show ?thesis using log c by (simp add: db')
qed

lemma commit_ok:
  assumes "db_ok db" and "db_commit db = Inr db'"
  shows "db_ok db'"
  using assms by (intro db_ok_same_graphs [OF assms(1)]) (auto simp: db_commit_def split: if_splits)

lemma reachable_ok: "reachable n db \<Longrightarrow> db_ok db"
proof (induction rule: reachable.induct)
  case reach_new
  then show ?case by (rule db_new_ok)
next
  case (reach_step db db')
  then show ?case using db_step_logs_inverse by (auto simp: logs_inverse_def)
next
  case (reach_begin db db')
  then show ?case by (intro db_ok_same_graphs [OF reach_begin.IH]) (auto simp: db_begin_def split: if_splits)
next
  case (reach_commit db db')
  then show ?case using commit_ok by blast
next
  case (reach_rollback db db')
  then show ?case using rollback_ok by blast
next
  case (reach_enable_redo db)
  have "undo_known (dict db) u" if "txn db = Some log" "u \<in> set log" for log u
    using reach_enable_redo.IH that by (simp add: db_ok_def)
  then show ?case by (intro db_ok_same_graphs [OF reach_enable_redo.IH]) (simp_all add: enable_redo_log_def)
next
  case (reach_reclaim db m db')
  then show ?case using reclaim_ok by fastforce
qed

section \<open>Surface content of the operations\<close>

lemma surface_same_content:
  assumes "db_ok a" and "db_ok b" and "dict_ext (dict a) (dict b)" and "content b = content a"
  shows "surface b = surface a"
  using surf_ext [OF assms(3) db_okD(2) [OF assms(2)] db_okD(3) [OF assms(1)]] by (simp add: surface_def assms(4))

lemma insert_quad_surface:
  assumes "db_ok db" and "db_room (dict db)"
  shows "\<exists>db'. insert_quad db t g = Some ((g, tkey t) \<notin> surface db, db') \<and> surface db' = insert (g, tkey t) (surface db) \<and> db_ok db'"
proof -
  obtain h i db' where s: "insert_quad db t g = Some (i \<notin> content db h, db')" "db_ok db'" "dict_ext (dict db) (dict db')"
    "content db' = (content db)(h := insert i (content db h))" "names_triple (dict db') i t" "graph_name (dict db') h g"
    "txn db' = map_option (\<lambda>log. log @ (if i \<in> content db h then [] else [Del h i])) (txn db)"
    "txn db \<noteq> None \<longrightarrow> redo_file db' = redo_file db"
    by (rule insert_quad_spec [OF assms, of t g])
  note D' = db_okD [OF s(2)]
  have old: "surf (dict db') (content db) = surface db"
    unfolding surface_def by (rule surf_ext [OF s(3) D'(2) db_okD(3) [OF assms(1)]])
  have "surface db' = insert (g, tkey t) (surface db)"
    unfolding surface_def [of db'] s(4) by (simp only: surf_insert [OF D'(2) s(6,5)] old)
  moreover have "i \<in> content db h \<longleftrightarrow> (g, tkey t) \<in> surface db"
    using surf_mem [OF D'(1,2) s(6,5), of "content db"] by (simp add: old)
  ultimately show ?thesis using s(1,2) by simp
qed

lemma delete_quad_surface:
  assumes "db_ok db"
  shows "\<exists>db'. delete_quad db t g = ((g, tkey t) \<in> surface db, db') \<and> surface db' = surface db - {(g, tkey t)} \<and> db_ok db'"
proof -
  obtain b db' where r: "delete_quad db t g = (b, db')" "deletes db t g b db'"
    by (rule delete_quad_spec [OF assms, of t g])
  note D = db_okD [OF assms]
  have "surface db' = surface db - {(g, tkey t)}"
    using r(2) surf_delete [OF D(1,2), of "content db" g t] by (simp add: deletes_def surface_def)
  moreover have "b \<longleftrightarrow> (g, tkey t) \<in> surface db"
  proof
    assume b
    then show "(g, tkey t) \<in> surface db" using r(2) surfI unfolding deletes_def surface_def by metis
  next
    assume "(g, tkey t) \<in> surface db"
    then obtain g' h i u where u: "(g, tkey t) = (g', tkey u)" "graph_name (dict db) h g'" "i \<in> content db h" "names_triple (dict db) i u"
      unfolding surface_def by (rule surfE)
    then show b using r(2) names_tkey [of u t] unfolding deletes_def by auto
  qed
  ultimately show ?thesis using r by (auto simp: deletes_def logs_inverse_def)
qed

lemma unat_triple_count:
  assumes "store_inv s" and "card (triples s) < 2 ^ 64"
  shows "unat (triple_count s) = card (triples s)"
  using assms by (simp add: store_invD(7) unat_of_nat take_bit_nat_eq_self)

lemma surf_drop_graphs:
  assumes "\<And>h g. graph_name d h g \<Longrightarrow> P h \<longleftrightarrow> Q g"
  shows "surf d (\<lambda>h. if P h then {} else c h) = {q \<in> surf d c. \<not> Q (fst q)}"
proof (rule set_eqI)
  fix x
  show "x \<in> surf d (\<lambda>h. if P h then {} else c h) \<longleftrightarrow> x \<in> {q \<in> surf d c. \<not> Q (fst q)}"
  proof
    assume "x \<in> surf d (\<lambda>h. if P h then {} else c h)"
    then obtain g h i t where u: "x = (g, tkey t)" "graph_name d h g" "i \<in> (if P h then {} else c h)" "names_triple d i t"
      by (rule surfE)
    then show "x \<in> {q \<in> surf d c. \<not> Q (fst q)}" using assms surfI by (auto split: if_splits)
  next
    assume x: "x \<in> {q \<in> surf d c. \<not> Q (fst q)}"
    then have "x \<in> surf d c" by simp
    then obtain g h i t where u: "x = (g, tkey t)" "graph_name d h g" "i \<in> c h" "names_triple d i t" by (rule surfE)
    then have "\<not> P h" using x assms by auto
    then show "x \<in> surf d (\<lambda>h. if P h then {} else c h)" using u surfI [OF u(2) _ u(4)] by simp
  qed
qed

lemma card_named:
  assumes "stores_ok db" and "\<forall>h. card (content db h) < 2 ^ 64" and "bm_get (named db) g = Some s"
  shows "unat (triple_count s) = card (triples s)" "content db (Some g) = triples s"
proof -
  show "content db (Some g) = triples s" using assms(3) by (simp add: content_def named_or_default_def)
  then show "unat (triple_count s) = card (triples s)"
    using assms by (intro unat_triple_count) (auto simp: stores_ok_def dest: spec [of _ "Some g"])
qed

lemma clear_default_content:
  assumes "db_ok db" and "\<forall>h. card (content db h) < 2 ^ 64"
  shows "content (snd (clear_default db)) = (\<lambda>h. if h = None then {} else content db h)" "fst (clear_default db) = card (content db None)"
proof -
  have c: "content db None = triples (store db)" by (simp add: content_def)
  have n: "unat (triple_count (store db)) = card (triples (store db))"
    using assms c by (intro unat_triple_count) (auto simp: db_ok_def stores_ok_def dest: spec [of _ None])
  then show "fst (clear_default db) = card (content db None)" by (simp add: clear_default_def Let_def c)
  show "content (snd (clear_default db)) = (\<lambda>h. if h = None then {} else content db h)"
    using n by (auto simp: clear_default_def Let_def content_def fun_eq_iff store_inv_new split: option.splits)
qed

lemma clear_named_content:
  assumes ok: "db_ok db" and "\<forall>h. card (content db h) < 2 ^ 64"
  shows "content (snd (clear_named db gr)) = (\<lambda>h. if graph_name (dict db) h (Some gr) then {} else content db h)"
proof (cases "entity_id (dict db) (dict_key (Iri gr))")
  case None
  then have "\<not> graph_name (dict db) h (Some gr)" for h
    by (cases h) (simp_all flip: entity_id_iff [OF db_okD(1) [OF ok]])
  then show ?thesis using None by (simp add: clear_named_def)
next
  case (Some g)
  then have gn: "graph_name (dict db) h (Some gr) \<longleftrightarrow> h = Some g" for h
    by (cases h) (auto simp flip: entity_id_iff [OF db_okD(1) [OF ok]])
  show ?thesis
  proof (cases "bm_get (named db) g")
    case None
    then have "content db (Some g) = {}" by (simp add: content_def named_or_default_def store_inv_new)
    then show ?thesis using Some None by (auto simp: clear_named_def gn fun_eq_iff)
  next
    case s: (Some s)
    note cn = card_named [OF db_okD(4) [OF ok] assms(2) s]
    show ?thesis
    proof (cases "triples s = {}")
      case True
      then show ?thesis using Some s cn by (auto simp: clear_named_def gn fun_eq_iff Let_def)
    next
      case False
      then have "card (triples s) > 0" by (simp add: card_gt_0_iff)
      then show ?thesis using Some s cn
        by (auto simp: clear_named_def gn fun_eq_iff Let_def content_def named_or_default_def store_inv_new split: option.splits)
    qed
  qed
qed

lemma clear_all_named_content:
  assumes ok: "db_ok db" and "\<forall>h. card (content db h) < 2 ^ 64"
  shows "content (snd (clear_all_named db)) = (\<lambda>h. if h \<noteq> None then {} else content db h)"
proof (cases "sum_list (map (\<lambda>(g, s). unat (triple_count s)) (named db)) > 0")
  case True
  then show ?thesis
    by (auto simp: clear_all_named_def Let_def content_def fun_eq_iff named_or_default_def store_inv_new split: option.splits)
next
  case False
  have wf: "bm_wf (named db)" using db_okD(4) [OF ok] by (simp add: stores_ok_def)
  have "content db (Some g) = {}" for g
  proof (cases "bm_get (named db) g")
    case None
    then show ?thesis by (simp add: content_def named_or_default_def store_inv_new)
  next
    case (Some s)
    then have "unat (triple_count s) = 0" using False bm_in_iff [OF wf, of g s] by auto
    then show ?thesis using card_named [OF db_okD(4) [OF ok] assms(2) Some] by simp
  qed
  moreover have "snd (clear_all_named db) = db" using False by (simp only: clear_all_named_def Let_def snd_conv if_False)
  ultimately show ?thesis by (auto simp: fun_eq_iff)
qed

lemma clear_dict [simp]:
  "dict (snd (clear_default db)) = dict db" "dict (snd (clear_named db gr)) = dict db" "dict (snd (clear_all_named db)) = dict db"
  by (simp_all add: clear_default_def clear_named_def clear_all_named_def Let_def split: option.split)

section \<open>Properties\<close>

text \<open>
  C20. Every state reached from a new database by any interleaving of insertions, deletions, clears, index rebuilds, RDFS
  materializations, \<open>begin\<close>, \<open>commit\<close>, \<open>rollback\<close> and reclamations is well formed: the dictionary's maps are inverse, ids stay in their
  ranges, every stored or logged id resolves, every store's three adjacency maps agree, and the VS-tree matches the default graph
  whenever the database believes it is valid. Three restrictions on the use of the operations are needed, which the code does not
  enforce: insertions and reasoning find room in the id spaces, reclamation runs outside a transaction (inside one it breaks a later
  rollback), and no materialization types a literal by the range rule.
\<close>

theorem reachable_states_ok:
  assumes "reachable n db"
  shows "db_ok db \<and> (index_valid db \<longrightarrow> index_ok (store db) (vstree db))"
  using reachable_ok [OF assms] by (simp add: db_ok_def)

text \<open>
  C2. The database refines a set of quads. On any reachable state with room in the dictionary,
  inserting a quad succeeds, reports whether the quad was new and adds exactly that quad; deleting
  reports whether it was there and removes exactly that quad, in default and named graphs alike.
\<close>

theorem quads_refine_set:
  assumes "reachable n db"
  shows "(db_room (dict db) \<longrightarrow> (\<exists>db'. insert_quad db t g = Some ((g, tkey t) \<notin> surface db, db') \<and>
      surface db' = insert (g, tkey t) (surface db) \<and> reachable n db')) \<and>
    (\<exists>db'. delete_quad db t g = ((g, tkey t) \<in> surface db, db') \<and> surface db' = surface db - {(g, tkey t)} \<and> reachable n db')"
proof (intro conjI impI)
  note ok = reachable_ok [OF assms]
  show "\<exists>db'. insert_quad db t g = Some ((g, tkey t) \<notin> surface db, db') \<and> surface db' = insert (g, tkey t) (surface db) \<and> reachable n db'"
    if room: "db_room (dict db)"
  proof -
    obtain db' where i: "insert_quad db t g = Some ((g, tkey t) \<notin> surface db, db')" "surface db' = insert (g, tkey t) (surface db)"
      using insert_quad_surface [OF ok room, of t g] by (elim exE conjE)
    then show ?thesis using reach_step [OF assms step_insert [OF room i(1)]] by (intro exI [of _ db'] conjI)
  qed
  obtain db' where r: "delete_quad db t g = ((g, tkey t) \<in> surface db, db')" "surface db' = surface db - {(g, tkey t)}"
    using delete_quad_surface [OF ok, of t g] by (elim exE conjE)
  then show "\<exists>db'. delete_quad db t g = ((g, tkey t) \<in> surface db, db') \<and> surface db' = surface db - {(g, tkey t)} \<and> reachable n db'"
    using reach_step [OF assms step_delete [OF r(1)]] by (intro exI [of _ db'] conjI)
qed

text \<open>
  C26. \<open>CLEAR DEFAULT\<close>, \<open>CLEAR GRAPH\<close> and \<open>CLEAR NAMED\<close> remove exactly the quads of their graphs, and
  clearing the default graph reports their number, as long as no graph holds \<open>2 ^ 64\<close> triples.
\<close>

theorem clear_removes_graphs:
  assumes "reachable n db" and "\<forall>h. card (content db h) < 2 ^ 64"
  shows "surface (snd (clear_default db)) = {q \<in> surface db. fst q \<noteq> None} \<and>
    fst (clear_default db) = card (content db None) \<and>
    surface (snd (clear_named db gr)) = {q \<in> surface db. fst q \<noteq> Some gr} \<and>
    surface (snd (clear_all_named db)) = {q \<in> surface db. fst q = None}"
proof -
  note ok = reachable_ok [OF assms(1)]
  note c = clear_default_content [OF ok assms(2)] clear_named_content [OF ok assms(2), of gr] clear_all_named_content [OF ok assms(2)]
  have none: "h = None \<longleftrightarrow> g = None" if "graph_name (dict db) h g" for h g using that by (cases h) auto
  have gr: "graph_name (dict db) h (Some gr) \<longleftrightarrow> g = Some gr" if "graph_name (dict db) h g" for h g
    using that graph_name_right by blast
  have "surf (dict db) (\<lambda>h. if h = None then {} else content db h) = {q \<in> surf (dict db) (content db). \<not> fst q = None}"
    by (rule surf_drop_graphs) (rule none)
  moreover have "surf (dict db) (\<lambda>h. if graph_name (dict db) h (Some gr) then {} else content db h) =
      {q \<in> surf (dict db) (content db). \<not> fst q = Some gr}"
    by (rule surf_drop_graphs) (rule gr)
  moreover have "surf (dict db) (\<lambda>h. if h \<noteq> None then {} else content db h) = {q \<in> surf (dict db) (content db). \<not> fst q \<noteq> None}"
    by (rule surf_drop_graphs) (use none in blast)
  ultimately show ?thesis unfolding surface_def clear_dict c by simp
qed

text \<open>
  C14. Rollback restores. After any sequence of insertions, deletions, clears and index rebuilds inside
  a transaction, rolling back succeeds and gives back the default graph's store, field for field, every
  named graph and the set of quads; no transaction is open, no redo record is pending and the redo
  file is as it was.
\<close>

theorem rollback_restores:
  assumes "reachable n db" and "db_begin db = Inr a" and "db_step\<^sup>*\<^sup>* a b"
  shows "\<exists>c. db_rollback b = Inr c \<and> store c = store db \<and>
    (\<forall>g. named_or_default (named c) g = named_or_default (named db) g) \<and> surface c = surface db \<and>
    txn c = None \<and> redo_pending c = [] \<and> redo_file c = redo_file db"
proof -
  note ok = reachable_ok [OF assms(1)]
  have a: "a = db\<lparr>txn := Some []\<rparr>" using assms(2) by (simp add: db_begin_def split: if_splits)
  have ok_a: "db_ok a" using reachable_ok [OF reach_begin [OF assms(1,2)]] .
  have ca: "content a = content db" by (rule content_cong) (simp_all add: a)
  have b: "logs_inverse a b" using db_steps_logs_inverse [OF assms(3) ok_a] .
  then obtain us where us: "txn b = Some us" "fold cundo (rev us) (content b) = content db"
    by (auto simp: logs_inverse_def a ca [unfolded a])
  then obtain c where c: "db_rollback b = Inr c" by (simp add: db_rollback_def)
  have ok_b: "db_ok b" "dict_ext (dict db) (dict b)" "redo_file b = redo_file db"
    using b by (auto simp: logs_inverse_def a)
  have r: "db_ok c" "content c = content db" "dict c = dict b" "txn c = None" "redo_pending c = []" "redo_file c = redo_file db"
    using rollback_ok [OF ok_b(1) c] us ok_b(3) by auto
  have so: "stores_ok c" "stores_ok db" using r(1) ok by (simp_all add: db_ok_def)
  have "store c = store db"
    using so fun_cong [OF r(2), of None] by (intro store_eqI) (auto simp: stores_ok_def content_def)
  moreover have "named_or_default (named c) g = named_or_default (named db) g" for g
    using so fun_cong [OF r(2), of "Some g"] by (intro store_eqI) (auto simp: named_or_default_inv content_def)
  moreover have "surface c = surface db" using surface_same_content [OF ok r(1) _ r(2)] ok_b(2) r(3) by simp
  ultimately show ?thesis using c r by blast
qed

text \<open>
  C27. Reclaiming unused dictionary ids outside a transaction never fails and changes no content: both
  the stores and the set of quads they stand for stay as they are.
\<close>

theorem reclaim_keeps_quads:
  assumes "reachable n db" and "txn db = None"
  shows "\<exists>m db'. db_reclaim_unused db = Some (m, db') \<and> store db' = store db \<and> named db' = named db \<and>
    surface db' = surface db \<and> reachable n db'"
proof -
  obtain m db' where r: "db_reclaim_unused db = Some (m, db')" "db_ok db'" "store db' = store db" "named db' = named db"
    "surface db' = surface db"
    by (rule reclaim_ok [OF reachable_ok [OF assms(1)] assms(2)])
  then show ?thesis using reach_reclaim [OF assms r(1)] by blast
qed

section \<open>Witnesses\<close>

definition abc :: Triple where
  "abc = Triple (Iri (lit ''a'')) (Iri (lit ''b'')) (Iri (lit ''c''))"

definition abc_db :: "unit Database" where
  "abc_db = snd (the (insert_quad (db_new (lit ''db'')) abc None))"

lemma surface_new: "surface (db_new n) = {}"
proof -
  have "content (db_new n) h = {}" for h
    by (cases h) (simp_all add: content_def db_new_def named_or_default_def store_inv_new)
  then show ?thesis unfolding surface_def surf_def by blast
qed

lemma new_room: "db_room (dict (db_new n))"
  by (simp add: db_new_def dict_new_def db_room_def)

lemma abc_db: "insert_quad (db_new (lit ''db'')) abc None = Some (True, abc_db)" "reachable (lit ''db'') abc_db"
  "surface abc_db = {(None, tkey abc)}"
proof -
  obtain db' :: "unit Database" where i: "insert_quad (db_new (lit ''db'')) abc None = Some (True, db')" "surface db' = {(None, tkey abc)}"
    using insert_quad_surface [OF db_new_ok new_room, of "lit ''db''" abc None] by (auto simp: surface_new)
  show "reachable (lit ''db'') abc_db" using reach_step [OF reach_new step_insert [OF new_room i(1)]] i(1) by (simp add: abc_db_def)
  show "insert_quad (db_new (lit ''db'')) abc None = Some (True, abc_db)" "surface abc_db = {(None, tkey abc)}"
    using i by (simp_all add: abc_db_def)
qed

theorem reachable_states_ok_witness: "db_ok abc_db"
  using reachable_states_ok [OF abc_db(2)] by (rule conjunct1)

theorem quads_refine_set_witness:
  "\<exists>db'. delete_quad abc_db abc None = (True, db') \<and> surface db' = {} \<and> reachable (lit ''db'') db'"
  using quads_refine_set [OF abc_db(2), of abc None] by (auto simp: abc_db(3))

definition abc_dict :: Dictionary where
  "abc_dict = dict_new
    \<lparr>entities := \<lparr>forward = [(lit ''<a>'', 0), (lit ''<c>'', 1)], backward = [Some (lit ''<a>''), Some (lit ''<c>'')], free = []\<rparr>,
     predicates := \<lparr>forward = [(lit ''<b>'', 0)], backward = [Some (lit ''<b>'')], free = []\<rparr>\<rparr>"

lemma abc_keys: "dict_key (subject abc) = lit ''<a>''" "dict_key (predicate abc) = lit ''<b>''" "dict_key (object abc) = lit ''<c>''"
  "is_literal (object abc) = False" "lit ''<a>'' \<noteq> lit ''<c>''"
  by (simp_all add: abc_def dict_key_def)

lemma encode_abc: "encode_triple dict_new abc = Some (IdTriple 0 0 1, abc_dict)"
  by (simp add: encode_triple_def intern_entity_def intern_predicate_def intern_term_def abc_keys intern_def
      dict_new_def interner_default_def abc_dict_def)

lemma abc_db_fields:
  "store abc_db = snd (ts_insert ts_new (IdTriple 0 0 1))" "dict abc_db = abc_dict" "named abc_db = []"
  "txn abc_db = None" "redo_log abc_db = False" "redo_file abc_db = []" "redo_pending abc_db = []"
proof -
  have "insert_triple (db_new (lit ''db'')) abc = Some (True, abc_db)" using abc_db(1) by (simp add: insert_quad_def)
  then obtain vt where eq: "abc_db = (db_new (lit ''db''))\<lparr>dict := abc_dict, store := snd (ts_insert ts_new (IdTriple 0 0 1)), vstree := vt,
      query_cache := lru_clear (lru_new DEFAULT_QUERY_CACHE_CAP)\<rparr>"
    by (auto simp: insert_triple_def db_new_def encode_abc record_redo_def push_undo_def clear_cache_def
        split: prod.splits option.splits bool.splits if_splits) metis
  show "store abc_db = snd (ts_insert ts_new (IdTriple 0 0 1))" "dict abc_db = abc_dict" "named abc_db = []"
    "txn abc_db = None" "redo_log abc_db = False" "redo_file abc_db = []" "redo_pending abc_db = []"
    unfolding eq by (simp_all add: db_new_def)
qed

theorem clear_removes_graphs_witness: "surface (snd (clear_default abc_db)) = {} \<and> surface (snd (clear_named abc_db (lit ''g''))) = {(None, tkey abc)}"
proof -
  have "card (content abc_db h) < 2 ^ 64" for h
    using ts_insert_spec(2) [OF store_inv_new(1), of "IdTriple 0 0 1"]
    by (cases h) (simp_all add: content_def abc_db_fields named_or_default_def store_inv_new)
  then show ?thesis using clear_removes_graphs [OF abc_db(2), of "lit ''g''"] by (auto simp: abc_db(3))
qed

theorem rollback_restores_witness:
  "\<exists>a b c. db_begin abc_db = Inr a \<and> db_step\<^sup>*\<^sup>* a b \<and> surface b = {} \<and> db_rollback b = Inr c \<and> store c = store abc_db"
proof -
  obtain a where a: "db_begin abc_db = Inr a" by (simp add: db_begin_def abc_db_fields)
  have ra: "reachable (lit ''db'') a" using reach_begin [OF abc_db(2) a] .
  have "surface a = surface abc_db"
    using a content_cong [of a abc_db] by (auto simp: db_begin_def surface_def split: if_splits)
  then obtain b where b: "delete_quad a abc None = (True, b)" "surface b = {}"
    using delete_quad_surface [OF reachable_ok [OF ra], of abc None] by (auto simp: abc_db(3))
  have steps: "db_step\<^sup>*\<^sup>* a b" using step_delete [OF b(1)] by blast
  show ?thesis using rollback_restores [OF abc_db(2) a steps] a b(2) steps by blast
qed

theorem reclaim_keeps_quads_witness:
  "\<exists>m db'. db_reclaim_unused abc_db = Some (m, db') \<and> surface db' = {(None, tkey abc)}"
  using reclaim_keeps_quads [OF abc_db(2)] by (auto simp: abc_db_fields abc_db(3))

section \<open>Two gaps\<close>

lemma abc_store: "store_inv (store abc_db)" "triples (store abc_db) = {IdTriple 0 0 1}"
  using ts_insert_spec [OF store_inv_new(1), of "IdTriple 0 0 1"] by (simp_all add: abc_db_fields store_inv_new)

lemma abc_delete:
  "remove_triple (abc_db\<lparr>txn := Some []\<rparr>) abc =
    (True, clear_cache (abc_db\<lparr>txn := Some [Add None (IdTriple 0 0 1)], store := ts_new, index_valid := False\<rparr>))"
proof -
  have id: "triple_id abc_dict abc = Some (IdTriple 0 0 1)"
    by (simp add: triple_id_def abc_keys entity_id_def predicate_id_def known_term_id_def term_id_def
        interner_get_def abc_dict_def dict_new_def)
  note rem = ts_remove_spec [OF abc_store(1), of "IdTriple 0 0 1"]
  have "snd (ts_remove (store abc_db) (IdTriple 0 0 1)) = ts_new"
    by (rule store_eqI) (use rem abc_store in \<open>simp_all add: store_inv_new\<close>)
  then have "ts_remove (store abc_db) (IdTriple 0 0 1) = (True, ts_new)" using rem(1) by (simp add: abc_store prod_eq_iff)
  then show ?thesis using id
    by (simp add: remove_triple_def abc_db_fields push_undo_def record_redo_def clear_cache_def)
qed

text \<open>
  C35. Reclamation does not look at the undo log of an open transaction: when a transaction deletes the
  only triple of a database, ids are reclaimed and the transaction is rolled back, the triple is back
  in the store, but its subject, predicate and object no longer resolve to any string.
\<close>

theorem reclaim_breaks_rollback:
  "\<exists>a b m c d. reachable (lit ''db'') abc_db \<and> db_begin abc_db = Inr a \<and> delete_quad a abc None = (True, b) \<and>
    db_reclaim_unused b = Some (m, c) \<and> db_rollback c = Inr d \<and> IdTriple 0 0 1 \<in> triples (store d) \<and>
    id_to_string (dict d) 0 = None \<and> predicate_to_string (dict d) 0 = None \<and> id_to_string (dict d) 1 = None"
proof -
  let ?a = "abc_db\<lparr>txn := Some []\<rparr>"
  let ?b = "clear_cache (abc_db\<lparr>txn := Some [Add None (IdTriple 0 0 1)], store := ts_new, index_valid := False\<rparr>)"
  have inv: "dict_inv (dict abc_db)" using reachable_ok [OF abc_db(2)] by (simp add: db_ok_def)
  obtain m d where r: "reclaim_unused (dict abc_db) {} {} = Some (m, d)" "dict_inv d"
    "m + resident_string_count d = resident_string_count (dict abc_db)"
    "\<forall>ix. resolve (entities d) ix = (if ix \<in> {} then resolve (entities (dict abc_db)) ix else None)"
    "\<forall>ix. resolve (literals d) ix = (if ix + LITERAL_FIRST_ID \<in> {} then resolve (literals (dict abc_db)) ix else None)"
    "\<forall>ix. resolve (predicates d) ix = (if ix \<in> {} then resolve (predicates (dict abc_db)) ix else None)"
    "dict_in_range (dict abc_db) \<longrightarrow> dict_in_range d"
    by (rule reclaim_spec [OF inv])
  have rec: "db_reclaim_unused ?b = Some (m, ?b\<lparr>dict := d\<rparr>)"
    using r(1) by (simp add: db_reclaim_unused_def Let_def subject_keys_def object_keys_def predicates_of_def ts_new_def abc_db_fields)
  have "backing d = None" using r(2) by (simp add: dict_inv_def)
  then have gone: "id_to_string d ix = None" "predicate_to_string d ix = None" for ix
    using r(4-6) by (simp_all add: id_to_string_def predicate_to_string_def)
  have "IdTriple 0 0 1 \<in> triples (snd (ts_insert ts_new (IdTriple 0 0 1)))"
    using ts_insert_spec(2) [OF store_inv_new(1)] by simp
  then have "\<exists>e. db_rollback (?b\<lparr>dict := d\<rparr>) = Inr e \<and> IdTriple 0 0 1 \<in> triples (store e) \<and> dict e = d"
    by (simp add: db_rollback_def clear_cache_def)
  moreover have "db_begin abc_db = Inr ?a" by (simp add: db_begin_def abc_db_fields)
  moreover have "delete_quad ?a abc None = (True, ?b)" using abc_delete by (simp add: delete_quad_def)
  ultimately show ?thesis using abc_db(2) rec gone by blast
qed

text \<open>
  C36. Clearing a graph writes no redo record, although the redo log is documented to hold every
  committed mutation: with logging enabled, an inserted quad is in the log, clearing the default
  graph removes it from the database and leaves the log as it was.
\<close>

theorem clear_not_in_redo_log:
  "\<exists>db r db'. insert_quad (enable_redo_log (db_new n :: unit Database)) abc None = Some (True, db) \<and>
    redo_file db = [r] \<and> redo_op r = CHR ''I'' \<and> clear_default db = (1, db') \<and>
    surface db' = {} \<and> redo_file db' = [r] \<and> redo_pending db' = []"
proof -
  let ?e = "enable_redo_log (db_new n :: unit Database)"
  have ok: "reachable n ?e" by (rule reach_enable_redo [OF reach_new])
  have new: "content ?e = (\<lambda>_. {})" "surface ?e = {}"
  proof -
    have "content ?e = content (db_new n :: unit Database)" by (rule content_cong) (simp_all add: enable_redo_log_def)
    moreover have "content (db_new n :: unit Database) = (\<lambda>_. {})"
      by (auto simp: content_def db_new_def named_or_default_def store_inv_new fun_eq_iff split: option.splits)
    ultimately show "content ?e = (\<lambda>_. {})" by simp
    then show "surface ?e = {}" by (auto simp: surface_def surf_def)
  qed
  have room: "db_room (dict ?e)" using new_room by (simp add: enable_redo_log_def)
  obtain db where i: "insert_quad ?e abc None = Some (True, db)" "surface db = {(None, tkey abc)}" "db_ok db"
    using insert_quad_surface [OF reachable_ok [OF ok] room, of abc None] by (auto simp: new(2))
  have rdb: "reachable n db" by (rule reach_step [OF ok step_insert [OF room i(1)]])
  obtain st vt where st: "ts_insert ts_new (IdTriple 0 0 1) = (True, st)"
    and eq: "db = record_redo CHR ''I'' None (IdTriple 0 0 1) (?e\<lparr>dict := abc_dict, store := st, vstree := vt,
      query_cache := lru_clear (lru_new DEFAULT_QUERY_CACHE_CAP)\<rparr>)"
    using i(1) by (auto simp: insert_quad_def insert_triple_def db_new_def encode_abc enable_redo_log_def push_undo_def clear_cache_def
        split: prod.splits option.splits bool.splits if_splits)
  have strs: "id_to_string abc_dict 0 = Some (lit ''<a>'')" "predicate_to_string abc_dict 0 = Some (lit ''<b>'')"
    "id_to_string abc_dict 1 = Some (lit ''<c>'')"
    by (simp_all add: id_to_string_def predicate_to_string_def abc_dict_def dict_new_def resolve_def is_entity_id_def id_defs word_le_nat_alt)
  obtain r where r: "redo_file db = [r]" "redo_op r = CHR ''I''" "redo_pending db = []" "store db = st" "txn db = None"
    unfolding eq by (simp add: record_redo_def strs flush_redo_def enable_redo_log_def db_new_def Let_def)
  have ts: "triples st = {IdTriple 0 0 1}" "store_inv st"
    using ts_insert_spec [OF store_inv_new(1), of "IdTriple 0 0 1"] by (simp_all add: st store_inv_new)
  then have n: "unat (triple_count st) = 1" by (simp add: unat_triple_count)
  let ?db' = "snd (clear_default db)"
  have clr: "clear_default db = (1, ?db')" "redo_file ?db' = [r]" "redo_pending ?db' = []"
    using r n by (simp_all add: clear_default_def Let_def push_undo_def)
  have "surface ?db' \<subseteq> {q \<in> surface db. fst q \<noteq> None}"
  proof -
    have "content ?db' h \<subseteq> (if h = None then {} else content db h)" for h
      using r(4) n by (cases h) (simp_all add: clear_default_def content_def Let_def store_inv_new)
    then have "surface ?db' \<subseteq> surf (dict db) (\<lambda>h. if h = None then {} else content db h)"
      unfolding surface_def clear_dict by (rule surf_mono)
    also have "\<dots> = {q \<in> surf (dict db) (content db). \<not> fst q = None}"
    proof (rule surf_drop_graphs)
      show "h = None \<longleftrightarrow> g = None" if "graph_name (dict db) h g" for h g using that by (cases h) auto
    qed
    finally show ?thesis by (simp add: surface_def)
  qed
  then have "surface ?db' = {}" using i(2) by auto
  then show ?thesis using i(1) r(1,2) clr by blast
qed

end
