(* ===== verification/Concurrent.thy ===== *)
theory Concurrent
  imports Transactions
begin

text \<open>
  Optimistic transactions and version chains (\<open>src/concurrent.rs\<close>). Every operation that touches the
  shared state (\<open>begin_with\<close>, \<open>commit\<close>, dropping a handle, opening a view, a legacy write's
  publication) runs under the \<open>occ\<close> mutex, so each is one atomic step here. Versions are \<open>u64\<close>
  counters, modelled as natural numbers with the wrap-around of \<open>publish\<close> written out. A panic of the
  dictionary is \<open>None\<close>.
\<close>

datatype IsolationLevel = ReadUncommitted | ReadCommitted | RepeatableRead | Serializable

fun stable_snapshot :: "IsolationLevel \<Rightarrow> bool" where
  "stable_snapshot RepeatableRead = True"
| "stable_snapshot Serializable = True"
| "stable_snapshot _ = False"

fun checks_write_write :: "IsolationLevel \<Rightarrow> bool" where
  "checks_write_write RepeatableRead = True"
| "checks_write_write Serializable = True"
| "checks_write_write _ = False"

fun checks_read_write :: "IsolationLevel \<Rightarrow> bool" where
  "checks_read_write Serializable = True"
| "checks_read_write _ = False"

section \<open>Snapshots\<close>

record Snapshot =
  snap_dict :: Dictionary
  snap_store :: TripleStore
  snap_named :: "(u32, TripleStore) btree_map"
  snap_version :: nat

definition from_db :: "'q Database \<Rightarrow> nat \<Rightarrow> Snapshot" where
  "from_db db v = \<lparr>snap_dict = dict db, snap_store = store db, snap_named = named db, snap_version = v\<rparr>"

definition snapshot_contains :: "Snapshot \<Rightarrow> Triple \<Rightarrow> bool" where
  "snapshot_contains s t = (case triple_id (snap_dict s) t of
     None \<Rightarrow> False
   | Some i \<Rightarrow> ts_exists (snap_store s) (sub i) (pred i) (obj i))"

section \<open>Bookkeeping of live readers and committed write sets\<close>

datatype TxnOp = TxnInsert Triple | TxnDelete Triple

record OccState =
  history :: "(nat, rstring set) btree_map"
  live_starts :: "(nat, nat) btree_map"
  last_legacy_version :: nat

definition occ_new :: OccState where
  "occ_new = \<lparr>history = [], live_starts = [], last_legacy_version = 0\<rparr>"

definition occ_register :: "nat \<Rightarrow> OccState \<Rightarrow> OccState" where
  "occ_register v oc = oc\<lparr>live_starts :=
     bm_insert v ((case bm_get (live_starts oc) v of None \<Rightarrow> 0 | Some c \<Rightarrow> c) + 1) (live_starts oc)\<rparr>"

definition occ_deregister :: "nat \<Rightarrow> OccState \<Rightarrow> OccState" where
  "occ_deregister v oc = (case bm_get (live_starts oc) v of
     None \<Rightarrow> oc
   | Some c \<Rightarrow> if c - 1 = 0 then oc\<lparr>live_starts := bm_remove v (live_starts oc)\<rparr>
               else oc\<lparr>live_starts := bm_insert v (c - 1) (live_starts oc)\<rparr>)"

definition U64_MAX :: nat where
  "U64_MAX = 2 ^ 64 - 1"

definition gc_floor :: "OccState \<Rightarrow> nat" where
  "gc_floor oc = (case live_starts oc of [] \<Rightarrow> U64_MAX | (v, _) # _ \<Rightarrow> v)"

definition occ_gc :: "OccState \<Rightarrow> OccState" where
  "occ_gc oc = oc\<lparr>history := filter (\<lambda>(v, _). v > gc_floor oc) (history oc)\<rparr>"

section \<open>Version chains\<close>

datatype ChainOp = ChainInsert | Tombstone

record VersionRecord =
  rec_version :: nat
  rec_op :: ChainOp

record Chain =
  chain_triple :: Triple
  records :: "VersionRecord list"

definition visible :: "Chain \<Rightarrow> nat \<Rightarrow> VersionRecord option" where
  "visible c v = List.find (\<lambda>r. rec_version r \<le> v) (rev (records c))"

type_synonym VersionedStore = "(rstring \<times> Chain) list"

definition vs_record :: "nat \<Rightarrow> Triple \<Rightarrow> ChainOp \<Rightarrow> VersionedStore \<Rightarrow> VersionedStore" where
  "vs_record v t opn cs = (let key = triple_to_string t;
       c = (case map_of cs key of None \<Rightarrow> \<lparr>chain_triple = t, records = []\<rparr> | Some c \<Rightarrow> c)
     in AList.update key (c\<lparr>records := records c @ [\<lparr>rec_version = v, rec_op = opn\<rparr>]\<rparr>) cs)"

definition visible_present :: "VersionedStore \<Rightarrow> rstring \<Rightarrow> nat \<Rightarrow> bool option" where
  "visible_present cs key v = map_option (\<lambda>r. rec_op r = ChainInsert) (Option.bind (map_of cs key) (\<lambda>c. visible c v))"

fun materialize_into :: "nat \<Rightarrow> VersionedStore \<Rightarrow> Dictionary \<Rightarrow> TripleStore \<Rightarrow> (Dictionary \<times> TripleStore) option" where
  "materialize_into v [] d st = Some (d, st)"
| "materialize_into v ((k, c) # cs) d st = (case visible c v of
     None \<Rightarrow> materialize_into v cs d st
   | Some r \<Rightarrow> (case rec_op r of
       ChainInsert \<Rightarrow> (case encode_triple d (chain_triple c) of
         None \<Rightarrow> None
       | Some (i, d') \<Rightarrow> materialize_into v cs d' (snd (ts_insert st i)))
     | Tombstone \<Rightarrow> (case triple_id d (chain_triple c) of
         None \<Rightarrow> materialize_into v cs d st
       | Some i \<Rightarrow> materialize_into v cs d (snd (ts_remove st i)))))"

fun rposition :: "('a \<Rightarrow> bool) \<Rightarrow> 'a list \<Rightarrow> nat option" where
  "rposition P [] = None"
| "rposition P (x # xs) = (case rposition P xs of Some i \<Rightarrow> Some (Suc i) | None \<Rightarrow> if P x then Some 0 else None)"

definition chain_gc :: "nat \<Rightarrow> Snapshot \<Rightarrow> Chain \<Rightarrow> Chain option" where
  "chain_gc flr base c =
     (let rs = (case rposition (\<lambda>r. rec_version r \<le> flr) (records c) of None \<Rightarrow> records c | Some a \<Rightarrow> drop a (records c))
      in case rs of
        [] \<Rightarrow> None
      | [only] \<Rightarrow> if (rec_op only = ChainInsert) \<noteq> snapshot_contains base (chain_triple c)
                  then Some (c\<lparr>records := rs\<rparr>) else None
      | _ \<Rightarrow> Some (c\<lparr>records := rs\<rparr>))"

definition vs_gc :: "nat \<Rightarrow> Snapshot \<Rightarrow> VersionedStore \<Rightarrow> VersionedStore" where
  "vs_gc flr base cs = List.map_filter (\<lambda>(k, c). map_option (Pair k) (chain_gc flr base c)) cs"

section \<open>The shared database and its handles\<close>

record 'q ConcurrentDb =
  writer :: "'q Database"
  current :: Snapshot
  occ :: OccState
  base :: Snapshot
  versioned :: VersionedStore

definition cdb_new :: "'q Database \<Rightarrow> 'q ConcurrentDb" where
  "cdb_new db = \<lparr>writer = db, current = from_db db 1, occ = occ_new, base = from_db db 1, versioned = []\<rparr>"

definition cdb_version :: "'q ConcurrentDb \<Rightarrow> nat" where
  "cdb_version c = snap_version (current c)"

definition publish :: "'q Database \<Rightarrow> 'q ConcurrentDb \<Rightarrow> nat \<times> 'q ConcurrentDb" where
  "publish db c = (let nxt = (cdb_version c + 1) mod 2 ^ 64 in (nxt, c\<lparr>writer := db, current := from_db db nxt\<rparr>))"

text \<open>\<open>write\<close>: \<open>db\<close> is the database that the closure has left behind.\<close>

definition legacy_write :: "'q Database \<Rightarrow> 'q ConcurrentDb \<Rightarrow> 'q ConcurrentDb" where
  "legacy_write db c = (case publish db c of (v, c1) \<Rightarrow> c1\<lparr>occ := (occ c1)\<lparr>last_legacy_version := v\<rparr>\<rparr>)"

text \<open>\<open>update\<close>: \<open>out\<close> is what \<open>Database::query\<close> returns for the request, an error, the number of changes of an update, or another result
  (\<open>Inr None\<close>), and \<open>db\<close> the database it leaves. An error returns at once: the operations applied before it stay in the writer's database
  and nothing is published.\<close>

definition cdb_update :: "nat option gresult \<Rightarrow> 'q Database \<Rightarrow> 'q ConcurrentDb \<Rightarrow> nat gresult \<times> 'q ConcurrentDb" where
  "cdb_update out db c = (case out of
     Inl e \<Rightarrow> (Inl e, c\<lparr>writer := db\<rparr>)
   | Inr None \<Rightarrow> (Inl (Query (lit ''ConcurrentDb::update expects a SPARQL UPDATE request'')), c\<lparr>writer := db\<rparr>)
   | Inr (Some changed) \<Rightarrow> (Inr changed, legacy_write db c))"

record Txn =
  snapshot :: Snapshot
  start_version :: nat
  ops :: "TxnOp list"
  keys :: "rstring set"
  reads :: "rstring set"
  level :: IsolationLevel

definition begin_with :: "IsolationLevel \<Rightarrow> 'q ConcurrentDb \<Rightarrow> Txn \<times> 'q ConcurrentDb" where
  "begin_with lv c = (let s = current c; v = snap_version s in
     (\<lparr>snapshot = s, start_version = v, ops = [], keys = {}, reads = {}, level = lv\<rparr>,
      c\<lparr>occ := occ_register v (occ c)\<rparr>))"

definition txn_insert :: "Triple \<Rightarrow> Txn \<Rightarrow> Txn" where
  "txn_insert t x = x\<lparr>keys := insert (triple_to_string t) (keys x), ops := ops x @ [TxnInsert t]\<rparr>"

definition txn_delete :: "Triple \<Rightarrow> Txn \<Rightarrow> Txn" where
  "txn_delete t x = x\<lparr>keys := insert (triple_to_string t) (keys x), ops := ops x @ [TxnDelete t]\<rparr>"

fun own_write :: "rstring \<Rightarrow> TxnOp \<Rightarrow> bool \<Rightarrow> bool" where
  "own_write key (TxnInsert x) was = (if triple_to_string x = key then True else was)"
| "own_write key (TxnDelete x) was = (if triple_to_string x = key then False else was)"

definition txn_contains :: "'q ConcurrentDb \<Rightarrow> Txn \<Rightarrow> Triple \<Rightarrow> bool" where
  "txn_contains c x t = fold (own_write (triple_to_string t)) (ops x)
     (snapshot_contains (if stable_snapshot (level x) then snapshot x else current c) t)"

definition txn_read :: "'q ConcurrentDb \<Rightarrow> Triple \<Rightarrow> Txn \<Rightarrow> bool \<times> Txn" where
  "txn_read c t x = (txn_contains c x t, x\<lparr>reads := insert (triple_to_string t) (reads x)\<rparr>)"

text \<open>Retiring a handle pinned at a version: deregistration and both garbage collections.\<close>

definition retire :: "nat \<Rightarrow> 'q ConcurrentDb \<Rightarrow> 'q ConcurrentDb" where
  "retire v c = (let oc = occ_gc (occ_deregister v (occ c)) in
     c\<lparr>occ := oc, versioned := vs_gc (gc_floor oc) (base c) (versioned c)\<rparr>)"

definition newer_conflict :: "(nat, rstring set) btree_map \<Rightarrow> nat \<Rightarrow> rstring set \<Rightarrow> bool" where
  "newer_conflict h v ks = list_ex (\<lambda>(u, ws). u \<ge> v + 1 \<and> ks \<inter> ws \<noteq> {}) h"

definition legacy_during :: "OccState \<Rightarrow> Txn \<Rightarrow> bool" where
  "legacy_during oc x \<longleftrightarrow> checks_write_write (level x) \<and> last_legacy_version oc > start_version x"

definition ww_conflict :: "OccState \<Rightarrow> Txn \<Rightarrow> bool" where
  "ww_conflict oc x \<longleftrightarrow> checks_write_write (level x) \<and> \<not> legacy_during oc x \<and>
     newer_conflict (history oc) (start_version x) (keys x)"

definition rw_conflict :: "OccState \<Rightarrow> Txn \<Rightarrow> bool" where
  "rw_conflict oc x \<longleftrightarrow> checks_read_write (level x) \<and> \<not> legacy_during oc x \<and> \<not> ww_conflict oc x \<and>
     newer_conflict (history oc) (start_version x) (reads x)"

fun dec :: "nat \<Rightarrow> rstring" where
  "dec n = (if n < 10 then [48 + n] else dec (n div 10) @ [48 + n mod 10])"

declare dec.simps [simp del]

definition conflict_error :: "OccState \<Rightarrow> Txn \<Rightarrow> GStoreError" where
  "conflict_error oc x =
     (let kind = (if legacy_during oc x then lit ''non-transactional write''
                  else if rw_conflict oc x then lit ''committed transaction wrote a key this transaction read''
                  else lit ''committed transaction'')
      in Conflict (lit ''conflict: a '' @ kind @ lit '' after version '' @ dec (start_version x)
           @ lit '' may overlap this transaction''))"

fun apply_ops :: "'q Database \<Rightarrow> TxnOp list \<Rightarrow> 'q Database option" where
  "apply_ops db [] = Some db"
| "apply_ops db (TxnInsert t # xs) = (case insert_triple db t of None \<Rightarrow> None | Some (_, db') \<Rightarrow> apply_ops db' xs)"
| "apply_ops db (TxnDelete t # xs) = apply_ops (snd (remove_triple db t)) xs"

fun net_ops :: "TxnOp list \<Rightarrow> (rstring, Triple \<times> ChainOp) btree_map \<Rightarrow> (rstring, Triple \<times> ChainOp) btree_map" where
  "net_ops [] m = m"
| "net_ops (TxnInsert t # xs) m = net_ops xs (bm_insert (triple_to_string t) (t, ChainInsert) m)"
| "net_ops (TxnDelete t # xs) m = net_ops xs (bm_insert (triple_to_string t) (t, Tombstone) m)"

definition txn_commit :: "Txn \<Rightarrow> 'q ConcurrentDb \<Rightarrow> ((GStoreError + nat) \<times> 'q ConcurrentDb) option" where
  "txn_commit x c =
     (if legacy_during (occ c) x \<or> ww_conflict (occ c) x \<or> rw_conflict (occ c) x
      then Some (Inl (conflict_error (occ c) x), retire (start_version x) c)
      else (case apply_ops (writer c) (ops x) of
        None \<Rightarrow> None
      | Some db \<Rightarrow>
          (case publish db c of (v, c1) \<Rightarrow>
            (let vs = fold (\<lambda>(_, t, opn). vs_record v t opn) (net_ops (ops x) []) (versioned c1);
                 c2 = c1\<lparr>versioned := vs, occ := (occ c1)\<lparr>history := bm_insert v (keys x) (history (occ c1))\<rparr>\<rparr>
             in Some (Inr v, retire (start_version x) c2)))))"

definition version_view :: "'q ConcurrentDb \<Rightarrow> nat \<times> 'q ConcurrentDb" where
  "version_view c = (let v = cdb_version c in (v, c\<lparr>occ := occ_register v (occ c)\<rparr>))"

definition version_view_at :: "nat \<Rightarrow> 'q ConcurrentDb \<Rightarrow> nat \<times> 'q ConcurrentDb" where
  "version_view_at v c = (v, c\<lparr>occ := occ_register v (occ c)\<rparr>)"

definition view_contains :: "'q ConcurrentDb \<Rightarrow> nat \<Rightarrow> Triple \<Rightarrow> bool" where
  "view_contains c v t = (case visible_present (versioned c) (triple_to_string t) v of
     Some p \<Rightarrow> p | None \<Rightarrow> snapshot_contains (base c) t)"

definition view_state :: "'q ConcurrentDb \<Rightarrow> nat \<Rightarrow> (Dictionary \<times> TripleStore) option" where
  "view_state c v = materialize_into v (versioned c) (snap_dict (base c)) (snap_store (base c))"

section \<open>Point reads\<close>

definition inj_keys :: "Triple set \<Rightarrow> bool" where
  "inj_keys U \<longleftrightarrow> (\<forall>t \<in> U. \<forall>u \<in> U. triple_to_string t = triple_to_string u \<longrightarrow> tkey t = tkey u)"

lemma tkey_string: "tkey t = tkey u \<Longrightarrow> triple_to_string t = triple_to_string u"
  by (simp add: tkey_def triple_to_string_def dict_key_def)

lemma string_tkey_iff:
  assumes "inj_keys U" and "t \<in> U" and "u \<in> U"
  shows "triple_to_string t = triple_to_string u \<longleftrightarrow> tkey u = tkey t"
  using assms tkey_string [of u t] unfolding inj_keys_def by metis

lemma triple_id_tkey:
  assumes "tkey t = tkey u"
  shows "triple_id d t = triple_id d u"
proof -
  have "dict_key (subject t) = dict_key (subject u)" "dict_key (predicate t) = dict_key (predicate u)"
    "is_literal (object t) = is_literal (object u)" "dict_key (object t) = dict_key (object u)"
    using assms by (simp_all add: tkey_def)
  then show ?thesis by (simp only: triple_id_def known_term_id_def term_id_def)
qed

lemma contains_tkey:
  assumes "tkey t = tkey u"
  shows "snapshot_contains s t = snapshot_contains s u"
  by (simp only: snapshot_contains_def triple_id_tkey [OF assms])

lemma contains_from_db: "snapshot_contains (from_db db v) t = present db t"
  by (simp add: snapshot_contains_def from_db_def present_def split: option.split)

lemma present_surface:
  assumes "db_ok db"
  shows "present db t \<longleftrightarrow> (None, tkey t) \<in> surface db"
proof -
  have gn: "graph_name (dict db) h None \<longleftrightarrow> h = None" for h by (cases h) auto
  have "(None, tkey t) \<in> surface db \<longleftrightarrow> (\<exists>i u. i \<in> content db None \<and> names_triple (dict db) i u \<and> tkey t = tkey u)"
    by (auto simp: surface_def surf_def gn)
  also have "\<dots> \<longleftrightarrow> (\<exists>i \<in> triples (store db). names_triple (dict db) i t)"
    using names_tkey [of t] unfolding content_def option.case by metis
  finally show ?thesis by (simp add: present_iff [OF assms])
qed

lemma present_insert:
  assumes "db_ok db" and "db_room (dict db)" and "insert_triple db t = Some (b, db')"
  shows "db_ok db' \<and> (\<forall>u. present db' u \<longleftrightarrow> present db u \<or> tkey u = tkey t)"
proof -
  have "insert_quad db t None = Some (b, db')" using assms(3) by (simp add: insert_quad_def)
  then have "surface db' = insert (None, tkey t) (surface db)" "db_ok db'"
    using insert_quad_surface [OF assms(1,2), of t None] by auto
  then show ?thesis by (auto simp: present_surface assms(1))
qed

lemma present_remove:
  assumes "db_ok db"
  shows "db_ok (snd (remove_triple db t)) \<and> (\<forall>u. present (snd (remove_triple db t)) u \<longleftrightarrow> present db u \<and> tkey u \<noteq> tkey t)"
proof -
  obtain db' where "delete_quad db t None = ((None, tkey t) \<in> surface db, db')" "surface db' = surface db - {(None, tkey t)}" "db_ok db'"
    using delete_quad_surface [OF assms, of t None] by auto
  then show ?thesis using assms by (auto simp: present_surface delete_quad_def)
qed

text \<open>Room in the dictionary for every insertion of a transaction.\<close>

fun ops_room :: "'q Database \<Rightarrow> TxnOp list \<Rightarrow> bool" where
  "ops_room db [] = True"
| "ops_room db (TxnInsert t # xs) = (db_room (dict db) \<and> (\<forall>b db'. insert_triple db t = Some (b, db') \<longrightarrow> ops_room db' xs))"
| "ops_room db (TxnDelete t # xs) = ops_room (snd (remove_triple db t)) xs"

fun op_triple :: "TxnOp \<Rightarrow> Triple" where
  "op_triple (TxnInsert t) = t"
| "op_triple (TxnDelete t) = t"

lemma apply_ops_spec:
  assumes "inj_keys U" and "db_ok db" and "ops_room db xs" and "op_triple ` set xs \<subseteq> U"
  shows "\<exists>db'. apply_ops db xs = Some db' \<and> db_ok db' \<and>
    (\<forall>u \<in> U. present db' u = fold (own_write (triple_to_string u)) xs (present db u))"
  using assms(2-4)
proof (induction db xs rule: apply_ops.induct)
  case (2 db t xs)
  have room: "db_room (dict db)" using "2.prems"(2) by simp
  obtain b db1 where i: "insert_triple db t = Some (b, db1)"
    using insert_quad_surface [OF "2.prems"(1) room, of t None] by (auto simp: insert_quad_def)
  note p = present_insert [OF "2.prems"(1) room i]
  have t: "t \<in> U" and xs: "op_triple ` set xs \<subseteq> U" using "2.prems"(3) by auto
  have "ops_room db1 xs" using "2.prems"(2) i by simp
  then obtain db' where r: "apply_ops db1 xs = Some db'" "db_ok db'"
    "\<forall>u \<in> U. present db' u = fold (own_write (triple_to_string u)) xs (present db1 u)"
    using "2.IH" [OF i refl conjunct1 [OF p] _ xs] by auto
  have "own_write (triple_to_string u) (TxnInsert t) (present db u) = present db1 u" if "u \<in> U" for u
    using p string_tkey_iff [OF assms(1) t that] by simp
  then show ?case using r i by auto
next
  case (3 db t xs)
  note p = present_remove [OF "3.prems"(1), of t]
  have t: "t \<in> U" and xs: "op_triple ` set xs \<subseteq> U" using "3.prems"(3) by auto
  obtain db' where r: "apply_ops (snd (remove_triple db t)) xs = Some db'" "db_ok db'"
    "\<forall>u \<in> U. present db' u = fold (own_write (triple_to_string u)) xs (present (snd (remove_triple db t)) u)"
    using "3.IH" [OF conjunct1 [OF p] _ xs] "3.prems"(2) by auto
  have "own_write (triple_to_string u) (TxnDelete t) (present db u) = present (snd (remove_triple db t)) u" if "u \<in> U" for u
    using p string_tkey_iff [OF assms(1) t that] by simp
  then show ?case using r by auto
qed simp

section \<open>Net effect of a transaction\<close>

definition net_value :: "(rstring, Triple \<times> ChainOp) btree_map \<Rightarrow> rstring \<Rightarrow> bool \<Rightarrow> bool" where
  "net_value m k b = (case bm_get m k of None \<Rightarrow> b | Some (t, opn) \<Rightarrow> opn = ChainInsert)"

lemma net_value_insert: "net_value (bm_insert j (t, opn) m) k b = (if j = k then opn = ChainInsert else net_value m k b)"
  by (simp add: net_value_def)

lemma net_ops_value: "net_value (net_ops xs m) k b = fold (own_write k) xs (net_value m k b)"
  by (induction xs m rule: net_ops.induct) (simp_all add: net_value_insert)

definition net_wf :: "Triple set \<Rightarrow> (rstring, Triple \<times> ChainOp) btree_map \<Rightarrow> bool" where
  "net_wf U m \<longleftrightarrow> bm_wf m \<and> (\<forall>k t opn. bm_get m k = Some (t, opn) \<longrightarrow> t \<in> U \<and> k = triple_to_string t)"

lemma net_wf_insert: "net_wf U m \<Longrightarrow> t \<in> U \<Longrightarrow> net_wf U (bm_insert (triple_to_string t) (t, opn) m)"
  unfolding net_wf_def by (simp split: if_splits)

lemma net_ops_wf: "net_wf U m \<Longrightarrow> op_triple ` set xs \<subseteq> U \<Longrightarrow> net_wf U (net_ops xs m)"
  by (induction xs m rule: net_ops.induct) (simp_all add: net_wf_insert)

section \<open>The contract of a version store\<close>

text \<open>
  A multi-version map from keys to presence: writing a set of keys at a fresh version changes what
  readers at or above that version see, and collecting garbage below a floor changes nothing for
  readers at or above the floor or the newest version.
\<close>

locale version_store =
  fixes wf :: "nat \<Rightarrow> 'c \<Rightarrow> bool"
    and keydom :: "'k set"
    and look :: "'c \<Rightarrow> 'k \<Rightarrow> nat \<Rightarrow> bool"
    and put :: "nat \<Rightarrow> 'm \<Rightarrow> 'c \<Rightarrow> 'c"
    and change :: "'m \<Rightarrow> 'k \<Rightarrow> bool \<Rightarrow> bool"
    and mwf :: "'m \<Rightarrow> bool"
    and collect :: "nat \<Rightarrow> 'c \<Rightarrow> 'c"
  assumes put_wf: "wf n c \<Longrightarrow> n < n' \<Longrightarrow> mwf m \<Longrightarrow> wf n' (put n' m c)"
    and put_look: "wf n c \<Longrightarrow> n < n' \<Longrightarrow> mwf m \<Longrightarrow> k \<in> keydom \<Longrightarrow>
      look (put n' m c) k v = (if n' \<le> v then change m k (look c k v) else look c k v)"
    and collect_wf: "wf n c \<Longrightarrow> wf n (collect f c)"
    and collect_look: "wf n c \<Longrightarrow> k \<in> keydom \<Longrightarrow> min f n \<le> v \<Longrightarrow> look (collect f c) k v = look c k v"
begin

text \<open>A commit at version \<open>n + 1\<close> followed by a collection, seen by a reader above the new floor.\<close>

lemma commit_look:
  assumes "wf n c" and "mwf m" and "k \<in> keydom" and "\<forall>u \<ge> lo. look c k u = A u" and "lo \<le> min f (Suc n)" and "min f (Suc n) \<le> v"
  shows "look (collect f (put (Suc n) m c)) k v = (if Suc n \<le> v then change m k (A v) else A v)"
proof -
  have lk: "look c k v = A v" using assms(4-6) order_trans by blast
  have "look (collect f (put (Suc n) m c)) k v = look (put (Suc n) m c) k v"
    using assms(1-3,6) put_wf by (intro collect_look) auto
  then show ?thesis using put_look [OF assms(1) lessI assms(2,3), of v] by (simp only: lk)
qed

lemma collect_look_above:
  assumes "wf n c" and "k \<in> keydom" and "\<forall>u \<ge> lo. look c k u = A u" and "lo \<le> min f n" and "min f n \<le> v"
  shows "look (collect f c) k v = A v"
proof -
  have "look c k v = A v" using assms(3-5) order_trans by blast
  then show ?thesis using collect_look [OF assms(1,2,5)] by simp
qed

end

section \<open>Version chains satisfy it\<close>

definition chains_wf :: "Triple set \<Rightarrow> nat \<Rightarrow> VersionedStore \<Rightarrow> bool" where
  "chains_wf U n cs \<longleftrightarrow> distinct (map fst cs) \<and>
     (\<forall>k c. map_of cs k = Some c \<longrightarrow> chain_triple c \<in> U \<and> k = triple_to_string (chain_triple c) \<and>
        (\<forall>r \<in> set (records c). rec_version r \<le> n))"

definition lookup :: "Snapshot \<Rightarrow> VersionedStore \<Rightarrow> Triple \<Rightarrow> nat \<Rightarrow> bool" where
  "lookup bs cs t v = (case visible_present cs (triple_to_string t) v of Some p \<Rightarrow> p | None \<Rightarrow> snapshot_contains bs t)"

definition record_all :: "nat \<Rightarrow> (rstring, Triple \<times> ChainOp) btree_map \<Rightarrow> VersionedStore \<Rightarrow> VersionedStore" where
  "record_all n m cs = fold (\<lambda>(_, t, opn). vs_record n t opn) m cs"

lemma record_visible:
  "visible_present (vs_record n t opn cs) k v =
    (if k = triple_to_string t \<and> n \<le> v then Some (opn = ChainInsert) else visible_present cs k v)"
  by (auto simp: visible_present_def vs_record_def Let_def update_conv visible_def split: option.splits)

lemma record_chains_wf:
  assumes "chains_wf U n cs" and "n \<le> n'" and "t \<in> U"
  shows "chains_wf U n' (vs_record n' t opn cs)"
proof -
  have "distinct (map fst (vs_record n' t opn cs))" using assms(1) by (simp add: vs_record_def Let_def chains_wf_def distinct_update)
  moreover have "chain_triple c \<in> U \<and> k = triple_to_string (chain_triple c) \<and> (\<forall>r \<in> set (records c). rec_version r \<le> n')"
    if m: "map_of (vs_record n' t opn cs) k = Some c" for k c
  proof (cases "k = triple_to_string t")
    case False
    then have "map_of cs k = Some c" using m by (simp add: vs_record_def Let_def update_conv)
    then show ?thesis using assms(1,2) unfolding chains_wf_def by fastforce
  next
    case True
    show ?thesis
    proof (cases "map_of cs k")
      case None
      then have "c = \<lparr>chain_triple = t, records = [\<lparr>rec_version = n', rec_op = opn\<rparr>]\<rparr>"
        using m True by (simp add: vs_record_def Let_def update_conv)
      then show ?thesis using assms(3) True by simp
    next
      case (Some c0)
      then have "c = c0\<lparr>records := records c0 @ [\<lparr>rec_version = n', rec_op = opn\<rparr>]\<rparr>"
        using m True by (simp add: vs_record_def Let_def update_conv)
      moreover have "chain_triple c0 \<in> U" "k = triple_to_string (chain_triple c0)" "\<forall>r \<in> set (records c0). rec_version r \<le> n'"
        using assms(1,2) Some unfolding chains_wf_def by fastforce+
      ultimately show ?thesis by auto
    qed
  qed
  ultimately show ?thesis by (simp add: chains_wf_def)
qed

lemma record_all_spec:
  assumes "chains_wf U n cs" and "n \<le> n'" and "distinct (map fst m)" and "\<forall>(k, t, opn) \<in> set m. t \<in> U \<and> k = triple_to_string t"
  shows "chains_wf U n' (record_all n' m cs) \<and> (\<forall>k v. visible_present (record_all n' m cs) k v =
    (if n' \<le> v then (case map_of m k of None \<Rightarrow> visible_present cs k v | Some (t, opn) \<Rightarrow> Some (opn = ChainInsert))
     else visible_present cs k v))"
  using assms
proof (induction m arbitrary: cs n)
  case Nil
  then have "chains_wf U n' cs" unfolding chains_wf_def by fastforce
  then show ?case by (simp add: record_all_def)
next
  case (Cons e m)
  obtain k t opn where e: "e = (k, t, opn)" by (cases e) auto
  have t: "t \<in> U" "k = triple_to_string t" using Cons.prems(4) e by auto
  have wf: "chains_wf U n' (vs_record n' t opn cs)" using record_chains_wf [OF Cons.prems(1,2) t(1)] .
  have step: "record_all n' (e # m) cs = record_all n' m (vs_record n' t opn cs)" by (simp add: record_all_def e)
  have "map_of m k = None" using Cons.prems(3) e by (simp add: map_of_eq_None_iff)
  then show ?case
    using Cons.IH [OF wf order_refl] Cons.prems(3,4) t(2) unfolding step
    by (auto simp: record_visible e split: option.splits)
qed

lemma rposition_Some: "rposition P xs = Some a \<Longrightarrow> a < length xs \<and> P (xs ! a)"
  by (induction xs arbitrary: a) (auto split: option.splits if_splits)

lemma find_append: "List.find P (xs @ ys) = (case List.find P xs of Some x \<Rightarrow> Some x | None \<Rightarrow> List.find P ys)"
  by (induction xs) auto

lemma visible_drop:
  assumes "a < length (records c)" and "rec_version (records c ! a) \<le> v"
  shows "visible (c\<lparr>records := drop a (records c)\<rparr>) v = visible c v"
proof -
  have "rev (records c) = rev (drop a (records c)) @ rev (take a (records c))" by (simp flip: rev_append)
  moreover have "List.find (\<lambda>r. rec_version r \<le> v) (rev (drop a (records c))) \<noteq> None"
  proof -
    have "records c ! a \<in> set (drop a (records c))" using assms(1) by (metis Cons_nth_drop_Suc list.set_intros(1))
    then show ?thesis using assms(2) by (auto simp: find_None_iff)
  qed
  ultimately show ?thesis by (auto simp: visible_def find_append)
qed

lemma chain_gc_visible:
  assumes "\<forall>r \<in> set (records c). rec_version r \<le> n" and "min f n \<le> v"
  shows "(case chain_gc f bs c of None \<Rightarrow> (case visible c v of None \<Rightarrow> True | Some r \<Rightarrow> (rec_op r = ChainInsert) = snapshot_contains bs (chain_triple c))
    | Some c' \<Rightarrow> chain_triple c' = chain_triple c \<and> set (records c') \<subseteq> set (records c) \<and> visible c' v = visible c v)"
proof -
  define rs where "rs = (case rposition (\<lambda>r. rec_version r \<le> f) (records c) of None \<Rightarrow> records c | Some a \<Rightarrow> drop a (records c))"
  have sub: "set rs \<subseteq> set (records c)" by (auto simp: rs_def dest: in_set_dropD split: option.splits)
  have vis: "visible (c\<lparr>records := rs\<rparr>) v = visible c v"
  proof (cases "rposition (\<lambda>r. rec_version r \<le> f) (records c)")
    case (Some a)
    then have a: "a < length (records c)" "rec_version (records c ! a) \<le> f" using rposition_Some by fastforce+
    moreover have "rec_version (records c ! a) \<le> n" using assms(1) a(1) by simp
    ultimately have "rec_version (records c ! a) \<le> v" using assms(2) by linarith
    then show ?thesis using visible_drop [OF a(1)] Some by (simp add: rs_def)
  qed (simp add: rs_def)
  have gc: "chain_gc f bs c = (case rs of [] \<Rightarrow> None
      | [only] \<Rightarrow> if (rec_op only = ChainInsert) \<noteq> snapshot_contains bs (chain_triple c) then Some (c\<lparr>records := rs\<rparr>) else None
      | _ \<Rightarrow> Some (c\<lparr>records := rs\<rparr>))"
    by (simp only: chain_gc_def rs_def Let_def)
  show ?thesis
  proof (cases rs)
    case Nil
    then have "visible c v = None" using vis by (simp add: visible_def)
    then show ?thesis using Nil by (simp add: gc)
  next
    case (Cons r rs')
    show ?thesis
    proof (cases rs')
      case Nil
      then have "visible (c\<lparr>records := rs\<rparr>) v = (if rec_version r \<le> v then Some r else None)"
        using Cons by (simp add: visible_def)
      then have "visible c v = (if rec_version r \<le> v then Some r else None)" using vis by simp
      then show ?thesis using Nil Cons sub vis by (auto simp: gc)
    next
      case (Cons r' rs'')
      then show ?thesis using \<open>rs = r # rs'\<close> sub vis by (simp add: gc)
    qed
  qed
qed

lemma map_of_vs_gc:
  assumes "distinct (map fst cs)"
  shows "map_of (vs_gc f bs cs) k = Option.bind (map_of cs k) (chain_gc f bs)" "distinct (map fst (vs_gc f bs cs))"
proof -
  have "fst ` set (vs_gc f bs cs) \<subseteq> fst ` set cs" for cs
    by (induction cs) (auto simp: vs_gc_def List.map_filter_simps split: option.splits)
  then have "map_of (vs_gc f bs cs) k = Option.bind (map_of cs k) (chain_gc f bs) \<and> distinct (map fst (vs_gc f bs cs))"
    using assms
  proof (induction cs)
    case (Cons e cs)
    obtain j c where e: "e = (j, c)" by (cases e)
    have "j \<notin> fst ` set (vs_gc f bs cs)" using Cons.prems e by force
    moreover have "map_of cs j = None" using Cons.prems(2) e by (simp add: map_of_eq_None_iff)
    ultimately show ?case using Cons e
      by (cases "chain_gc f bs c") (auto simp: vs_gc_def List.map_filter_simps)
  qed (simp add: vs_gc_def List.map_filter_simps)
  then show "map_of (vs_gc f bs cs) k = Option.bind (map_of cs k) (chain_gc f bs)" "distinct (map fst (vs_gc f bs cs))"
    by blast+
qed

lemma vs_gc_lookup:
  assumes wf: "chains_wf U n cs" and inj: "inj_keys U" and t: "t \<in> U" and v: "min f n \<le> v"
  shows "lookup bs (vs_gc f bs cs) t v = lookup bs cs t v"
proof (cases "map_of cs (triple_to_string t)")
  case None
  then show ?thesis using wf by (simp add: lookup_def visible_present_def map_of_vs_gc chains_wf_def)
next
  case (Some c)
  then have c: "chain_triple c \<in> U" "triple_to_string t = triple_to_string (chain_triple c)" "\<forall>r \<in> set (records c). rec_version r \<le> n"
    using wf by (auto simp: chains_wf_def)
  have "snapshot_contains bs (chain_triple c) = snapshot_contains bs t"
    using string_tkey_iff [OF inj t c(1)] c(2) by (intro contains_tkey) simp
  then show ?thesis using chain_gc_visible [OF c(3) v, of bs] Some wf
    by (auto simp: lookup_def visible_present_def map_of_vs_gc chains_wf_def split: option.splits)
qed

lemma vs_gc_chains_wf:
  assumes "chains_wf U n cs"
  shows "chains_wf U n (vs_gc f bs cs)"
proof -
  have "chain_triple c' = chain_triple c \<and> set (records c') \<subseteq> set (records c)"
    if "chain_gc f bs c = Some c'" "\<forall>r \<in> set (records c). rec_version r \<le> n" for c c'
    using chain_gc_visible [of c n f n bs] that by simp
  then show ?thesis using assms by (auto simp: chains_wf_def map_of_vs_gc bind_eq_Some_conv) blast
qed

interpretation chains: version_store "\<lambda>n cs. inj_keys U \<and> chains_wf U n cs" U "lookup bs"
    record_all "\<lambda>m t. net_value m (triple_to_string t)" "net_wf U" "\<lambda>f. vs_gc f bs"
  for U :: "Triple set" and bs :: Snapshot
proof unfold_locales
  fix n n' cs m
  assume wf: "inj_keys U \<and> chains_wf U n cs" and lt: "n < n'" and m: "net_wf U m"
  have ent: "distinct (map fst m)" "\<forall>(k, t, opn) \<in> set m. t \<in> U \<and> k = triple_to_string t"
  proof -
    have wfm: "bm_wf m" using m by (simp add: net_wf_def)
    then show "distinct (map fst m)" by (simp add: bm_wf_distinct)
    show "\<forall>(k, t, opn) \<in> set m. t \<in> U \<and> k = triple_to_string t"
    proof
      fix e assume e: "e \<in> set m"
      obtain k t opn where kt: "e = (k, t, opn)" by (cases e) auto
      then have "bm_get m k = Some (t, opn)" using e bm_in_iff [OF wfm] by blast
      then show "case e of (k, t, opn) \<Rightarrow> t \<in> U \<and> k = triple_to_string t" using m kt unfolding net_wf_def by simp blast
    qed
  qed
  note r = record_all_spec [OF conjunct2 [OF wf] less_imp_le [OF lt] ent]
  show "inj_keys U \<and> chains_wf U n' (record_all n' m cs)" using r wf by blast
  fix t v
  show "lookup bs (record_all n' m cs) t v =
      (if n' \<le> v then net_value m (triple_to_string t) (lookup bs cs t v) else lookup bs cs t v)"
    using conjunct2 [OF r] by (simp add: lookup_def net_value_def split: option.split prod.split)
qed (use vs_gc_lookup vs_gc_chains_wf in blast)+

end
