(* ===== verification/Isolation.thy ===== *)
theory Isolation
  imports Concurrent
begin

text \<open>
  Interleavings of any number of transactions, version-pinned readers and legacy writers on one
  \<open>ConcurrentDb\<close> (\<open>src/concurrent.rs\<close>). A state is the shared database, the live handles, and two
  ghost maps that the program does not keep: what every version committed and the snapshot every
  version published. A third ghost, \<open>leaks\<close>, holds the versions that also published what a failed update had left in the writer's
  database. The invariants relate the garbage-collected bookkeeping to the ghost maps.
\<close>

datatype Handle = HTxn Txn | HView nat

fun pin :: "Handle \<Rightarrow> nat" where
  "pin (HTxn x) = start_version x"
| "pin (HView v) = v"

datatype Commit = Legacy | Tx "rstring set" "(rstring, Triple \<times> ChainOp) btree_map"

record 'q World =
  shared :: "'q ConcurrentDb"
  live :: "Handle list"
  commits :: "nat \<Rightarrow> Commit option"
  snaps :: "nat \<Rightarrow> Snapshot option"
  leaks :: "nat set"

definition world_new :: "'q Database \<Rightarrow> 'q World" where
  "world_new db = \<lparr>shared = cdb_new db, live = [], commits = Map.empty, snaps = [1 \<mapsto> from_db db 1], leaks = {}\<rparr>"

definition remove_nth :: "nat \<Rightarrow> 'a list \<Rightarrow> 'a list" where
  "remove_nth i xs = take i xs @ drop (Suc i) xs"

text \<open>The published snapshot is the writer's database.\<close>

definition in_sync :: "'q ConcurrentDb \<Rightarrow> bool" where
  "in_sync c \<longleftrightarrow> current c = from_db (writer c) (cdb_version c)"

text \<open>
  One atomic step. \<open>lg\<close> tells whether legacy writers take part, \<open>U\<close> is the set of triples the
  transactions write. A commit or legacy write needs room for one more version number. An update that fails leaves an arbitrary
  consistent database to the writer.
\<close>

inductive cstep :: "bool \<Rightarrow> Triple set \<Rightarrow> 'q World \<Rightarrow> 'q World \<Rightarrow> bool" for lg :: bool and U :: "Triple set" where
  step_begin: "begin_with lv (shared w) = (x, c) \<Longrightarrow> cstep lg U w (w\<lparr>shared := c, live := HTxn x # live w\<rparr>)"
| step_txn_insert: "i < length (live w) \<Longrightarrow> live w ! i = HTxn x \<Longrightarrow> t \<in> U \<Longrightarrow>
    cstep lg U w (w\<lparr>live := (live w)[i := HTxn (txn_insert t x)]\<rparr>)"
| step_txn_delete: "i < length (live w) \<Longrightarrow> live w ! i = HTxn x \<Longrightarrow> t \<in> U \<Longrightarrow>
    cstep lg U w (w\<lparr>live := (live w)[i := HTxn (txn_delete t x)]\<rparr>)"
| step_txn_read: "i < length (live w) \<Longrightarrow> live w ! i = HTxn x \<Longrightarrow>
    cstep lg U w (w\<lparr>live := (live w)[i := HTxn (snd (txn_read (shared w) t x))]\<rparr>)"
| step_commit: "i < length (live w) \<Longrightarrow> live w ! i = HTxn x \<Longrightarrow> ops_room (writer (shared w)) (ops x) \<Longrightarrow>
    cdb_version (shared w) + 1 < U64_MAX \<Longrightarrow> txn_commit x (shared w) = Some (Inr v, c) \<Longrightarrow>
    cstep lg U w (w\<lparr>shared := c, live := remove_nth i (live w),
      commits := (commits w)(v \<mapsto> Tx (keys x) (net_ops (ops x) [])), snaps := (snaps w)(v \<mapsto> current c),
      leaks := (if in_sync (shared w) then leaks w else insert v (leaks w))\<rparr>)"
| step_abort: "i < length (live w) \<Longrightarrow> live w ! i = HTxn x \<Longrightarrow> txn_commit x (shared w) = Some (Inl e, c) \<Longrightarrow>
    cstep lg U w (w\<lparr>shared := c, live := remove_nth i (live w)\<rparr>)"
| step_drop: "i < length (live w) \<Longrightarrow>
    cstep lg U w (w\<lparr>shared := retire (pin (live w ! i)) (shared w), live := remove_nth i (live w)\<rparr>)"
| step_view: "version_view (shared w) = (v, c) \<Longrightarrow> cstep lg U w (w\<lparr>shared := c, live := HView v # live w\<rparr>)"
| step_view_at: "version_view_at v (shared w) = (v, c) \<Longrightarrow> min (gc_floor (occ (shared w))) (cdb_version (shared w)) \<le> v \<Longrightarrow>
    v \<le> cdb_version (shared w) \<Longrightarrow>
    cstep lg U w (w\<lparr>shared := c, live := HView v # live w\<rparr>)"
| step_legacy: "lg \<Longrightarrow> db_ok db \<Longrightarrow> cdb_version (shared w) + 1 < U64_MAX \<Longrightarrow> c = legacy_write db (shared w) \<Longrightarrow>
    cstep lg U w (w\<lparr>shared := c, commits := (commits w)(cdb_version c \<mapsto> Legacy), snaps := (snaps w)(cdb_version c \<mapsto> current c)\<rparr>)"
| step_update_error: "lg \<Longrightarrow> db_ok db \<Longrightarrow> cdb_update out db (shared w) = (Inl e, c) \<Longrightarrow> cstep lg U w (w\<lparr>shared := c\<rparr>)"

inductive creach :: "bool \<Rightarrow> Triple set \<Rightarrow> 'q World \<Rightarrow> bool" for lg :: bool and U :: "Triple set" where
  creach_new: "db_ok db \<Longrightarrow> creach lg U (world_new db)"
| creach_step: "creach lg U w \<Longrightarrow> cstep lg U w w' \<Longrightarrow> creach lg U w'"

section \<open>Live pins\<close>

definition pins_at :: "Handle list \<Rightarrow> nat \<Rightarrow> nat" where
  "pins_at hs v = length (filter (\<lambda>h. pin h = v) hs)"

definition pins_ok :: "Handle list \<Rightarrow> OccState \<Rightarrow> nat \<Rightarrow> bool" where
  "pins_ok hs oc n \<longleftrightarrow> bm_wf (live_starts oc) \<and> (\<forall>h \<in> set hs. pin h \<le> n) \<and>
     (\<forall>v. bm_get (live_starts oc) v = (if pins_at hs v = 0 then None else Some (pins_at hs v)))"

lemma pins_at_pos: "pins_at hs v > 0 \<longleftrightarrow> (\<exists>h \<in> set hs. pin h = v)"
  by (auto simp: pins_at_def filter_empty_conv)

lemma pins_remove:
  assumes "i < length hs"
  shows "pins_at hs v = pins_at (remove_nth i hs) v + (if pin (hs ! i) = v then 1 else 0)" "set (remove_nth i hs) \<subseteq> set hs"
proof -
  have "hs = take i hs @ hs ! i # drop (Suc i) hs" using assms by (simp add: id_take_nth_drop)
  then have "pins_at hs v = pins_at (take i hs @ hs ! i # drop (Suc i) hs) v" by simp
  then show "pins_at hs v = pins_at (remove_nth i hs) v + (if pin (hs ! i) = v then 1 else 0)"
    by (simp add: pins_at_def remove_nth_def)
  show "set (remove_nth i hs) \<subseteq> set hs" using assms by (auto simp: remove_nth_def dest: in_set_takeD in_set_dropD)
qed

lemma pins_update: "i < length hs \<Longrightarrow> pin h = pin (hs ! i) \<Longrightarrow> pins_at (hs[i := h]) v = pins_at hs v"
proof -
  assume a: "i < length hs" "pin h = pin (hs ! i)"
  then have "hs = take i hs @ hs ! i # drop (Suc i) hs" by (simp add: id_take_nth_drop)
  then have "pins_at hs v = pins_at (take i hs @ hs ! i # drop (Suc i) hs) v" by simp
  then show ?thesis using a by (simp add: upd_conv_take_nth_drop pins_at_def)
qed

lemma register_pins:
  assumes "pins_ok hs oc n" and "v \<le> n" and "pin h = v"
  shows "pins_ok (h # hs) (occ_register v oc) n"
  using assms by (auto simp: pins_ok_def occ_register_def pins_at_def)

lemma deregister_pins:
  assumes "pins_ok hs oc n" and "i < length hs"
  shows "pins_ok (remove_nth i hs) (occ_deregister (pin (hs ! i)) oc) n"
proof -
  note r = pins_remove [OF assms(2)]
  have "bm_get (live_starts oc) (pin (hs ! i)) = Some (pins_at (remove_nth i hs) (pin (hs ! i)) + 1)"
    using assms(1) r(1) [of "pin (hs ! i)"] by (auto simp: pins_ok_def)
  then show ?thesis using assms(1) r by (auto simp: pins_ok_def occ_deregister_def)
qed

lemma floor_le_pin:
  assumes "pins_ok hs oc n" and "h \<in> set hs"
  shows "gc_floor oc \<le> pin h"
proof -
  have "bm_get (live_starts oc) (pin h) \<noteq> None" using assms pins_at_pos [of hs "pin h"] by (auto simp: pins_ok_def)
  then have m: "pin h \<in> fst ` set (live_starts oc)" by (simp add: map_of_eq_None_iff)
  show ?thesis
  proof (cases "live_starts oc")
    case (Cons e es)
    then have "sorted (fst e # map fst es)" using assms(1) by (auto simp: pins_ok_def bm_wf_def strict_sorted_iff less_imp_le)
    then show ?thesis using m Cons by (cases e) (auto simp: gc_floor_def)
  qed (use m in simp)
qed

lemma floor_is_pin:
  assumes "pins_ok hs oc n" and "hs \<noteq> []"
  shows "\<exists>h \<in> set hs. gc_floor oc = pin h"
proof -
  obtain h where h: "h \<in> set hs" using assms(2) by (cases hs) auto
  then have "bm_get (live_starts oc) (pin h) \<noteq> None" using assms(1) pins_at_pos [of hs "pin h"] by (auto simp: pins_ok_def)
  then obtain v k es where l: "live_starts oc = (v, k) # es" by (cases "live_starts oc") auto
  then have "pins_at hs v > 0" using assms(1) by (auto simp: pins_ok_def split: if_splits dest: spec [of _ v])
  then show ?thesis using l by (auto simp: pins_at_pos gc_floor_def)
qed

lemma floor_empty: "pins_ok [] oc n \<Longrightarrow> gc_floor oc = U64_MAX"
proof -
  assume "pins_ok [] oc n"
  then have "bm_get (live_starts oc) v = None" for v by (simp add: pins_ok_def pins_at_def)
  then have "live_starts oc = []" by (cases "live_starts oc") (auto simp: fun_eq_iff split: if_splits, metis option.distinct(1))
  then show ?thesis by (simp add: gc_floor_def)
qed

section \<open>What the operations do to the shared state\<close>

lemma occ_gc_frame [simp]:
  "live_starts (occ_gc oc) = live_starts oc" "last_legacy_version (occ_gc oc) = last_legacy_version oc"
  "gc_floor (occ_gc oc) = gc_floor oc"
  by (simp_all add: occ_gc_def gc_floor_def)

lemma occ_deregister_frame [simp]:
  "history (occ_deregister v oc) = history oc" "last_legacy_version (occ_deregister v oc) = last_legacy_version oc"
  by (simp_all add: occ_deregister_def split: option.split)

lemma occ_register_frame [simp]:
  "history (occ_register v oc) = history oc" "last_legacy_version (occ_register v oc) = last_legacy_version oc"
  by (simp_all add: occ_register_def)

lemma pins_ok_cong: "live_starts a = live_starts b \<Longrightarrow> pins_ok hs a n = pins_ok hs b n"
  by (simp add: pins_ok_def)

lemma floor_cong: "live_starts a = live_starts b \<Longrightarrow> gc_floor a = gc_floor b"
  by (simp add: gc_floor_def)

lemma retire_frame [simp]:
  "writer (retire v c) = writer c" "current (retire v c) = current c" "base (retire v c) = base c"
  "occ (retire v c) = occ_gc (occ_deregister v (occ c))" "cdb_version (retire v c) = cdb_version c"
  "versioned (retire v c) = vs_gc (gc_floor (occ_deregister v (occ c))) (base c) (versioned c)"
  by (simp_all add: retire_def Let_def cdb_version_def)

lemma commit_Inl:
  assumes "txn_commit x c = Some (Inl e, c')"
  shows "c' = retire (start_version x) c"
  using assms by (auto simp: txn_commit_def Let_def split: if_splits option.splits prod.splits)

lemma commit_Inr:
  assumes "txn_commit x c = Some (Inr v, c')" and "cdb_version c + 1 < U64_MAX"
  obtains db where "apply_ops (writer c) (ops x) = Some db" "v = Suc (cdb_version c)" "writer c' = db"
    "current c' = from_db db v" "base c' = base c" "cdb_version c' = v"
    "occ c' = occ_gc (occ_deregister (start_version x) ((occ c)\<lparr>history := bm_insert v (keys x) (history (occ c))\<rparr>))"
    "versioned c' = vs_gc (gc_floor (occ c')) (base c) (record_all v (net_ops (ops x) []) (versioned c))"
    "\<not> (legacy_during (occ c) x \<or> ww_conflict (occ c) x \<or> rw_conflict (occ c) x)"
proof -
  have lt: "Suc (cdb_version c) < 2 ^ 64" using assms(2) by (simp add: U64_MAX_def)
  obtain db where db: "apply_ops (writer c) (ops x) = Some db"
    and nc: "\<not> (legacy_during (occ c) x \<or> ww_conflict (occ c) x \<or> rw_conflict (occ c) x)"
    using assms(1) by (auto simp: txn_commit_def split: if_splits option.splits)
  have "(v, c') = (Suc (cdb_version c), retire (start_version x) (c\<lparr>writer := db, current := from_db db (Suc (cdb_version c)),
      versioned := record_all (Suc (cdb_version c)) (net_ops (ops x) []) (versioned c),
      occ := (occ c)\<lparr>history := bm_insert (Suc (cdb_version c)) (keys x) (history (occ c))\<rparr>\<rparr>))"
    using assms(1) db nc lt by (auto simp: txn_commit_def publish_def Let_def record_all_def)
  then show thesis using db nc by (intro that [of db]) (auto simp: from_db_def cdb_version_def)
qed

lemma legacy_write_frame:
  assumes "cdb_version c + 1 < U64_MAX"
  shows "cdb_version (legacy_write db c) = Suc (cdb_version c)" "writer (legacy_write db c) = db"
    "current (legacy_write db c) = from_db db (Suc (cdb_version c))" "base (legacy_write db c) = base c"
    "versioned (legacy_write db c) = versioned c" "occ (legacy_write db c) = (occ c)\<lparr>last_legacy_version := Suc (cdb_version c)\<rparr>"
proof -
  have "Suc (cdb_version c) < 2 ^ 64" using assms by (simp add: U64_MAX_def)
  then show "cdb_version (legacy_write db c) = Suc (cdb_version c)" "writer (legacy_write db c) = db"
    "current (legacy_write db c) = from_db db (Suc (cdb_version c))" "base (legacy_write db c) = base c"
    "versioned (legacy_write db c) = versioned c" "occ (legacy_write db c) = (occ c)\<lparr>last_legacy_version := Suc (cdb_version c)\<rparr>"
    by (simp_all add: legacy_write_def publish_def Let_def cdb_version_def from_db_def)
qed

section \<open>Core invariant\<close>

definition handle_ok :: "Triple set \<Rightarrow> (nat \<Rightarrow> Snapshot option) \<Rightarrow> Handle \<Rightarrow> bool" where
  "handle_ok U S h = (case h of HView v \<Rightarrow> True
     | HTxn x \<Rightarrow> op_triple ` set (ops x) \<subseteq> U \<and> S (start_version x) = Some (snapshot x) \<and>
         keys x = triple_to_string ` op_triple ` set (ops x))"

definition core_ok :: "Triple set \<Rightarrow> 'q World \<Rightarrow> bool" where
  "core_ok U w \<longleftrightarrow> (let c = shared w; n = cdb_version c in
     1 \<le> n \<and> n < U64_MAX \<and> db_ok (writer c) \<and> snap_version (current c) = n \<and> pins_ok (live w) (occ c) n \<and>
     dom (commits w) = {2..n} \<and> snaps w n = Some (current c) \<and> dom (snaps w) = {1..n} \<and>
     (\<forall>h \<in> set (live w). handle_ok U (snaps w) h))"

lemma core_okD:
  assumes "core_ok U w"
  shows "1 \<le> cdb_version (shared w)" "cdb_version (shared w) < U64_MAX" "db_ok (writer (shared w))"
    "snap_version (current (shared w)) = cdb_version (shared w)"
    "pins_ok (live w) (occ (shared w)) (cdb_version (shared w))" "dom (commits w) = {2..cdb_version (shared w)}"
    "snaps w (cdb_version (shared w)) = Some (current (shared w))" "dom (snaps w) = {1..cdb_version (shared w)}"
    "\<forall>h \<in> set (live w). handle_ok U (snaps w) h"
  using assms by (auto simp: core_ok_def Let_def)

lemma live_txn:
  assumes "core_ok U w" and "HTxn x \<in> set (live w)"
  shows "op_triple ` set (ops x) \<subseteq> U" "snaps w (start_version x) = Some (snapshot x)"
    "keys x = triple_to_string ` op_triple ` set (ops x)" "start_version x \<in> {1..cdb_version (shared w)}"
proof -
  have h: "handle_ok U (snaps w) (HTxn x)" using core_okD(9) [OF assms(1)] assms(2) by blast
  then show "op_triple ` set (ops x) \<subseteq> U" "snaps w (start_version x) = Some (snapshot x)"
    "keys x = triple_to_string ` op_triple ` set (ops x)" by (simp_all add: handle_ok_def)
  then have "start_version x \<in> dom (snaps w)" by blast
  then show "start_version x \<in> {1..cdb_version (shared w)}" by (simp add: core_okD(8) [OF assms(1)])
qed

lemma core_new: "db_ok db \<Longrightarrow> core_ok U (world_new db)"
  by (auto simp: core_ok_def Let_def world_new_def cdb_new_def cdb_version_def from_db_def U64_MAX_def pins_ok_def
      occ_new_def pins_at_def bm_wf_def split: if_splits)

lemma core_register:
  assumes "core_ok U w" and "pin h \<le> cdb_version (shared w)" and "handle_ok U (snaps w) h"
  shows "core_ok U (w\<lparr>shared := (shared w)\<lparr>occ := occ_register (pin h) (occ (shared w))\<rparr>, live := h # live w\<rparr>)"
  using assms register_pins [of "live w" "occ (shared w)" "cdb_version (shared w)" "pin h" h]
  by (auto simp: core_ok_def Let_def cdb_version_def)

lemma core_handle:
  assumes "core_ok U w" and "i < length (live w)" and "pin h = pin (live w ! i)" and "handle_ok U (snaps w) h"
  shows "core_ok U (w\<lparr>live := (live w)[i := h]\<rparr>)"
proof -
  have "pins_ok ((live w)[i := h]) (occ (shared w)) (cdb_version (shared w))"
  proof -
    have "pin h \<le> cdb_version (shared w)" using core_okD(5) [OF assms(1)] assms(2,3) by (simp add: pins_ok_def)
    moreover have "k \<in> set ((live w)[i := h]) \<Longrightarrow> k = h \<or> k \<in> set (live w)" for k using set_update_subset_insert by fastforce
    ultimately show ?thesis using core_okD(5) [OF assms(1)] pins_update [OF assms(2,3)] by (auto simp: pins_ok_def)
  qed
  moreover have "\<forall>k \<in> set ((live w)[i := h]). handle_ok U (snaps w) k"
    using core_okD(9) [OF assms(1)] assms(4) set_update_subset_insert [of "live w" i h] by blast
  ultimately show ?thesis using assms(1) by (simp add: core_ok_def Let_def)
qed

lemma core_retire:
  assumes "core_ok U w" and "i < length (live w)"
  shows "core_ok U (w\<lparr>shared := retire (pin (live w ! i)) (shared w), live := remove_nth i (live w)\<rparr>)"
proof -
  have "pins_ok (remove_nth i (live w)) (occ (retire (pin (live w ! i)) (shared w))) (cdb_version (shared w))"
    using deregister_pins [OF core_okD(5) [OF assms(1)] assms(2)] by (simp add: pins_ok_def)
  then show ?thesis using assms(1) pins_remove(2) [OF assms(2)] by (auto simp: core_ok_def Let_def)
qed

lemma handle_ok_later:
  assumes "handle_ok U S h" and "dom S = {1..n}"
  shows "handle_ok U (S(Suc n \<mapsto> s)) h"
proof -
  have "Suc n \<notin> dom S" using assms(2) by simp
  then have "S (Suc n) = None" by (simp add: domIff)
  then show ?thesis using assms(1) by (cases h) (auto simp: handle_ok_def)
qed

lemma core_publish:
  assumes "core_ok U w" and n: "n = cdb_version (shared w)" "Suc n < U64_MAX" and c: "db_ok (writer c)"
    "current c = from_db (writer c) (Suc n)" "cdb_version c = Suc n" and pins: "pins_ok hs (occ c) n" and hs: "set hs \<subseteq> set (live w)"
  shows "core_ok U (w\<lparr>shared := c, live := hs, commits := (commits w)(Suc n \<mapsto> k), snaps := (snaps w)(Suc n \<mapsto> current c), leaks := L\<rparr>)"
proof -
  have "dom ((commits w)(Suc n \<mapsto> k)) = {2..Suc n}" using core_okD(1,6) [OF assms(1)] n(1) by auto
  moreover have "dom ((snaps w)(Suc n \<mapsto> current c)) = {1..Suc n}" using core_okD(8) [OF assms(1)] n(1) by auto
  moreover have "\<forall>h \<in> set hs. handle_ok U ((snaps w)(Suc n \<mapsto> current c)) h"
    using core_okD(8,9) [OF assms(1)] handle_ok_later n(1) hs by blast
  moreover have "pins_ok hs (occ c) (Suc n)" using pins by (auto simp: pins_ok_def)
  ultimately show ?thesis using c n(2) by (simp add: core_ok_def Let_def cdb_version_def)
qed

lemma update_error: "cdb_update out db c = (Inl e, c') \<Longrightarrow> c' = c\<lparr>writer := db\<rparr>"
  by (auto simp: cdb_update_def split: sum.splits option.splits)

lemma cstep_core:
  assumes "cstep lg U w w'" and "core_ok U w" and inj: "inj_keys U"
  shows "core_ok U w'"
  using assms(1,2)
proof (induction rule: cstep.induct)
  case (step_begin lv w x c)
  then have c: "c = (shared w)\<lparr>occ := occ_register (pin (HTxn x)) (occ (shared w))\<rparr>"
    and x: "start_version x = cdb_version (shared w)" "snapshot x = current (shared w)" "ops x = []" "keys x = {}"
    by (auto simp: begin_with_def Let_def cdb_version_def)
  show ?case unfolding c using step_begin.prems x core_okD(7) [OF step_begin.prems]
    by (intro core_register) (simp_all add: handle_ok_def)
next
  case (step_txn_insert i w x t)
  then have "handle_ok U (snaps w) (HTxn x)" using core_okD(9) nth_mem by metis
  then show ?case using step_txn_insert by (intro core_handle) (auto simp: txn_insert_def handle_ok_def)
next
  case (step_txn_delete i w x t)
  then have "handle_ok U (snaps w) (HTxn x)" using core_okD(9) nth_mem by metis
  then show ?case using step_txn_delete by (intro core_handle) (auto simp: txn_delete_def handle_ok_def)
next
  case (step_txn_read i w x t)
  then have "handle_ok U (snaps w) (HTxn x)" using core_okD(9) nth_mem by metis
  then show ?case using step_txn_read by (intro core_handle) (auto simp: txn_read_def handle_ok_def)
next
  case (step_commit i w x v c)
  obtain db where db: "apply_ops (writer (shared w)) (ops x) = Some db" "v = Suc (cdb_version (shared w))" "writer c = db"
    "current c = from_db db v" "base c = base (shared w)" "cdb_version c = v"
    "occ c = occ_gc (occ_deregister (start_version x) ((occ (shared w))\<lparr>history := bm_insert v (keys x) (history (occ (shared w)))\<rparr>))"
    "versioned c = vs_gc (gc_floor (occ c)) (base (shared w)) (record_all v (net_ops (ops x) []) (versioned (shared w)))"
    "\<not> (legacy_during (occ (shared w)) x \<or> ww_conflict (occ (shared w)) x \<or> rw_conflict (occ (shared w)) x)"
    by (rule commit_Inr [OF step_commit.hyps(5,4)])
  have "op_triple ` set (ops x) \<subseteq> U"
    using core_okD(9) [OF step_commit.prems] step_commit.hyps(1,2) nth_mem by (fastforce simp: handle_ok_def)
  then have ok: "db_ok db"
    using apply_ops_spec [OF inj core_okD(3) [OF step_commit.prems] step_commit.hyps(3)] db(1) by auto
  have "pins_ok (remove_nth i (live w)) (occ_deregister (pin (live w ! i)) ((occ (shared w))\<lparr>history := bm_insert v (keys x) (history (occ (shared w)))\<rparr>))
      (cdb_version (shared w))"
    using core_okD(5) [OF step_commit.prems] step_commit.hyps(1) by (intro deregister_pins) (simp_all add: pins_ok_def)
  then have "pins_ok (remove_nth i (live w)) (occ c) (cdb_version (shared w))"
    unfolding db(7) by (simp add: pins_ok_def step_commit.hyps(2))
  then show ?case
    unfolding db(2) using step_commit.hyps(1,4) ok db(2-4,6) pins_remove(2) by (intro core_publish [OF step_commit.prems refl]) auto
next
  case (step_abort i w x e c)
  then show ?case using commit_Inl [of x "shared w" e c] core_retire [of U w i] by simp
next
  case (step_drop i w)
  then show ?case by (rule core_retire [rotated])
next
  case (step_view w v c)
  then have c: "c = (shared w)\<lparr>occ := occ_register (pin (HView v)) (occ (shared w))\<rparr>" "v = cdb_version (shared w)"
    by (auto simp: version_view_def Let_def)
  show ?case unfolding c(1) using step_view.prems c(2) by (intro core_register) (simp_all add: handle_ok_def)
next
  case (step_view_at v w c)
  then have c: "c = (shared w)\<lparr>occ := occ_register (pin (HView v)) (occ (shared w))\<rparr>"
    by (auto simp: version_view_at_def)
  show ?case unfolding c using step_view_at by (intro core_register) (simp_all add: handle_ok_def)
next
  case (step_legacy db w c)
  note f = legacy_write_frame [OF step_legacy.hyps(3), of db]
  have "pins_ok (live w) (occ c) (cdb_version (shared w))"
    using core_okD(5) [OF step_legacy.prems] by (simp add: step_legacy.hyps(4) f pins_ok_def)
  then have "core_ok U (w\<lparr>shared := c, live := live w, commits := (commits w)(Suc (cdb_version (shared w)) \<mapsto> Legacy),
      snaps := (snaps w)(Suc (cdb_version (shared w)) \<mapsto> current c), leaks := leaks w\<rparr>)"
    using step_legacy by (intro core_publish) (simp_all add: f)
  then show ?case by (simp add: step_legacy.hyps(4) f)
next
  case (step_update_error db out w e c)
  then show ?case using update_error [OF step_update_error.hyps(3)] by (simp add: core_ok_def Let_def cdb_version_def)
qed

lemma creach_core: "creach lg U w \<Longrightarrow> inj_keys U \<Longrightarrow> core_ok U w"
  by (induction rule: creach.induct) (auto intro: core_new cstep_core)

section \<open>The write-set history is complete for live transactions\<close>

definition hist_ok :: "(nat \<Rightarrow> Commit option) \<Rightarrow> OccState \<Rightarrow> bool" where
  "hist_ok C oc \<longleftrightarrow> bm_wf (history oc) \<and>
     (\<forall>v ks. bm_get (history oc) v = Some ks \<longrightarrow> (\<exists>m. C v = Some (Tx ks m))) \<and>
     (\<forall>v ks m. C v = Some (Tx ks m) \<longrightarrow> gc_floor oc < v \<longrightarrow> bm_get (history oc) v = Some ks) \<and>
     (\<forall>v. C v = Some Legacy \<longrightarrow> v \<le> last_legacy_version oc) \<and>
     (last_legacy_version oc = 0 \<or> C (last_legacy_version oc) = Some Legacy)"

lemma hist_okI:
  assumes "bm_wf (history oc)" and "\<And>v ks. bm_get (history oc) v = Some ks \<Longrightarrow> \<exists>m. C v = Some (Tx ks m)"
    and "\<And>v ks m. C v = Some (Tx ks m) \<Longrightarrow> gc_floor oc < v \<Longrightarrow> bm_get (history oc) v = Some ks"
    and "\<And>v. C v = Some Legacy \<Longrightarrow> v \<le> last_legacy_version oc"
    and "last_legacy_version oc \<noteq> 0 \<Longrightarrow> C (last_legacy_version oc) = Some Legacy"
  shows "hist_ok C oc"
  using assms unfolding hist_ok_def by blast

lemma hist_okD:
  assumes "hist_ok C oc"
  shows "bm_wf (history oc)" "bm_get (history oc) v = Some ks \<Longrightarrow> \<exists>m. C v = Some (Tx ks m)"
    "C v = Some (Tx ks m) \<Longrightarrow> gc_floor oc < v \<Longrightarrow> bm_get (history oc) v = Some ks"
    "C v = Some Legacy \<Longrightarrow> v \<le> last_legacy_version oc"
    "last_legacy_version oc \<noteq> 0 \<Longrightarrow> C (last_legacy_version oc) = Some Legacy"
  using assms unfolding hist_ok_def by (blast, blast, blast, blast, auto)

lemma hist_gc:
  assumes "hist_ok C oc"
  shows "hist_ok C (occ_gc oc)"
proof -
  have get: "bm_get (filter (\<lambda>(v, _). P v) h) v = (if P v then bm_get h v else None)" for P and h :: "(nat, rstring set) btree_map" and v
    by (induction h) auto
  have wf: "bm_wf (filter (\<lambda>(v, _). P v) h)" if "bm_wf h" for P and h :: "(nat, rstring set) btree_map"
    using that sorted_wrt_filter unfolding bm_wf_def by (induction h) auto
  have h: "history (occ_gc oc) = filter (\<lambda>(v, _). v > gc_floor oc) (history oc)" by (simp add: occ_gc_def)
  note D = hist_okD [OF assms]
  show ?thesis
  proof (rule hist_okI)
    show "bm_wf (history (occ_gc oc))" unfolding h by (rule wf [OF D(1)])
    show "\<exists>m. C v = Some (Tx ks m)" if "bm_get (history (occ_gc oc)) v = Some ks" for v ks
      using that D(2) by (simp add: h get split: if_splits)
    show "bm_get (history (occ_gc oc)) v = Some ks" if "C v = Some (Tx ks m)" "gc_floor (occ_gc oc) < v" for v ks m
      using that D(3) by (simp add: h get)
  qed (use D(4,5) in auto)
qed

lemma hist_floor:
  assumes "hist_ok C oc" and "history oc' = history oc" "last_legacy_version oc' = last_legacy_version oc" "gc_floor oc \<le> gc_floor oc'"
  shows "hist_ok C oc'"
proof (rule hist_okI)
  show "bm_get (history oc') v = Some ks" if "C v = Some (Tx ks m)" "gc_floor oc' < v" for v ks m
    using hist_okD(3) [OF assms(1) that(1)] that(2) assms(2,4) by simp
qed (use hist_okD [OF assms(1)] assms(2,3) in simp_all)

lemma floor_register:
  assumes "pins_ok hs oc n" and "v \<le> n" and "n < U64_MAX"
  shows "gc_floor (occ_register v oc) = min (gc_floor oc) v"
proof (cases hs)
  case Nil
  have "pins_ok [HView v] (occ_register v oc) n" using register_pins [OF assms(1,2), of "HView v"] Nil by simp
  then have "gc_floor (occ_register v oc) = v" using floor_is_pin by fastforce
  moreover have "gc_floor oc = U64_MAX" using floor_empty assms(1) Nil by simp
  ultimately show ?thesis using assms(2,3) by simp
next
  case (Cons h hs')
  have p: "pins_ok (HView v # hs) (occ_register v oc) n" using register_pins [OF assms(1,2), of "HView v"] by simp
  obtain k where k: "k \<in> set (HView v # hs)" "gc_floor (occ_register v oc) = pin k" using floor_is_pin [OF p list.simps(3)] by blast
  obtain j where j: "j \<in> set hs" "gc_floor oc = pin j" using floor_is_pin [OF assms(1)] Cons by auto
  have "gc_floor (occ_register v oc) \<le> min (gc_floor oc) v"
    using floor_le_pin [OF p, of "HView v"] floor_le_pin [OF p, of j] j by simp
  moreover have "min (gc_floor oc) v \<le> gc_floor (occ_register v oc)"
    unfolding k(2) using k(1) floor_le_pin [OF assms(1), of k] by (auto intro: min.coboundedI1)
  ultimately show ?thesis by (rule order_antisym)
qed

lemma floor_deregister:
  assumes "pins_ok hs oc n" and "i < length hs" and "n < U64_MAX"
  shows "gc_floor oc \<le> gc_floor (occ_deregister (pin (hs ! i)) oc)"
proof (cases "remove_nth i hs")
  case Nil
  then have "gc_floor (occ_deregister (pin (hs ! i)) oc) = U64_MAX"
    using deregister_pins [OF assms(1,2)] floor_empty by simp
  moreover have "pin (hs ! i) \<le> n" using assms(1,2) by (simp add: pins_ok_def)
  then have "gc_floor oc \<le> n" using floor_le_pin [OF assms(1) nth_mem [OF assms(2)]] by simp
  ultimately show ?thesis using assms(3) by simp
next
  case (Cons h hs')
  then obtain k where "k \<in> set (remove_nth i hs)" "gc_floor (occ_deregister (pin (hs ! i)) oc) = pin k"
    using floor_is_pin [OF deregister_pins [OF assms(1,2)]] by auto
  then show ?thesis using floor_le_pin [OF assms(1), of k] pins_remove(2) [OF assms(2)] by auto
qed

lemma hist_register:
  assumes "hist_ok C oc" and "dom C = {2..n}" and p: "pins_ok hs oc n" "n < U64_MAX" and v: "v \<le> n" and "v = n \<or> gc_floor oc \<le> v"
  shows "hist_ok C (occ_register v oc)"
proof -
  have "C u = None" if "u > n" for u using assms(2) that by (metis atLeastAtMost_iff domIff leD)
  then have fl: "gc_floor oc < u" if "C u \<noteq> None" "min (gc_floor oc) v < u" for u
    using assms(6) that by (cases "u \<le> n") (auto simp: min_def split: if_splits)
  show ?thesis
  proof (rule hist_okI)
    show "bm_get (history (occ_register v oc)) u = Some ks" if "C u = Some (Tx ks m)" "gc_floor (occ_register v oc) < u" for u ks m
      using hist_okD(3) [OF assms(1) that(1)] fl [of u] that by (simp add: floor_register [OF p(1) v p(2)])
  qed (use hist_okD [OF assms(1)] in simp_all)
qed

lemma cstep_hist:
  assumes "cstep lg U w w'" and "core_ok U w" and "hist_ok (commits w) (occ (shared w))"
  shows "hist_ok (commits w') (occ (shared w'))"
  using assms
proof (induction rule: cstep.induct)
  case (step_begin lv w x c)
  then show ?case
    using hist_register [OF step_begin.prems(2) core_okD(6,5,2) [OF step_begin.prems(1)], of "cdb_version (shared w)"]
    by (auto simp: begin_with_def Let_def cdb_version_def)
next
  case (step_commit i w x v c)
  let ?n = "cdb_version (shared w)"
  obtain db where db: "apply_ops (writer (shared w)) (ops x) = Some db" "v = Suc ?n" "writer c = db"
    "current c = from_db db v" "base c = base (shared w)" "cdb_version c = v"
    "occ c = occ_gc (occ_deregister (start_version x) ((occ (shared w))\<lparr>history := bm_insert v (keys x) (history (occ (shared w)))\<rparr>))"
    "versioned c = vs_gc (gc_floor (occ c)) (base (shared w)) (record_all v (net_ops (ops x) []) (versioned (shared w)))"
    "\<not> (legacy_during (occ (shared w)) x \<or> ww_conflict (occ (shared w)) x \<or> rw_conflict (occ (shared w)) x)"
    by (rule commit_Inr [OF step_commit.hyps(5,4)])
  let ?oc = "(occ (shared w))\<lparr>history := bm_insert v (keys x) (history (occ (shared w)))\<rparr>"
  have none: "commits w v = None" using core_okD(6) [OF step_commit.prems(1)] db(2) by (metis Suc_n_not_le_n atLeastAtMost_iff domIff)
  have ll: "last_legacy_version (occ (shared w)) \<noteq> v"
    using hist_okD(5) [OF step_commit.prems(2)] none db(2) by auto
  have h: "hist_ok ((commits w)(v \<mapsto> Tx (keys x) (net_ops (ops x) []))) ?oc"
  proof (rule hist_okI)
    note D = hist_okD [OF step_commit.prems(2)]
    show "\<exists>m. ((commits w)(v \<mapsto> Tx (keys x) (net_ops (ops x) []))) u = Some (Tx ks m)" if "bm_get (history ?oc) u = Some ks" for u ks
      using that D(2) by (cases "u = v") simp_all
    show "bm_get (history ?oc) u = Some ks"
      if "((commits w)(v \<mapsto> Tx (keys x) (net_ops (ops x) []))) u = Some (Tx ks m)" "gc_floor ?oc < u" for u ks m
      using that D(3) floor_cong [of ?oc "occ (shared w)"] by (cases "u = v") simp_all
    show "u \<le> last_legacy_version ?oc" if "((commits w)(v \<mapsto> Tx (keys x) (net_ops (ops x) []))) u = Some Legacy" for u
      using that D(4) by (cases "u = v") simp_all
    show "bm_wf (history ?oc)" using D(1) by simp
    show "((commits w)(v \<mapsto> Tx (keys x) (net_ops (ops x) []))) (last_legacy_version ?oc) = Some Legacy" if "last_legacy_version ?oc \<noteq> 0"
      using that D(5) ll by simp
  qed
  have "pins_ok (live w) ?oc ?n" using core_okD(5) [OF step_commit.prems(1)] by (simp add: pins_ok_def)
  then have "gc_floor ?oc \<le> gc_floor (occ_deregister (start_version x) ?oc)"
    using floor_deregister [of "live w" ?oc ?n i] step_commit.hyps(1,2) core_okD(2) [OF step_commit.prems(1)] by simp
  then have "hist_ok ((commits w)(v \<mapsto> Tx (keys x) (net_ops (ops x) []))) (occ c)"
    unfolding db(7) by (intro hist_gc hist_floor [OF h]) simp_all
  then show ?case by (simp del: fun_upd_apply)
next
  case (step_abort i w x e c)
  have "gc_floor (occ (shared w)) \<le> gc_floor (occ_deregister (start_version x) (occ (shared w)))"
    using floor_deregister [OF core_okD(5) [OF step_abort.prems(1)] step_abort.hyps(1)] step_abort.hyps(2) core_okD(2) [OF step_abort.prems(1)] by simp
  then show ?case using hist_gc [OF hist_floor [OF step_abort.prems(2), of "occ_deregister (start_version x) (occ (shared w))"]]
    commit_Inl [OF step_abort.hyps(3)] by simp
next
  case (step_drop i w)
  have "gc_floor (occ (shared w)) \<le> gc_floor (occ_deregister (pin (live w ! i)) (occ (shared w)))"
    using floor_deregister [OF core_okD(5) [OF step_drop.prems(1)] step_drop.hyps(1)] core_okD(2) [OF step_drop.prems(1)] by simp
  then show ?case using hist_gc [OF hist_floor [OF step_drop.prems(2), of "occ_deregister (pin (live w ! i)) (occ (shared w))"]] by simp
next
  case (step_view w v c)
  then show ?case
    using hist_register [OF step_view.prems(2) core_okD(6,5,2) [OF step_view.prems(1)], of "cdb_version (shared w)"]
    by (auto simp: version_view_def Let_def)
next
  case (step_view_at v w c)
  then have "v = cdb_version (shared w) \<or> gc_floor (occ (shared w)) \<le> v" by linarith
  then show ?case using step_view_at.hyps
    hist_register [OF step_view_at.prems(2) core_okD(6,5,2) [OF step_view_at.prems(1)], of v]
    by (auto simp: version_view_at_def)
next
  case (step_legacy db w c)
  note f = legacy_write_frame [OF step_legacy.hyps(3), of db]
  have none: "commits w (Suc (cdb_version (shared w))) = None"
    using core_okD(6) [OF step_legacy.prems(1)] by (metis Suc_n_not_le_n atLeastAtMost_iff domIff)
  have "v \<le> cdb_version (shared w)" if "commits w v = Some Legacy" for v
    using core_okD(6) [OF step_legacy.prems(1)] that by (metis atLeastAtMost_iff domI)
  then have old: "v \<le> Suc (cdb_version (shared w))" if "commits w v = Some Legacy" for v using that le_SucI by blast
  note D = hist_okD [OF step_legacy.prems(2)]
  have fl: "gc_floor (occ c) = gc_floor (occ (shared w))" by (rule floor_cong) (simp add: step_legacy.hyps(4) f)
  let ?C = "(commits w)(cdb_version c \<mapsto> Legacy)"
  have "hist_ok ?C (occ c)"
  proof (rule hist_okI)
    show "\<exists>m. ?C u = Some (Tx ks m)" if "bm_get (history (occ c)) u = Some ks" for u ks
      using that D(2) [of u ks] none by (cases "u = cdb_version c") (simp_all add: step_legacy.hyps(4) f)
    show "bm_get (history (occ c)) u = Some ks" if "?C u = Some (Tx ks m)" "gc_floor (occ c) < u" for u ks m
      using that D(3) [of u ks m] fl by (cases "u = cdb_version c") (simp_all add: step_legacy.hyps(4) f)
    show "u \<le> last_legacy_version (occ c)" if "?C u = Some Legacy" for u
      using that old by (cases "u = cdb_version c") (simp_all add: step_legacy.hyps(4) f)
  qed (use D(1) in \<open>simp_all add: step_legacy.hyps(4) f\<close>)
  then show ?case by (simp del: fun_upd_apply)
next
  case (step_update_error db out w e c)
  then show ?case using update_error [OF step_update_error.hyps(3)] by simp
qed simp_all

lemma creach_hist: "creach lg U w \<Longrightarrow> inj_keys U \<Longrightarrow> hist_ok (commits w) (occ (shared w))"
proof (induction rule: creach.induct)
  case (creach_new db)
  then show ?case by (simp add: hist_ok_def world_new_def cdb_new_def occ_new_def bm_wf_def)
next
  case (creach_step w w')
  then show ?case using cstep_hist creach_core by blast
qed

section \<open>Published snapshots follow the committed operations\<close>

definition snap_at :: "'q World \<Rightarrow> Triple \<Rightarrow> nat \<Rightarrow> bool" where
  "snap_at w t v = snapshot_contains (the (snaps w (min v (cdb_version (shared w))))) t"

definition trace_ok :: "Triple set \<Rightarrow> nat set \<Rightarrow> (nat \<Rightarrow> Commit option) \<Rightarrow> (nat \<Rightarrow> Snapshot option) \<Rightarrow> bool" where
  "trace_ok U L C S \<longleftrightarrow> (\<forall>v ks m t. C (Suc v) = Some (Tx ks m) \<longrightarrow> t \<in> U \<longrightarrow> Suc v \<notin> L \<longrightarrow>
     snapshot_contains (the (S (Suc v))) t = net_value m (triple_to_string t) (snapshot_contains (the (S v)) t) \<and>
     (triple_to_string t \<notin> ks \<longrightarrow> bm_get m (triple_to_string t) = None))"

lemma trace_extend:
  assumes "trace_ok U L C S" and "dom C = {2..n}" and "L \<subseteq> L'"
    and "\<And>ks m t. k = Tx ks m \<Longrightarrow> t \<in> U \<Longrightarrow> Suc n \<notin> L' \<Longrightarrow>
      snapshot_contains s t = net_value m (triple_to_string t) (snapshot_contains (the (S n)) t) \<and>
      (triple_to_string t \<notin> ks \<longrightarrow> bm_get m (triple_to_string t) = None)"
  shows "trace_ok U L' (C(Suc n \<mapsto> k)) (S(Suc n \<mapsto> s))"
  unfolding trace_ok_def
proof (intro allI impI)
  fix u ks m t
  assume a: "(C(Suc n \<mapsto> k)) (Suc u) = Some (Tx ks m)" and t: "t \<in> U" and L: "Suc u \<notin> L'"
  show "snapshot_contains (the ((S(Suc n \<mapsto> s)) (Suc u))) t =
      net_value m (triple_to_string t) (snapshot_contains (the ((S(Suc n \<mapsto> s)) u)) t) \<and>
    (triple_to_string t \<notin> ks \<longrightarrow> bm_get m (triple_to_string t) = None)"
  proof (cases "u = n")
    case True
    then show ?thesis using a assms(4) [OF _ t] L by simp
  next
    case False
    then have c: "C (Suc u) = Some (Tx ks m)" using a by simp
    then have "Suc u \<in> {2..n}" using assms(2) by blast
    moreover have "Suc u \<notin> L" using L assms(3) by blast
    ultimately show ?thesis using c t assms(1) False by (simp add: trace_ok_def)
  qed
qed

lemma net_ops_None: "k \<notin> triple_to_string ` op_triple ` set xs \<Longrightarrow> bm_get m k = None \<Longrightarrow> bm_get (net_ops xs m) k = None"
  by (induction xs m rule: net_ops.induct) auto

text \<open>What one successful commit does to the membership of the triples of \<open>U\<close>.\<close>

lemma commit_replays:
  assumes "core_ok U w" and "inj_keys U" and "HTxn x \<in> set (live w)" and "ops_room (writer (shared w)) (ops x)"
    and "apply_ops (writer (shared w)) (ops x) = Some db" and "t \<in> U"
  shows "snapshot_contains (from_db db v) t = fold (own_write (triple_to_string t)) (ops x) (present (writer (shared w)) t)"
proof -
  have "op_triple ` set (ops x) \<subseteq> U" by (rule live_txn(1) [OF assms(1,3)])
  then have "present db t = fold (own_write (triple_to_string t)) (ops x) (present (writer (shared w)) t)"
    using apply_ops_spec [OF assms(2) core_okD(3) [OF assms(1)] assms(4)] assms(5,6) by auto
  then show ?thesis by (simp add: contains_from_db)
qed

lemma sync_present: "in_sync c \<Longrightarrow> snapshot_contains (current c) t = present (writer c) t"
  by (simp add: in_sync_def contains_from_db)

lemma commit_effect:
  assumes "core_ok U w" and "inj_keys U" and "HTxn x \<in> set (live w)" and "ops_room (writer (shared w)) (ops x)"
    and "apply_ops (writer (shared w)) (ops x) = Some db" and "t \<in> U" and "in_sync (shared w)"
  shows "snapshot_contains (from_db db v) t =
      net_value (net_ops (ops x) []) (triple_to_string t) (snapshot_contains (current (shared w)) t)"
  using commit_replays [OF assms(1-6), of v] by (simp add: sync_present [OF assms(7)] net_ops_value) (simp add: net_value_def)

lemma cstep_trace:
  assumes "cstep lg U w w'" and "core_ok U w" and "trace_ok U (leaks w) (commits w) (snaps w)" and inj: "inj_keys U"
  shows "trace_ok U (leaks w') (commits w') (snaps w')"
  using assms(1-3)
proof (induction rule: cstep.induct)
  case (step_commit i w x v c)
  obtain db where db: "apply_ops (writer (shared w)) (ops x) = Some db" "v = Suc (cdb_version (shared w))" "writer c = db"
    "current c = from_db db v" "base c = base (shared w)" "cdb_version c = v"
    "occ c = occ_gc (occ_deregister (start_version x) ((occ (shared w))\<lparr>history := bm_insert v (keys x) (history (occ (shared w)))\<rparr>))"
    "versioned c = vs_gc (gc_floor (occ c)) (base (shared w)) (record_all v (net_ops (ops x) []) (versioned (shared w)))"
    "\<not> (legacy_during (occ (shared w)) x \<or> ww_conflict (occ (shared w)) x \<or> rw_conflict (occ (shared w)) x)"
    by (rule commit_Inr [OF step_commit.hyps(5,4)])
  have h: "HTxn x \<in> set (live w)" using step_commit.hyps(1,2) nth_mem by metis
  note eff = commit_effect [OF step_commit.prems(1) inj h step_commit.hyps(3) db(1)]
  have "k \<notin> keys x \<Longrightarrow> bm_get (net_ops (ops x) []) k = None" for k
    unfolding live_txn(3) [OF step_commit.prems(1) h] by (rule net_ops_None) simp_all
  then have "trace_ok U (if in_sync (shared w) then leaks w else insert v (leaks w)) ((commits w)(v \<mapsto> Tx (keys x) (net_ops (ops x) []))) ((snaps w)(v \<mapsto> current c))"
    unfolding db(2) using eff core_okD(7) [OF step_commit.prems(1)] db(2,4)
    by (intro trace_extend [OF step_commit.prems(2) core_okD(6) [OF step_commit.prems(1)]]) (auto split: if_splits)
  then show ?case by (simp del: fun_upd_apply)
next
  case (step_legacy db w c)
  have v: "cdb_version c = Suc (cdb_version (shared w))" using legacy_write_frame(1) [OF step_legacy.hyps(3)] step_legacy.hyps(4) by simp
  have "trace_ok U (leaks w) ((commits w)(cdb_version c \<mapsto> Legacy)) ((snaps w)(cdb_version c \<mapsto> current c))"
    unfolding v by (rule trace_extend [OF step_legacy.prems(2) core_okD(6) [OF step_legacy.prems(1)]]) simp_all
  then show ?case by (simp del: fun_upd_apply)
qed simp_all

lemma creach_trace: "creach lg U w \<Longrightarrow> inj_keys U \<Longrightarrow> trace_ok U (leaks w) (commits w) (snaps w)"
proof (induction rule: creach.induct)
  case (creach_new db)
  then show ?case by (simp add: trace_ok_def world_new_def)
next
  case (creach_step w w')
  then show ?case using cstep_trace creach_core by blast
qed

lemma unchanged_between:
  assumes "trace_ok U (leaks w) (commits w) (snaps w)" and "t \<in> U" and "dom (commits w) = {2..n}" and "1 \<le> s" and "s \<le> n"
    and "\<forall>v ks m. s < v \<longrightarrow> v \<notin> leaks w \<and> commits w v \<noteq> Some Legacy \<and> (commits w v = Some (Tx ks m) \<longrightarrow> triple_to_string t \<notin> ks)"
  shows "snapshot_contains (the (snaps w n)) t = snapshot_contains (the (snaps w s)) t"
proof -
  have "u \<le> n \<Longrightarrow> snapshot_contains (the (snaps w u)) t = snapshot_contains (the (snaps w s)) t" if "s \<le> u" for u
    using that
  proof (induction u rule: dec_induct)
    case (step u)
    have "Suc u \<in> dom (commits w)" using assms(3,4) step by simp
    then obtain k where k: "commits w (Suc u) = Some k" by blast
    then obtain ks m where "commits w (Suc u) = Some (Tx ks m)" using assms(6) step.hyps(1) by (cases k) (auto simp: less_Suc_eq_le)
    moreover from this have "triple_to_string t \<notin> ks" using assms(6) step.hyps(1) le_imp_less_Suc by blast
    moreover have "Suc u \<notin> leaks w" using assms(6) step.hyps(1) le_imp_less_Suc by blast
    ultimately show ?case using assms(1,2) step by (auto simp: trace_ok_def net_value_def)
  qed simp
  then show ?thesis using assms(5) by blast
qed

section \<open>Version chains serve every pinned version\<close>

definition versions_ok :: "Triple set \<Rightarrow> 'q World \<Rightarrow> bool" where
  "versions_ok U w \<longleftrightarrow> (let c = shared w; n = cdb_version c in chains_wf U n (versioned c) \<and>
     (\<forall>t \<in> U. \<forall>v \<ge> min (gc_floor (occ c)) n. lookup (base c) (versioned c) t v = snap_at w t v))"

lemma versions_register:
  assumes "versions_ok U w" and "core_ok U w" and v: "v \<le> cdb_version (shared w)"
    and lo: "min (gc_floor (occ (shared w))) (cdb_version (shared w)) \<le> v"
  shows "versions_ok U (w\<lparr>shared := (shared w)\<lparr>occ := occ_register v (occ (shared w))\<rparr>, live := hs\<rparr>)"
proof -
  have "min (gc_floor (occ_register v (occ (shared w)))) (cdb_version (shared w)) =
      min (gc_floor (occ (shared w))) (cdb_version (shared w))"
    using floor_register [OF core_okD(5) [OF assms(2)] v core_okD(2) [OF assms(2)]] v lo by linarith
  then show ?thesis using assms(1) by (simp add: versions_ok_def Let_def snap_at_def cdb_version_def)
qed

lemma versions_retire:
  assumes "versions_ok U w" and "core_ok U w" and "inj_keys U" and i: "i < length (live w)"
  shows "versions_ok U (w\<lparr>shared := retire (pin (live w ! i)) (shared w), live := hs\<rparr>)"
proof -
  let ?n = "cdb_version (shared w)" and ?f = "gc_floor (occ_deregister (pin (live w ! i)) (occ (shared w)))"
  have wf: "inj_keys U \<and> chains_wf U ?n (versioned (shared w))" using assms(1,3) by (simp add: versions_ok_def Let_def)
  have "gc_floor (occ (shared w)) \<le> ?f" by (rule floor_deregister [OF core_okD(5) [OF assms(2)] i core_okD(2) [OF assms(2)]])
  then have lo: "min (gc_floor (occ (shared w))) ?n \<le> min ?f ?n" by linarith
  have "lookup (base (shared w)) (vs_gc ?f (base (shared w)) (versioned (shared w))) t v = snap_at w t v"
    if "t \<in> U" "min ?f ?n \<le> v" for t v
    using assms(1) that by (intro chains.collect_look_above [OF wf that(1) _ lo that(2)]) (simp add: versions_ok_def Let_def)
  then show ?thesis using chains.collect_wf [OF wf] by (simp add: versions_ok_def Let_def snap_at_def)
qed

lemma versions_commit:
  assumes "versions_ok U w" and "core_ok U w" and inj: "inj_keys U" and x: "HTxn x \<in> set (live w)"
    and room: "ops_room (writer (shared w)) (ops x)" and n: "n = cdb_version (shared w)"
    and db: "apply_ops (writer (shared w)) (ops x) = Some db" and sync: "in_sync (shared w)" and f: "gc_floor (occ (shared w)) \<le> f" and v: "min f (Suc n) \<le> v" and t: "t \<in> U"
  shows "lookup (base (shared w)) (vs_gc f (base (shared w)) (record_all (Suc n) (net_ops (ops x) []) (versioned (shared w)))) t v =
    (if Suc n \<le> v then snapshot_contains (from_db db (Suc n)) t else snap_at w t v)"
proof -
  have wf: "inj_keys U \<and> chains_wf U n (versioned (shared w))" using assms(1,3) n by (simp add: versions_ok_def Let_def)
  have m: "net_wf U (net_ops (ops x) [])"
    by (rule net_ops_wf [OF _ live_txn(1) [OF assms(2) x]]) (simp add: net_wf_def bm_wf_def)
  have lo: "min (gc_floor (occ (shared w))) n \<le> min f (Suc n)" using f by linarith
  have all: "\<forall>u \<ge> min (gc_floor (occ (shared w))) n. lookup (base (shared w)) (versioned (shared w)) t u = snap_at w t u"
    using assms(1) t n by (simp add: versions_ok_def Let_def)
  have "snap_at w t v = snapshot_contains (current (shared w)) t" if "Suc n \<le> v"
    using that core_okD(7) [OF assms(2)] n by (simp add: snap_at_def min_absorb2)
  then show ?thesis
    using chains.commit_look [OF wf m t all lo v] commit_effect [OF assms(2) inj x room db t sync] by simp
qed

lemma cstep_versions:
  assumes "cstep False U w w'" and "core_ok U w" and "versions_ok U w" and "in_sync (shared w)" and inj: "inj_keys U"
  shows "versions_ok U w'"
  using assms(1-4)
proof (induction rule: cstep.induct)
  case (step_begin lv w x c)
  then show ?case using versions_register [OF step_begin.prems(2,1), of "cdb_version (shared w)"]
    by (auto simp: begin_with_def Let_def cdb_version_def)
next
  case (step_commit i w x v c)
  let ?n = "cdb_version (shared w)"
  obtain db where db: "apply_ops (writer (shared w)) (ops x) = Some db" "v = Suc ?n" "writer c = db"
    "current c = from_db db v" "base c = base (shared w)" "cdb_version c = v"
    "occ c = occ_gc (occ_deregister (start_version x) ((occ (shared w))\<lparr>history := bm_insert v (keys x) (history (occ (shared w)))\<rparr>))"
    "versioned c = vs_gc (gc_floor (occ c)) (base (shared w)) (record_all v (net_ops (ops x) []) (versioned (shared w)))"
    "\<not> (legacy_during (occ (shared w)) x \<or> ww_conflict (occ (shared w)) x \<or> rw_conflict (occ (shared w)) x)"
    by (rule commit_Inr [OF step_commit.hyps(5,4)])
  let ?oc = "(occ (shared w))\<lparr>history := bm_insert v (keys x) (history (occ (shared w)))\<rparr>"
  have x: "HTxn x \<in> set (live w)" using step_commit.hyps(1,2) nth_mem by metis
  have "pins_ok (live w) ?oc ?n" using core_okD(5) [OF step_commit.prems(1)] by (simp add: pins_ok_def)
  then have "gc_floor ?oc \<le> gc_floor (occ_deregister (start_version x) ?oc)"
    using floor_deregister [of "live w" ?oc ?n i] step_commit.hyps(1,2) core_okD(2) [OF step_commit.prems(1)] by simp
  then have f: "gc_floor (occ (shared w)) \<le> gc_floor (occ c)" using floor_cong [of ?oc "occ (shared w)"] by (simp add: db(7))
  note look = versions_commit [OF step_commit.prems(2,1) inj x step_commit.hyps(3) refl db(1) step_commit.prems(3) f]
  have "inj_keys U \<and> chains_wf U v (versioned c)"
    unfolding db(8) using step_commit.prems(2) inj db(2) net_ops_wf [OF _ live_txn(1) [OF step_commit.prems(1) x], of "[]"]
    by (intro chains.collect_wf chains.put_wf [of U ?n]) (simp_all add: versions_ok_def Let_def net_wf_def bm_wf_def)
  moreover have "lookup (base c) (versioned c) t u =
      snap_at (w\<lparr>shared := c, live := remove_nth i (live w), commits := (commits w)(v \<mapsto> Tx (keys x) (net_ops (ops x) [])),
        snaps := (snaps w)(v \<mapsto> current c), leaks := (if in_sync (shared w) then leaks w else insert v (leaks w))\<rparr>) t u" if "t \<in> U" "min (gc_floor (occ c)) v \<le> u" for t u
    using look [of u t] that db(2,4,5,6) by (auto simp: db(8) snap_at_def min_def)
  ultimately show ?case unfolding versions_ok_def Let_def by (simp add: db(6))
next
  case (step_abort i w x e c)
  then show ?case using commit_Inl [OF step_abort.hyps(3)] versions_retire [OF step_abort.prems(2,1) inj step_abort.hyps(1)] by simp
next
  case (step_drop i w)
  then show ?case using versions_retire [OF step_drop.prems(2,1) inj step_drop.hyps(1)] by simp
next
  case (step_view w v c)
  then show ?case using versions_register [OF step_view.prems(2,1), of "cdb_version (shared w)"]
    by (auto simp: version_view_def Let_def)
next
  case (step_view_at v w c)
  then show ?case using versions_register [OF step_view_at.prems(2,1), of v] by (auto simp: version_view_at_def)
qed (simp_all add: versions_ok_def snap_at_def)

text \<open>Without writes outside transactions the writer is never ahead of the published snapshot.\<close>

lemma cstep_sync: "cstep False U w w' \<Longrightarrow> in_sync (shared w) \<Longrightarrow> in_sync (shared w') \<and> leaks w' = leaks w"
proof (induction rule: cstep.induct)
  case (step_commit i w x v c)
  obtain db where "writer c = db" "current c = from_db db v" "cdb_version c = v" by (rule commit_Inr [OF step_commit.hyps(5,4)])
  then show ?case using step_commit.prems by (simp add: in_sync_def)
next
  case (step_abort i w x e c)
  then show ?case using commit_Inl [OF step_abort.hyps(3)] by (simp add: in_sync_def)
qed (auto simp: in_sync_def begin_with_def version_view_def version_view_at_def Let_def cdb_version_def)

lemma creach_sync: "creach False U w \<Longrightarrow> in_sync (shared w) \<and> leaks w = {}"
proof (induction rule: creach.induct)
  case (creach_new db)
  then show ?case by (simp add: in_sync_def world_new_def cdb_new_def cdb_version_def from_db_def)
next
  case (creach_step w w')
  then show ?case using cstep_sync by blast
qed

lemma creach_versions: "creach False U w \<Longrightarrow> inj_keys U \<Longrightarrow> versions_ok U w"
proof (induction rule: creach.induct)
  case (creach_new db)
  then show ?case
    by (simp add: versions_ok_def Let_def world_new_def cdb_new_def chains_wf_def lookup_def visible_present_def snap_at_def cdb_version_def from_db_def
        gc_floor_def occ_new_def U64_MAX_def)
next
  case (creach_step w w')
  then show ?case using cstep_versions creach_core creach_sync by blast
qed

lemma floor_pos:
  assumes "pins_ok hs oc n" and "\<forall>h \<in> set hs. 1 \<le> pin h"
  shows "1 \<le> gc_floor oc"
proof (cases hs)
  case Nil
  then show ?thesis using floor_empty assms(1) by (simp add: U64_MAX_def)
next
  case (Cons h hs')
  then show ?thesis using floor_is_pin [OF assms(1)] assms(2) by auto
qed

lemma cstep_pins:
  assumes "cstep lg U w w'" and "core_ok U w" and "\<forall>h \<in> set (live w). 1 \<le> pin h"
  shows "\<forall>h \<in> set (live w'). 1 \<le> pin h"
  using assms
proof (induction rule: cstep.induct)
  case (step_begin lv w x c)
  then show ?case using core_okD(1) [OF step_begin.prems(1)] by (auto simp: begin_with_def Let_def cdb_version_def)
next
  case (step_txn_insert i w x t)
  then show ?case using nth_mem [of i "live w"] by (auto simp: txn_insert_def dest!: subsetD [OF set_update_subset_insert])
next
  case (step_txn_delete i w x t)
  then show ?case using nth_mem [of i "live w"] by (auto simp: txn_delete_def dest!: subsetD [OF set_update_subset_insert])
next
  case (step_txn_read i w x t)
  then show ?case using nth_mem [of i "live w"] by (auto simp: txn_read_def dest!: subsetD [OF set_update_subset_insert])
next
  case (step_view w v c)
  then show ?case using core_okD(1) [OF step_view.prems(1)] by (auto simp: version_view_def Let_def)
next
  case (step_view_at v w c)
  then show ?case using core_okD(1) [OF step_view_at.prems(1)] floor_pos [OF core_okD(5) [OF step_view_at.prems(1)] step_view_at.prems(2)] by auto
qed (auto dest: subsetD [OF pins_remove(2)])

lemma creach_pins: "creach lg U w \<Longrightarrow> inj_keys U \<Longrightarrow> \<forall>h \<in> set (live w). 1 \<le> pin h"
proof (induction rule: creach.induct)
  case (creach_step w w')
  then show ?case using cstep_pins creach_core by blast
qed (simp add: world_new_def)

section \<open>Conflicts\<close>

lemma newer_conflict_iff:
  assumes "hist_ok C oc" and "gc_floor oc \<le> s"
  shows "newer_conflict (history oc) s ks \<longleftrightarrow> (\<exists>v ws m. s < v \<and> C v = Some (Tx ws m) \<and> ks \<inter> ws \<noteq> {})"
proof -
  have "newer_conflict (history oc) s ks \<longleftrightarrow> (\<exists>v ws. bm_get (history oc) v = Some ws \<and> s < v \<and> ks \<inter> ws \<noteq> {})"
    unfolding newer_conflict_def list_ex_iff bm_in_iff [OF hist_okD(1) [OF assms(1)], symmetric] by (auto simp: Suc_le_eq)
  moreover have "bm_get (history oc) v = Some ws \<longleftrightarrow> (\<exists>m. C v = Some (Tx ws m))" if "s < v" for v ws
    using hist_okD(2,3) [OF assms(1)] that assms(2) by (meson le_less_trans)
  ultimately show ?thesis by blast
qed

lemma legacy_iff:
  assumes "hist_ok C oc"
  shows "last_legacy_version oc > s \<longleftrightarrow> (\<exists>v > s. C v = Some Legacy)"
  using hist_okD(4,5) [OF assms] by (metis less_le_trans not_less_zero)

definition overlaps :: "'q World \<Rightarrow> Txn \<Rightarrow> rstring set \<Rightarrow> bool" where
  "overlaps w x ks \<longleftrightarrow> (\<exists>v > start_version x. commits w v = Some Legacy \<or> (\<exists>ws m. commits w v = Some (Tx ws m) \<and> ks \<inter> ws \<noteq> {}))"

definition checked_keys :: "Txn \<Rightarrow> rstring set" where
  "checked_keys x = (if checks_read_write (level x) then keys x \<union> reads x else keys x)"

lemma conflict_iff:
  assumes "core_ok U w" and h: "hist_ok (commits w) (occ (shared w))" and x: "HTxn x \<in> set (live w)"
  shows "legacy_during (occ (shared w)) x \<or> ww_conflict (occ (shared w)) x \<or> rw_conflict (occ (shared w)) x \<longleftrightarrow>
    checks_write_write (level x) \<and> overlaps w x (checked_keys x)"
proof -
  have f: "gc_floor (occ (shared w)) \<le> start_version x" using floor_le_pin [OF core_okD(5) [OF assms(1)] x] by simp
  have "checks_read_write (level x) \<Longrightarrow> checks_write_write (level x)" by (cases "level x") auto
  then show ?thesis
    unfolding legacy_during_def ww_conflict_def rw_conflict_def newer_conflict_iff [OF h f] legacy_iff [OF h] overlaps_def checked_keys_def
    by (simp split: if_split) blast
qed

lemma commit_outcome:
  assumes "txn_commit x c = Some (r, c')"
  shows "isl r \<longleftrightarrow> legacy_during (occ c) x \<or> ww_conflict (occ c) x \<or> rw_conflict (occ c) x"
  using assms by (auto simp: txn_commit_def Let_def split: if_splits option.splits prod.splits)

text \<open>C19. Optimistic validation is exact although the write-set history is garbage collected: in every
  reachable interleaving a live transaction's commit is refused if and only if its level validates writes
  and, after the version it started from, either a legacy write was published or a transaction committed
  one of the keys it wrote (or, for \<open>Serializable\<close>, read); a refused commit leaves the database, the
  published snapshot and the base untouched.\<close>

theorem commit_validation_exact:
  assumes "creach lg U w" and "inj_keys U" and "HTxn x \<in> set (live w)" and "txn_commit x (shared w) = Some (r, c)"
  shows "(isl r \<longleftrightarrow> checks_write_write (level x) \<and> overlaps w x (checked_keys x)) \<and>
    (isl r \<longrightarrow> writer c = writer (shared w) \<and> current c = current (shared w) \<and> base c = base (shared w))"
proof -
  have "isl r \<longleftrightarrow> checks_write_write (level x) \<and> overlaps w x (checked_keys x)"
    using conflict_iff [OF creach_core [OF assms(1,2)] creach_hist [OF assms(1,2)] assms(3)] commit_outcome [OF assms(4)] by simp
  moreover have "c = retire (start_version x) (shared w)" if "isl r" using commit_Inl assms(4) that by (cases r) auto
  ultimately show ?thesis by auto
qed

text \<open>C3. Serialisability: a transaction that validates its writes and whose commit succeeds has the effect of
  running at its commit point. Every triple it wrote (or, at \<open>Serializable\<close>, read) has the same membership
  in the snapshot it started from as in the newest one, so no update is lost and no read is stale, and the
  published successor is the newest snapshot with the transaction's operations replayed on it. The first needs that no version since the
  start has published the remains of a failed update, the second that the writer's database is the published one; both always
  hold as long as all writes are transactions. The triples in question have keys that determine them.\<close>

theorem commit_serialises:
  assumes "creach lg U w" and "inj_keys U" and "HTxn x \<in> set (live w)" and "ops_room (writer (shared w)) (ops x)"
    and "cdb_version (shared w) + 1 < U64_MAX" and "txn_commit x (shared w) = Some (Inr v, c)" and "t \<in> U"
  shows "(checks_write_write (level x) \<and> triple_to_string t \<in> checked_keys x \<and> (\<forall>u > start_version x. u \<notin> leaks w) \<longrightarrow>
      snapshot_contains (snapshot x) t = snapshot_contains (current (shared w)) t) \<and>
    (in_sync (shared w) \<longrightarrow>
      snapshot_contains (current c) t = fold (own_write (triple_to_string t)) (ops x) (snapshot_contains (current (shared w)) t)) \<and>
    (\<not> lg \<longrightarrow> in_sync (shared w) \<and> leaks w = {})"
proof (intro conjI impI)
  note core = creach_core [OF assms(1,2)] and hist = creach_hist [OF assms(1,2)]
  let ?n = "cdb_version (shared w)"
  { assume a: "checks_write_write (level x) \<and> triple_to_string t \<in> checked_keys x \<and> (\<forall>u > start_version x. u \<notin> leaks w)"
    have "\<not> overlaps w x (checked_keys x)"
      using commit_outcome [OF assms(6)] conflict_iff [OF core hist assms(3)] a by simp
    then have "snapshot_contains (the (snaps w ?n)) t = snapshot_contains (the (snaps w (start_version x))) t"
      using a live_txn(4) [OF core assms(3)]
      by (intro unchanged_between [OF creach_trace [OF assms(1,2)] assms(7) core_okD(6) [OF core]]) (auto simp: overlaps_def)
    then show "snapshot_contains (snapshot x) t = snapshot_contains (current (shared w)) t"
      using live_txn(2) [OF core assms(3)] core_okD(7) [OF core] by simp }
  obtain db where "apply_ops (writer (shared w)) (ops x) = Some db" "current c = from_db db v"
    by (rule commit_Inr [OF assms(6,5)])
  then show "snapshot_contains (current c) t = fold (own_write (triple_to_string t)) (ops x) (snapshot_contains (current (shared w)) t)"
    if "in_sync (shared w)"
    using commit_replays [OF core assms(2-4) _ assms(7)] sync_present [OF that] by simp
  show "in_sync (shared w)" "leaks w = {}" if "\<not> lg" using creach_sync [of U w] assms(1) that by simp_all
qed

text \<open>C34. A failed update is not atomic. If \<open>update\<close> returns an error, for a request whose earlier operations were applied, it
  publishes nothing and no transaction is told: version, snapshot and conflict bookkeeping are unchanged. But the writer keeps what was
  applied, and the next commit of any transaction publishes it: membership after it is the transaction's operations replayed on the
  database the failed request has left, not on the newest published snapshot.\<close>

theorem failed_update_leaks:
  assumes "creach True U w" and "inj_keys U" and "db_ok db" and "cdb_update out db (shared w) = (Inl e, c0)"
    and "HTxn x \<in> set (live w)" and "ops_room db (ops x)" and "cdb_version (shared w) + 1 < U64_MAX"
    and "txn_commit x c0 = Some (Inr v, c)" and "t \<in> U"
  shows "current c0 = current (shared w) \<and> occ c0 = occ (shared w) \<and>
    snapshot_contains (current c) t = fold (own_write (triple_to_string t)) (ops x) (present db t)"
proof -
  have c0: "c0 = (shared w)\<lparr>writer := db\<rparr>" by (rule update_error [OF assms(4)])
  let ?w = "w\<lparr>shared := c0\<rparr>"
  have "cstep True U w ?w" using assms(3,4) by (intro step_update_error) simp_all
  then have core: "core_ok U ?w" by (intro creach_core [OF creach_step [OF assms(1)] assms(2)])
  obtain db' where db': "apply_ops (writer c0) (ops x) = Some db'" "current c = from_db db' v"
    using commit_Inr [OF assms(8)] assms(7) by (auto simp: c0 cdb_version_def)
  have "snapshot_contains (current c) t = fold (own_write (triple_to_string t)) (ops x) (present (writer (shared ?w)) t)"
    using commit_replays [OF core assms(2) _ _ _ assms(9), of x db' v] assms(5,6) db' by (simp add: c0)
  then show ?thesis by (simp add: c0)
qed

text \<open>C6. Snapshot reads through version chains: in every reachable interleaving of transactions and readers
  (without legacy writes, which bypass the chains) the view pinned at a version answers every membership
  question as the snapshot published at that version did, whatever was committed or collected since, and a
  transaction's captured snapshot is the one published at its start version.\<close>

theorem pinned_views_stable:
  assumes "creach False U w" and "inj_keys U" and "h \<in> set (live w)" and "t \<in> U"
  shows "\<exists>s. snaps w (pin h) = Some s \<and> view_contains (shared w) (pin h) t = snapshot_contains s t \<and>
    (\<forall>x. h = HTxn x \<longrightarrow> snapshot x = s)"
proof -
  note core = creach_core [OF assms(1,2)]
  have n: "pin h \<le> cdb_version (shared w)" using core_okD(5) [OF core] assms(3) by (simp add: pins_ok_def)
  moreover have "1 \<le> pin h" using creach_pins [OF assms(1,2)] assms(3) by blast
  ultimately have "pin h \<in> dom (snaps w)" using core_okD(8) [OF core] by simp
  then obtain s where s: "snaps w (pin h) = Some s" by blast
  have "min (gc_floor (occ (shared w))) (cdb_version (shared w)) \<le> pin h"
    using floor_le_pin [OF core_okD(5) [OF core] assms(3)] by simp
  then have "view_contains (shared w) (pin h) t = snap_at w t (pin h)"
    using creach_versions [OF assms(1,2)] assms(4) by (simp add: versions_ok_def Let_def lookup_def view_contains_def)
  then have "view_contains (shared w) (pin h) t = snapshot_contains s t" using s n by (simp add: snap_at_def)
  moreover have "snapshot x = s" if "h = HTxn x" for x using live_txn(2) [OF core, of x] assms(3) s that by simp
  ultimately show ?thesis using s by blast
qed

section \<open>Two racing writers\<close>

definition race_start :: "unit ConcurrentDb" where
  "race_start = cdb_new (db_new (lit ''db''))"

definition racer :: Txn where
  "racer = txn_insert abc (fst (begin_with RepeatableRead race_start))"

definition race :: "unit World" where
  "race = (world_new (db_new (lit ''db'')))\<lparr>
     shared := snd (begin_with RepeatableRead (snd (begin_with RepeatableRead race_start))), live := [HTxn racer, HTxn racer]\<rparr>"

lemma race_reachable: "creach False {abc} race"
proof -
  let ?w = "world_new (db_new (lit ''db'')) :: unit World"
  let ?c = "snd (begin_with RepeatableRead race_start)"
  let ?x = "fst (begin_with RepeatableRead race_start)"
  have w0: "creach False {abc} ?w" by (rule creach_new [OF db_new_ok])
  have "cstep False {abc} ?w (?w\<lparr>shared := ?c, live := HTxn ?x # live ?w\<rparr>)"
    by (rule step_begin [of RepeatableRead]) (simp add: world_new_def race_start_def)
  then have w1: "creach False {abc} (?w\<lparr>shared := ?c, live := [HTxn ?x]\<rparr>)" using creach_step [OF w0] by (simp add: world_new_def)
  have "cstep False {abc} (?w\<lparr>shared := ?c, live := [HTxn ?x]\<rparr>) (?w\<lparr>shared := ?c, live := [HTxn racer]\<rparr>)"
    using step_txn_insert [of 0 "?w\<lparr>shared := ?c, live := [HTxn ?x]\<rparr>" ?x abc "{abc}" False] by (simp add: racer_def)
  then have w2: "creach False {abc} (?w\<lparr>shared := ?c, live := [HTxn racer]\<rparr>)" by (rule creach_step [OF w1])
  have y: "fst (begin_with RepeatableRead ?c) = ?x" by (simp add: begin_with_def Let_def)
  have "cstep False {abc} (?w\<lparr>shared := ?c, live := [HTxn racer]\<rparr>)
      (?w\<lparr>shared := snd (begin_with RepeatableRead ?c), live := [HTxn ?x, HTxn racer]\<rparr>)"
    using step_begin [of RepeatableRead "?w\<lparr>shared := ?c, live := [HTxn racer]\<rparr>" ?x "snd (begin_with RepeatableRead ?c)" False "{abc}"] y
    by (simp add: prod_eq_iff)
  then have w3: "creach False {abc} (?w\<lparr>shared := snd (begin_with RepeatableRead ?c), live := [HTxn ?x, HTxn racer]\<rparr>)"
    by (rule creach_step [OF w2])
  have "cstep False {abc} (?w\<lparr>shared := snd (begin_with RepeatableRead ?c), live := [HTxn ?x, HTxn racer]\<rparr>) race"
    using step_txn_insert [of 0 "?w\<lparr>shared := snd (begin_with RepeatableRead ?c), live := [HTxn ?x, HTxn racer]\<rparr>" ?x abc "{abc}" False]
    by (simp add: racer_def race_def)
  then show ?thesis by (rule creach_step [OF w3])
qed

lemma race_fields:
  "writer (shared race) = db_new (lit ''db'')" "current (shared race) = from_db (db_new (lit ''db'') :: unit Database) 1" "cdb_version (shared race) = 1"
  "history (occ (shared race)) = []" "last_legacy_version (occ (shared race)) = 0"
  "ops racer = [TxnInsert abc]" "keys racer = {triple_to_string abc}" "start_version racer = 1" "level racer = RepeatableRead"
  "live race = [HTxn racer, HTxn racer]"
  by (simp_all add: race_def race_start_def racer_def txn_insert_def begin_with_def Let_def cdb_new_def occ_new_def cdb_version_def from_db_def)

lemma race_commit:
  obtains c where "txn_commit racer (shared race) = Some (Inr 2, c)" "ops_room (writer (shared race)) (ops racer)"
    "creach False {abc} (race\<lparr>shared := c, live := [HTxn racer], commits := (commits race)(2 \<mapsto> Tx (keys racer) (net_ops (ops racer) [])),
      snaps := (snaps race)(2 \<mapsto> current c)\<rparr>)"
    "start_version racer + 1 < U64_MAX" "level racer = RepeatableRead"
proof -
  have i: "insert_triple (db_new (lit ''db'')) abc = Some (True, abc_db)" using abc_db(1) by (simp add: insert_quad_def)
  have "\<not> (legacy_during (occ (shared race)) racer \<or> ww_conflict (occ (shared race)) racer \<or> rw_conflict (occ (shared race)) racer)"
    by (simp add: legacy_during_def ww_conflict_def rw_conflict_def newer_conflict_def race_fields)
  then obtain c where c: "txn_commit racer (shared race) = Some (Inr 2, c)"
    using i by (simp add: txn_commit_def publish_def Let_def race_fields)
  have room: "ops_room (writer (shared race)) (ops racer)" by (simp add: race_fields new_room)
  have u: "(1::nat) + 1 < U64_MAX" by (simp add: U64_MAX_def)
  have sync: "in_sync (shared race)" using creach_sync [OF race_reachable] by simp
  have "cstep False {abc} race (race\<lparr>shared := c, live := remove_nth 0 (live race), commits := (commits race)(2 \<mapsto> Tx (keys racer) (net_ops (ops racer) [])),
      snaps := (snaps race)(2 \<mapsto> current c), leaks := (if in_sync (shared race) then leaks race else insert 2 (leaks race))\<rparr>)"
    using room u c by (intro step_commit) (simp_all add: race_fields)
  then have "cstep False {abc} race (race\<lparr>shared := c, live := remove_nth 0 (live race), commits := (commits race)(2 \<mapsto> Tx (keys racer) (net_ops (ops racer) [])),
      snaps := (snaps race)(2 \<mapsto> current c)\<rparr>)" using sync by simp
  then show thesis using that [OF c room _ _ race_fields(9)] creach_step [OF race_reachable] u by (simp add: remove_nth_def race_fields)
qed

lemma inj_abc: "inj_keys {abc}"
  by (simp add: inj_keys_def)

theorem commit_validation_exact_witness:
  "\<exists>w :: unit World. creach False {abc} w \<and> HTxn racer \<in> set (live w) \<and>
    (\<exists>e c. txn_commit racer (shared w) = Some (Inl e, c) \<and> current c = current (shared w))"
proof -
  obtain c where c: "creach False {abc} (race\<lparr>shared := c, live := [HTxn racer], commits := (commits race)(2 \<mapsto> Tx (keys racer) (net_ops (ops racer) [])),
      snaps := (snaps race)(2 \<mapsto> current c)\<rparr>)" (is "creach False _ ?w")
    by (rule race_commit)
  have l: "HTxn racer \<in> set (live ?w)" by simp
  have o: "overlaps ?w racer (checked_keys racer)"
    unfolding overlaps_def by (rule exI [of _ 2]) (simp add: race_fields checked_keys_def)
  have "legacy_during (occ (shared ?w)) racer \<or> ww_conflict (occ (shared ?w)) racer \<or> rw_conflict (occ (shared ?w)) racer"
    using conflict_iff [OF creach_core [OF c inj_abc] creach_hist [OF c inj_abc] l] o by (simp add: race_fields)
  then obtain e d where "txn_commit racer (shared ?w) = Some (Inl e, d)" by (auto simp: txn_commit_def)
  then show ?thesis using commit_validation_exact [OF c inj_abc l] c l by auto
qed

theorem commit_serialises_witness:
  "\<exists>w :: unit World. creach False {abc} w \<and> (\<exists>v c. txn_commit racer (shared w) = Some (Inr v, c) \<and>
    snapshot_contains (snapshot racer) abc = snapshot_contains (current (shared w)) abc \<and> snapshot_contains (current c) abc)"
proof -
  obtain c where c: "txn_commit racer (shared race) = Some (Inr 2, c)" "ops_room (writer (shared race)) (ops racer)"
    by (rule race_commit)
  have l: "HTxn racer \<in> set (live race)" by (simp add: race_fields)
  have u: "cdb_version (shared race) + 1 < U64_MAX" by (simp add: race_fields U64_MAX_def)
  show ?thesis using commit_serialises [OF race_reachable inj_abc l c(2) u c(1), of abc] race_reachable c(1)
    by (auto simp: race_fields checked_keys_def)
qed

text \<open>An update inserts a triple and then fails; an empty transaction publishes the triple.\<close>

definition idle :: Txn where
  "idle = fst (begin_with RepeatableRead race_start)"

theorem failed_update_leaks_witness:
  "\<exists>c0 c v. cdb_update (Inl (Io (lit ''no such file''))) abc_db (snd (begin_with RepeatableRead race_start)) = (Inl (Io (lit ''no such file'')), c0) \<and>
    txn_commit idle c0 = Some (Inr v, c) \<and> \<not> snapshot_contains (current c0) abc \<and> snapshot_contains (current c) abc"
proof -
  let ?e = "Io (lit ''no such file'')" and ?w = "world_new (db_new (lit ''db'')) :: unit World" and ?s = "snd (begin_with RepeatableRead race_start)"
  let ?v = "?w\<lparr>shared := ?s, live := [HTxn idle]\<rparr>" and ?c = "?s\<lparr>writer := abc_db\<rparr>"
  have "cstep True {abc} ?w (?w\<lparr>shared := ?s, live := HTxn idle # live ?w\<rparr>)"
    by (rule step_begin [of RepeatableRead]) (simp add: world_new_def race_start_def idle_def)
  then have r: "creach True {abc} ?v" using creach_step [OF creach_new [OF db_new_ok]] by (simp add: world_new_def)
  have x: "ops idle = []" "keys idle = {}" "start_version idle = 1" "level idle = RepeatableRead"
    by (simp_all add: idle_def begin_with_def Let_def race_start_def cdb_new_def from_db_def)
  have f: "history (occ ?s) = []" "last_legacy_version (occ ?s) = 0" "cdb_version ?s = 1" "current ?s = from_db (db_new (lit ''db'') :: unit Database) 1"
    by (simp_all add: begin_with_def Let_def race_start_def cdb_new_def occ_new_def cdb_version_def from_db_def)
  have u: "cdb_update (Inl ?e) abc_db ?s = (Inl ?e, ?c)" by (simp add: cdb_update_def)
  obtain c where c: "txn_commit idle ?c = Some (Inr 2, c)"
    using f by (simp add: txn_commit_def legacy_during_def ww_conflict_def rw_conflict_def newer_conflict_def x publish_def Let_def cdb_version_def)
  have "snapshot_contains (current c) abc = fold (own_write (triple_to_string abc)) (ops idle) (present abc_db abc) \<and> current ?c = current ?s"
    using failed_update_leaks [OF r inj_abc reachable_ok [OF abc_db(2)], of "Inl ?e" ?e ?c idle 2 c abc] u c f(3) by (simp add: x U64_MAX_def)
  moreover have "present abc_db abc" using present_surface [OF reachable_ok [OF abc_db(2)]] by (simp add: abc_db(3))
  moreover have "\<not> snapshot_contains (current ?s) abc"
    unfolding f(4) contains_from_db using present_surface [OF db_new_ok, of "lit ''db''" abc] by (simp add: surface_new)
  ultimately show ?thesis using u c by (intro exI [of _ ?c] exI [of _ c] exI [of _ 2]) (simp add: x)
qed

theorem pinned_views_stable_witness:
  "\<exists>w :: unit World. creach False {abc} w \<and> HTxn racer \<in> set (live w) \<and>
    view_contains (shared w) 1 abc = snapshot_contains (snapshot racer) abc"
proof -
  obtain c where c: "creach False {abc} (race\<lparr>shared := c, live := [HTxn racer], commits := (commits race)(2 \<mapsto> Tx (keys racer) (net_ops (ops racer) [])),
      snaps := (snaps race)(2 \<mapsto> current c)\<rparr>)" (is "creach False _ ?w")
    by (rule race_commit)
  have l: "HTxn racer \<in> set (live ?w)" by simp
  have "view_contains (shared ?w) 1 abc = snapshot_contains (snapshot racer) abc"
    using pinned_views_stable [OF c inj_abc l, of abc] by (auto simp: race_fields)
  then show ?thesis using c l by blast
qed

end
