(* ===== verification/Pager.thy ===== *)
theory Pager
  imports Model "HOL-Library.AList"
begin

text \<open>
  The paged file with a write-back cache, a free list and a write-ahead log (\<open>src/kvstore/pager.rs\<close>).
  The main file is a list of pages (every write is a whole page), the log a byte string. System calls
  succeed here; the order in which their effects reach the disk is the subject of the crash states
  below. \<open>RwLock\<close>/\<open>Mutex\<close> guards around the cache do not change what a single operation does.
\<close>

unbundle bit_operations_syntax

section \<open>Pages and the disk\<close>

type_synonym PageId = u32
type_synonym page = bytes

definition PAGE_SIZE :: nat where
  "PAGE_SIZE = 4096"

definition NROOTS :: nat where
  "NROOTS = 24"

definition ascii :: "string \<Rightarrow> bytes" where
  "ascii s = map of_char s"

definition WAL_MAGIC :: bytes where
  "WAL_MAGIC = ascii ''GSTOREWL''"

definition COMMIT_MAGIC :: bytes where
  "COMMIT_MAGIC = ascii ''GSTORECM''"

definition MAGIC :: bytes where
  "MAGIC = ascii ''GSTOREKV''"

definition zero_page :: page where
  "zero_page = replicate PAGE_SIZE 0"

text \<open>\<open>buf[off..off + len].copy_from_slice(bs)\<close>.\<close>

definition copy_at :: "nat \<Rightarrow> bytes \<Rightarrow> bytes \<Rightarrow> bytes" where
  "copy_at off bs buf = take off buf @ bs @ drop (off + length bs) buf"

text \<open>Seek and read or write one page. A write beyond the end leaves zeros in the hole.\<close>

definition file_read :: "page list \<Rightarrow> PageId \<Rightarrow> page option" where
  "file_read f i = (if unat i < length f then Some (f ! unat i) else None)"

definition file_write :: "PageId \<times> page \<Rightarrow> page list \<Rightarrow> page list" where
  "file_write e f = (case e of (i, d) \<Rightarrow>
     if unat i < length f then f[unat i := d] else f @ replicate (unat i - length f) zero_page @ [d])"

record Disk =
  disk_main :: "page list"
  disk_wal :: "bytes option"

section \<open>The write-ahead log\<close>

definition crc_bit :: "u32 \<Rightarrow> u32" where
  "crc_bit crc = drop_bit 1 crc XOR (0xEDB88320 AND - (crc AND 1))"

definition crc32 :: "bytes \<Rightarrow> u32" where
  "crc32 data = NOT (fold (\<lambda>b crc. (crc_bit ^^ 8) (crc XOR ucast b)) data 0xFFFFFFFF)"

definition wal_entry :: "PageId \<times> page \<Rightarrow> bytes" where
  "wal_entry e = to_le32 (fst e) @ snd e"

definition write_wal :: "(PageId \<times> page) list \<Rightarrow> bytes" where
  "write_wal batch = (let buf = WAL_MAGIC @ to_le32 (word_of_nat (length batch)) @ concat (map wal_entry batch)
     in buf @ to_le32 (crc32 (drop 8 buf)) @ COMMIT_MAGIC)"

definition parse_wal :: "bytes \<Rightarrow> (PageId \<times> page) list option" where
  "parse_wal data =
     (if length data < 12 \<or> take 8 data \<noteq> WAL_MAGIC then None
      else (let n = unat (from_le32 (take 4 (drop 8 data)));
                body_end = 12 + n * (4 + PAGE_SIZE);
                total = body_end + 12 in
        if length data \<noteq> total then None
        else if take 8 (drop (body_end + 4) data) \<noteq> COMMIT_MAGIC then None
        else if crc32 (take (body_end - 8) (drop 8 data)) \<noteq> from_le32 (take 4 (drop body_end data)) then None
        else Some (map (\<lambda>k. (from_le32 (take 4 (drop (12 + k * (4 + PAGE_SIZE)) data)),
               take PAGE_SIZE (drop (12 + k * (4 + PAGE_SIZE) + 4) data))) [0..<n])))"

definition recover_wal :: "Disk \<Rightarrow> Disk" where
  "recover_wal dsk = (case disk_wal dsk of
     None \<Rightarrow> dsk
   | Some data \<Rightarrow> (case parse_wal data of
       None \<Rightarrow> dsk\<lparr>disk_wal := None\<rparr>
     | Some batch \<Rightarrow> \<lparr>disk_main = fold file_write batch (disk_main dsk), disk_wal = None\<rparr>))"

section \<open>The pager\<close>

record CachedPage =
  cp_data :: page
  cp_dirty :: bool
  cp_tick :: u64

record Pager =
  disk :: Disk
  page_count :: u32
  free_head :: PageId
  roots :: "u64 list"
  cache :: "(PageId \<times> CachedPage) list"
  clock :: u64
  capacity :: nat

definition header_bytes :: "Pager \<Rightarrow> page" where
  "header_bytes p = copy_at 0 (MAGIC @ to_le32 (page_count p) @ to_le32 (free_head p) @ concat (map (le_bytes 8) (roots p))) zero_page"

definition flush_batch :: "Pager \<Rightarrow> (PageId \<times> page) list" where
  "flush_batch p = (0, header_bytes p) # map (\<lambda>(i, cp). (i, cp_data cp)) (filter (\<lambda>(i, cp). cp_dirty cp) (cache p))"

definition flush :: "Pager \<Rightarrow> Pager" where
  "flush p = p\<lparr>disk := \<lparr>disk_main = fold file_write (flush_batch p) (disk_main (disk p)), disk_wal = None\<rparr>,
     cache := map (\<lambda>(i, cp). (i, cp\<lparr>cp_dirty := False\<rparr>)) (cache p)\<rparr>"

definition pager_open :: "Disk \<Rightarrow> nat \<Rightarrow> Pager gresult" where
  "pager_open dsk cap = (let d = recover_wal dsk; f = disk_main d; cap' = max cap 8 in
     if f = [] then
       (let p = \<lparr>disk = d, page_count = 1, free_head = 0, roots = replicate NROOTS 0, cache = [], clock = 0, capacity = cap'\<rparr>
        in Inr (flush (p\<lparr>disk := d\<lparr>disk_main := file_write (0, header_bytes p) f\<rparr>\<rparr>)))
     else (let hdr = f ! 0 in
       if take 8 hdr \<noteq> MAGIC then Inl (DatabaseError (lit ''not a gStore KV file''))
       else Inr \<lparr>disk = d, page_count = from_le32 (take 4 (drop 8 hdr)), free_head = from_le32 (take 4 (drop 12 hdr)),
         roots = map (\<lambda>k. of_le_bytes (take 8 (drop (16 + k * 8) hdr))) [0..<NROOTS], cache = [], clock = 0, capacity = cap'\<rparr>))"

text \<open>Indexing the root array out of range panics: \<open>None\<close>.\<close>

definition pager_root :: "Pager \<Rightarrow> nat \<Rightarrow> u64 option" where
  "pager_root p k = (if k < length (roots p) then Some (roots p ! k) else None)"

definition set_root :: "Pager \<Rightarrow> nat \<Rightarrow> u64 \<Rightarrow> Pager option" where
  "set_root p k v = (if k < length (roots p) then Some (p\<lparr>roots := (roots p)[k := v]\<rparr>) else None)"

text \<open>\<open>iter().min_by_key(|(_, cp)| cp.tick)\<close>.\<close>

fun lru :: "(PageId \<times> CachedPage) list \<Rightarrow> PageId option" where
  "lru [] = None"
| "lru ((i, cp) # es) = (case lru es of
     None \<Rightarrow> Some i
   | Some j \<Rightarrow> (case map_of es j of None \<Rightarrow> Some i | Some cq \<Rightarrow> if cp_tick cq < cp_tick cp then Some j else Some i))"

definition evict_one_clean :: "(PageId \<times> CachedPage) list \<Rightarrow> (PageId \<times> CachedPage) list" where
  "evict_one_clean c = (case lru (filter (\<lambda>(i, cp). \<not> cp_dirty cp) c) of None \<Rightarrow> c | Some v \<Rightarrow> AList.delete v c)"

definition evict_one :: "Pager \<Rightarrow> Pager" where
  "evict_one p = (case lru (filter (\<lambda>(i, cp). \<not> cp_dirty cp) (cache p)) of
     Some v \<Rightarrow> p\<lparr>cache := AList.delete v (cache p)\<rparr>
   | None \<Rightarrow> (let q = flush p in case lru (cache q) of None \<Rightarrow> q | Some v \<Rightarrow> q\<lparr>cache := AList.delete v (cache q)\<rparr>))"

definition read_page :: "PageId \<Rightarrow> Pager \<Rightarrow> (page \<times> Pager) gresult" where
  "read_page i p = (let tick = clock p + 1 in
     case map_of (cache p) i of
       Some cp \<Rightarrow> Inr (cp_data cp, p\<lparr>clock := tick, cache := AList.update i (cp\<lparr>cp_tick := tick\<rparr>) (cache p)\<rparr>)
     | None \<Rightarrow> (case file_read (disk_main (disk p)) i of
         None \<Rightarrow> Inl (Io (lit ''failed to fill whole buffer''))
       | Some buf \<Rightarrow> (let tick' = tick + 1;
             c = (if length (cache p) \<ge> capacity p then evict_one_clean (cache p) else cache p)
           in Inr (buf, p\<lparr>clock := tick', cache := AList.update i \<lparr>cp_data = buf, cp_dirty = False, cp_tick = tick'\<rparr> c\<rparr>))))"

definition insert_cache :: "PageId \<Rightarrow> page \<Rightarrow> bool \<Rightarrow> u64 \<Rightarrow> Pager \<Rightarrow> Pager" where
  "insert_cache i d dirty tick p = (let q = (if length (cache p) \<ge> capacity p then evict_one p else p)
     in q\<lparr>cache := AList.update i \<lparr>cp_data = d, cp_dirty = dirty, cp_tick = tick\<rparr> (cache q)\<rparr>)"

definition write_page :: "PageId \<Rightarrow> page \<Rightarrow> Pager \<Rightarrow> Pager gresult" where
  "write_page i d p = (if i = 0 then Inl (DatabaseError (lit ''page 0 is reserved for header''))
     else (let tick = clock p + 1; p1 = p\<lparr>clock := tick\<rparr> in
       case map_of (cache p) i of
         Some cp \<Rightarrow> Inr (p1\<lparr>cache := AList.update i (cp\<lparr>cp_data := d, cp_dirty := True, cp_tick := tick\<rparr>) (cache p)\<rparr>)
       | None \<Rightarrow> Inr (insert_cache i d True tick p1)))"

definition alloc :: "Pager \<Rightarrow> (PageId \<times> Pager) gresult" where
  "alloc p = (if free_head p \<noteq> 0 then
       (let i = free_head p in case read_page i p of
          Inl e \<Rightarrow> Inl e
        | Inr (pg, p1) \<Rightarrow> (case write_page i zero_page (p1\<lparr>free_head := from_le32 (take 4 pg)\<rparr>) of
            Inl e \<Rightarrow> Inl e | Inr p2 \<Rightarrow> Inr (i, p2)))
     else (let i = page_count p in case checked_add32 (page_count p) 1 of
         None \<Rightarrow> Inl (DatabaseError (lit ''page count overflow''))
       | Some n \<Rightarrow> (case write_page i zero_page (p\<lparr>page_count := n\<rparr>) of Inl e \<Rightarrow> Inl e | Inr p2 \<Rightarrow> Inr (i, p2))))"

definition free_page :: "PageId \<Rightarrow> Pager \<Rightarrow> Pager gresult" where
  "free_page i p = (if i = 0 then Inl (DatabaseError (lit ''page 0 is reserved for header''))
     else (case write_page i (copy_at 0 (to_le32 (free_head p)) zero_page) p of
       Inl e \<Rightarrow> Inl e | Inr p1 \<Rightarrow> Inr (p1\<lparr>free_head := i\<rparr>)))"

section \<open>The log is all or nothing\<close>

definition pages_ok :: "(PageId \<times> page) list \<Rightarrow> bool" where
  "pages_ok batch \<longleftrightarrow> (\<forall>e \<in> set batch. length (snd e) = PAGE_SIZE) \<and> length batch < 2 ^ 32"

lemma magic_length [simp]: "length WAL_MAGIC = 8" "length COMMIT_MAGIC = 8" "length MAGIC = 8"
  by (simp_all add: WAL_MAGIC_def COMMIT_MAGIC_def MAGIC_def ascii_def)

lemma zero_page_length [simp]: "length zero_page = PAGE_SIZE"
  by (simp add: zero_page_def)

definition wal_body :: "(PageId \<times> page) list \<Rightarrow> bytes" where
  "wal_body batch = to_le32 (word_of_nat (length batch)) @ concat (map wal_entry batch)"

lemma write_wal_parts: "write_wal batch = WAL_MAGIC @ wal_body batch @ to_le32 (crc32 (wal_body batch)) @ COMMIT_MAGIC"
  by (simp add: write_wal_def wal_body_def Let_def)

lemma wal_body_length: "pages_ok batch \<Longrightarrow> length (wal_body batch) = 4 + length batch * (4 + PAGE_SIZE)"
proof -
  assume "pages_ok batch"
  then have "\<forall>e \<in> set batch. length (wal_entry e) = 4 + PAGE_SIZE" by (simp add: pages_ok_def wal_entry_def)
  then have "length (concat (map wal_entry batch)) = length batch * (4 + PAGE_SIZE)" by (induction batch) simp_all
  then show ?thesis by (simp add: wal_body_def)
qed

lemma write_wal_length: "pages_ok batch \<Longrightarrow> length (write_wal batch) = 24 + length batch * (4 + PAGE_SIZE)"
  by (simp add: write_wal_parts wal_body_length)

lemma wal_count: "length batch < 2 ^ 32 \<Longrightarrow> from_le32 (take 4 (wal_body batch)) = word_of_nat (length batch)"
  by (simp add: wal_body_def)

lemma unat_count: "n < 2 ^ 32 \<Longrightarrow> unat (word_of_nat n :: u32) = n"
  by (simp add: unat_of_nat take_bit_nat_eq_self)

lemma wal_slot:
  assumes "pages_ok batch" and "k < length batch"
  shows "take (4 + PAGE_SIZE) (drop (12 + k * (4 + PAGE_SIZE)) (write_wal batch)) = wal_entry (batch ! k)"
proof -
  have "\<forall>e \<in> set batch. length (wal_entry e) = 4 + PAGE_SIZE" using assms(1) by (simp add: pages_ok_def wal_entry_def)
  from concat_slot [OF this assms(2), of "to_le32 (crc32 (wal_body batch)) @ COMMIT_MAGIC"]
  have "take (4 + PAGE_SIZE) (drop (k * (4 + PAGE_SIZE)) (concat (map wal_entry batch) @ to_le32 (crc32 (wal_body batch)) @ COMMIT_MAGIC)) = wal_entry (batch ! k)" .
  moreover have "drop (12 + k * (4 + PAGE_SIZE)) (write_wal batch) =
      drop (k * (4 + PAGE_SIZE)) (concat (map wal_entry batch) @ to_le32 (crc32 (wal_body batch)) @ COMMIT_MAGIC)"
  proof -
    have "write_wal batch = (WAL_MAGIC @ to_le32 (word_of_nat (length batch))) @ concat (map wal_entry batch) @ to_le32 (crc32 (wal_body batch)) @ COMMIT_MAGIC"
      by (simp add: write_wal_parts) (simp add: wal_body_def)
    then show ?thesis by (simp only: drop_append length_append magic_length length_to_le32) simp
  qed
  ultimately show ?thesis by simp
qed

lemma take_drop_take: "a + b \<le> n \<Longrightarrow> take b (drop a xs) = take b (drop a (take n xs))"
  by (simp add: drop_take min_def)

lemma parse_write_wal:
  assumes "pages_ok batch"
  shows "parse_wal (write_wal batch) = Some batch"
proof -
  let ?w = "write_wal batch" and ?n = "length batch" and ?e = "4 + PAGE_SIZE"
  have n: "?n < 2 ^ 32" using assms by (simp add: pages_ok_def)
  have len: "length ?w = 24 + ?n * ?e" by (rule write_wal_length [OF assms])
  have bl: "length (wal_body batch) = 4 + ?n * ?e" by (rule wal_body_length [OF assms])
  have magic: "take 8 ?w = WAL_MAGIC" by (simp add: write_wal_parts)
  have cnt: "unat (from_le32 (take 4 (drop 8 ?w))) = ?n"
    using wal_count [OF n] unat_count [OF n] bl by (simp add: write_wal_parts)
  have body: "take (12 + ?n * ?e - 8) (drop 8 ?w) = wal_body batch" using bl by (simp add: write_wal_parts)
  have tail: "drop (12 + ?n * ?e) ?w = to_le32 (crc32 (wal_body batch)) @ COMMIT_MAGIC"
  proof -
    have "12 + ?n * ?e = length (WAL_MAGIC @ wal_body batch)" by (simp add: bl)
    then show ?thesis unfolding write_wal_parts by (metis append_assoc append_eq_conv_conj)
  qed
  then have crc: "from_le32 (take 4 (drop (12 + ?n * ?e) ?w)) = crc32 (wal_body batch)" by simp
  have "drop (12 + ?n * ?e + 4) ?w = COMMIT_MAGIC" using tail by (metis add.commute drop_drop append_eq_conv_conj length_to_le32)
  then have commit: "take 8 (drop (12 + ?n * ?e + 4) ?w) = COMMIT_MAGIC" by simp
  have ent: "(from_le32 (take 4 (drop (12 + k * ?e) ?w)), take PAGE_SIZE (drop (12 + k * ?e + 4) ?w)) = batch ! k" if "k < ?n" for k
  proof -
    note sl = wal_slot [OF assms that]
    have "take 4 (drop (12 + k * ?e) ?w) = take 4 (wal_entry (batch ! k))" unfolding sl [symmetric] by simp
    moreover have "take PAGE_SIZE (drop (12 + k * ?e + 4) ?w) = drop 4 (wal_entry (batch ! k))"
      unfolding sl [symmetric] by (simp add: drop_take add.commute)
    ultimately show ?thesis by (simp add: wal_entry_def)
  qed
  have "parse_wal ?w = Some (map (\<lambda>k. (from_le32 (take 4 (drop (12 + k * ?e) ?w)), take PAGE_SIZE (drop (12 + k * ?e + 4) ?w))) [0..<?n])"
    unfolding parse_wal_def Let_def cnt body crc commit using len magic by simp
  also have "\<dots> = Some (map ((!) batch) [0..<?n])" using ent by (intro arg_cong [where f = Some] map_cong) simp_all
  finally show ?thesis by (simp add: map_nth)
qed

section \<open>Damaged logs\<close>

text \<open>
  Before \<open>sync_all\<close> returns, the operating system may have written any of the log's sectors and any length of the file:
  \<open>torn n S w\<close> is the file of length at most \<open>n\<close> in which the sectors \<open>S\<close> never arrived and read as zeros. A sector is written
  whole or not at all. \<open>lost S w\<close> holds the bytes that are missing, so that the damaged log is the exclusive or of both.
\<close>

definition SECTOR :: nat where
  "SECTOR = 512"

definition torn :: "nat \<Rightarrow> nat set \<Rightarrow> bytes \<Rightarrow> bytes" where
  "torn n S w = map (\<lambda>i. if i div SECTOR \<in> S then 0 else w ! i) [0..<min n (length w)]"

definition lost :: "nat set \<Rightarrow> bytes \<Rightarrow> bytes" where
  "lost S w = map (\<lambda>i. if i div SECTOR \<in> S then w ! i else 0) [0..<length w]"

definition crc_step :: "u8 \<Rightarrow> u32 \<Rightarrow> u32" where
  "crc_step b crc = (crc_bit ^^ 8) (crc XOR ucast b)"

text \<open>The remainder of an error pattern, and the patterns CRC-32 cannot see: the error of the stored checksum is the remainder of the
  error of the bytes it covers.\<close>

definition crc_rem :: "bytes \<Rightarrow> u32" where
  "crc_rem e = fold crc_step e 0"

definition crc_blind :: "bytes \<Rightarrow> bool" where
  "crc_blind e \<longleftrightarrow> to_le32 (crc_rem (take (length e - 20) (drop 8 e))) = take 4 (drop (length e - 12) e)"

text \<open>A loss the log format shows: nothing is missing, or part of the commit marker is, or the checksum sees it.\<close>

definition loss_seen :: "nat set \<Rightarrow> bytes \<Rightarrow> bool" where
  "loss_seen S w \<longleftrightarrow> torn (length w) S w = w \<or> (length w - 8) div SECTOR \<in> S \<or> (length w - 1) div SECTOR \<in> S \<or> \<not> crc_blind (lost S w)"

lemma crc32_fold: "crc32 data = NOT (fold crc_step data 0xFFFFFFFF)"
  by (simp add: crc32_def crc_step_def [abs_def])

lemma crc_bit_odd: "crc_bit crc = drop_bit 1 crc XOR (if odd crc then 0xEDB88320 else 0)"
  unfolding crc_bit_def and_one_eq by (simp add: mod_2_eq_odd)

lemma crc_bit_xor: "crc_bit (a XOR b) = crc_bit a XOR crc_bit b"
  unfolding crc_bit_odd drop_bit_xor even_xor_iff by (cases "odd a"; cases "odd b") (simp_all add: ac_simps)

lemma crc_bit_zero: "crc_bit x = 0 \<longleftrightarrow> x = 0"
proof
  assume z: "crc_bit x = 0"
  have "even x"
  proof (rule ccontr)
    assume "odd x"
    then have "drop_bit 1 x XOR 0xEDB88320 = 0" using z by (simp add: crc_bit_odd)
    then have "bit (drop_bit 1 x XOR 0xEDB88320) 31 = bit (0 :: u32) 31" by simp
    then show False by (simp add: bit_xor_iff bit_drop_bit_eq bit_word_iff_drop_bit_and)
  qed
  then have "drop_bit 1 x = 0" using z by (simp add: crc_bit_odd)
  then have "x div 2 = 0" by (simp add: drop_bit_eq_div)
  then show "x = 0" using \<open>even x\<close> div_mult_mod_eq [of x 2] by (simp add: even_iff_mod_2_eq_zero)
qed (simp add: crc_bit_odd)

lemma crc_bits_xor: "(crc_bit ^^ n) (a XOR b) = (crc_bit ^^ n) a XOR (crc_bit ^^ n) b"
  by (induction n) (simp_all add: crc_bit_xor)

lemma crc_step_xor: "crc_step (x XOR y) (a XOR b) = crc_step x a XOR crc_step y b"
proof -
  have "(a XOR b) XOR ucast (x XOR y) = (a XOR ucast x) XOR (b XOR ucast y)" by (simp add: unsigned_xor_eq ac_simps)
  then show ?thesis by (simp add: crc_step_def crc_bits_xor)
qed

lemma crc_fold_xor: "length x = length y \<Longrightarrow> fold crc_step (map2 (XOR) x y) (a XOR b) = fold crc_step x a XOR fold crc_step y b"
  by (induction x y arbitrary: a b rule: list_induct2) (simp_all add: crc_step_xor)

lemma crc32_xor: "length x = length e \<Longrightarrow> crc32 (map2 (XOR) x e) = crc32 x XOR crc_rem e"
  using crc_fold_xor [of x e "0xFFFFFFFF" 0] by (simp add: crc32_fold crc_rem_def)

lemma crc_bits_zero: "(crc_bit ^^ n) x = 0 \<longleftrightarrow> x = 0"
  by (induction n) (simp_all add: crc_bit_zero)

lemma crc_zeros: "fold crc_step (replicate n 0) c = 0 \<longleftrightarrow> c = 0"
  by (induction n arbitrary: c) (simp_all add: crc_step_def crc_bits_zero)

text \<open>A single lost byte of the checksummed part is always seen.\<close>

lemma crc_one_byte: "b \<noteq> 0 \<Longrightarrow> crc_rem (replicate m 0 @ b # replicate n 0) \<noteq> 0"
proof -
  assume b: "b \<noteq> 0"
  have "fold crc_step (replicate m 0) 0 = 0" by (simp only: crc_zeros)
  moreover have "(ucast b :: u32) \<noteq> 0"
  proof
    assume "(ucast b :: u32) = 0"
    then have "unat (ucast b :: u32) = 0" by simp
    moreover have "unat b < 2 ^ 8" using unsigned_less [of b, where ?'a = nat] by simp
    ultimately have "unat b = 0" by (simp add: unsigned_ucast_eq take_bit_nat_eq_self)
    then show False using b by (simp add: unat_eq_0)
  qed
  moreover have "crc_rem (replicate m 0 @ b # replicate n 0) = 0 \<longleftrightarrow> crc_step b (fold crc_step (replicate m 0) 0) = 0"
    by (simp only: crc_rem_def fold_append comp_apply fold_simps crc_zeros)
  ultimately show ?thesis by (simp only: crc_step_def crc_bits_zero) simp
qed

lemma torn_length [simp]: "length (torn n S w) = min n (length w)" "length (lost S w) = length w"
  by (simp_all add: torn_def lost_def)

lemma torn_nth: "i < n \<Longrightarrow> i < length w \<Longrightarrow> torn n S w ! i = (if i div SECTOR \<in> S then 0 else w ! i)"
  by (simp add: torn_def)

lemma lost_nth: "i < length w \<Longrightarrow> lost S w ! i = (if i div SECTOR \<in> S then w ! i else 0)"
  by (simp add: lost_def)

lemma torn_xor: "torn (length w) S w = map2 (XOR) w (lost S w)"
  by (rule nth_equalityI) (simp_all add: torn_nth lost_nth)

lemma slice_xor: "take k (drop m (map2 (XOR) x y)) = map2 (XOR) (take k (drop m x)) (take k (drop m y))"
  by (simp add: take_map drop_map take_zip drop_zip)

lemma xor_cancel: "a XOR b = a XOR c \<longleftrightarrow> b = c" for a b c :: u8
  by (metis xor.assoc xor.left_neutral xor_self_eq)

lemma to_le32_xor: "to_le32 (a XOR b) = map2 (XOR) (to_le32 a) (to_le32 b)"
  by (simp add: to_le32_def drop_bit_xor unsigned_xor_eq)

lemma to_from_le32: "length x = 4 \<Longrightarrow> to_le32 (from_le32 x) = x"
proof -
  assume x: "length x = 4"
  let ?L = "{x :: bytes. set x \<subseteq> UNIV \<and> length x = 4}"
  have inj: "inj to_le32" by (rule inj_on_inverseI [of _ from_le32]) simp
  have "to_le32 ` UNIV = ?L"
  proof (rule card_subset_eq)
    show "finite ?L" by (rule finite_lists_length_eq) simp
    show "to_le32 ` UNIV \<subseteq> ?L" by auto
    have "card ?L = 256 ^ 4" by (simp only: card_lists_length_eq [OF finite] card_word) simp
    then show "card (to_le32 ` UNIV) = card ?L" by (simp add: card_image [OF inj] card_word)
  qed
  then obtain w where "x = to_le32 w" using x by blast
  then show ?thesis by simp
qed

lemma le32_eq_iff: "length x = 4 \<Longrightarrow> w = from_le32 x \<longleftrightarrow> to_le32 w = x"
  using to_from_le32 by auto

lemma wal_fields:
  assumes "pages_ok batch"
  shows "take 8 (write_wal batch) = WAL_MAGIC" "unat (from_le32 (take 4 (drop 8 (write_wal batch)))) = length batch"
    "take (length (write_wal batch) - 20) (drop 8 (write_wal batch)) = wal_body batch"
    "take 4 (drop (length (write_wal batch) - 12) (write_wal batch)) = to_le32 (crc32 (wal_body batch))"
    "take 8 (drop (length (write_wal batch) - 8) (write_wal batch)) = COMMIT_MAGIC"
proof -
  have n: "length batch < 2 ^ 32" using assms by (simp add: pages_ok_def)
  note bl = wal_body_length [OF assms] and len = write_wal_length [OF assms]
  show "take 8 (write_wal batch) = WAL_MAGIC" by (simp add: write_wal_parts)
  show "unat (from_le32 (take 4 (drop 8 (write_wal batch)))) = length batch"
    using wal_count [OF n] unat_count [OF n] bl by (simp add: write_wal_parts)
  show "take (length (write_wal batch) - 20) (drop 8 (write_wal batch)) = wal_body batch"
    using bl unfolding len by (simp add: write_wal_parts)
  have tail: "drop (8 + length (wal_body batch)) (write_wal batch) = to_le32 (crc32 (wal_body batch)) @ COMMIT_MAGIC"
    by (simp add: write_wal_parts)
  have i: "length (write_wal batch) - 12 = 8 + length (wal_body batch)" "length (write_wal batch) - 8 = 4 + (8 + length (wal_body batch))"
    using len bl by simp_all
  show "take 4 (drop (length (write_wal batch) - 12) (write_wal batch)) = to_le32 (crc32 (wal_body batch))"
    unfolding i tail by simp
  show "take 8 (drop (length (write_wal batch) - 8) (write_wal batch)) = COMMIT_MAGIC"
    unfolding i using arg_cong [OF tail, of "drop 4"] by simp
qed

lemma wal_tests:
  assumes "parse_wal w \<noteq> None" and "unat (from_le32 (take 4 (drop 8 w))) = n"
  shows "take 8 w = WAL_MAGIC" "length w = 24 + n * (4 + PAGE_SIZE)" "take 8 (drop (length w - 8) w) = COMMIT_MAGIC"
    "to_le32 (crc32 (take (length w - 20) (drop 8 w))) = take 4 (drop (length w - 12) w)"
proof -
  have t: "\<not> (length w < 12 \<or> take 8 w \<noteq> WAL_MAGIC)" "length w = 12 + n * (4 + PAGE_SIZE) + 12"
    "take 8 (drop (12 + n * (4 + PAGE_SIZE) + 4) w) = COMMIT_MAGIC"
    "crc32 (take (12 + n * (4 + PAGE_SIZE) - 8) (drop 8 w)) = from_le32 (take 4 (drop (12 + n * (4 + PAGE_SIZE)) w))"
    using assms(1) unfolding parse_wal_def Let_def assms(2) by (auto simp del: add_mult_distrib2 mult_Suc_right split: if_splits)
  show "take 8 w = WAL_MAGIC" "length w = 24 + n * (4 + PAGE_SIZE)" using t(1,2) by simp_all
  have i: "12 + n * (4 + PAGE_SIZE) + 4 = length w - 8" "12 + n * (4 + PAGE_SIZE) - 8 = length w - 20" "12 + n * (4 + PAGE_SIZE) = length w - 12"
    using t(2) by simp_all
  show "take 8 (drop (length w - 8) w) = COMMIT_MAGIC" using t(3) unfolding i(1) .
  have "length (take 4 (drop (length w - 12) w)) = 4" using t(2) by simp
  then show "to_le32 (crc32 (take (length w - 20) (drop 8 w))) = take 4 (drop (length w - 12) w)"
    using t(4) unfolding i(2,3) by (simp add: le32_eq_iff)
qed

text \<open>The checksum of a damaged log fits exactly if the checksum is blind for the loss.\<close>

lemma torn_checksum:
  assumes "pages_ok batch" and w: "w = write_wal batch" and t: "t = torn (length w) S w"
  shows "to_le32 (crc32 (take (length w - 20) (drop 8 t))) = take 4 (drop (length w - 12) t) \<longleftrightarrow> crc_blind (lost S w)"
proof -
  let ?e = "lost S w"
  let ?eb = "take (length w - 20) (drop 8 ?e)" and ?ec = "take 4 (drop (length w - 12) ?e)"
  have len: "length w = 24 + length batch * (4 + PAGE_SIZE)" using write_wal_length [OF assms(1)] w by simp
  have x: "t = map2 (XOR) w ?e" unfolding t by (rule torn_xor)
  have "take (length w - 20) (drop 8 t) = map2 (XOR) (wal_body batch) ?eb"
    unfolding x slice_xor using wal_fields(3) [OF assms(1)] w by simp
  moreover have "length (wal_body batch) = length ?eb" using len wal_body_length [OF assms(1)] by simp
  ultimately have c: "to_le32 (crc32 (take (length w - 20) (drop 8 t))) = map2 (XOR) (to_le32 (crc32 (wal_body batch))) (to_le32 (crc_rem ?eb))"
    by (simp add: crc32_xor to_le32_xor)
  have s: "take 4 (drop (length w - 12) t) = map2 (XOR) (to_le32 (crc32 (wal_body batch))) ?ec"
    unfolding x slice_xor using wal_fields(4) [OF assms(1)] w by simp
  have "length ?ec = 4" using len by simp
  moreover have inj: "map2 (XOR) a b = map2 (XOR) a c \<longleftrightarrow> b = c" if "length a = length b" "length b = length c" for a b c :: bytes
    using that by (induction a b c rule: list_induct3) (auto simp: xor_cancel)
  ultimately have "map2 (XOR) (to_le32 (crc32 (wal_body batch))) (to_le32 (crc_rem ?eb)) = map2 (XOR) (to_le32 (crc32 (wal_body batch))) ?ec \<longleftrightarrow>
      to_le32 (crc_rem ?eb) = ?ec" by (intro inj) simp_all
  then show ?thesis unfolding c s crc_blind_def by simp
qed

text \<open>A damaged log whose damage can be seen is dropped as a whole.\<close>

lemma parse_torn_wal:
  assumes ok: "pages_ok batch" and seen: "loss_seen S (write_wal batch)"
  shows "parse_wal (torn n S (write_wal batch)) = None \<or> torn n S (write_wal batch) = write_wal batch"
proof (rule disjCI)
  let ?w = "write_wal batch"
  let ?t = "torn n S ?w" and ?L = "length ?w"
  assume ne: "?t \<noteq> ?w"
  have L: "?L = 24 + length batch * (4 + PAGE_SIZE)" by (rule write_wal_length [OF ok])
  show "parse_wal ?t = None"
  proof (rule ccontr)
    assume p: "parse_wal ?t \<noteq> None"
    then have long: "12 \<le> min n ?L" and magic: "take 8 ?t = WAL_MAGIC" by (auto simp: parse_wal_def split: if_splits)
    have "?t ! 0 = WAL_MAGIC ! 0" using arg_cong [OF magic, of "\<lambda>x. x ! 0"] by simp
    also have "\<dots> \<noteq> 0" by (simp add: WAL_MAGIC_def ascii_def of_char_def)
    finally have "?t ! 0 \<noteq> 0" .
    moreover have "?t ! 0 = (if 0 div SECTOR \<in> S then 0 else ?w ! 0)" by (rule torn_nth) (use long in linarith)+
    ultimately have S0: "0 \<notin> S" by auto
    have "take 12 ?t = take 12 ?w"
      using long S0 by (intro nth_equalityI) (auto simp: torn_nth SECTOR_def)
    then have "take 4 (drop 8 ?t) = take 4 (drop 8 ?w)" using take_drop_take [of 8 4 12 ?t] take_drop_take [of 8 4 12 ?w] by simp
    then have "unat (from_le32 (take 4 (drop 8 ?t))) = length batch" using wal_fields(2) [OF ok] by simp
    note t = wal_tests [OF p this]
    have full: "min n ?L = ?L" using t(2) L by simp
    then have t_full: "?t = torn ?L S ?w" unfolding torn_def by simp
    have tl: "length ?t = ?L" using full by simp
    have "k div SECTOR \<notin> S" if k: "?L - 8 \<le> k" "k < ?L" for k
    proof
      assume "k div SECTOR \<in> S"
      then have "?t ! k = 0" using k full by (simp add: torn_nth)
      moreover have "?t ! k = COMMIT_MAGIC ! (k - (?L - 8))"
        using arg_cong [OF t(3) [unfolded tl], of "\<lambda>x. x ! (k - (?L - 8))"] k L tl by simp
      moreover have "0 \<notin> set COMMIT_MAGIC" by (simp add: COMMIT_MAGIC_def ascii_def of_char_def)
      then have "COMMIT_MAGIC ! j \<noteq> 0" if "j < 8" for j using that nth_mem [of j COMMIT_MAGIC] by (metis magic_length(2))
      ultimately show False using k by simp
    qed
    from this [of "?L - 8"] this [of "?L - 1"] have "\<not> crc_blind (lost S ?w)"
      using seen ne L unfolding loss_seen_def t_full [symmetric] by simp
    then show False using torn_checksum [OF ok refl t_full] t(4) unfolding tl by simp
  qed
qed

text \<open>A loss whose only byte that is not zero lies in the checksummed part is seen.\<close>

lemma one_byte_seen:
  assumes "lost S w = replicate m 0 @ b # replicate k 0" and "b \<noteq> 0" and "8 \<le> m" and "12 \<le> k"
  shows "loss_seen S w"
proof -
  have L: "length w = m + Suc k" using arg_cong [OF assms(1), of length] by simp
  have "take (length w - 20) (drop 8 (lost S w)) = replicate (m - 8) 0 @ b # replicate (k - 12) 0"
    using assms(3,4) unfolding assms(1) L by (simp add: take_Cons' )
  moreover have "take 4 (drop (length w - 12) (lost S w)) = to_le32 0"
    using assms(3,4) unfolding assms(1) L by (simp add: drop_Cons' to_le32_def numeral_eq_Suc)
  moreover have "to_le32 (crc_rem (replicate (m - 8) 0 @ b # replicate (k - 12) 0)) \<noteq> to_le32 0"
    using crc_one_byte [OF assms(2)] from_to_le32 by metis
  ultimately show ?thesis by (simp add: loss_seen_def crc_blind_def)
qed

section \<open>Applying a batch\<close>

definition batch_len :: "(PageId \<times> page) list \<Rightarrow> nat \<Rightarrow> nat" where
  "batch_len batch n = fold (\<lambda>e m. max m (Suc (unat (fst e)))) batch n"

definition page_slot :: "page list \<Rightarrow> nat \<Rightarrow> page" where
  "page_slot f j = (if j < length f then f ! j else zero_page)"

definition batch_get :: "(PageId \<times> page) list \<Rightarrow> nat \<Rightarrow> page option" where
  "batch_get batch j = map_of (rev (map (\<lambda>(i, d). (unat i, d)) batch)) j"

lemma file_write_length [simp]: "length (file_write e f) = max (length f) (Suc (unat (fst e)))"
  by (cases e) (simp add: file_write_def max_def)

lemma slot_file_write [simp]: "page_slot (file_write e f) j = (if j = unat (fst e) then snd e else page_slot f j)"
  by (cases e) (auto simp: page_slot_def file_write_def nth_append)

lemma apply_length: "length (fold file_write batch f) = batch_len batch (length f)"
  by (induction batch arbitrary: f) (simp_all add: batch_len_def)

lemma apply_slot: "page_slot (fold file_write batch f) j = (case batch_get batch j of Some d \<Rightarrow> d | None \<Rightarrow> page_slot f j)"
proof (induction batch arbitrary: f)
  case (Cons e batch)
  then show ?case by (cases e) (auto simp: batch_get_def map_add_def split: option.split)
qed (simp add: batch_get_def)

lemma batch_len_mono: "n \<le> batch_len batch n"
  by (induction batch arbitrary: n) (simp_all add: batch_len_def, meson max.cobounded1 order_trans)

lemma batch_len_absorb:
  assumes "m \<le> n" and "n \<le> batch_len batch m"
  shows "batch_len batch n = batch_len batch m"
  using assms
proof (induction batch arbitrary: m n)
  case (Cons e batch)
  let ?i = "Suc (unat (fst e))"
  have step: "batch_len (e # batch) k = batch_len batch (max k ?i)" for k by (simp add: batch_len_def)
  have "batch_len batch (max n ?i) = batch_len batch (max m ?i)"
  proof (rule Cons.IH)
    show "max m ?i \<le> max n ?i" using Cons.prems(1) by simp
    show "max n ?i \<le> batch_len batch (max m ?i)"
      using Cons.prems(2) batch_len_mono [of "max m ?i" batch] by (simp add: step)
  qed
  then show ?case by (simp add: step)
qed (simp add: batch_len_def)

lemma file_eqI: "length f = length g \<Longrightarrow> (\<And>j. j < length f \<Longrightarrow> page_slot f j = page_slot g j) \<Longrightarrow> f = g"
  by (rule nth_equalityI) (simp_all add: page_slot_def)

lemma batch_get_None: "batch_get batch j = None \<longleftrightarrow> j \<notin> unat ` fst ` set batch"
  by (force simp: batch_get_def map_of_eq_None_iff)

text \<open>Some of the batch's pages are written, torn or not; the others are as before.\<close>

definition partial_write :: "page list \<Rightarrow> (PageId \<times> page) list \<Rightarrow> page list \<Rightarrow> bool" where
  "partial_write old batch f \<longleftrightarrow> length old \<le> length f \<and> length f \<le> length (fold file_write batch old) \<and>
     (\<forall>j < length f. j \<notin> unat ` fst ` set batch \<longrightarrow> f ! j = page_slot old j)"

lemma apply_partial:
  assumes "partial_write old batch f"
  shows "fold file_write batch f = fold file_write batch old"
proof (rule file_eqI)
  show "length (fold file_write batch f) = length (fold file_write batch old)"
    using assms batch_len_absorb by (simp add: partial_write_def apply_length)
  fix j assume "j < length (fold file_write batch f)"
  show "page_slot (fold file_write batch f) j = page_slot (fold file_write batch old) j"
  proof (cases "batch_get batch j")
    case None
    then have "j \<notin> unat ` fst ` set batch" by (simp add: batch_get_None)
    then have "page_slot f j = page_slot old j" using assms by (cases "j < length f") (auto simp: partial_write_def page_slot_def)
    then show ?thesis by (simp add: apply_slot None)
  qed (simp add: apply_slot)
qed

text \<open>What a crash during \<open>flush\<close> can leave on the disk: the log is written and synced before the main
  file is touched, and removed after the main file is synced. \<open>S\<close> are the sectors of the log that a crash before the sync
  loses; the length of the file is arbitrary then.\<close>

inductive crash :: "nat set \<Rightarrow> page list \<Rightarrow> (PageId \<times> page) list \<Rightarrow> Disk \<Rightarrow> bool"
  for S :: "nat set" and old :: "page list" and batch :: "(PageId \<times> page) list" where
  before_log: "crash S old batch \<lparr>disk_main = old, disk_wal = None\<rparr>"
| in_log: "crash S old batch \<lparr>disk_main = old, disk_wal = Some (torn n S (write_wal batch))\<rparr>"
| in_main: "partial_write old batch f \<Longrightarrow> crash S old batch \<lparr>disk_main = f, disk_wal = Some (write_wal batch)\<rparr>"
| after_log: "crash S old batch \<lparr>disk_main = fold file_write batch old, disk_wal = None\<rparr>"

lemma crash_recovers:
  assumes "crash S old batch d" and "pages_ok batch" and "loss_seen S (write_wal batch)"
  shows "recover_wal d = \<lparr>disk_main = old, disk_wal = None\<rparr> \<or> recover_wal d = \<lparr>disk_main = fold file_write batch old, disk_wal = None\<rparr>"
  using assms(1)
proof cases
  case (in_log n)
  then show ?thesis using parse_torn_wal [OF assms(2,3), of n] parse_write_wal [OF assms(2)] by (auto simp: recover_wal_def)
next
  case (in_main f)
  then show ?thesis using parse_write_wal [OF assms(2)] apply_partial by (simp add: recover_wal_def)
qed (simp_all add: recover_wal_def)

section \<open>The cache is transparent\<close>

definition page_of :: "Pager \<Rightarrow> PageId \<Rightarrow> page option" where
  "page_of p i = (case map_of (cache p) i of Some cp \<Rightarrow> Some (cp_data cp) | None \<Rightarrow> file_read (disk_main (disk p)) i)"

text \<open>The pages clients see: all but the header. In the invariant \<open>N\<close> is the number of pages that exist, which is
  \<open>page_count\<close> except while \<open>alloc\<close> writes a new one.\<close>

definition view :: "Pager \<Rightarrow> PageId \<Rightarrow> page option" where
  "view p i = (if i = 0 then None else page_of p i)"

definition cache_ok :: "u32 \<Rightarrow> Pager \<Rightarrow> bool" where
  "cache_ok N p \<longleftrightarrow> distinct (map fst (cache p)) \<and>
     (\<forall>i cp. map_of (cache p) i = Some cp \<longrightarrow> i \<noteq> 0 \<and> i < N \<and> length (cp_data cp) = PAGE_SIZE \<and>
        (cp_dirty cp \<or> file_read (disk_main (disk p)) i = Some (cp_data cp))) \<and>
     (\<forall>pg \<in> set (disk_main (disk p)). length pg = PAGE_SIZE) \<and> disk_main (disk p) \<noteq> [] \<and>
     length (disk_main (disk p)) \<le> unat (N) \<and> (\<forall>i. i \<noteq> 0 \<longrightarrow> i < N \<longrightarrow> page_of p i \<noteq> None) \<and>
     length (roots p) = NROOTS \<and> disk_wal (disk p) = None \<and> capacity p \<ge> 8"

lemma cache_okD:
  assumes "cache_ok N p"
  shows "distinct (map fst (cache p))" "map_of (cache p) i = Some cp \<Longrightarrow> i \<noteq> 0 \<and> i < N \<and> length (cp_data cp) = PAGE_SIZE"
    "map_of (cache p) i = Some cp \<Longrightarrow> \<not> cp_dirty cp \<Longrightarrow> file_read (disk_main (disk p)) i = Some (cp_data cp)"
    "pg \<in> set (disk_main (disk p)) \<Longrightarrow> length pg = PAGE_SIZE" "disk_main (disk p) \<noteq> []"
    "length (disk_main (disk p)) \<le> unat (N)" "i \<noteq> 0 \<Longrightarrow> i < N \<Longrightarrow> page_of p i \<noteq> None"
    "length (roots p) = NROOTS" "disk_wal (disk p) = None" "capacity p \<ge> 8"
  using assms unfolding cache_ok_def by blast+

lemma page_of_below: "cache_ok N p \<Longrightarrow> page_of p i = Some d \<Longrightarrow> i < N \<and> length d = PAGE_SIZE"
proof -
  assume ok: "cache_ok N p" and d: "page_of p i = Some d"
  show ?thesis
  proof (cases "map_of (cache p) i")
    case None
    then have "file_read (disk_main (disk p)) i = Some d" using d by (simp add: page_of_def)
    then have "unat i < length (disk_main (disk p))" "d \<in> set (disk_main (disk p))" by (auto simp: file_read_def split: if_splits)
    then show ?thesis using cache_okD(4,6) [OF ok] by (auto simp: word_less_nat_alt)
  next
    case (Some cp)
    then show ?thesis using cache_okD(2) [OF ok Some] d by (auto simp: page_of_def)
  qed
qed

lemma view_iff: "cache_ok N p \<Longrightarrow> view p i \<noteq> None \<longleftrightarrow> i \<noteq> 0 \<and> i < N"
  using cache_okD(7) page_of_below unfolding view_def by (metis option.exhaust)

lemma file_read_slot: "file_read f i = (if unat i < length f then Some (page_slot f (unat i)) else None)"
  by (simp add: file_read_def page_slot_def)

lemma map_of_rev_distinct: "distinct (map fst xs) \<Longrightarrow> map_of (rev xs) = map_of xs"
proof (induction xs)
  case (Cons x xs)
  then have "map_of xs (fst x) = None" by (auto simp: map_of_eq_None_iff)
  then show ?case using Cons by (auto simp: map_add_def fun_eq_iff split: option.split)
qed simp

lemma map_of_filter_val:
  assumes "distinct (map fst es)"
  shows "map_of (filter (\<lambda>(i, v). P v) es) i = (case map_of es i of Some v \<Rightarrow> if P v then Some v else None | None \<Rightarrow> None)"
  using assms
proof (induction es)
  case (Cons e es)
  then have "map_of es (fst e) = None" by (auto simp: map_of_eq_None_iff)
  then show ?case using Cons by (cases e) auto
qed simp

lemma flush_batch_get:
  assumes ok: "cache_ok N p" and i: "i \<noteq> 0"
  shows "batch_get (flush_batch p) (unat i) = (case map_of (cache p) i of Some cp \<Rightarrow> if cp_dirty cp then Some (cp_data cp) else None | None \<Rightarrow> None)"
proof -
  let ?es = "filter (\<lambda>(i, cp). cp_dirty cp) (cache p)"
  have d: "distinct (map fst ?es)" using cache_okD(1) [OF ok] by (simp add: distinct_map_filter)
  have "map_of (rev (map (\<lambda>(i, d). (unat i, d)) (map (\<lambda>(i, cp). (i, cp_data cp)) ?es))) (unat i) = map_option cp_data (map_of ?es i)"
  proof -
    have "map_of (map (\<lambda>(i, d). (unat i, d)) (map (\<lambda>(i, cp). (i, cp_data cp)) es)) (unat i) = map_option cp_data (map_of es i)" for es :: "(PageId \<times> CachedPage) list"
      by (induction es) (auto simp: unat_eqD)
    moreover have "distinct (map fst (map (\<lambda>(i, d). (unat i, d)) (map (\<lambda>(i, cp). (i, cp_data cp)) ?es)))"
    proof -
      have "map fst (map (\<lambda>(i, d). (unat i, d)) (map (\<lambda>(i, cp). (i, cp_data cp)) ?es)) = map unat (map fst ?es)" by (simp add: case_prod_beta comp_def)
      moreover have "distinct (map unat (map fst ?es))" using d unfolding distinct_map [of unat] by (simp add: inj_on_def unat_eqD)
      ultimately show ?thesis by (simp only:)
    qed
    ultimately show ?thesis by (simp only: map_of_rev_distinct)
  qed
  moreover have "map_of ?es i = (case map_of (cache p) i of Some cp \<Rightarrow> if cp_dirty cp then Some cp else None | None \<Rightarrow> None)"
    by (rule map_of_filter_val [OF cache_okD(1) [OF ok]])
  ultimately show ?thesis using i
    by (auto simp: batch_get_def flush_batch_def map_add_def unat_eq_0 split: option.splits)
qed

lemma batch_len_le: "n \<le> m \<Longrightarrow> \<forall>e \<in> set batch. unat (fst e) < m \<Longrightarrow> batch_len batch n \<le> m"
  by (induction batch arbitrary: n) (simp_all add: batch_len_def)

lemma batch_len_mem: "e \<in> set batch \<Longrightarrow> unat (fst e) < batch_len batch n"
proof (induction batch arbitrary: n)
  case (Cons a batch)
  have step: "batch_len (a # batch) n = batch_len batch (max n (Suc (unat (fst a))))" by (simp add: batch_len_def)
  show ?case
  proof (cases "e = a")
    case True
    then show ?thesis using batch_len_mono [of "max n (Suc (unat (fst a)))" batch] by (simp add: step)
  next
    case False
    then show ?thesis using Cons by (simp add: step)
  qed
qed simp

lemma flush_batch_ids: "cache_ok N p \<Longrightarrow> e \<in> set (flush_batch p) \<Longrightarrow> unat (fst e) < unat (N)"
proof -
  assume ok: "cache_ok N p" and e: "e \<in> set (flush_batch p)"
  have "0 < unat (N)" using cache_okD(5,6) [OF ok] by (cases "disk_main (disk p)") auto
  moreover have "i < N" if "(i, cp) \<in> set (cache p)" for i cp
    using cache_okD(2) [OF ok] that cache_okD(1) [OF ok] map_of_is_SomeI by metis
  ultimately show ?thesis using e by (auto simp: flush_batch_def word_less_nat_alt)
qed

lemma cached_entry: "cache_ok N p \<Longrightarrow> (i, cp) \<in> set (cache p) \<longleftrightarrow> map_of (cache p) i = Some cp"
  using cache_okD(1) by (metis map_of_eq_Some_iff)

lemma header_length: "cache_ok N p \<Longrightarrow> length (header_bytes p) = PAGE_SIZE"
proof -
  assume ok: "cache_ok N p"
  have "length (concat (map (le_bytes 8) rs)) = 8 * length rs" for rs :: "u64 list" by (induction rs) simp_all
  then have "length (concat (map (le_bytes 8) (roots p))) = 192" using cache_okD(8) [OF ok] by (simp add: NROOTS_def)
  then show ?thesis by (simp add: header_bytes_def copy_at_def PAGE_SIZE_def)
qed

lemma flush_pages_ok:
  assumes ok: "cache_ok N p"
  shows "pages_ok (flush_batch p)"
proof -
  have "length (snd e) = PAGE_SIZE" if "e \<in> set (flush_batch p)" for e
    using that header_length [OF ok] cache_okD(2) [OF ok] cached_entry [OF ok] by (auto simp: flush_batch_def)
  moreover have "length (flush_batch p) < 2 ^ 32"
  proof -
    have "i \<noteq> 0 \<and> i \<noteq> - 1" if "i \<in> fst ` set (cache p)" for i
    proof -
      have "i \<noteq> 0 \<and> i < N" using that cache_okD(2) [OF ok] cached_entry [OF ok] by auto
      then show ?thesis using word_order.extremum_strict by blast
    qed
    then have "card (fst ` set (cache p)) \<le> card (UNIV - {0, - 1 :: u32})" by (intro card_mono) auto
    moreover have "card (UNIV - {0, - 1 :: u32}) = 2 ^ 32 - 2" by (subst card_Diff_subset) (simp_all add: card_word)
    moreover have "card (fst ` set (cache p)) = length (cache p)" using distinct_card [OF cache_okD(1) [OF ok]] by simp
    moreover have "length (flush_batch p) \<le> Suc (length (cache p))" by (simp add: flush_batch_def)
    ultimately show ?thesis by simp
  qed
  ultimately show ?thesis by (simp add: pages_ok_def)
qed

lemma flush_frame [simp]:
  "page_count (flush p) = page_count p" "free_head (flush p) = free_head p" "roots (flush p) = roots p" "capacity (flush p) = capacity p"
  by (simp_all add: flush_def)

lemma flush_cache: "map_of (cache (flush p)) i = map_option (\<lambda>cp. cp\<lparr>cp_dirty := False\<rparr>) (map_of (cache p) i)"
proof -
  have "map_of (map (\<lambda>(i, cp). (i, f cp)) es) i = map_option f (map_of es i)" for es and f :: "CachedPage \<Rightarrow> CachedPage"
    by (induction es) auto
  then show ?thesis by (simp add: flush_def)
qed

lemma flush_file:
  assumes ok: "cache_ok N p" and i: "i \<noteq> 0" and c: "i < N"
  shows "(case map_of (cache p) i of Some cp \<Rightarrow> file_read (disk_main (disk (flush p))) i = Some (cp_data cp)
    | None \<Rightarrow> file_read (disk_main (disk (flush p))) i = file_read (disk_main (disk p)) i)"
proof -
  let ?f = "disk_main (disk p)" and ?g = "disk_main (disk (flush p))"
  have g: "?g = fold file_write (flush_batch p) ?f" by (simp add: flush_def)
  have len: "length ?f \<le> length ?g" using batch_len_mono by (simp add: g apply_length)
  have sl: "page_slot ?g (unat i) = (case batch_get (flush_batch p) (unat i) of Some d \<Rightarrow> d | None \<Rightarrow> page_slot ?f (unat i))" by (simp add: g apply_slot)
  show ?thesis
  proof (cases "map_of (cache p) i")
    case None
    then have "file_read ?f i \<noteq> None" using cache_okD(7) [OF ok i c] by (simp add: page_of_def)
    then have "unat i < length ?f" by (simp add: file_read_def split: if_splits)
    then show ?thesis using len sl flush_batch_get [OF ok i] by (simp add: None file_read_slot)
  next
    case (Some cp)
    show ?thesis
    proof (cases "cp_dirty cp")
      case True
      have "(i, cp_data cp) \<in> set (flush_batch p)" using Some True cached_entry [OF ok, of i cp] by (force simp: flush_batch_def)
      then have "unat i < length ?g" using batch_len_mem unfolding g apply_length by fastforce
      then show ?thesis using sl flush_batch_get [OF ok i] Some True by (simp add: file_read_slot)
    next
      case False
      then have "file_read ?f i = Some (cp_data cp)" using cache_okD(3) [OF ok Some] by blast
      then show ?thesis using len sl flush_batch_get [OF ok i] Some False by (auto simp: file_read_slot split: if_splits)
    qed
  qed
qed

lemma flush_ok:
  assumes ok: "cache_ok N p"
  shows "cache_ok N (flush p)" "view (flush p) = view p" "\<forall>i cp. map_of (cache (flush p)) i = Some cp \<longrightarrow> \<not> cp_dirty cp"
proof -
  let ?f = "disk_main (disk p)" and ?g = "disk_main (disk (flush p))"
  have g: "?g = fold file_write (flush_batch p) ?f" by (simp add: flush_def)
  note ff = flush_file [OF ok]
  have keys: "map fst (cache (flush p)) = map fst (cache p)" by (simp add: flush_def case_prod_beta comp_def)
  have glen: "length ?g \<le> unat (N)"
    using batch_len_le [OF cache_okD(6) [OF ok]] flush_batch_ids [OF ok] by (simp add: g apply_length)
  have page: "page_of (flush p) i = page_of p i" if "i \<noteq> 0" for i
  proof (cases "i < N")
    case True
    then show ?thesis using ff [OF that] by (cases "map_of (cache p) i") (simp_all add: page_of_def flush_cache)
  next
    case False
    have "map_of (cache p) i = None" using cache_okD(2) [OF ok] False by (cases "map_of (cache p) i") auto
    moreover have "file_read ?g i = None" "file_read ?f i = None"
      using glen cache_okD(6) [OF ok] False by (auto simp: file_read_def word_less_nat_alt)
    ultimately show ?thesis by (simp add: page_of_def flush_cache)
  qed
  show "view (flush p) = view p" by (simp add: view_def page fun_eq_iff)
  show clean: "\<forall>i cp. map_of (cache (flush p)) i = Some cp \<longrightarrow> \<not> cp_dirty cp" by (auto simp: flush_cache)
  have pg: "length pg = PAGE_SIZE" if "pg \<in> set ?g" for pg
  proof -
    obtain j where j: "j < length ?g" "pg = page_slot ?g j" using \<open>pg \<in> set ?g\<close> by (auto simp: in_set_conv_nth page_slot_def)
    show ?thesis
    proof (cases "batch_get (flush_batch p) j")
      case None
      then have "pg = page_slot ?f j" using j(2) by (simp add: g apply_slot)
      then show ?thesis using cache_okD(4) [OF ok] by (cases "j < length ?f") (simp_all add: page_slot_def)
    next
      case (Some d)
      then have "pg = d" using j(2) by (simp add: g apply_slot)
      moreover have "d \<in> snd ` set (flush_batch p)" using Some by (force simp: batch_get_def dest: map_of_SomeD)
      ultimately show ?thesis using flush_pages_ok [OF ok] by (auto simp: pages_ok_def)
    qed
  qed
  have "?g \<noteq> []" using batch_len_mem [of "(0, header_bytes p)" "flush_batch p" "length ?f"] apply_length [of "flush_batch p" ?f]
    by (auto simp: g flush_batch_def)
  moreover have "file_read ?g i = Some (cp_data cp)" if "map_of (cache p) i = Some cp" for i cp
    using ff [of i] cache_okD(2) [OF ok that] that by simp
  ultimately show "cache_ok N (flush p)"
    unfolding cache_ok_def keys
    using cache_okD(1,8,10) [OF ok] cache_okD(2) [OF ok] cache_okD(7) [OF ok] glen pg
    by (auto simp: flush_cache page) (simp add: flush_def)
qed

section \<open>Cache operations\<close>

lemma lru_mem: "lru es = Some v \<Longrightarrow> v \<in> fst ` set es"
  by (induction es rule: lru.induct) (auto split: option.splits if_splits)

text \<open>Dropping a clean page changes nothing.\<close>

lemma drop_clean:
  assumes ok: "cache_ok N p" and v: "map_of (cache p) v = Some cp" "\<not> cp_dirty cp"
  shows "cache_ok N (p\<lparr>cache := AList.delete v (cache p)\<rparr>)" "view (p\<lparr>cache := AList.delete v (cache p)\<rparr>) = view p"
proof -
  let ?q = "p\<lparr>cache := AList.delete v (cache p)\<rparr>"
  have m: "map_of (cache ?q) i = (if i = v then None else map_of (cache p) i)" for i by (simp add: delete_conv')
  have page: "page_of ?q i = page_of p i" for i
    using cache_okD(3) [OF ok v] v(1) m [of i] by (simp add: page_of_def split: option.split)
  then show "view ?q = view p" by (simp add: view_def fun_eq_iff)
  have "distinct (map fst (cache ?q))" using distinct_delete [OF cache_okD(1) [OF ok]] by simp
  moreover have "i \<noteq> 0 \<and> i < N \<and> length (cp_data c) = PAGE_SIZE \<and> (cp_dirty c \<or> file_read (disk_main (disk ?q)) i = Some (cp_data c))"
    if "map_of (cache ?q) i = Some c" for i c
    using cache_okD(2,3) [OF ok, of i c] that by (auto simp: delete_conv' split: if_splits)
  moreover have "\<forall>i. i \<noteq> 0 \<longrightarrow> i < N \<longrightarrow> page_of ?q i \<noteq> None" using cache_okD(7) [OF ok] page by simp
  ultimately show "cache_ok N ?q" unfolding cache_ok_def using cache_okD(4-6,8-10) [OF ok] by simp
qed

lemma clean_victim:
  assumes ok: "cache_ok N p" and "lru (filter (\<lambda>(i, cp). \<not> cp_dirty cp) (cache p)) = Some v"
  obtains cp where "map_of (cache p) v = Some cp" "\<not> cp_dirty cp"
proof -
  obtain cp where "(v, cp) \<in> set (cache p)" "\<not> cp_dirty cp" using lru_mem [OF assms(2)] by auto
  then show thesis using that cached_entry [OF ok] by blast
qed

lemma evict_one_ok:
  assumes ok: "cache_ok N p"
  shows "cache_ok N (evict_one p)" "view (evict_one p) = view p" "page_count (evict_one p) = page_count p"
    "free_head (evict_one p) = free_head p" "roots (evict_one p) = roots p"
    "map_of (cache p) i = None \<Longrightarrow> map_of (cache (evict_one p)) i = None"
proof -
  have "cache_ok N (evict_one p) \<and> view (evict_one p) = view p \<and> page_count (evict_one p) = page_count p \<and>
      free_head (evict_one p) = free_head p \<and> roots (evict_one p) = roots p \<and>
      (map_of (cache p) i = None \<longrightarrow> map_of (cache (evict_one p)) i = None)" for i
  proof (cases "lru (filter (\<lambda>(i, cp). \<not> cp_dirty cp) (cache p))")
    case (Some v)
    then obtain cp where "map_of (cache p) v = Some cp" "\<not> cp_dirty cp" by (rule clean_victim [OF ok])
    then show ?thesis using drop_clean [OF ok] Some by (simp add: evict_one_def delete_conv')
  next
    case None
    note f = flush_ok [OF ok]
    show ?thesis
    proof (cases "lru (cache (flush p))")
      case None
      then show ?thesis using f \<open>lru (filter _ _) = None\<close> by (simp add: evict_one_def Let_def flush_cache)
    next
      case (Some v)
      then obtain cp where cp: "map_of (cache (flush p)) v = Some cp" using lru_mem cached_entry [OF f(1)] by fastforce
      then have "\<not> cp_dirty cp" using f(3) by blast
      then show ?thesis using drop_clean [OF f(1) cp] f \<open>lru (filter _ _) = None\<close> Some
        by (simp add: evict_one_def Let_def delete_conv' flush_cache)
    qed
  qed
  then show "cache_ok N (evict_one p)" "view (evict_one p) = view p" "page_count (evict_one p) = page_count p"
    "free_head (evict_one p) = free_head p" "roots (evict_one p) = roots p"
    "map_of (cache p) i = None \<Longrightarrow> map_of (cache (evict_one p)) i = None" by blast+
qed

text \<open>Putting a page into the cache, dirty or as it is in the file.\<close>

lemma put_cache:
  assumes ok: "cache_ok N p" and i: "i \<noteq> 0" "i < N" and d: "length (cp_data cp) = PAGE_SIZE"
    and c: "cp_dirty cp \<or> file_read (disk_main (disk p)) i = Some (cp_data cp)"
  shows "cache_ok N (p\<lparr>clock := t, cache := AList.update i cp (cache p)\<rparr>)"
    "view (p\<lparr>clock := t, cache := AList.update i cp (cache p)\<rparr>) = (view p)(i \<mapsto> cp_data cp)"
proof -
  let ?q = "p\<lparr>clock := t, cache := AList.update i cp (cache p)\<rparr>"
  have m: "map_of (cache ?q) j = (if j = i then Some cp else map_of (cache p) j)" for j by (simp add: update_conv')
  have page: "page_of ?q j = (if j = i then Some (cp_data cp) else page_of p j)" for j
    using m [of j] by (simp add: page_of_def split: option.split)
  then show "view ?q = (view p)(i \<mapsto> cp_data cp)" using i(1) by (auto simp: view_def fun_eq_iff)
  have "distinct (map fst (cache ?q))" using distinct_update [OF cache_okD(1) [OF ok]] by simp
  moreover have "j \<noteq> 0 \<and> j < N \<and> length (cp_data k) = PAGE_SIZE \<and> (cp_dirty k \<or> file_read (disk_main (disk ?q)) j = Some (cp_data k))"
    if "map_of (cache ?q) j = Some k" for j k
    using cache_okD(2,3) [OF ok, of j k] that i d c by (auto simp: update_conv' split: if_splits)
  moreover have "\<forall>j. j \<noteq> 0 \<longrightarrow> j < N \<longrightarrow> page_of ?q j \<noteq> None" using cache_okD(7) [OF ok] page by simp
  ultimately show "cache_ok N ?q" unfolding cache_ok_def using cache_okD(4-6,8-10) [OF ok] by simp
qed

lemma put_new:
  assumes ok: "cache_ok N p" and N: "N \<noteq> 0" "unat N + 1 < 2 ^ 32" and d: "length (cp_data cp) = PAGE_SIZE" "cp_dirty cp"
  shows "cache_ok (N + 1) (p\<lparr>cache := AList.update N cp (cache p)\<rparr>)"
    "view (p\<lparr>cache := AList.update N cp (cache p)\<rparr>) = (view p)(N \<mapsto> cp_data cp)"
proof -
  let ?q = "p\<lparr>cache := AList.update N cp (cache p)\<rparr>"
  have un: "unat (N + 1) = unat N + 1" using N(2) by (simp add: unat_word_ariths)
  have le: "i < N + 1 \<longleftrightarrow> i < N \<or> i = N" for i :: u32 using un by (auto simp: word_less_nat_alt less_Suc_eq dest: unat_eqD)
  have page: "page_of ?q j = (if j = N then Some (cp_data cp) else page_of p j)" for j
    by (simp add: page_of_def update_conv' split: option.split)
  then show "view ?q = (view p)(N \<mapsto> cp_data cp)" using N(1) by (auto simp: view_def fun_eq_iff)
  have "distinct (map fst (cache ?q))" using distinct_update [OF cache_okD(1) [OF ok]] by simp
  moreover have "j \<noteq> 0 \<and> j < N + 1 \<and> length (cp_data k) = PAGE_SIZE \<and> (cp_dirty k \<or> file_read (disk_main (disk ?q)) j = Some (cp_data k))"
    if "map_of (cache ?q) j = Some k" for j k
    using cache_okD(2,3) [OF ok, of j k] that N(1) d by (auto simp: update_conv' le split: if_splits)
  moreover have "\<forall>j. j \<noteq> 0 \<longrightarrow> j < N + 1 \<longrightarrow> page_of ?q j \<noteq> None" using cache_okD(7) [OF ok] page by (auto simp: le)
  ultimately show "cache_ok (N + 1) ?q" unfolding cache_ok_def using cache_okD(4-6,8-10) [OF ok] un by simp
qed

definition same_frame :: "Pager \<Rightarrow> Pager \<Rightarrow> bool" where
  "same_frame p q \<longleftrightarrow> page_count q = page_count p \<and> free_head q = free_head p \<and> roots q = roots p"

lemma clock_ok [simp]: "cache_ok N (p\<lparr>clock := t\<rparr>) = cache_ok N p" "view (p\<lparr>clock := t\<rparr>) = view p"
  by (simp_all add: cache_ok_def page_of_def view_def fun_eq_iff cong: option.case_cong)

lemma header_ok [simp]:
  "cache_ok N (p\<lparr>free_head := h\<rparr>) = cache_ok N p" "view (p\<lparr>free_head := h\<rparr>) = view p"
  "cache_ok N (p\<lparr>page_count := n\<rparr>) = cache_ok N p" "view (p\<lparr>page_count := n\<rparr>) = view p"
  by (simp_all add: cache_ok_def page_of_def view_def fun_eq_iff cong: option.case_cong)

lemma read_page_spec:
  assumes ok: "cache_ok N p" and v: "view p i = Some d"
  shows "\<exists>q. read_page i p = Inr (d, q) \<and> cache_ok N q \<and> view q = view p \<and> same_frame p q"
proof -
  have i: "i \<noteq> 0" "i < N" and pg: "page_of p i = Some d" and d: "length d = PAGE_SIZE"
    using v page_of_below [OF ok, of i d] by (auto simp: view_def split: if_splits)
  have same: "(view p)(i \<mapsto> d) = view p" using v by auto
  show ?thesis
  proof (cases "map_of (cache p) i")
    case (Some cp)
    then have cp: "cp_data cp = d" using pg by (simp add: page_of_def)
    have "cp_dirty cp \<or> file_read (disk_main (disk p)) i = Some (cp_data cp)" using cache_okD(3) [OF ok Some] by blast
    then show ?thesis using put_cache [OF ok i, of "cp\<lparr>cp_tick := clock p + 1\<rparr>" "clock p + 1"] d cp Some same
      by (simp add: read_page_def Let_def same_frame_def)
  next
    case None
    then have f: "file_read (disk_main (disk p)) i = Some d" using pg by (simp add: page_of_def)
    let ?c = "if length (cache p) \<ge> capacity p then evict_one_clean (cache p) else cache p"
    have q: "cache_ok N (p\<lparr>cache := ?c\<rparr>) \<and> view (p\<lparr>cache := ?c\<rparr>) = view p"
    proof (cases "lru (filter (\<lambda>(i, cp). \<not> cp_dirty cp) (cache p))")
      case None
      then have "?c = cache p" by (simp add: evict_one_clean_def)
      then show ?thesis using ok by simp
    next
      case (Some v)
      then obtain cp where "map_of (cache p) v = Some cp" "\<not> cp_dirty cp" by (rule clean_victim [OF ok])
      then show ?thesis using drop_clean [OF ok] Some ok by (simp add: evict_one_clean_def)
    qed
    have "read_page i p = Inr (d, (p\<lparr>cache := ?c\<rparr>)\<lparr>clock := clock p + 1 + 1,
        cache := AList.update i \<lparr>cp_data = d, cp_dirty = False, cp_tick = clock p + 1 + 1\<rparr> (cache (p\<lparr>cache := ?c\<rparr>))\<rparr>)"
      using None f by (simp add: read_page_def Let_def)
    moreover note put_cache [OF conjunct1 [OF q] i, of "\<lparr>cp_data = d, cp_dirty = False, cp_tick = clock p + 1 + 1\<rparr>" "clock p + 1 + 1"]
    ultimately show ?thesis using d f q same by (simp add: same_frame_def)
  qed
qed

lemma write_page_cases:
  assumes ok: "cache_ok N p" and i: "i \<noteq> 0"
  obtains q t where "write_page i d p = Inr (q\<lparr>cache := AList.update i \<lparr>cp_data = d, cp_dirty = True, cp_tick = t\<rparr> (cache q)\<rparr>)"
    "cache_ok N q" "view q = view p" "same_frame p q"
proof (cases "map_of (cache p) i")
  case (Some cp)
  then have "write_page i d p = Inr ((p\<lparr>clock := clock p + 1\<rparr>)\<lparr>cache := AList.update i \<lparr>cp_data = d, cp_dirty = True, cp_tick = clock p + 1\<rparr> (cache (p\<lparr>clock := clock p + 1\<rparr>))\<rparr>)"
    using i by (cases cp) (simp add: write_page_def Let_def)
  then show thesis by (rule that) (simp_all add: ok same_frame_def)
next
  case None
  let ?p = "p\<lparr>clock := clock p + 1\<rparr>"
  let ?q = "if length (cache ?p) \<ge> capacity ?p then evict_one ?p else ?p"
  have okp: "cache_ok N ?p" using ok by simp
  have "write_page i d p = Inr (?q\<lparr>cache := AList.update i \<lparr>cp_data = d, cp_dirty = True, cp_tick = clock p + 1\<rparr> (cache ?q)\<rparr>)"
    using i None by (simp add: write_page_def insert_cache_def Let_def)
  then show thesis by (rule that) (use evict_one_ok [OF okp] ok in \<open>simp_all add: same_frame_def\<close>)
qed

lemma write_page_spec:
  assumes ok: "cache_ok N p" and i: "i \<noteq> 0" "i < N" and d: "length d = PAGE_SIZE"
  shows "\<exists>q. write_page i d p = Inr q \<and> cache_ok N q \<and> view q = (view p)(i \<mapsto> d) \<and> same_frame p q"
proof -
  obtain q t where q: "write_page i d p = Inr (q\<lparr>cache := AList.update i \<lparr>cp_data = d, cp_dirty = True, cp_tick = t\<rparr> (cache q)\<rparr>)"
    "cache_ok N q" "view q = view p" "same_frame p q" by (rule write_page_cases [OF ok i(1)])
  show ?thesis using q(1,3,4) put_cache [OF q(2) i, of "\<lparr>cp_data = d, cp_dirty = True, cp_tick = t\<rparr>" "clock q"] d
    by (simp add: same_frame_def)
qed

section \<open>The free list\<close>

primrec free_chain :: "(PageId \<Rightarrow> page option) \<Rightarrow> PageId \<Rightarrow> PageId list \<Rightarrow> bool" where
  "free_chain v h [] = (h = 0)"
| "free_chain v h (x # xs) = (h = x \<and> x \<noteq> 0 \<and> (\<exists>pg. v x = Some pg \<and> free_chain v (from_le32 (take 4 pg)) xs))"

lemma free_chain_cong: "(\<And>i. i \<in> set fl \<Longrightarrow> v i = w i) \<Longrightarrow> free_chain v h fl = free_chain w h fl"
  by (induction fl arbitrary: h) simp_all

lemma free_chain_mem: "free_chain v h fl \<Longrightarrow> i \<in> set fl \<Longrightarrow> v i \<noteq> None"
  by (induction fl arbitrary: h) auto

text \<open>A consistent pager with the free list \<open>fl\<close>.\<close>

definition pager_ok :: "PageId list \<Rightarrow> Pager \<Rightarrow> bool" where
  "pager_ok fl p \<longleftrightarrow> cache_ok (page_count p) p \<and> distinct fl \<and> free_chain (view p) (free_head p) fl"

definition alloc_room :: "Pager \<Rightarrow> bool" where
  "alloc_room p \<longleftrightarrow> free_head p \<noteq> 0 \<or> unat (page_count p) + 1 < 2 ^ 32"

lemma pager_read:
  assumes "pager_ok fl p" and "view p i = Some d"
  shows "\<exists>q. read_page i p = Inr (d, q) \<and> pager_ok fl q \<and> view q = view p \<and> same_frame p q"
  using read_page_spec [of "page_count p" p i d] assms by (auto simp: pager_ok_def same_frame_def)

lemma pager_write:
  assumes ok: "pager_ok fl p" and i: "view p i \<noteq> None" "i \<notin> set fl" and d: "length d = PAGE_SIZE"
  shows "\<exists>q. write_page i d p = Inr q \<and> pager_ok fl q \<and> view q = (view p)(i \<mapsto> d) \<and> same_frame p q"
proof -
  have c: "cache_ok (page_count p) p" and fc: "free_chain (view p) (free_head p) fl" "distinct fl" using ok by (auto simp: pager_ok_def)
  have "i \<noteq> 0" "i < page_count p" using i(1) view_iff [OF c] by auto
  from write_page_spec [OF c this d] obtain q where
    q: "write_page i d p = Inr q" "cache_ok (page_count p) q" "view q = (view p)(i \<mapsto> d)" "same_frame p q" by blast
  have "free_chain (view q) (free_head p) fl = free_chain (view p) (free_head p) fl" by (rule free_chain_cong) (use i(2) q(3) in auto)
  then show ?thesis using q fc by (auto simp: pager_ok_def same_frame_def)
qed

lemma pager_alloc:
  assumes ok: "pager_ok fl p" and room: "alloc_room p"
  shows "\<exists>i q fl'. alloc p = Inr (i, q) \<and> pager_ok fl' q \<and> view q = (view p)(i \<mapsto> zero_page) \<and> i \<noteq> 0 \<and>
    (view p i = None \<or> i \<in> set fl) \<and> set fl' = set fl - {i} \<and> roots q = roots p \<and>
    unat (page_count q) \<le> Suc (unat (page_count p))"
proof -
  have c: "cache_ok (page_count p) p" and fc: "free_chain (view p) (free_head p) fl" "distinct fl" using ok by (auto simp: pager_ok_def)
  show ?thesis
  proof (cases "free_head p = 0")
    case False
    then obtain xs pg where fl: "fl = free_head p # xs" "view p (free_head p) = Some pg" "free_chain (view p) (from_le32 (take 4 pg)) xs"
      using fc(1) by (cases fl) auto
    from read_page_spec [OF c fl(2)] obtain q where
      q: "read_page (free_head p) p = Inr (pg, q)" "cache_ok (page_count p) q" "view q = view p" "same_frame p q" by blast
    have lt: "free_head p < page_count p" using view_iff [OF c] fl(2) by blast
    from write_page_spec [of "page_count p" "q\<lparr>free_head := from_le32 (take 4 pg)\<rparr>", OF _ False lt zero_page_length] q(2) obtain r where
      r: "write_page (free_head p) zero_page (q\<lparr>free_head := from_le32 (take 4 pg)\<rparr>) = Inr r" "cache_ok (page_count p) r"
        "view r = (view q)(free_head p \<mapsto> zero_page)" "same_frame (q\<lparr>free_head := from_le32 (take 4 pg)\<rparr>) r" by auto
    have "free_chain (view r) (from_le32 (take 4 pg)) xs = free_chain (view p) (from_le32 (take 4 pg)) xs"
      by (rule free_chain_cong) (use fc(2) fl(1) r(3) q(3) in auto)
    then have "pager_ok xs r" using r q fl fc(2) by (auto simp: pager_ok_def same_frame_def)
    moreover have "alloc p = Inr (free_head p, r)" using False q(1) r(1) by (simp add: alloc_def Let_def)
    ultimately show ?thesis using False fl(1) fc(2) r(3,4) q(3,4)
      by (intro exI [of _ "free_head p"] exI [of _ r] exI [of _ xs]) (auto simp: same_frame_def)
  next
    case True
    then have N: "unat (page_count p) + 1 < 2 ^ 32" using room by (simp add: alloc_room_def)
    have fl: "fl = []" using fc(1) True by (cases fl) auto
    have N0: "page_count p \<noteq> 0" using cache_okD(5,6) [OF c] by (cases "disk_main (disk p)") (auto simp: unat_eq_0)
    let ?p = "p\<lparr>page_count := page_count p + 1\<rparr>"
    have okp: "cache_ok (page_count p) ?p" using c by simp
    obtain q t where q: "write_page (page_count p) zero_page ?p =
        Inr (q\<lparr>cache := AList.update (page_count p) \<lparr>cp_data = zero_page, cp_dirty = True, cp_tick = t\<rparr> (cache q)\<rparr>)"
      "cache_ok (page_count p) q" "view q = view ?p" "same_frame ?p q" by (rule write_page_cases [OF okp N0])
    let ?r = "q\<lparr>cache := AList.update (page_count p) \<lparr>cp_data = zero_page, cp_dirty = True, cp_tick = t\<rparr> (cache q)\<rparr>"
    have r: "cache_ok (page_count p + 1) ?r" "view ?r = (view p)(page_count p \<mapsto> zero_page)"
      using put_new [OF q(2) N0 N, of "\<lparr>cp_data = zero_page, cp_dirty = True, cp_tick = t\<rparr>"] q(3) by simp_all
    have "alloc p = Inr (page_count p, ?r)" using True N q(1) by (simp add: alloc_def Let_def checked_add32_def)
    moreover have "pager_ok [] ?r" using r q(4) True by (auto simp: pager_ok_def same_frame_def)
    moreover have "view p (page_count p) = None" using view_iff [OF c, of "page_count p"] by auto
    moreover have "unat (page_count p + 1) \<le> Suc (unat (page_count p))" using N by (simp add: unat_word_ariths)
    ultimately show ?thesis using r(2) N0 fl q(4) by (intro exI [of _ "page_count p"] exI [of _ ?r] exI [of _ "[]"]) (auto simp: same_frame_def)
  qed
qed

lemma pager_free:
  assumes ok: "pager_ok fl p" and i: "view p i \<noteq> None" "i \<notin> set fl"
  shows "\<exists>q. free_page i p = Inr q \<and> pager_ok (i # fl) q \<and> (\<forall>j. j \<noteq> i \<longrightarrow> view q j = view p j) \<and> view q i \<noteq> None \<and> roots q = roots p"
proof -
  have c: "cache_ok (page_count p) p" and fc: "free_chain (view p) (free_head p) fl" "distinct fl" using ok by (auto simp: pager_ok_def)
  have i0: "i \<noteq> 0" using i(1) view_iff [OF c] by auto
  let ?d = "copy_at 0 (to_le32 (free_head p)) zero_page"
  have len: "length ?d = PAGE_SIZE" by (simp add: copy_at_def PAGE_SIZE_def)
  from pager_write [OF ok i len] obtain q where
    q: "write_page i ?d p = Inr q" "pager_ok fl q" "view q = (view p)(i \<mapsto> ?d)" "same_frame p q" by blast
  have "free_chain (view q) (free_head p) fl" using q(2,4) by (simp add: pager_ok_def same_frame_def)
  moreover have "from_le32 (take 4 ?d) = free_head p" by (simp add: copy_at_def)
  ultimately have "pager_ok (i # fl) (q\<lparr>free_head := i\<rparr>)" using q(2,3) i i0 by (simp add: pager_ok_def)
  then show ?thesis using q i0 by (simp add: free_page_def same_frame_def)
qed

section \<open>Opening the file again\<close>

lemma roots_concat_length: "length (concat (map (le_bytes 8) rs)) = 8 * length (rs :: u64 list)"
  by (induction rs) simp_all

lemma header_fields:
  assumes "length (roots p) = NROOTS"
  shows "take 8 (header_bytes p) = MAGIC" "from_le32 (take 4 (drop 8 (header_bytes p))) = page_count p"
    "from_le32 (take 4 (drop 12 (header_bytes p))) = free_head p"
    "k < NROOTS \<Longrightarrow> of_le_bytes (take 8 (drop (16 + k * 8) (header_bytes p))) = roots p ! k"
proof -
  let ?z = "drop (16 + 8 * length (roots p)) zero_page"
  have h: "header_bytes p = MAGIC @ to_le32 (page_count p) @ to_le32 (free_head p) @ concat (map (le_bytes 8) (roots p)) @ ?z"
    by (simp add: header_bytes_def copy_at_def roots_concat_length)
  show "take 8 (header_bytes p) = MAGIC" "from_le32 (take 4 (drop 8 (header_bytes p))) = page_count p"
    "from_le32 (take 4 (drop 12 (header_bytes p))) = free_head p" by (simp_all add: h)
  assume k: "k < NROOTS"
  have "drop (16 + k * 8) (header_bytes p) = drop (k * 8) (concat (map (le_bytes 8) (roots p)) @ ?z)" by (simp add: h)
  then have "take 8 (drop (16 + k * 8) (header_bytes p)) = le_bytes 8 (roots p ! k)"
    using concat_slot [of "roots p" "le_bytes 8" 8 k ?z] k assms by simp
  then show "of_le_bytes (take 8 (drop (16 + k * 8) (header_bytes p))) = roots p ! k" by (simp add: of_le_bytes_le_bytes)
qed

lemma flush_header:
  assumes ok: "cache_ok N p"
  shows "disk_main (disk (flush p)) ! 0 = header_bytes p" "disk_main (disk (flush p)) \<noteq> []"
proof -
  let ?f = "disk_main (disk p)" and ?g = "disk_main (disk (flush p))"
  have g: "?g = fold file_write (flush_batch p) ?f" by (simp add: flush_def)
  show ne: "?g \<noteq> []" by (rule cache_okD(5) [OF flush_ok(1) [OF ok]])
  have "map_of (rev (map (\<lambda>(i, d). (unat i, d)) (map (\<lambda>(i, cp). (i, cp_data cp)) (filter (\<lambda>(i, cp). cp_dirty cp) (cache p))))) 0 = None"
    using cache_okD(2) [OF ok] cached_entry [OF ok] by (force simp: map_of_eq_None_iff unat_eq_0)
  then have "batch_get (flush_batch p) 0 = Some (header_bytes p)" by (simp add: batch_get_def flush_batch_def map_add_def)
  then have "page_slot ?g 0 = header_bytes p" by (simp add: g apply_slot)
  then show "?g ! 0 = header_bytes p" using ne by (simp add: page_slot_def)
qed

text \<open>A flushed pager without its cache.\<close>

definition reopened :: "Pager \<Rightarrow> nat \<Rightarrow> Pager" where
  "reopened p cap = p\<lparr>disk := disk (flush p), cache := [], clock := 0, capacity := max cap 8\<rparr>"

lemma open_flushed:
  assumes ok: "cache_ok N p"
  shows "pager_open (disk (flush p)) cap = Inr (reopened p cap)"
proof -
  have w: "recover_wal (disk (flush p)) = disk (flush p)" by (simp add: recover_wal_def flush_def)
  note h = header_fields [OF cache_okD(8) [OF ok]]
  have "map (\<lambda>k. of_le_bytes (take 8 (drop (16 + k * 8) (header_bytes p)))) [0..<NROOTS] = roots p"
    using h(4) cache_okD(8) [OF ok] by (intro nth_equalityI) simp_all
  then show ?thesis using flush_header [OF ok] h(1-3) by (simp add: pager_open_def w Let_def reopened_def)
qed

lemma reopened_ok:
  assumes ok: "cache_ok N p"
  shows "cache_ok N (reopened p cap)" "view (reopened p cap) = view p" "same_frame p (reopened p cap)"
proof -
  let ?q = "reopened p cap" and ?r = "flush p"
  note f = flush_ok [OF ok]
  have page: "page_of ?q i = page_of ?r i" for i
    using f(3) cache_okD(3) [OF f(1), of i] by (simp add: page_of_def reopened_def split: option.split)
  have v: "view ?q = view ?r" by (simp add: view_def page fun_eq_iff)
  then show "view ?q = view p" by (simp add: f(2))
  show "same_frame p ?q" by (simp add: same_frame_def reopened_def)
  have "\<forall>i. i \<noteq> 0 \<longrightarrow> i < N \<longrightarrow> page_of ?q i \<noteq> None" using cache_okD(7) [OF f(1)] page by simp
  moreover have "disk ?q = disk ?r" "cache ?q = []" "roots ?q = roots ?r" "capacity ?q = max cap 8" by (simp_all add: reopened_def)
  ultimately show "cache_ok N ?q" unfolding cache_ok_def using cache_okD(4-6,8,9) [OF f(1)] by simp
qed

lemma reopened_pager_ok: "pager_ok fl p \<Longrightarrow> pager_ok fl (reopened p cap)"
  using reopened_ok [of "page_count p" p cap] by (auto simp: pager_ok_def same_frame_def)

text \<open>A new file.\<close>

definition fresh_pager :: "nat \<Rightarrow> Pager" where
  "fresh_pager cap = (let p = \<lparr>disk = \<lparr>disk_main = [], disk_wal = None\<rparr>, page_count = 1, free_head = 0, roots = replicate NROOTS 0,
     cache = [], clock = 0, capacity = max cap 8\<rparr> in flush (p\<lparr>disk := \<lparr>disk_main = [header_bytes p], disk_wal = None\<rparr>\<rparr>))"

lemma open_fresh: "pager_open \<lparr>disk_main = [], disk_wal = None\<rparr> cap = Inr (fresh_pager cap)"
  by (simp add: pager_open_def recover_wal_def Let_def fresh_pager_def file_write_def)

lemma fresh_pager_ok: "pager_ok [] (fresh_pager cap)" "view (fresh_pager cap) = Map.empty" "page_count (fresh_pager cap) = 1"
proof -
  let ?p = "\<lparr>disk = \<lparr>disk_main = [], disk_wal = None\<rparr>, page_count = 1, free_head = 0, roots = replicate NROOTS 0,
     cache = [], clock = 0, capacity = max cap 8\<rparr>"
  let ?q = "?p\<lparr>disk := \<lparr>disk_main = [header_bytes ?p], disk_wal = None\<rparr>\<rparr>"
  have len: "length (header_bytes ?p) = PAGE_SIZE" using roots_concat_length [of "replicate NROOTS 0"] by (simp add: header_bytes_def copy_at_def PAGE_SIZE_def NROOTS_def)
  have "page_of ?q i = None" if "i \<noteq> 0" for i using that by (simp add: page_of_def file_read_def unat_eq_0)
  then have v: "view ?q = Map.empty" by (simp add: view_def fun_eq_iff)
  have "i = 0" if "i < 1" for i :: u32 using that by (simp add: word_less_nat_alt unat_eq_0)
  then have ok: "cache_ok 1 ?q" using len by (simp add: cache_ok_def)
  have f: "fresh_pager cap = flush ?q" by (simp add: fresh_pager_def Let_def)
  show "page_count (fresh_pager cap) = 1" by (simp add: f)
  show "view (fresh_pager cap) = Map.empty" using flush_ok(2) [OF ok] v by (simp only: f)
  show "pager_ok [] (fresh_pager cap)" using flush_ok(1) [OF ok] by (simp add: pager_ok_def f)
qed

section \<open>The page store interface\<close>

text \<open>What the trees above the pager rely on: \<open>ok fl s\<close> is a consistent store whose free pages are \<open>fl\<close>, \<open>view s\<close> its pages.\<close>

locale page_store =
  fixes ok :: "PageId list \<Rightarrow> 's \<Rightarrow> bool" and pages :: "'s \<Rightarrow> PageId \<Rightarrow> page option" and room :: "'s \<Rightarrow> bool"
    and rd :: "PageId \<Rightarrow> 's \<Rightarrow> (page \<times> 's) gresult" and wr :: "PageId \<Rightarrow> page \<Rightarrow> 's \<Rightarrow> 's gresult"
    and new :: "'s \<Rightarrow> (PageId \<times> 's) gresult" and fre :: "PageId \<Rightarrow> 's \<Rightarrow> 's gresult"
  assumes read_law: "ok fl s \<Longrightarrow> pages s i = Some d \<Longrightarrow> \<exists>t. rd i s = Inr (d, t) \<and> ok fl t \<and> pages t = pages s"
    and write_law: "ok fl s \<Longrightarrow> pages s i \<noteq> None \<Longrightarrow> i \<notin> set fl \<Longrightarrow> length d = PAGE_SIZE \<Longrightarrow>
      \<exists>t. wr i d s = Inr t \<and> ok fl t \<and> pages t = (pages s)(i \<mapsto> d)"
    and alloc_law: "ok fl s \<Longrightarrow> room s \<Longrightarrow> \<exists>i t fl'. new s = Inr (i, t) \<and> ok fl' t \<and> pages t = (pages s)(i \<mapsto> zero_page) \<and>
      (pages s i = None \<or> i \<in> set fl) \<and> set fl' = set fl - {i}"
    and free_law: "ok fl s \<Longrightarrow> pages s i \<noteq> None \<Longrightarrow> i \<notin> set fl \<Longrightarrow>
      \<exists>t. fre i s = Inr t \<and> ok (i # fl) t \<and> pages t i \<noteq> None \<and> (\<forall>j. j \<noteq> i \<longrightarrow> pages t j = pages s j)"
begin

text \<open>The pages in use: neither free nor missing.\<close>

definition used :: "PageId list \<Rightarrow> 's \<Rightarrow> PageId \<Rightarrow> page option" where
  "used fl s i = (if i \<in> set fl then None else pages s i)"

lemma write_used: "ok fl s \<Longrightarrow> used fl s i \<noteq> None \<Longrightarrow> length d = PAGE_SIZE \<Longrightarrow> \<exists>t. wr i d s = Inr t \<and> ok fl t \<and> used fl t = (used fl s)(i \<mapsto> d)"
  using write_law [of fl s i d] by (auto simp: used_def fun_eq_iff split: if_splits)

lemma alloc_used:
  assumes "ok fl s" "room s"
  shows "\<exists>i t fl'. new s = Inr (i, t) \<and> ok fl' t \<and> used fl s i = None \<and> used fl' t = (used fl s)(i \<mapsto> zero_page)"
proof -
  obtain i t fl' where r: "new s = Inr (i, t)" "ok fl' t" "pages t = (pages s)(i \<mapsto> zero_page)" "pages s i = None \<or> i \<in> set fl" "set fl' = set fl - {i}"
    using alloc_law [OF assms] by blast
  moreover have "used fl' t = (used fl s)(i \<mapsto> zero_page)" using r(3,5) by (simp add: used_def fun_eq_iff)
  moreover have "used fl s i = None" using r(4) by (auto simp: used_def)
  ultimately show ?thesis by blast
qed

lemma alloc_write_read:
  assumes "ok fl s" "room s" "length d = PAGE_SIZE"
  shows "\<exists>i t fl' u w. new s = Inr (i, t) \<and> wr i d t = Inr u \<and> rd i u = Inr (d, w) \<and> ok fl' w \<and>
    used fl s i = None \<and> used fl' w = (used fl s)(i \<mapsto> d)"
proof -
  obtain i t fl' where a: "new s = Inr (i, t)" "ok fl' t" "used fl s i = None" "used fl' t = (used fl s)(i \<mapsto> zero_page)"
    using alloc_used [OF assms(1,2)] by blast
  obtain u where b: "wr i d t = Inr u" "ok fl' u" "used fl' u = (used fl s)(i \<mapsto> d)"
    using write_used [OF a(2) _ assms(3), of i] a(4) by auto
  have "pages u i = Some d" using fun_cong [OF b(3), of i] by (simp add: used_def split: if_splits)
  then obtain w where c: "rd i u = Inr (d, w)" "ok fl' w" "pages w = pages u" using read_law [OF b(2)] by blast
  then have "used fl' w = used fl' u" by (simp add: used_def fun_eq_iff)
  then show ?thesis using a b c by auto
qed

text \<open>A freed page leaves the pages in use, and no other page changes.\<close>

lemma free_used: "ok fl s \<Longrightarrow> used fl s i \<noteq> None \<Longrightarrow> \<exists>t. fre i s = Inr t \<and> ok (i # fl) t \<and> used (i # fl) t = (used fl s)(i := None)"
  using free_law [of fl s i] by (auto simp: used_def fun_eq_iff split: if_splits)

end

interpretation pgr: page_store pager_ok view alloc_room read_page write_page alloc free_page
proof
  show "\<exists>t. read_page i s = Inr (d, t) \<and> pager_ok fl t \<and> view t = view s" if "pager_ok fl s" "view s i = Some d" for fl s i d
    using pager_read [OF that] by blast
  show "\<exists>t. write_page i d s = Inr t \<and> pager_ok fl t \<and> view t = (view s)(i \<mapsto> d)"
    if "pager_ok fl s" "view s i \<noteq> None" "i \<notin> set fl" "length d = PAGE_SIZE" for fl s i d using pager_write [OF that] by blast
  show "\<exists>i t fl'. alloc s = Inr (i, t) \<and> pager_ok fl' t \<and> view t = (view s)(i \<mapsto> zero_page) \<and> (view s i = None \<or> i \<in> set fl) \<and> set fl' = set fl - {i}"
    if "pager_ok fl s" "alloc_room s" for fl s using pager_alloc [OF that] by blast
  show "\<exists>t. free_page i s = Inr t \<and> pager_ok (i # fl) t \<and> view t i \<noteq> None \<and> (\<forall>j. j \<noteq> i \<longrightarrow> view t j = view s j)"
    if "pager_ok fl s" "view s i \<noteq> None" "i \<notin> set fl" for fl s i using pager_free [OF that] by blast
qed

section \<open>Properties\<close>

text \<open>The pages in use of a pager.\<close>

definition in_use :: "PageId list \<Rightarrow> Pager \<Rightarrow> PageId \<Rightarrow> page option" where
  "in_use fl p i = (if i \<in> set fl then None else view p i)"

lemma in_use_eq: "pgr.used = in_use"
  by (simp add: pgr.used_def in_use_def fun_eq_iff)

text \<open>
  C7. Atomic commit. A crash during \<open>flush\<close> may leave any part of the main file's new pages written, and of the log, while it is
  not synced, any length with any set \<open>S\<close> of its sectors missing. Unless the commit marker is whole and the bytes missing elsewhere
  form an error that CRC-32 cannot see, opening the file again gives either exactly what opening the file as it was before the flush
  gives, or a consistent pager with the page count, the free list, the roots and all pages of the flushed pager.
\<close>

theorem flush_crash_atomic:
  assumes "pager_ok fl p" and "crash S (disk_main (disk p)) (flush_batch p) d" and "loss_seen S (write_wal (flush_batch p))"
  shows "pager_open d cap = pager_open (disk p) cap \<or>
    (\<exists>q. pager_open d cap = Inr q \<and> pager_ok fl q \<and> view q = view p \<and> same_frame p q)"
proof -
  have ok: "cache_ok (page_count p) p" using assms(1) by (simp add: pager_ok_def)
  have open_recover: "pager_open e cap = pager_open (recover_wal e) cap" for e
  proof -
    have "recover_wal (recover_wal e) = recover_wal e" by (simp add: recover_wal_def split: option.split)
    then show ?thesis by (simp add: pager_open_def)
  qed
  have old: "\<lparr>disk_main = disk_main (disk p), disk_wal = None\<rparr> = disk p" using cache_okD(9) [OF ok] by simp
  have new: "\<lparr>disk_main = fold file_write (flush_batch p) (disk_main (disk p)), disk_wal = None\<rparr> = disk (flush p)" by (simp add: flush_def)
  from crash_recovers [OF assms(2) flush_pages_ok [OF ok] assms(3)] show ?thesis
  proof
    assume "recover_wal d = \<lparr>disk_main = disk_main (disk p), disk_wal = None\<rparr>"
    then show ?thesis using open_recover [of d] by (simp add: old)
  next
    assume "recover_wal d = \<lparr>disk_main = fold file_write (flush_batch p) (disk_main (disk p)), disk_wal = None\<rparr>"
    then have "pager_open d cap = Inr (reopened p cap)" using open_recover [of d] open_flushed [OF ok, of cap] by (simp add: new)
    then show ?thesis using reopened_ok [OF ok, of cap] reopened_pager_ok [OF assms(1), of cap] by blast
  qed
qed

text \<open>A pager with one dirty page, of which one byte is not zero: the log loses the sector of that byte.\<close>

definition one_byte_pager :: Pager where
  "one_byte_pager = (fresh_pager 8)\<lparr>page_count := 2, cache := [(1, \<lparr>cp_data = zero_page[600 := 1], cp_dirty = True, cp_tick = 0\<rparr>)]\<rparr>"

lemma one_byte_pager_ok: "pager_ok [] one_byte_pager"
proof -
  note f = fresh_pager_ok(1) [of 8, unfolded pager_ok_def] and c = cache_okD [OF conjunct1 [OF f]]
  have two: "i = 1" if "i \<noteq> 0" "i < 2" for i :: u32
  proof -
    have "unat i \<noteq> 0" "unat i < 2" using that by (simp_all add: unat_eq_0 word_less_nat_alt)
    then show ?thesis by (simp add: word_unat_eq_iff)
  qed
  have "length (disk_main (disk (fresh_pager 8))) \<le> unat (2 :: u32)" using c(6) by (simp add: fresh_pager_ok(3))
  then have "cache_ok 2 one_byte_pager"
    unfolding cache_ok_def one_byte_pager_def using c(4,5,8-10) two by (auto simp: page_of_def)
  then show ?thesis using f by (simp add: pager_ok_def) (simp add: one_byte_pager_def)
qed

lemma one_byte_loss: "loss_seen {9} (write_wal (flush_batch one_byte_pager))"
proof -
  let ?h = "header_bytes one_byte_pager" and ?d = "zero_page[600 := (1 :: u8)]" and ?w = "write_wal (flush_batch one_byte_pager)"
  let ?pre = "WAL_MAGIC @ to_le32 2 @ to_le32 0 @ ?h @ to_le32 1" and ?post = "to_le32 (crc32 (wal_body (flush_batch one_byte_pager))) @ COMMIT_MAGIC"
  have b: "flush_batch one_byte_pager = [(0, ?h), (1, ?d)]" by (simp add: flush_batch_def) (simp add: one_byte_pager_def)
  have ok: "pages_ok (flush_batch one_byte_pager)" by (rule flush_pages_ok) (use one_byte_pager_ok in \<open>auto simp: pager_ok_def\<close>)
  have w: "?w = ?pre @ ?d @ ?post" unfolding write_wal_parts unfolding b wal_body_def by (simp add: wal_entry_def)
  have "length ?h = PAGE_SIZE" using ok unfolding b by (simp add: pages_ok_def)
  then have pre: "length ?pre = 4116" by (simp add: PAGE_SIZE_def)
  have L: "length ?w = 8224" using write_wal_length [OF ok] unfolding b by (simp add: PAGE_SIZE_def)
  have "lost {9} ?w ! i = (replicate 4716 0 @ 1 # replicate 3507 0) ! i" if i: "i < 8224" for i
  proof (cases "i div SECTOR = 9")
    case True
    then have r: "4608 \<le> i" "i < 5120" using div_mult_mod_eq [of i 512] mod_less_divisor [of 512 i] by (simp_all add: SECTOR_def)
    then have "\<not> i < 4116" "i - 4116 < length ?d" by (simp_all add: PAGE_SIZE_def)
    then have "?w ! i = ?d ! (i - 4116)" unfolding w by (simp only: nth_append pre if_False if_True)
    also have "\<dots> = (if i = 4716 then 1 else 0)" using r by (auto simp: zero_page_def PAGE_SIZE_def nth_list_update)
    finally show ?thesis using True i L by (simp add: lost_nth nth_append nth_Cons')
  next
    case False
    then have "i \<noteq> 4716" by (auto simp: SECTOR_def)
    then show ?thesis using False i L by (simp add: lost_nth nth_append nth_Cons')
  qed
  then have "lost {9} ?w = replicate 4716 0 @ 1 # replicate 3507 0" by (intro nth_equalityI) (simp_all add: L)
  then show ?thesis by (rule one_byte_seen) simp_all
qed

theorem flush_crash_atomic_witness:
  "pager_open \<lparr>disk_main = disk_main (disk one_byte_pager), disk_wal = Some (torn 9000 {9} (write_wal (flush_batch one_byte_pager)))\<rparr> 8 = pager_open (disk one_byte_pager) 8 \<or>
    (\<exists>q. pager_open \<lparr>disk_main = disk_main (disk one_byte_pager), disk_wal = Some (torn 9000 {9} (write_wal (flush_batch one_byte_pager)))\<rparr> 8 = Inr q \<and>
      pager_ok [] q \<and> view q = view one_byte_pager \<and> same_frame one_byte_pager q)"
  by (rule flush_crash_atomic [OF one_byte_pager_ok crash.in_log one_byte_loss])

text \<open>
  C12. Durability. After \<open>flush\<close> the file opens again, with any cache capacity, as a consistent pager with the same
  pages, page count, free list and roots.
\<close>

theorem flush_reopen:
  assumes "pager_ok fl p"
  shows "\<exists>q. pager_open (disk (flush p)) cap = Inr q \<and> pager_ok fl q \<and> view q = view p \<and> same_frame p q"
proof -
  have ok: "cache_ok (page_count p) p" using assms by (simp add: pager_ok_def)
  show ?thesis using open_flushed [OF ok] reopened_ok [OF ok] reopened_pager_ok [OF assms] by blast
qed

theorem flush_reopen_witness:
  "\<exists>q. pager_open (disk (flush (fresh_pager 8))) 100 = Inr q \<and> pager_ok [] q \<and> view q = view (fresh_pager 8) \<and> same_frame (fresh_pager 8) q"
  by (rule flush_reopen [OF fresh_pager_ok(1)])

text \<open>
  C13. Whatever the cache holds and evicts, a page taken from \<open>alloc\<close>, written and read back gives the bytes written;
  it was not in use before, and every other page in use is as it was.
\<close>

theorem alloc_write_read_back:
  assumes "pager_ok fl p" and "alloc_room p" and "length d = PAGE_SIZE"
  shows "\<exists>i q fl' r s. alloc p = Inr (i, q) \<and> write_page i d q = Inr r \<and> read_page i r = Inr (d, s) \<and> pager_ok fl' s \<and>
    in_use fl p i = None \<and> in_use fl' s = (in_use fl p)(i \<mapsto> d)"
  using pgr.alloc_write_read [OF assms] unfolding in_use_eq .

theorem alloc_write_read_back_witness:
  "\<exists>i q fl' r s. alloc (fresh_pager 8) = Inr (i, q) \<and> write_page i zero_page q = Inr r \<and> read_page i r = Inr (zero_page, s) \<and> pager_ok fl' s \<and>
    in_use [] (fresh_pager 8) i = None \<and> in_use fl' s = (in_use [] (fresh_pager 8))(i \<mapsto> zero_page)"
  by (rule alloc_write_read_back [OF fresh_pager_ok(1)]) (simp_all add: alloc_room_def fresh_pager_ok(3))

end
