(* ===== verification/BpTree.thy ===== *)
theory BpTree
  imports Pager
begin

text \<open>
  The B+ tree over the page file (\<open>src/kvstore/bptree.rs\<close>): nodes and their page format, insertion with splits,
  lookup, prefix scans, and deletion with borrowing and merging. An operation that walks pages returns \<open>None\<close> when it does
  not end, \<open>Some (Inl Panic)\<close> for a panic (an index out of range, a node that does not fit its page) and
  \<open>Some (Inl (Err e))\<close> for an error; the pager state is the explicit argument and result.
\<close>

section \<open>Nodes\<close>

datatype fault = Err GStoreError | Panic

record Node =
  nd_leaf :: bool
  nd_link :: PageId
  nd_keys :: "bytes list"
  nd_vals :: "bytes list"
  nd_children :: "PageId list"

definition node_leaf :: Node where
  "node_leaf = \<lparr>nd_leaf = True, nd_link = 0, nd_keys = [], nd_vals = [], nd_children = []\<rparr>"

definition node_size :: "Node \<Rightarrow> nat" where
  "node_size nd = 1 + 4 + 2 +
     (if nd_leaf nd then sum_list (map (\<lambda>(k, v). 2 + length k + (2 + length v)) (zip (nd_keys nd) (nd_vals nd)))
      else sum_list (map (\<lambda>k. 2 + length k + 4) (nd_keys nd)))"

text \<open>A byte string with its 16-bit length, \<open>as u16\<close>.\<close>

definition sized :: "bytes \<Rightarrow> bytes" where
  "sized bs = le_bytes 2 (word_of_nat (length bs) :: u16) @ bs"

definition node_bytes :: "Node \<Rightarrow> bytes" where
  "node_bytes nd = (if nd_leaf nd then 1 else 0) # to_le32 (nd_link nd) @ le_bytes 2 (word_of_nat (length (nd_keys nd)) :: u16) @
     (if nd_leaf nd then concat (map (\<lambda>(k, v). sized k @ sized v) (zip (nd_keys nd) (nd_vals nd)))
      else concat (map (\<lambda>(k, c). sized k @ to_le32 c) (zip (nd_keys nd) (nd_children nd))))"

text \<open>Writing past the page buffer panics: \<open>None\<close>.\<close>

definition serialize :: "Node \<Rightarrow> page option" where
  "serialize nd = (if length (node_bytes nd) \<le> PAGE_SIZE then Some (copy_at 0 (node_bytes nd) zero_page) else None)"

text \<open>Reading past the page panics: \<open>None\<close>.\<close>

definition read_sized :: "bytes \<Rightarrow> (bytes \<times> bytes) option" where
  "read_sized bs = (if length bs < 2 then None
     else (let n = unat (of_le_bytes (take 2 bs) :: u16) in
       if length bs < 2 + n then None else Some (take n (drop 2 bs), drop (2 + n) bs)))"

fun parse_entries :: "bool \<Rightarrow> nat \<Rightarrow> bytes \<Rightarrow> (bytes list \<times> bytes list \<times> PageId list) option" where
  "parse_entries lf 0 bs = Some ([], [], [])"
| "parse_entries lf (Suc n) bs = (case read_sized bs of None \<Rightarrow> None | Some (k, r) \<Rightarrow>
     if lf then (case read_sized r of None \<Rightarrow> None | Some (v, r') \<Rightarrow>
         (case parse_entries lf n r' of None \<Rightarrow> None | Some (ks, vs, cs) \<Rightarrow> Some (k # ks, v # vs, cs)))
     else if length r < 4 then None
     else (case parse_entries lf n (drop 4 r) of None \<Rightarrow> None | Some (ks, vs, cs) \<Rightarrow> Some (k # ks, vs, from_le32 (take 4 r) # cs)))"

definition parse_node :: "page \<Rightarrow> Node option" where
  "parse_node pg = (let lf = (pg ! 0 \<noteq> 0); n = unat (of_le_bytes (take 2 (drop 5 pg)) :: u16) in
     case parse_entries lf n (drop 7 pg) of None \<Rightarrow> None
     | Some (ks, vs, cs) \<Rightarrow> Some \<lparr>nd_leaf = lf, nd_link = from_le32 (take 4 (drop 1 pg)), nd_keys = ks, nd_vals = vs, nd_children = cs\<rparr>)"

text \<open>The child to descend into. Every node that is descended into has been parsed, and then the index is in range
  (\<open>parsed_child_in_range\<close>).\<close>

definition child_for :: "Node \<Rightarrow> bytes \<Rightarrow> PageId" where
  "child_for nd key = (let i = partition_point (\<lambda>k. k \<le> key) (nd_keys nd) in if i = 0 then nd_link nd else nd_children nd ! (i - 1))"

definition children_vec :: "Node \<Rightarrow> PageId list" where
  "children_vec nd = nd_link nd # nd_children nd"

definition set_children_vec :: "PageId list \<Rightarrow> Node \<Rightarrow> Node" where
  "set_children_vec all nd = nd\<lparr>nd_link := all ! 0, nd_children := drop 1 all\<rparr>"

type_synonym Split = "(bytes \<times> PageId) option"

definition UNDERFLOW_BYTES :: nat where
  "UNDERFLOW_BYTES = PAGE_SIZE div 4"

section \<open>Node access through the pager\<close>

definition lift_err :: "'a gresult \<Rightarrow> fault + 'a" where
  "lift_err r = (case r of Inl e \<Rightarrow> Inl (Err e) | Inr x \<Rightarrow> Inr x)"

text \<open>\<open>Node::parse(&pager.read_page(page)?)\<close> and \<open>pager.write_page(page, &node.serialize())?\<close>.\<close>

definition read_node :: "PageId \<Rightarrow> Pager \<Rightarrow> fault + Node \<times> Pager" where
  "read_node i p = res_bind (lift_err (read_page i p)) (\<lambda>(pg, p1). case parse_node pg of None \<Rightarrow> Inl Panic | Some nd \<Rightarrow> Inr (nd, p1))"

definition write_node :: "PageId \<Rightarrow> Node \<Rightarrow> Pager \<Rightarrow> fault + Pager" where
  "write_node i nd p = (case serialize nd of None \<Rightarrow> Inl Panic | Some pg \<Rightarrow> lift_err (write_page i pg p))"

text \<open>A tree handle is its root slot.\<close>

definition bt_root :: "nat \<Rightarrow> Pager \<Rightarrow> fault + PageId" where
  "bt_root slot p = (case pager_root p slot of None \<Rightarrow> Inl Panic | Some r \<Rightarrow> Inr (ucast r))"

definition bt_set_root :: "nat \<Rightarrow> PageId \<Rightarrow> Pager \<Rightarrow> fault + Pager" where
  "bt_set_root slot i p = (case set_root p slot (ucast i) of None \<Rightarrow> Inl Panic | Some q \<Rightarrow> Inr q)"

section \<open>Insertion\<close>

definition split_leaf :: "PageId \<Rightarrow> Node \<Rightarrow> Pager \<Rightarrow> fault + Split \<times> Pager" where
  "split_leaf page node p = (let mid = length (nd_keys node) div 2; right_keys = drop mid (nd_keys node); right_vals = drop mid (nd_vals node) in
     if right_keys = [] then Inl Panic
     else res_bind (lift_err (alloc p)) (\<lambda>(right_id, p1).
       res_bind (write_node right_id \<lparr>nd_leaf = True, nd_link = nd_link node, nd_keys = right_keys, nd_vals = right_vals, nd_children = []\<rparr> p1) (\<lambda>p2.
       res_bind (write_node page (node\<lparr>nd_link := right_id, nd_keys := take mid (nd_keys node), nd_vals := take mid (nd_vals node)\<rparr>) p2) (\<lambda>p3.
         Inr (Some (right_keys ! 0, right_id), p3)))))"

definition split_internal :: "PageId \<Rightarrow> Node \<Rightarrow> Pager \<Rightarrow> fault + Split \<times> Pager" where
  "split_internal page node p =
     (if length (nd_keys node) < 2 then Inl (Err (Serialize (lit ''B+ tree separator key too large to fit in a 4096-byte page'')))
      else (let mid = length (nd_keys node) div 2; sep = nd_keys node ! mid in
        res_bind (lift_err (alloc p)) (\<lambda>(right_id, p1).
        res_bind (write_node right_id \<lparr>nd_leaf = False, nd_link = nd_children node ! mid, nd_keys = drop (mid + 1) (nd_keys node),
            nd_vals = [], nd_children = drop (mid + 1) (nd_children node)\<rparr> p1) (\<lambda>p2.
        res_bind (write_node page (node\<lparr>nd_keys := take mid (nd_keys node), nd_children := take mid (nd_children node)\<rparr>) p2) (\<lambda>p3.
          Inr (Some (sep, right_id), p3))))))"

text \<open>The two branches of \<open>insert_rec\<close> after the search.\<close>

definition leaf_put :: "bytes \<Rightarrow> bytes \<Rightarrow> Node \<Rightarrow> Node" where
  "leaf_put key val node = (case binary_search (nd_keys node) key of
     Inr i \<Rightarrow> node\<lparr>nd_vals := (nd_vals node)[i := val]\<rparr>
   | Inl i \<Rightarrow> node\<lparr>nd_keys := vec_insert i key (nd_keys node), nd_vals := vec_insert i val (nd_vals node)\<rparr>)"

definition insert_leaf :: "PageId \<Rightarrow> bytes \<Rightarrow> bytes \<Rightarrow> Node \<Rightarrow> Pager \<Rightarrow> fault + Split \<times> Pager" where
  "insert_leaf page key val node p = (let n = leaf_put key val node in
     if node_size n \<le> PAGE_SIZE then res_bind (write_node page n p) (\<lambda>q. Inr (None, q)) else split_leaf page n p)"

definition insert_sep :: "PageId \<Rightarrow> nat \<Rightarrow> bytes \<Rightarrow> PageId \<Rightarrow> Node \<Rightarrow> Pager \<Rightarrow> fault + Split \<times> Pager" where
  "insert_sep page pos sep right node p =
     (let n = node\<lparr>nd_keys := vec_insert pos sep (nd_keys node), nd_children := vec_insert pos right (nd_children node)\<rparr> in
      if node_size n \<le> PAGE_SIZE then res_bind (write_node page n p) (\<lambda>q. Inr (None, q)) else split_internal page n p)"

partial_function (option) insert_rec :: "PageId \<Rightarrow> bytes \<Rightarrow> bytes \<Rightarrow> Pager \<Rightarrow> (fault + Split \<times> Pager) option" where
  "insert_rec page key val p = (case read_node page p of
     Inl e \<Rightarrow> Some (Inl e)
   | Inr (node, p1) \<Rightarrow>
       if nd_leaf node then Some (insert_leaf page key val node p1)
       else Option.bind (insert_rec (child_for node key) key val p1) (\<lambda>r. Some (res_bind r (\<lambda>(split, p2). case split of
           None \<Rightarrow> Inr (None, p2)
         | Some (sep, right) \<Rightarrow> insert_sep page (partition_point (\<lambda>k. k \<le> key) (nd_keys node)) sep right node p2))))"

text \<open>\<open>Display\<close> of a \<open>usize\<close>.\<close>

fun dec :: "nat \<Rightarrow> rstring" where
  "dec n = (if n < 10 then [48 + n] else dec (n div 10) @ [48 + n mod 10])"

declare dec.simps [simp del]

definition too_large :: "bytes \<Rightarrow> bytes \<Rightarrow> GStoreError" where
  "too_large key val = Serialize (lit ''B+ tree entry ('' @ dec (length key) @ lit ''-byte key + '' @ dec (length val) @
     lit ''-byte value) too large for a 4096-byte page'')"

definition bt_insert :: "nat \<Rightarrow> bytes \<Rightarrow> bytes \<Rightarrow> Pager \<Rightarrow> (fault + Pager) option" where
  "bt_insert slot key val p =
     (if 7 + 2 + length key + 2 + length val > PAGE_SIZE then Some (Inl (Err (too_large key val)))
      else case bt_root slot p of Inl e \<Rightarrow> Some (Inl e) | Inr root \<Rightarrow>
        if root = 0 then Some (res_bind (lift_err (alloc p)) (\<lambda>(i, p1).
          res_bind (write_node i (node_leaf\<lparr>nd_keys := [key], nd_vals := [val]\<rparr>) p1) (bt_set_root slot i)))
        else Option.bind (insert_rec root key val p) (\<lambda>r. Some (res_bind r (\<lambda>(split, p1). case split of
            None \<Rightarrow> Inr p1
          | Some (sep, right) \<Rightarrow> res_bind (lift_err (alloc p1)) (\<lambda>(new_root, p2).
              res_bind (write_node new_root \<lparr>nd_leaf = False, nd_link = root, nd_keys = [sep], nd_vals = [], nd_children = [right]\<rparr> p2)
                (bt_set_root slot new_root))))))"

section \<open>Lookup and scans\<close>

definition leaf_get :: "bytes \<Rightarrow> Node \<Rightarrow> bytes option" where
  "leaf_get key node = (case binary_search (nd_keys node) key of Inr i \<Rightarrow> Some (nd_vals node ! i) | Inl i \<Rightarrow> None)"

partial_function (option) get_loop :: "bytes \<Rightarrow> PageId \<Rightarrow> Pager \<Rightarrow> (fault + bytes option \<times> Pager) option" where
  "get_loop key page p = (case read_node page p of
     Inl e \<Rightarrow> Some (Inl e)
   | Inr (node, p1) \<Rightarrow> if nd_leaf node then Some (Inr (leaf_get key node, p1)) else get_loop key (child_for node key) p1)"

definition bt_get :: "nat \<Rightarrow> bytes \<Rightarrow> Pager \<Rightarrow> (fault + bytes option \<times> Pager) option" where
  "bt_get slot key p = (case bt_root slot p of Inl e \<Rightarrow> Some (Inl e) | Inr root \<Rightarrow>
     if root = 0 then Some (Inr (None, p)) else get_loop key root p)"

partial_function (option) find_leaf_loop :: "bytes \<Rightarrow> PageId \<Rightarrow> Pager \<Rightarrow> (fault + (PageId \<times> nat) \<times> Pager) option" where
  "find_leaf_loop key page p = (case read_node page p of
     Inl e \<Rightarrow> Some (Inl e)
   | Inr (node, p1) \<Rightarrow>
       if nd_leaf node then Some (Inr ((page, partition_point (\<lambda>k. k < key) (nd_keys node)), p1))
       else find_leaf_loop key (child_for node key) p1)"

definition find_leaf_ge :: "nat \<Rightarrow> bytes \<Rightarrow> Pager \<Rightarrow> (fault + (PageId \<times> nat) option \<times> Pager) option" where
  "find_leaf_ge slot key p = (case bt_root slot p of Inl e \<Rightarrow> Some (Inl e) | Inr root \<Rightarrow>
     if root = 0 then Some (Inr (None, p))
     else Option.bind (find_leaf_loop key root p) (\<lambda>r. Some (res_bind r (\<lambda>(x, q). Inr (Some x, q)))))"

definition starts_with :: "bytes \<Rightarrow> bytes \<Rightarrow> bool" where
  "starts_with k prefix \<longleftrightarrow> take (length prefix) k = prefix"

text \<open>The inner \<open>while\<close> of a scan: the matching entries, and whether the scan returns within this leaf.\<close>

fun scan_entries :: "bytes \<Rightarrow> (bytes \<times> bytes) list \<Rightarrow> (bytes \<times> bytes) list \<times> bool" where
  "scan_entries prefix [] = ([], False)"
| "scan_entries prefix ((k, v) # es) =
     (if starts_with k prefix then (let (r, stop) = scan_entries prefix es in ((k, v) # r, stop))
      else if k > prefix then ([], True) else scan_entries prefix es)"

partial_function (option) scan_loop :: "bytes \<Rightarrow> PageId \<Rightarrow> nat \<Rightarrow> (bytes \<times> bytes) list \<Rightarrow> Pager \<Rightarrow> (fault + (bytes \<times> bytes) list \<times> Pager) option" where
  "scan_loop prefix page idx acc p = (case read_node page p of
     Inl e \<Rightarrow> Some (Inl e)
   | Inr (node, p1) \<Rightarrow> (case scan_entries prefix (drop idx (zip (nd_keys node) (nd_vals node))) of (r, stop) \<Rightarrow>
       if stop \<or> nd_link node = 0 then Some (Inr (acc @ r, p1)) else scan_loop prefix (nd_link node) 0 (acc @ r) p1))"

definition scan_prefix :: "nat \<Rightarrow> bytes \<Rightarrow> Pager \<Rightarrow> (fault + (bytes \<times> bytes) list \<times> Pager) option" where
  "scan_prefix slot prefix p = Option.bind (find_leaf_ge slot prefix p) (\<lambda>r. case r of
     Inl e \<Rightarrow> Some (Inl e)
   | Inr (None, q) \<Rightarrow> Some (Inr ([], q))
   | Inr (Some (page, idx), q) \<Rightarrow> scan_loop prefix page idx [] q)"

definition bt_iter_all :: "nat \<Rightarrow> Pager \<Rightarrow> (fault + (bytes \<times> bytes) list \<times> Pager) option" where
  "bt_iter_all slot p = scan_prefix slot [] p"

fun count_entries :: "bytes \<Rightarrow> bytes list \<Rightarrow> nat \<times> bool" where
  "count_entries prefix [] = (0, False)"
| "count_entries prefix (k # ks) =
     (if starts_with k prefix then (let (n, stop) = count_entries prefix ks in (1 + n, stop))
      else if k > prefix then (0, True) else count_entries prefix ks)"

partial_function (option) count_loop :: "bytes \<Rightarrow> PageId \<Rightarrow> nat \<Rightarrow> nat \<Rightarrow> Pager \<Rightarrow> (fault + nat \<times> Pager) option" where
  "count_loop prefix page idx acc p = (case read_node page p of
     Inl e \<Rightarrow> Some (Inl e)
   | Inr (node, p1) \<Rightarrow> (case count_entries prefix (drop idx (nd_keys node)) of (n, stop) \<Rightarrow>
       if stop \<or> nd_link node = 0 then Some (Inr (acc + n, p1)) else count_loop prefix (nd_link node) 0 (acc + n) p1))"

definition count_prefix :: "nat \<Rightarrow> bytes \<Rightarrow> Pager \<Rightarrow> (fault + nat \<times> Pager) option" where
  "count_prefix slot prefix p = Option.bind (find_leaf_ge slot prefix p) (\<lambda>r. case r of
     Inl e \<Rightarrow> Some (Inl e)
   | Inr (None, q) \<Rightarrow> Some (Inr (0, q))
   | Inr (Some (page, idx), q) \<Rightarrow> count_loop prefix page idx 0 q)"

partial_function (option) exists_loop :: "bytes \<Rightarrow> PageId \<Rightarrow> nat \<Rightarrow> Pager \<Rightarrow> (fault + bool \<times> Pager) option" where
  "exists_loop prefix page idx p = (case read_node page p of
     Inl e \<Rightarrow> Some (Inl e)
   | Inr (node, p1) \<Rightarrow>
       if idx < length (nd_keys node) then Some (Inr (starts_with (nd_keys node ! idx) prefix, p1))
       else if nd_link node = 0 then Some (Inr (False, p1)) else exists_loop prefix (nd_link node) 0 p1)"

definition prefix_exists :: "nat \<Rightarrow> bytes \<Rightarrow> Pager \<Rightarrow> (fault + bool \<times> Pager) option" where
  "prefix_exists slot prefix p = Option.bind (find_leaf_ge slot prefix p) (\<lambda>r. case r of
     Inl e \<Rightarrow> Some (Inl e)
   | Inr (None, q) \<Rightarrow> Some (Inr (False, q))
   | Inr (Some (page, idx), q) \<Rightarrow> exists_loop prefix page idx q)"

section \<open>Deletion\<close>

definition boundary_bytes :: "Node \<Rightarrow> nat \<Rightarrow> nat" where
  "boundary_bytes nd i = (if nd_leaf nd then 2 + length (nd_keys nd ! i) + 2 + length (nd_vals nd ! i) else 2 + length (nd_keys nd ! i) + 4)"

text \<open>The node parts of the four repairs: the parent and the two siblings before and after.\<close>

definition move_left_to_child :: "Node \<Rightarrow> nat \<Rightarrow> Node \<Rightarrow> Node \<Rightarrow> Node \<times> Node \<times> Node" where
  "move_left_to_child parent ci left child = (if nd_leaf child
     then (let child' = child\<lparr>nd_keys := last (nd_keys left) # nd_keys child, nd_vals := last (nd_vals left) # nd_vals child\<rparr> in
       (parent\<lparr>nd_keys := (nd_keys parent)[ci - 1 := nd_keys child' ! 0]\<rparr>,
        left\<lparr>nd_keys := butlast (nd_keys left), nd_vals := butlast (nd_vals left)\<rparr>, child'))
     else (let sep = nd_keys parent ! (ci - 1); left_all = children_vec left; moved = last left_all; lk = last (nd_keys left) in
       (parent\<lparr>nd_keys := (nd_keys parent)[ci - 1 := lk]\<rparr>,
        set_children_vec (butlast left_all) (left\<lparr>nd_keys := butlast (nd_keys left)\<rparr>),
        set_children_vec (moved # children_vec child) (child\<lparr>nd_keys := sep # nd_keys child\<rparr>))))"

definition move_right_to_child :: "Node \<Rightarrow> nat \<Rightarrow> Node \<Rightarrow> Node \<Rightarrow> Node \<times> Node \<times> Node" where
  "move_right_to_child parent ci child right = (if nd_leaf child
     then (let right' = right\<lparr>nd_keys := tl (nd_keys right), nd_vals := tl (nd_vals right)\<rparr> in
       (parent\<lparr>nd_keys := (nd_keys parent)[ci := nd_keys right' ! 0]\<rparr>,
        child\<lparr>nd_keys := nd_keys child @ [hd (nd_keys right)], nd_vals := nd_vals child @ [hd (nd_vals right)]\<rparr>, right'))
     else (let sep = nd_keys parent ! ci; right_all = children_vec right; moved = hd right_all; rk = hd (nd_keys right) in
       (parent\<lparr>nd_keys := (nd_keys parent)[ci := rk]\<rparr>,
        set_children_vec (children_vec child @ [moved]) (child\<lparr>nd_keys := nd_keys child @ [sep]\<rparr>),
        set_children_vec (tl right_all) (right\<lparr>nd_keys := tl (nd_keys right)\<rparr>))))"

text \<open>Both merges join the node at \<open>i\<close> of the child vector with its right neighbour and drop separator \<open>i\<close>.\<close>

definition join_nodes :: "bool \<Rightarrow> Node \<Rightarrow> nat \<Rightarrow> Node \<Rightarrow> Node \<Rightarrow> Node \<times> Node" where
  "join_nodes lf parent i a b =
     (parent\<lparr>nd_keys := vec_remove i (nd_keys parent), nd_children := vec_remove i (nd_children parent)\<rparr>,
      if lf then a\<lparr>nd_keys := nd_keys a @ nd_keys b, nd_vals := nd_vals a @ nd_vals b, nd_link := nd_link b\<rparr>
      else set_children_vec (children_vec a @ children_vec b) (a\<lparr>nd_keys := nd_keys a @ nd_keys parent ! i # nd_keys b\<rparr>))"

definition borrow_from_left :: "Node \<Rightarrow> nat \<Rightarrow> Pager \<Rightarrow> fault + Node \<times> Pager" where
  "borrow_from_left parent ci p = (let all = children_vec parent; lp = all ! (ci - 1); cp = all ! ci in
     res_bind (read_node lp p) (\<lambda>(left, p1).
     res_bind (read_node cp p1) (\<lambda>(child, p2). case move_left_to_child parent ci left child of (parent', left', child') \<Rightarrow>
       res_bind (write_node lp left' p2) (\<lambda>p3. res_bind (write_node cp child' p3) (\<lambda>p4. Inr (parent', p4))))))"

definition borrow_from_right :: "Node \<Rightarrow> nat \<Rightarrow> Pager \<Rightarrow> fault + Node \<times> Pager" where
  "borrow_from_right parent ci p = (let all = children_vec parent; cp = all ! ci; rp = all ! (ci + 1) in
     res_bind (read_node cp p) (\<lambda>(child, p1).
     res_bind (read_node rp p1) (\<lambda>(right, p2). case move_right_to_child parent ci child right of (parent', child', right') \<Rightarrow>
       res_bind (write_node cp child' p2) (\<lambda>p3. res_bind (write_node rp right' p3) (\<lambda>p4. Inr (parent', p4))))))"

definition merge_into_left :: "Node \<Rightarrow> nat \<Rightarrow> Pager \<Rightarrow> fault + Node \<times> Pager" where
  "merge_into_left parent ci p = (let all = children_vec parent; lp = all ! (ci - 1); cp = all ! ci in
     res_bind (read_node lp p) (\<lambda>(left, p1).
     res_bind (read_node cp p1) (\<lambda>(child, p2). case join_nodes (nd_leaf child) parent (ci - 1) left child of (parent', left') \<Rightarrow>
       res_bind (write_node lp left' p2) (\<lambda>p3. res_bind (lift_err (free_page cp p3)) (\<lambda>p4. Inr (parent', p4))))))"

definition merge_right_into :: "Node \<Rightarrow> nat \<Rightarrow> Pager \<Rightarrow> fault + Node \<times> Pager" where
  "merge_right_into parent ci p = (let all = children_vec parent; cp = all ! ci; rp = all ! (ci + 1) in
     res_bind (read_node cp p) (\<lambda>(child, p1).
     res_bind (read_node rp p1) (\<lambda>(right, p2). case join_nodes (nd_leaf child) parent ci child right of (parent', child') \<Rightarrow>
       res_bind (write_node cp child' p2) (\<lambda>p3. res_bind (lift_err (free_page rp p3)) (\<lambda>p4. Inr (parent', p4))))))"

text \<open>The guards of the four repairs.\<close>

definition can_borrow_left :: "Node \<Rightarrow> nat \<Rightarrow> Node \<Rightarrow> Node \<Rightarrow> bool" where
  "can_borrow_left parent ci left child \<longleftrightarrow> length (nd_keys left) \<ge> 2 \<and>
     (let entry = boundary_bytes left (length (nd_keys left) - 1); sep_len = length (nd_keys parent ! (ci - 1));
          child_gain = (if nd_leaf child then entry else 6 + sep_len) in
      node_size left - entry \<ge> UNDERFLOW_BYTES \<and> node_size child + child_gain \<le> PAGE_SIZE)"

definition can_borrow_right :: "Node \<Rightarrow> nat \<Rightarrow> Node \<Rightarrow> Node \<Rightarrow> bool" where
  "can_borrow_right parent ci child right \<longleftrightarrow> length (nd_keys right) \<ge> 2 \<and>
     (let entry = boundary_bytes right 0; sep_len = length (nd_keys parent ! ci);
          child_gain = (if nd_leaf child then entry else 6 + sep_len) in
      node_size right - entry \<ge> UNDERFLOW_BYTES \<and> node_size child + child_gain \<le> PAGE_SIZE)"

definition can_merge :: "Node \<Rightarrow> nat \<Rightarrow> Node \<Rightarrow> Node \<Rightarrow> Node \<Rightarrow> bool" where
  "can_merge parent i child a b \<longleftrightarrow>
     (if nd_leaf child then node_size a + node_size b - 7 else node_size a + node_size b - 1 + length (nd_keys parent ! i)) \<le> PAGE_SIZE"

text \<open>The four attempts in order; each reads the sibling it tests.\<close>

definition try_sibling :: "bool \<Rightarrow> PageId \<Rightarrow> (Node \<Rightarrow> bool) \<Rightarrow> (Pager \<Rightarrow> fault + Node \<times> Pager) \<Rightarrow> PageId \<Rightarrow> Pager \<Rightarrow> fault + bool \<times> Pager" where
  "try_sibling exists sib guard repair parent_page p = (if exists
     then res_bind (read_node sib p) (\<lambda>(s, p1). if guard s
       then res_bind (repair p1) (\<lambda>(parent', p2). res_bind (write_node parent_page parent' p2) (\<lambda>p3. Inr (True, p3)))
       else Inr (False, p1))
     else Inr (False, p))"

definition or_else :: "fault + bool \<times> Pager \<Rightarrow> (Pager \<Rightarrow> fault + bool \<times> Pager) \<Rightarrow> fault + bool \<times> Pager" where
  "or_else r f = res_bind r (\<lambda>(don, p). if don then Inr (True, p) else f p)"

definition rebalance :: "Node \<Rightarrow> PageId \<Rightarrow> nat \<Rightarrow> Pager \<Rightarrow> fault + Pager" where
  "rebalance parent parent_page ci p = (let all = children_vec parent; has_left = (ci > 0); has_right = (ci + 1 < length all) in
     res_bind (read_node (all ! ci) p) (\<lambda>(child, p1).
     res_bind (or_else (or_else (or_else
         (try_sibling has_left (all ! (ci - 1)) (\<lambda>left. can_borrow_left parent ci left child) (borrow_from_left parent ci) parent_page p1)
         (try_sibling has_right (all ! (ci + 1)) (\<lambda>right. can_borrow_right parent ci child right) (borrow_from_right parent ci) parent_page))
         (try_sibling has_left (all ! (ci - 1)) (\<lambda>left. can_merge parent (ci - 1) child left child) (merge_into_left parent ci) parent_page))
         (try_sibling has_right (all ! (ci + 1)) (\<lambda>right. can_merge parent ci child child right) (merge_right_into parent ci) parent_page))
       (\<lambda>(don, q). Inr q)))"

partial_function (option) delete_rec :: "PageId \<Rightarrow> bytes \<Rightarrow> Pager \<Rightarrow> (fault + bool \<times> Pager) option" where
  "delete_rec page key p = (case read_node page p of
     Inl e \<Rightarrow> Some (Inl e)
   | Inr (node, p1) \<Rightarrow>
       if nd_leaf node then Some (case binary_search (nd_keys node) key of
           Inr i \<Rightarrow> res_bind (write_node page (node\<lparr>nd_keys := vec_remove i (nd_keys node), nd_vals := vec_remove i (nd_vals node)\<rparr>) p1) (\<lambda>q. Inr (True, q))
         | Inl i \<Rightarrow> Inr (False, p1))
       else (let ci = partition_point (\<lambda>k. k \<le> key) (nd_keys node); child_page = (if ci = 0 then nd_link node else nd_children node ! (ci - 1)) in
         Option.bind (delete_rec child_page key p1) (\<lambda>r. Some (res_bind r (\<lambda>(removed, p2).
           if removed then res_bind (read_node child_page p2) (\<lambda>(child, p3).
             if node_size child < UNDERFLOW_BYTES then res_bind (rebalance node page ci p3) (\<lambda>q. Inr (True, q)) else Inr (True, p3))
           else Inr (False, p2))))))"

definition bt_delete :: "nat \<Rightarrow> bytes \<Rightarrow> Pager \<Rightarrow> (fault + bool \<times> Pager) option" where
  "bt_delete slot key p = (case bt_root slot p of Inl e \<Rightarrow> Some (Inl e) | Inr root \<Rightarrow>
     if root = 0 then Some (Inr (False, p))
     else Option.bind (delete_rec root key p) (\<lambda>r. Some (res_bind r (\<lambda>(removed, p1).
       if \<not> removed then Inr (False, p1)
       else res_bind (read_node root p1) (\<lambda>(node, p2).
         if nd_keys node \<noteq> [] then Inr (True, p2)
         else if nd_leaf node then res_bind (lift_err (free_page root p2)) (\<lambda>p3. res_bind (bt_set_root slot 0 p3) (\<lambda>q. Inr (True, q)))
         else res_bind (bt_set_root slot (nd_link node) p2) (\<lambda>p3. res_bind (lift_err (free_page root p3)) (\<lambda>q. Inr (True, q))))))))"

definition be32 :: "u32 \<Rightarrow> bytes" where
  "be32 x = rev (to_le32 x)"

definition de32 :: "bytes \<Rightarrow> u32 option" where
  "de32 b = (if length b = 4 then Some (from_le32 (rev b)) else None)"

section \<open>The page format\<close>

definition parallel :: "Node \<Rightarrow> bool" where
  "parallel nd \<longleftrightarrow> (if nd_leaf nd then length (nd_vals nd) = length (nd_keys nd) \<and> nd_children nd = []
     else length (nd_children nd) = length (nd_keys nd) \<and> nd_vals nd = [])"

lemma sized_length [simp]: "length (sized bs) = 2 + length bs"
  by (simp add: sized_def)

lemma node_bytes_length: "parallel nd \<Longrightarrow> length (node_bytes nd) = node_size nd"
proof -
  assume par: "parallel nd"
  have l: "length (concat (map (\<lambda>(k, v). sized k @ sized v) es)) = sum_list (map (\<lambda>(k, v). 2 + length k + (2 + length v)) es)" for es :: "(bytes \<times> bytes) list"
    by (induction es) auto
  have i: "length ks = length cs \<Longrightarrow> length (concat (map (\<lambda>(k, c). sized k @ to_le32 c) (zip ks cs))) = sum_list (map (\<lambda>k. 2 + length k + 4) ks)" for ks :: "bytes list" and cs
    by (induction ks cs rule: list_induct2) simp_all
  show ?thesis
  proof (cases "nd_leaf nd")
    case True
    then show ?thesis by (simp only: node_bytes_def node_size_def if_True list.size length_append length_to_le32 length_le_bytes l)
  next
    case False
    then have "length (nd_keys nd) = length (nd_children nd)" using par by (simp add: parallel_def)
    then show ?thesis using False i by (simp add: node_bytes_def node_size_def)
  qed
qed

lemma parsed_lengths: "parse_entries lf n bs = Some (ks, vs, cs) \<Longrightarrow> length ks = n \<and> length vs = (if lf then n else 0) \<and> length cs = (if lf then 0 else n)"
  by (induction lf n bs arbitrary: ks vs cs rule: parse_entries.induct) (auto split: option.splits if_splits prod.splits)

lemma parsed_child_in_range:
  assumes "parse_node pg = Some nd" and "\<not> nd_leaf nd" and "i = partition_point P (nd_keys nd)" and "i \<noteq> 0"
  shows "i - 1 < length (nd_children nd)"
proof -
  have "length (nd_children nd) = length (nd_keys nd)"
    using assms(1,2) by (auto simp: parse_node_def Let_def split: option.splits prod.splits dest!: parsed_lengths)
  then show ?thesis using assms(3,4) partition_point_le [of P "nd_keys nd"] by simp
qed

lemma unat_u16: "n < 65536 \<Longrightarrow> unat (word_of_nat n :: u16) = n"
  by (simp add: unat_of_nat take_bit_nat_eq_self)

lemma of_le16 [simp]: "of_le_bytes (le_bytes 2 w) = (w :: u16)"
  by (rule of_le_bytes_le_bytes) simp

lemma read_sized_sized: "length bs < 65536 \<Longrightarrow> read_sized (sized bs @ r) = Some (bs, r)"
  by (simp add: read_sized_def sized_def unat_u16)

lemma parse_entries_leaf:
  "length ks = length vs \<Longrightarrow> \<forall>k \<in> set ks \<union> set vs. length k < 65536 \<Longrightarrow>
    parse_entries True (length ks) (concat (map (\<lambda>(k, v). sized k @ sized v) (zip ks vs)) @ r) = Some (ks, vs, [])"
  by (induction ks vs rule: list_induct2) (simp_all add: read_sized_sized)

lemma parse_entries_inner:
  "length ks = length cs \<Longrightarrow> \<forall>k \<in> set ks. length k < 65536 \<Longrightarrow>
    parse_entries False (length ks) (concat (map (\<lambda>(k, c). sized k @ to_le32 c) (zip ks cs)) @ r) = Some (ks, [], cs)"
  by (induction ks cs rule: list_induct2) (simp_all add: read_sized_sized)

lemma sum_list_ge: "x \<in> set xs \<Longrightarrow> f x \<le> sum_list (map f xs)" for f :: "'a \<Rightarrow> nat"
  by (induction xs) auto

lemma sum_list_count: "\<forall>x \<in> set xs. m \<le> f x \<Longrightarrow> m * length xs \<le> sum_list (map f xs)" for f :: "'a \<Rightarrow> nat"
proof (induction xs)
  case (Cons x xs)
  then have "m \<le> f x" "m * length xs \<le> sum_list (map f xs)" by simp_all
  then show ?case by simp
qed simp

lemma sum_list_bound: "\<forall>x \<in> set xs. f x \<le> m \<Longrightarrow> sum_list (map f xs) \<le> m * length xs" for f :: "'a \<Rightarrow> nat"
proof (induction xs)
  case (Cons x xs)
  then have "f x \<le> m" "sum_list (map f xs) \<le> m * length xs" by simp_all
  then show ?case by simp
qed simp

lemma small_parts:
  assumes "parallel nd" "node_size nd \<le> PAGE_SIZE"
  shows "length (nd_keys nd) < 65536" "k \<in> set (nd_keys nd) \<union> set (nd_vals nd) \<Longrightarrow> length k < 65536"
proof -
  let ?f = "\<lambda>(k, v :: bytes). 2 + length (k :: bytes) + (2 + length v)" and ?g = "\<lambda>k :: bytes. 2 + length k + 4"
  have sz: "(if nd_leaf nd then sum_list (map ?f (zip (nd_keys nd) (nd_vals nd))) else sum_list (map ?g (nd_keys nd))) \<le> 4096"
    using assms(2) by (simp add: node_size_def PAGE_SIZE_def)
  show "length (nd_keys nd) < 65536"
  proof (cases "nd_leaf nd")
    case True
    have "1 * length (zip (nd_keys nd) (nd_vals nd)) \<le> sum_list (map ?f (zip (nd_keys nd) (nd_vals nd)))" by (rule sum_list_count) auto
    then show ?thesis using sz True assms(1) by (simp add: parallel_def)
  next
    case False
    have "1 * length (nd_keys nd) \<le> sum_list (map ?g (nd_keys nd))" by (rule sum_list_count) auto
    then show ?thesis using sz False by simp
  qed
  assume k: "k \<in> set (nd_keys nd) \<union> set (nd_vals nd)"
  show "length k < 65536"
  proof (cases "nd_leaf nd")
    case True
    then have "length (nd_keys nd) = length (nd_vals nd)" using assms(1) by (simp add: parallel_def)
    then obtain e where e: "e \<in> set (zip (nd_keys nd) (nd_vals nd))" "k = fst e \<or> k = snd e"
      using k by (metis Un_iff in_set_impl_in_set_zip1 in_set_impl_in_set_zip2 fst_conv snd_conv)
    then have "?f e \<le> sum_list (map ?f (zip (nd_keys nd) (nd_vals nd)))" by (rule_tac sum_list_ge)
    moreover have "length k \<le> ?f e" using e(2) by (cases e) auto
    ultimately show ?thesis using sz True by simp
  next
    case False
    then have "k \<in> set (nd_keys nd)" using k assms(1) by (simp add: parallel_def)
    then have "?g k \<le> sum_list (map ?g (nd_keys nd))" by (rule sum_list_ge)
    then show ?thesis using sz False by simp
  qed
qed

lemma serialize_fits: "parallel nd \<Longrightarrow> node_size nd \<le> PAGE_SIZE \<Longrightarrow> \<exists>pg. serialize nd = Some pg \<and> length pg = PAGE_SIZE"
  by (simp add: serialize_def node_bytes_length copy_at_def)

lemma serialize_overflows: "parallel nd \<Longrightarrow> node_size nd > PAGE_SIZE \<Longrightarrow> serialize nd = None"
  by (simp add: serialize_def node_bytes_length)

lemma parse_serialize:
  assumes par: "parallel nd" and ser: "serialize nd = Some pg"
  shows "parse_node pg = Some nd"
proof -
  have sz: "node_size nd \<le> PAGE_SIZE" using ser node_bytes_length [OF par] by (simp add: serialize_def split: if_splits)
  note sm = small_parts [OF par sz]
  let ?z = "drop (length (node_bytes nd)) zero_page"
  let ?es = "if nd_leaf nd then concat (map (\<lambda>(k, v). sized k @ sized v) (zip (nd_keys nd) (nd_vals nd)))
    else concat (map (\<lambda>(k, c). sized k @ to_le32 c) (zip (nd_keys nd) (nd_children nd)))"
  have pg: "pg = (if nd_leaf nd then 1 else 0) # to_le32 (nd_link nd) @ le_bytes 2 (word_of_nat (length (nd_keys nd)) :: u16) @ ?es @ ?z"
  proof -
    have "pg = node_bytes nd @ ?z" using ser by (simp add: serialize_def copy_at_def split: if_splits)
    then show ?thesis unfolding node_bytes_def by (simp only: append_assoc append_Cons)
  qed
  have lf: "(pg ! 0 \<noteq> 0) = nd_leaf nd" and lk: "from_le32 (take 4 (drop 1 pg)) = nd_link nd" by (simp_all add: pg)
  have n: "unat (of_le_bytes (take 2 (drop 5 pg)) :: u16) = length (nd_keys nd)"
    using unat_u16 [OF sm(1)] by (simp add: pg drop_Cons')
  have d: "drop 7 pg = ?es @ ?z" by (simp add: pg drop_Cons')
  have "parse_entries (nd_leaf nd) (length (nd_keys nd)) (?es @ ?z) = Some (nd_keys nd, nd_vals nd, nd_children nd)"
  proof (cases "nd_leaf nd")
    case True
    then show ?thesis using par parse_entries_leaf [of "nd_keys nd" "nd_vals nd" ?z] sm(2) by (simp add: parallel_def)
  next
    case False
    then show ?thesis using par parse_entries_inner [of "nd_keys nd" "nd_children nd" ?z] sm(2) by (simp add: parallel_def)
  qed
  then show ?thesis by (simp add: parse_node_def lf lk [simplified] n d Let_def)
qed

end
