(* ===== verification/BpRep.thy ===== *)
theory BpRep
  imports BpTree
begin

text \<open>
  What the pages of a B+ tree mean. An abstract tree \<open>bt\<close> names its pages; \<open>holds\<close> says that every page parses to its node, \<open>toks\<close> is
  the in-order sequence of separators and entry keys (a separator precedes the entry with the same key), whose order is the
  search-tree invariant, and \<open>chain\<close> is the linking of the leaves. A node's children are a forest: the first child has no separator.
\<close>

section \<open>Abstract trees\<close>

datatype bt = BL PageId PageId "(bytes \<times> bytes) list" | BN PageId "(bytes option \<times> bt) list"

type_synonym forest = "(bytes option \<times> bt) list"

fun root_id :: "bt \<Rightarrow> PageId" where
  "root_id (BL i l es) = i"
| "root_id (BN i ts) = i"

fun entries :: "bt \<Rightarrow> (bytes \<times> bytes) list" where
  "entries (BL i l es) = es"
| "entries (BN i ts) = concat (map (\<lambda>x. entries (snd x)) ts)"

definition sep_tok :: "bytes option \<Rightarrow> (bytes \<times> bool) list" where
  "sep_tok ko = (case ko of None \<Rightarrow> [] | Some k \<Rightarrow> [(k, False)])"

lemma sep_tok_simps [simp]: "sep_tok None = []" "sep_tok (Some k) = [(k, False)]"
  by (simp_all add: sep_tok_def)

fun toks :: "bt \<Rightarrow> (bytes \<times> bool) list" where
  "toks (BL i l es) = map (\<lambda>e. (fst e, True)) es"
| "toks (BN i ts) = concat (map (\<lambda>x. sep_tok (fst x) @ toks (snd x)) ts)"

fun subs :: "bt \<Rightarrow> bt list" where
  "subs (BL i l es) = [BL i l es]"
| "subs (BN i ts) = BN i ts # concat (map (\<lambda>x. subs (snd x)) ts)"

fun leaves :: "bt \<Rightarrow> (PageId \<times> PageId) list" where
  "leaves (BL i l es) = [(i, l)]"
| "leaves (BN i ts) = concat (map (\<lambda>x. leaves (snd x)) ts)"

definition kids_ok :: "forest \<Rightarrow> bool" where
  "kids_ok ts \<longleftrightarrow> ts \<noteq> [] \<and> fst (hd ts) = None \<and> (\<forall>x \<in> set (tl ts). fst x \<noteq> None)"

fun bal :: "nat \<Rightarrow> bt \<Rightarrow> bool" where
  "bal 0 (BL i l es) = True"
| "bal (Suc h) (BN i ts) = (kids_ok ts \<and> (\<forall>x \<in> set ts. bal h (snd x)))"
| "bal _ _ = False"

definition pages :: "bt \<Rightarrow> PageId list" where
  "pages t = map root_id (subs t)"

fun node_of :: "bt \<Rightarrow> Node" where
  "node_of (BL i l es) = \<lparr>nd_leaf = True, nd_link = l, nd_keys = map fst es, nd_vals = map snd es, nd_children = []\<rparr>"
| "node_of (BN i ts) = \<lparr>nd_leaf = False, nd_link = root_id (snd (hd ts)), nd_keys = map (\<lambda>x. the (fst x)) (tl ts), nd_vals = [],
     nd_children = map (\<lambda>x. root_id (snd x)) (tl ts)\<rparr>"

definition node_at :: "(PageId \<Rightarrow> page option) \<Rightarrow> PageId \<Rightarrow> Node \<Rightarrow> bool" where
  "node_at u i nd \<longleftrightarrow> (\<exists>pg. u i = Some pg \<and> parse_node pg = Some nd) \<and> node_size nd \<le> PAGE_SIZE"

definition holds :: "(PageId \<Rightarrow> page option) \<Rightarrow> bt \<Rightarrow> bool" where
  "holds u t \<longleftrightarrow> (\<forall>s \<in> set (subs t). node_at u (root_id s) (node_of s))"

section \<open>Forests\<close>

definition fentries :: "forest \<Rightarrow> (bytes \<times> bytes) list" where
  "fentries ts = concat (map (\<lambda>x. entries (snd x)) ts)"

definition ftoks :: "forest \<Rightarrow> (bytes \<times> bool) list" where
  "ftoks ts = concat (map (\<lambda>x. sep_tok (fst x) @ toks (snd x)) ts)"

definition fpages :: "forest \<Rightarrow> PageId list" where
  "fpages ts = concat (map (\<lambda>x. pages (snd x)) ts)"

definition fleaves :: "forest \<Rightarrow> (PageId \<times> PageId) list" where
  "fleaves ts = concat (map (\<lambda>x. leaves (snd x)) ts)"

lemma forest_Nil [simp]: "fentries [] = []" "ftoks [] = []" "fpages [] = []" "fleaves [] = []"
  by (simp_all add: fentries_def ftoks_def fpages_def fleaves_def)

lemma forest_Cons [simp]: "fentries (x # ts) = entries (snd x) @ fentries ts" "ftoks (x # ts) = sep_tok (fst x) @ toks (snd x) @ ftoks ts"
  "fpages (x # ts) = pages (snd x) @ fpages ts" "fleaves (x # ts) = leaves (snd x) @ fleaves ts"
  by (simp_all add: fentries_def ftoks_def fpages_def fleaves_def)

lemma forest_append [simp]: "fentries (ts @ us) = fentries ts @ fentries us" "ftoks (ts @ us) = ftoks ts @ ftoks us"
  "fpages (ts @ us) = fpages ts @ fpages us" "fleaves (ts @ us) = fleaves ts @ fleaves us"
  by (simp_all add: fentries_def ftoks_def fpages_def fleaves_def)

lemma node_parts: "entries (BN i ts) = fentries ts" "toks (BN i ts) = ftoks ts" "pages (BN i ts) = i # fpages ts" "leaves (BN i ts) = fleaves ts"
  by (simp_all add: fentries_def ftoks_def fpages_def fleaves_def pages_def map_concat comp_def)

declare entries.simps(2) [simp del] toks.simps(2) [simp del] leaves.simps(2) [simp del]
declare node_parts [simp]

lemma pages_leaf [simp]: "pages (BL i l es) = [i]"
  by (simp add: pages_def)

lemma root_in_pages [simp]: "root_id t \<in> set (pages t)"
  by (cases t) (simp_all add: pages_def)

lemma mem_fpages: "x \<in> set ts \<Longrightarrow> j \<in> set (pages (snd x)) \<Longrightarrow> j \<in> set (fpages ts)"
  by (auto simp: fpages_def)

lemma holds_leaf [simp]: "holds u (BL i l es) \<longleftrightarrow> node_at u i (node_of (BL i l es))"
  by (simp add: holds_def)

lemma holds_node [simp]: "holds u (BN i ts) \<longleftrightarrow> node_at u i (node_of (BN i ts)) \<and> (\<forall>x \<in> set ts. holds u (snd x))"
  by (auto simp: holds_def)

lemma holds_mono: "holds u t \<Longrightarrow> (\<And>j. j \<in> set (pages t) \<Longrightarrow> u' j = u j) \<Longrightarrow> holds u' t"
  by (simp add: holds_def node_at_def pages_def)

lemma holds_used: "holds u t \<Longrightarrow> j \<in> set (pages t) \<Longrightarrow> u j \<noteq> None"
  by (auto simp: holds_def node_at_def pages_def)

lemma parallel_node_of [simp]: "parallel (node_of t)"
  by (cases t) (simp_all add: parallel_def)

lemma kids_ok_Cons [simp]: "kids_ok (x # ts) \<longleftrightarrow> fst x = None \<and> (\<forall>y \<in> set ts. fst y \<noteq> None)"
  by (simp add: kids_ok_def)

lemma leaves_ne: "bal h t \<Longrightarrow> leaves t \<noteq> []"
proof (induction h t rule: bal.induct)
  case (2 h i ts)
  then obtain x us where "ts = x # us" by (cases ts) (auto simp: kids_ok_def)
  then show ?case using 2 by auto
qed simp_all

text \<open>Entry keys are tokens.\<close>

lemma entry_tok: "e \<in> set (entries t) \<Longrightarrow> (fst e, True) \<in> set (toks t)"
proof (induction t rule: entries.induct)
  case (2 i ts)
  then show ?case by (auto simp: fentries_def ftoks_def simp del: node_parts simp: entries.simps(2) toks.simps(2))
qed simp

lemma fentry_tok: "e \<in> set (fentries ts) \<Longrightarrow> (fst e, True) \<in> set (ftoks ts)"
  using entry_tok [of e "BN 0 ts"] by simp

section \<open>The chain of leaves\<close>

definition first :: "(PageId \<times> PageId) list \<Rightarrow> PageId \<Rightarrow> PageId" where
  "first ls nx = (case ls of [] \<Rightarrow> nx | x # _ \<Rightarrow> fst x)"

lemma first_simps [simp]: "first [] nx = nx" "first (x # ls) nx = fst x" "ls \<noteq> [] \<Longrightarrow> first (ls @ ms) nx = first ls nx"
  by (auto simp: first_def split: list.split)

lemma first_append: "first (ls @ ms) nx = first ls (first ms nx)"
  by (cases ls) simp_all

fun chain :: "(PageId \<times> PageId) list \<Rightarrow> PageId \<Rightarrow> bool" where
  "chain [] nx = True"
| "chain (x # ls) nx = (snd x = first ls nx \<and> chain ls nx)"

lemma chain_append: "chain (ls @ ms) nx \<longleftrightarrow> chain ls (first ms nx) \<and> chain ms nx"
  by (induction ls) (auto simp: first_append)

section \<open>Routing a key to a child\<close>

lemma pick_child:
  assumes "kids_ok ts" and asc: "ascending (ftoks ts)" and n: "n = partition_point (\<lambda>k. k \<le> key) (map (\<lambda>x. the (fst x)) (tl ts))"
  obtains a ko c b where "ts = a @ (ko, c) # b" "length a = n" "\<forall>x \<in> set (ftoks a). x < (key, True)" "\<forall>x \<in> set (sep_tok ko). x < (key, True)"
    "\<forall>x \<in> set (ftoks b). (key, True) < x" "child_for (node_of (BN i ts)) key = root_id c"
proof -
  let ?ks = "map (\<lambda>x. the (fst x)) (tl ts)" and ?P = "\<lambda>k. k \<le> key"
  obtain y us where ts: "ts = y # us" "fst y = None" "\<forall>x \<in> set us. fst x \<noteq> None" using assms(1) by (cases ts) (auto simp: kids_ok_def)
  have n': "n = length (takeWhile ?P (map (\<lambda>x. the (fst x)) us))" using n by (simp add: partition_point_def ts)
  then have "n \<le> length us" by (metis length_map length_takeWhile_le)
  then have lt: "n < length ts" by (simp add: ts)
  define a ko c b where "a = take n ts" and "ko = fst (ts ! n)" and "c = snd (ts ! n)" and "b = drop (Suc n) ts"
  have sp: "ts = a @ (ko, c) # b" using id_take_nth_drop [OF lt] by (simp add: a_def b_def ko_def c_def)
  have la: "length a = n" using lt by (simp add: a_def)
  have asc': "ascending (ftoks a @ (sep_tok ko @ toks c) @ ftoks b)" using asc by (simp add: sp)
  have ko: "\<forall>x \<in> set (sep_tok ko). x < (key, True)" and aa: "\<forall>x \<in> set (ftoks a). x < (key, True)"
  proof -
    have "(\<forall>x \<in> set (sep_tok ko). x < (key, True)) \<and> (\<forall>x \<in> set (ftoks a). x < (key, True))"
    proof (cases n)
      case 0
      then have "ko = None" "a = []" by (simp_all add: a_def ko_def ts)
      then show ?thesis by simp
    next
      case (Suc m)
      then have m: "m < length (takeWhile ?P (map (\<lambda>x. the (fst x)) us))" using n' by simp
      then have "m < length us" using \<open>n \<le> length us\<close> Suc by simp
      have "takeWhile ?P (map (\<lambda>x. the (fst x)) us) ! m \<le> key" using nth_mem [OF m] by (auto dest: set_takeWhileD)
      then have "the (fst (us ! m)) \<le> key" using \<open>m < length us\<close> by (simp add: takeWhile_nth [OF m])
      moreover have "fst (us ! m) \<noteq> None" using ts(3) \<open>m < length us\<close> by simp
      ultimately obtain k where k: "ko = Some k" "k \<le> key" by (auto simp: ko_def ts Suc)
      have "\<forall>x \<in> set (ftoks a). x < (k, False)" using asc' by (simp add: sorted_wrt_append k)
      moreover have lt: "(k, False) < (key, True)" using k(2) by (auto simp: less_prod_def)
      ultimately have "\<forall>x \<in> set (ftoks a). x < (key, True)" by (blast intro: order.strict_trans)
      then show ?thesis using k(1) lt by (simp del: less_prod_simp)
    qed
    then show "\<forall>x \<in> set (sep_tok ko). x < (key, True)" "\<forall>x \<in> set (ftoks a). x < (key, True)" by blast+
  qed
  have bb: "\<forall>x \<in> set (ftoks b). (key, True) < x"
  proof (cases b)
    case (Cons z zs)
    then have nl: "n < length us" by (metis b_def drop_eq_Nil2 length_Cons list.distinct(1) not_le_imp_less Suc_le_mono ts(1))
    have z: "z = us ! n" using Cons nl by (metis b_def drop_Suc_Cons nth_via_drop ts(1))
    have "\<not> the (fst z) \<le> key" using nth_length_takeWhile [of ?P "map (\<lambda>x. the (fst x)) us"] nl n' z by simp
    moreover have "fst z \<noteq> None" using ts(3) nl z by simp
    ultimately obtain k where k: "fst z = Some k" "key < k" by auto
    have "\<forall>x \<in> set (toks (snd z) @ ftoks zs). (k, False) < x" using asc' by (simp add: sorted_wrt_append Cons k)
    moreover have lt: "(key, True) < (k, False)" using k(2) by (simp add: less_prod_def)
    ultimately have "\<forall>x \<in> set (toks (snd z) @ ftoks zs). (key, True) < x" by (blast intro: order.strict_trans)
    then show ?thesis using k(1) lt by (simp add: Cons del: less_prod_simp)
  qed simp
  have "child_for (node_of (BN i ts)) key = root_id c"
  proof (cases n)
    case 0
    then show ?thesis using n by (simp add: child_for_def c_def ts)
  next
    case (Suc m)
    then show ?thesis using n \<open>n \<le> length us\<close> by (simp add: child_for_def c_def ts Let_def)
  qed
  then show thesis using that [OF sp la aa ko bb] by blast
qed

section \<open>Nodes through the pager\<close>

definition calm :: "PageId list \<Rightarrow> Pager \<Rightarrow> Pager \<Rightarrow> bool" where
  "calm fl p q \<longleftrightarrow> pager_ok fl q \<and> in_use fl q = in_use fl p \<and> roots q = roots p \<and> page_count q = page_count p"

lemma calm_refl: "pager_ok fl p \<Longrightarrow> calm fl p p"
  by (simp add: calm_def)

lemma calm_trans: "calm fl p q \<Longrightarrow> calm fl q r \<Longrightarrow> calm fl p r"
  by (simp add: calm_def)

lemma read_node_ok:
  assumes "pager_ok fl p" and "node_at (in_use fl p) i nd"
  shows "\<exists>q. read_node i p = Inr (nd, q) \<and> calm fl p q"
proof -
  obtain pg where pg: "in_use fl p i = Some pg" "parse_node pg = Some nd" using assms(2) by (auto simp: node_at_def)
  then have "view p i = Some pg" by (simp add: in_use_def split: if_splits)
  from pager_read [OF assms(1) this] obtain q where
    "read_page i p = Inr (pg, q)" "pager_ok fl q" "view q = view p" "same_frame p q" by blast
  then show ?thesis using pg(2) by (auto simp: read_node_def lift_err_def calm_def in_use_def same_frame_def fun_eq_iff)
qed

lemma write_node_ok:
  assumes "pager_ok fl p" and "in_use fl p i \<noteq> None" and "parallel nd" and "node_size nd \<le> PAGE_SIZE"
  shows "\<exists>q pg. write_node i nd p = Inr q \<and> pager_ok fl q \<and> in_use fl q = (in_use fl p)(i \<mapsto> pg) \<and> parse_node pg = Some nd \<and>
    roots q = roots p \<and> page_count q = page_count p"
proof -
  obtain pg where pg: "serialize nd = Some pg" "length pg = PAGE_SIZE" using serialize_fits [OF assms(3,4)] by blast
  have i: "view p i \<noteq> None" "i \<notin> set fl" using assms(2) by (auto simp: in_use_def split: if_splits)
  from pager_write [OF assms(1) i pg(2)] obtain q where
    "write_page i pg p = Inr q" "pager_ok fl q" "view q = (view p)(i \<mapsto> pg)" "same_frame p q" by blast
  then show ?thesis using pg(1) parse_serialize [OF assms(3) pg(1)] i(2)
    by (auto simp: write_node_def lift_err_def in_use_def same_frame_def fun_eq_iff)
qed

lemma write_node_panic: "parallel nd \<Longrightarrow> \<not> node_size nd \<le> PAGE_SIZE \<Longrightarrow> write_node i nd p = Inl Panic"
  by (simp add: write_node_def serialize_overflows)

lemma alloc_full: "\<not> alloc_room p \<Longrightarrow> \<exists>e. alloc p = Inl e"
  by (simp add: alloc_room_def alloc_def checked_add32_def Let_def)

lemma alloc_page:
  assumes "pager_ok fl p" and "alloc_room p"
  shows "\<exists>i q fl'. alloc p = Inr (i, q) \<and> pager_ok fl' q \<and> in_use fl p i = None \<and> in_use fl' q = (in_use fl p)(i \<mapsto> zero_page) \<and>
    i \<noteq> 0 \<and> roots q = roots p \<and> unat (page_count q) \<le> Suc (unat (page_count p))"
proof -
  obtain i q fl' where r: "alloc p = Inr (i, q)" "pager_ok fl' q" "view q = (view p)(i \<mapsto> zero_page)" "i \<noteq> 0"
    "view p i = None \<or> i \<in> set fl" "set fl' = set fl - {i}" "roots q = roots p" "unat (page_count q) \<le> Suc (unat (page_count p))"
    using pager_alloc [OF assms] by blast
  have "in_use fl p i = None" using r(5) by (auto simp: in_use_def)
  moreover have "in_use fl' q = (in_use fl p)(i \<mapsto> zero_page)" using r(3,6) by (simp add: in_use_def fun_eq_iff)
  ultimately show ?thesis using r by blast
qed

lemma free_node:
  assumes "pager_ok fl p" and "in_use fl p i \<noteq> None"
  shows "\<exists>q. free_page i p = Inr q \<and> pager_ok (i # fl) q \<and> in_use (i # fl) q = (in_use fl p)(i := None) \<and> roots q = roots p"
proof -
  have i: "view p i \<noteq> None" "i \<notin> set fl" using assms(2) by (auto simp: in_use_def split: if_splits)
  from pager_free [OF assms(1) i] obtain q where
    "free_page i p = Inr q" "pager_ok (i # fl) q" "\<forall>j. j \<noteq> i \<longrightarrow> view q j = view p j" "roots q = roots p" by blast
  then show ?thesis by (auto simp: in_use_def fun_eq_iff)
qed

section \<open>Lookup\<close>

lemma ascending_keys: "ascending (toks (BL i l es)) \<longleftrightarrow> ascending (map fst es)"
  by (simp add: sorted_wrt_map less_prod_def)

lemma map_of_outside: "\<forall>e \<in> set es. fst e \<noteq> k \<Longrightarrow> map_of es k = None"
  by (auto simp: map_of_eq_None_iff)

lemma leaf_get_correct:
  assumes "ascending (map fst es)"
  shows "leaf_get key (node_of (BL i l es)) = map_of es key"
  using assms
proof (cases rule: binary_search_cases [of _ key])
  case (found ls rs)
  then have n: "length ls < length es" by (metis length_append length_map length_Cons less_add_Suc1 add_Suc_right)
  then have "es ! length ls \<in> set es" "fst (es ! length ls) = key" using found(2) by (simp, metis nth_append_length nth_map)
  then have "map_of es key = Some (snd (es ! length ls))"
    using assms ascending_distinct map_of_is_SomeI by (metis prod.collapse)
  then show ?thesis using found(1) n by (simp add: leaf_get_def)
next
  case (absent ls rs)
  have "key \<notin> set (ls @ rs)" using absent(3,4) by auto
  then have "map_of es key = None" using absent(2) by (metis list.set_map map_of_eq_None_iff)
  then show ?thesis using absent(1) by (simp add: leaf_get_def)
qed

lemma map_of_pick:
  assumes "\<forall>x \<in> set (ftoks a). x < (key, True)" "\<forall>x \<in> set (ftoks b). (key, True) < x"
  shows "map_of (fentries (a @ (ko, c) # b)) key = map_of (entries c) key"
proof -
  have "map_of (fentries a) key = None" "map_of (fentries b) key = None"
    using assms by (auto intro!: map_of_outside dest!: fentry_tok)
  then show ?thesis by (simp add: map_add_def split: option.split)
qed

definition tree_ok :: "(PageId \<Rightarrow> page option) \<Rightarrow> nat \<Rightarrow> bt \<Rightarrow> bool" where
  "tree_ok u h t \<longleftrightarrow> holds u t \<and> bal h t \<and> distinct (pages t) \<and> ascending (toks t)"

lemma tree_ok_child:
  assumes "tree_ok u (Suc h) (BN i (a @ (ko, c) # b))"
  shows "tree_ok u h c"
  using assms by (auto simp: tree_ok_def sorted_wrt_append)

lemma bal_Suc: "bal (Suc h) t \<Longrightarrow> \<exists>i ts. t = BN i ts"
  by (cases t) auto

lemma bal_0: "bal 0 t \<Longrightarrow> \<exists>i l es. t = BL i l es"
  by (cases t) auto

lemma get_loop_correct:
  assumes "pager_ok fl p" and "tree_ok (in_use fl p) h t"
  shows "\<exists>q. get_loop key (root_id t) p = Some (Inr (map_of (entries t) key, q)) \<and> calm fl p q"
  using assms
proof (induction h arbitrary: t p)
  case 0
  then obtain i l es where t: "t = BL i l es" using bal_0 [of t] by (auto simp: tree_ok_def)
  obtain q where q: "read_node i p = Inr (node_of t, q)" "calm fl p q"
    using read_node_ok [OF 0(1), of i "node_of t"] 0(2) by (auto simp: t tree_ok_def)
  have "leaf_get key (node_of t) = map_of es key" using leaf_get_correct 0(2) ascending_keys by (simp add: t tree_ok_def)
  then show ?case using q by (subst get_loop.simps) (simp add: t)
next
  case (Suc h)
  then obtain i ts where t: "t = BN i ts" using bal_Suc [of h t] by (auto simp: tree_ok_def)
  have ok: "kids_ok ts" "ascending (ftoks ts)" "node_at (in_use fl p) i (node_of t)" using Suc.prems(2) by (auto simp: t tree_ok_def)
  obtain a ko c b where sp: "ts = a @ (ko, c) # b" "\<forall>x \<in> set (ftoks a). x < (key, True)" "\<forall>x \<in> set (ftoks b). (key, True) < x"
    "child_for (node_of t) key = root_id c" using pick_child [OF ok(1,2) refl, of key i] unfolding t by metis
  obtain q where q: "read_node i p = Inr (node_of t, q)" "calm fl p q" using read_node_ok [OF Suc.prems(1) ok(3)] by blast
  have "tree_ok (in_use fl q) h c" using tree_ok_child Suc.prems(2) q(2) unfolding t sp(1) calm_def by metis
  then obtain r where r: "get_loop key (root_id c) q = Some (Inr (map_of (entries c) key, r))" "calm fl q r"
    using Suc.IH [of q c] q(2) unfolding calm_def by blast
  have e: "map_of (entries t) key = map_of (entries c) key" using map_of_pick [OF sp(2,3)] by (simp add: t sp(1))
  have "get_loop key i p = Some (Inr (map_of (entries t) key, r))"
    unfolding get_loop.simps [of key i p] q(1) using r(1) sp(4) by (simp add: e) (simp add: t)
  then show ?case using calm_trans [OF q(2) r(2)] by (simp add: t)
qed

section \<open>Scans\<close>

text \<open>The leaves with their entries.\<close>

fun lvs :: "bt \<Rightarrow> (PageId \<times> PageId \<times> (bytes \<times> bytes) list) list" where
  "lvs (BL i l es) = [(i, l, es)]"
| "lvs (BN i ts) = concat (map (\<lambda>x. lvs (snd x)) ts)"

definition lv_entries :: "(PageId \<times> PageId \<times> (bytes \<times> bytes) list) list \<Rightarrow> (bytes \<times> bytes) list" where
  "lv_entries ls = concat (map (\<lambda>(i, l, es). es) ls)"

lemma lv_entries_simps [simp]: "lv_entries [] = []" "lv_entries ((i, l, es) # ls) = es @ lv_entries ls" "lv_entries (ls @ ms) = lv_entries ls @ lv_entries ms"
  by (simp_all add: lv_entries_def)

lemma lvs_entries: "lv_entries (lvs t) = entries t"
proof (induction t rule: entries.induct)
  case (2 i ts)
  then have "lv_entries (concat (map (\<lambda>x. lvs (snd x)) ts)) = fentries ts" by (induction ts) auto
  then show ?case by simp
qed (simp add: lv_entries_def)

lemma lvs_leaves: "map (\<lambda>(i, l, es). (i, l)) (lvs t) = leaves t"
proof (induction t rule: entries.induct)
  case (2 i ts)
  then have "map (\<lambda>(i, l, es). (i, l)) (concat (map (\<lambda>x. lvs (snd x)) ts)) = fleaves ts" by (induction ts) auto
  then show ?case by simp
qed simp

lemma lvs_at: "holds u t \<Longrightarrow> (i, l, es) \<in> set (lvs t) \<Longrightarrow> node_at u i (node_of (BL i l es))"
proof (induction t rule: lvs.induct)
  case (2 i' ts)
  then obtain x where "x \<in> set ts" "(i, l, es) \<in> set (lvs (snd x))" by auto
  then show ?case using 2 by auto
qed simp

lemma find_leaf_correct:
  assumes "pager_ok fl p" and "tree_ok (in_use fl p) h t"
  shows "\<exists>q A i l es B. find_leaf_loop key (root_id t) p = Some (Inr ((i, partition_point (\<lambda>k. k < key) (map fst es)), q)) \<and> calm fl p q \<and>
    lvs t = A @ (i, l, es) # B \<and> (\<forall>e \<in> set (lv_entries A). fst e < key) \<and> (\<forall>e \<in> set (lv_entries B). key < fst e)"
  using assms
proof (induction h arbitrary: t p)
  case 0
  then obtain i l es where t: "t = BL i l es" using bal_0 [of t] by (auto simp: tree_ok_def)
  obtain q where q: "read_node i p = Inr (node_of t, q)" "calm fl p q"
    using read_node_ok [OF 0(1), of i "node_of t"] 0(2) by (auto simp: t tree_ok_def)
  have "find_leaf_loop key i p = Some (Inr ((i, partition_point (\<lambda>k. k < key) (map fst es)), q))"
    unfolding find_leaf_loop.simps [of key i p] using q(1) by (simp add: t)
  then show ?case using q(2) by (intro exI [of _ q] exI [of _ "[]"] exI [of _ i] exI [of _ l] exI [of _ es]) (simp add: t)
next
  case (Suc h)
  then obtain i ts where t: "t = BN i ts" using bal_Suc [of h t] by (auto simp: tree_ok_def)
  have ok: "kids_ok ts" "ascending (ftoks ts)" "node_at (in_use fl p) i (node_of t)" using Suc.prems(2) by (auto simp: t tree_ok_def)
  obtain a ko c b where sp: "ts = a @ (ko, c) # b" "\<forall>x \<in> set (ftoks a). x < (key, True)" "\<forall>x \<in> set (ftoks b). (key, True) < x"
    "child_for (node_of t) key = root_id c" using pick_child [OF ok(1,2) refl, of key i] unfolding t by metis
  obtain q where q: "read_node i p = Inr (node_of t, q)" "calm fl p q" using read_node_ok [OF Suc.prems(1) ok(3)] by blast
  have "tree_ok (in_use fl q) h c" using tree_ok_child Suc.prems(2) q(2) unfolding t sp(1) calm_def by metis
  then obtain r A j l es B where r: "find_leaf_loop key (root_id c) q = Some (Inr ((j, partition_point (\<lambda>k. k < key) (map fst es)), r))" "calm fl q r"
      "lvs c = A @ (j, l, es) # B" "\<forall>e \<in> set (lv_entries A). fst e < key" "\<forall>e \<in> set (lv_entries B). key < fst e"
    using Suc.IH [of q c] q(2) unfolding calm_def by blast
  let ?f = "\<lambda>ts :: forest. concat (map (\<lambda>x. lvs (snd x)) ts)"
  have fe: "lv_entries (?f ts) = fentries ts" for ts by (induction ts) (simp_all add: lvs_entries)
  have "find_leaf_loop key i p = Some (Inr ((j, partition_point (\<lambda>k. k < key) (map fst es)), r))"
    unfolding find_leaf_loop.simps [of key i p] q(1) using r(1) sp(4) by simp (simp add: t)
  then have "find_leaf_loop key (root_id t) p = Some (Inr ((j, partition_point (\<lambda>k. k < key) (map fst es)), r))" by (simp add: t)
  moreover have "lvs t = (?f a @ A) @ (j, l, es) # (B @ ?f b)" by (simp add: t sp(1) r(3))
  moreover have "\<forall>e \<in> set (lv_entries (?f a @ A)). fst e < key" using r(4) sp(2) fentry_tok [of _ a] by (force simp: fe)
  moreover have "\<forall>e \<in> set (lv_entries (B @ ?f b)). key < fst e" using r(5) sp(3) fentry_tok [of _ b] by (force simp: fe)
  moreover have "calm fl p r" by (rule calm_trans [OF q(2) r(2)])
  ultimately show ?case by (intro exI conjI)
qed

lemma prefix_convex: "pre \<le> k \<Longrightarrow> k \<le> k' \<Longrightarrow> starts_with k' pre \<Longrightarrow> starts_with k (pre :: bytes)"
proof (induction pre arbitrary: k k')
  case (Cons x pre)
  from Cons.prems obtain y ys z zs where k: "k = y # ys" "k' = z # zs" by (cases k; cases k') (auto simp: starts_with_def)
  then have "z = x" "starts_with zs pre" using Cons.prems(3) by (auto simp: starts_with_def)
  moreover have "y = x" "pre \<le> ys" "ys \<le> zs" using Cons.prems(1,2) k \<open>z = x\<close> by auto
  ultimately show ?case using Cons.IH [of ys zs] k by (simp add: starts_with_def)
qed (simp add: starts_with_def)

lemma starts_with_ge: "starts_with k pre \<Longrightarrow> pre \<le> (k :: bytes)"
proof (induction pre arbitrary: k)
  case (Cons x pre)
  then show ?case by (cases k) (auto simp: starts_with_def)
qed simp

lemma starts_with_self [simp]: "starts_with k k"
  by (simp add: starts_with_def)

lemma no_match_after: "pre \<le> k \<Longrightarrow> \<not> starts_with k pre \<Longrightarrow> \<forall>e \<in> set es. k < fst e \<Longrightarrow> filter (\<lambda>e. starts_with (fst e) pre) es = []"
  using prefix_convex by (fastforce simp: filter_empty_conv)

lemma scan_entries_spec:
  assumes "ascending (map fst (es @ rest))" and "\<forall>e \<in> set es. pre \<le> fst e"
  shows "\<exists>stop. scan_entries pre es = (filter (\<lambda>e. starts_with (fst e) pre) es, stop) \<and> (stop \<longrightarrow> filter (\<lambda>e. starts_with (fst e) pre) rest = [])"
  using assms
proof (induction es)
  case (Cons e es)
  obtain k v where e: "e = (k, v)" by (cases e)
  obtain stop where IH: "scan_entries pre es = (filter (\<lambda>e. starts_with (fst e) pre) es, stop)" "stop \<longrightarrow> filter (\<lambda>e. starts_with (fst e) pre) rest = []"
    using Cons by auto
  show ?case
  proof (cases "starts_with k pre")
    case True
    then show ?thesis using IH by (simp add: e)
  next
    case False
    then have "pre < k" using Cons.prems(2) starts_with_self [of k] by (cases "pre = k") (auto simp: e)
    moreover have "filter (\<lambda>e. starts_with (fst e) pre) (es @ rest) = []" using no_match_after [of pre k "es @ rest"] False Cons.prems \<open>pre < k\<close> by (auto simp: e)
    ultimately show ?thesis using False by (auto simp: e)
  qed
qed auto

lemma count_scan: "count_entries pre (map fst es) = (length (fst (scan_entries pre es)), snd (scan_entries pre es))"
  by (induction pre es rule: scan_entries.induct) (auto simp: case_prod_beta Let_def)

text \<open>A run of leaves from some leaf to the end of the tree.\<close>

definition leaf_run :: "(PageId \<Rightarrow> page option) \<Rightarrow> (PageId \<times> PageId \<times> (bytes \<times> bytes) list) list \<Rightarrow> bool" where
  "leaf_run u ls \<longleftrightarrow> (\<forall>(i, l, es) \<in> set ls. node_at u i (node_of (BL i l es)) \<and> i \<noteq> 0) \<and> chain (map (\<lambda>(i, l, es). (i, l)) ls) 0"

lemma leaf_run_Cons: "leaf_run u ((i, l, es) # ls) \<longleftrightarrow> node_at u i (node_of (BL i l es)) \<and> i \<noteq> 0 \<and> leaf_run u ls \<and>
    l = (case ls of [] \<Rightarrow> 0 | (j, _, _) # _ \<Rightarrow> j)"
  by (auto simp: leaf_run_def split: list.split)

lemma scan_loop_correct:
  assumes "pager_ok fl p" and "leaf_run (in_use fl p) ((i, l, es) # B)" and "ascending (map fst (drop idx es @ lv_entries B))"
    and "\<forall>e \<in> set (drop idx es @ lv_entries B). pre \<le> fst e"
  shows "\<exists>q. scan_loop pre i idx acc p = Some (Inr (acc @ filter (\<lambda>e. starts_with (fst e) pre) (drop idx es @ lv_entries B), q)) \<and> calm fl p q"
  using assms
proof (induction B arbitrary: i l es idx acc p)
  case Nil
  then have l: "l = 0" and at: "node_at (in_use fl p) i (node_of (BL i l es))" by (auto simp: leaf_run_Cons)
  obtain q where q: "read_node i p = Inr (node_of (BL i l es), q)" "calm fl p q" using read_node_ok [OF Nil(1) at] by blast
  obtain stop where "scan_entries pre (drop idx es) = (filter (\<lambda>e. starts_with (fst e) pre) (drop idx es), stop)"
    using scan_entries_spec [of "drop idx es" "[]" pre] Nil(3,4) by auto
  then have "scan_loop pre i idx acc p = Some (Inr (acc @ filter (\<lambda>e. starts_with (fst e) pre) (drop idx es), q))"
    unfolding scan_loop.simps [of pre i] q(1) by (simp add: l zip_map_fst_snd)
  then show ?case using q(2) by simp
next
  case (Cons b B)
  obtain j m fs where b: "b = (j, m, fs)" by (cases b)
  have l: "l = j" "j \<noteq> 0" and at: "node_at (in_use fl p) i (node_of (BL i l es))" and run: "leaf_run (in_use fl p) ((j, m, fs) # B)"
    using Cons.prems(2) by (auto simp: leaf_run_Cons b)
  obtain q where q: "read_node i p = Inr (node_of (BL i l es), q)" "calm fl p q" using read_node_ok [OF Cons.prems(1) at] by blast
  obtain stop where st: "scan_entries pre (drop idx es) = (filter (\<lambda>e. starts_with (fst e) pre) (drop idx es), stop)"
      "stop \<longrightarrow> filter (\<lambda>e. starts_with (fst e) pre) (lv_entries (b # B)) = []"
    using scan_entries_spec [of "drop idx es" "lv_entries (b # B)" pre] Cons.prems(3,4) by auto
  have step: "scan_loop pre i idx acc p = (if stop then Some (Inr (acc @ filter (\<lambda>e. starts_with (fst e) pre) (drop idx es), q))
      else scan_loop pre j 0 (acc @ filter (\<lambda>e. starts_with (fst e) pre) (drop idx es)) q)"
    unfolding scan_loop.simps [of pre i] q(1) using st(1) l by (simp add: zip_map_fst_snd)
  show ?case
  proof (cases stop)
    case True
    then show ?thesis using step st(2) q(2) by simp
  next
    case False
    have "\<exists>r. scan_loop pre j 0 (acc @ filter (\<lambda>e. starts_with (fst e) pre) (drop idx es)) q =
        Some (Inr ((acc @ filter (\<lambda>e. starts_with (fst e) pre) (drop idx es)) @ filter (\<lambda>e. starts_with (fst e) pre) (drop 0 fs @ lv_entries B), r)) \<and> calm fl q r"
      by (rule Cons.IH) (use q(2) run Cons.prems(3,4) in \<open>auto simp: calm_def b sorted_wrt_append\<close>)
    then show ?thesis using step False q(2) calm_trans by (auto simp: b)
  qed
qed

lemma count_loop_correct:
  assumes "pager_ok fl p" and "leaf_run (in_use fl p) ((i, l, es) # B)" and "ascending (map fst (drop idx es @ lv_entries B))"
    and "\<forall>e \<in> set (drop idx es @ lv_entries B). pre \<le> fst e"
  shows "\<exists>q. count_loop pre i idx n p = Some (Inr (n + length (filter (\<lambda>e. starts_with (fst e) pre) (drop idx es @ lv_entries B)), q)) \<and> calm fl p q"
  using assms
proof (induction B arbitrary: i l es idx n p)
  case Nil
  then have l: "l = 0" and at: "node_at (in_use fl p) i (node_of (BL i l es))" by (auto simp: leaf_run_Cons)
  obtain q where q: "read_node i p = Inr (node_of (BL i l es), q)" "calm fl p q" using read_node_ok [OF Nil(1) at] by blast
  obtain stop where "scan_entries pre (drop idx es) = (filter (\<lambda>e. starts_with (fst e) pre) (drop idx es), stop)"
    using scan_entries_spec [of "drop idx es" "[]" pre] Nil(3,4) by auto
  then show ?case using q count_scan [of pre "drop idx es"] unfolding count_loop.simps [of pre i] q(1) by (simp add: l drop_map)
next
  case (Cons b B)
  obtain j m fs where b: "b = (j, m, fs)" by (cases b)
  have l: "l = j" "j \<noteq> 0" and at: "node_at (in_use fl p) i (node_of (BL i l es))" and run: "leaf_run (in_use fl p) ((j, m, fs) # B)"
    using Cons.prems(2) by (auto simp: leaf_run_Cons b)
  obtain q where q: "read_node i p = Inr (node_of (BL i l es), q)" "calm fl p q" using read_node_ok [OF Cons.prems(1) at] by blast
  obtain stop where st: "scan_entries pre (drop idx es) = (filter (\<lambda>e. starts_with (fst e) pre) (drop idx es), stop)"
      "stop \<longrightarrow> filter (\<lambda>e. starts_with (fst e) pre) (lv_entries (b # B)) = []"
    using scan_entries_spec [of "drop idx es" "lv_entries (b # B)" pre] Cons.prems(3,4) by auto
  let ?n = "n + length (filter (\<lambda>e. starts_with (fst e) pre) (drop idx es))"
  have step: "count_loop pre i idx n p = (if stop then Some (Inr (?n, q)) else count_loop pre j 0 ?n q)"
    unfolding count_loop.simps [of pre i] q(1) using st(1) l count_scan [of pre "drop idx es"] by (simp add: drop_map)
  show ?case
  proof (cases stop)
    case True
    then show ?thesis using step st(2) q(2) by simp
  next
    case False
    have "\<exists>r. count_loop pre j 0 ?n q = Some (Inr (?n + length (filter (\<lambda>e. starts_with (fst e) pre) (drop 0 fs @ lv_entries B)), r)) \<and> calm fl q r"
      by (rule Cons.IH) (use q(2) run Cons.prems(3,4) in \<open>auto simp: calm_def b sorted_wrt_append\<close>)
    then show ?thesis using step False q(2) calm_trans by (auto simp: b add.assoc)
  qed
qed

lemma head_match:
  assumes "ascending (map fst (e # gs))" and "\<forall>x \<in> set (e # gs). pre \<le> fst x"
  shows "(\<exists>x \<in> set (e # gs). starts_with (fst x) pre) = starts_with (fst e) pre"
proof (cases "starts_with (fst e) pre")
  case False
  then have "filter (\<lambda>e. starts_with (fst e) pre) gs = []" using no_match_after [of pre "fst e" gs] assms by simp
  then show ?thesis using False unfolding filter_empty_conv by simp
qed simp

lemma exists_loop_correct:
  assumes "pager_ok fl p" and "leaf_run (in_use fl p) ((i, l, es) # B)" and "ascending (map fst (drop idx es @ lv_entries B))"
    and "\<forall>e \<in> set (drop idx es @ lv_entries B). pre \<le> fst e"
  shows "\<exists>q. exists_loop pre i idx p = Some (Inr (\<exists>e \<in> set (drop idx es @ lv_entries B). starts_with (fst e) pre, q)) \<and> calm fl p q"
  using assms
proof (induction B arbitrary: i l es idx p)
  case Nil
  then have l: "l = 0" and at: "node_at (in_use fl p) i (node_of (BL i l es))" by (auto simp: leaf_run_Cons)
  obtain q where q: "read_node i p = Inr (node_of (BL i l es), q)" "calm fl p q" using read_node_ok [OF Nil(1) at] by blast
  show ?case
  proof (cases "drop idx es")
    case Nil
    then show ?thesis using q l unfolding exists_loop.simps [of pre i] q(1) by simp
  next
    case (Cons e fs)
    then have ix: "idx < length es" "es ! idx = e" using drop_eq_Nil [of idx es] nth_via_drop [OF Cons] by (simp_all del: drop_eq_Nil)
    moreover have "(\<exists>x \<in> set (e # fs). starts_with (fst x) pre) = starts_with (fst e) pre"
      by (rule head_match) (use Nil(3,4) Cons in simp_all)
    ultimately show ?thesis using q Cons unfolding exists_loop.simps [of pre i] q(1) by simp
  qed
next
  case IH: (Cons b B)
  obtain j m fs where b: "b = (j, m, fs)" by (cases b)
  have l: "l = j" "j \<noteq> 0" and at: "node_at (in_use fl p) i (node_of (BL i l es))" and run: "leaf_run (in_use fl p) ((j, m, fs) # B)"
    using IH.prems(2) by (auto simp: leaf_run_Cons b)
  obtain q where q: "read_node i p = Inr (node_of (BL i l es), q)" "calm fl p q" using read_node_ok [OF IH.prems(1) at] by blast
  show ?case
  proof (cases "drop idx es")
    case Nil
    have "\<exists>r. exists_loop pre j 0 q = Some (Inr (\<exists>e \<in> set (drop 0 fs @ lv_entries B). starts_with (fst e) pre, r)) \<and> calm fl q r"
      by (rule IH.IH) (use q(2) run IH.prems(3,4) in \<open>auto simp: calm_def b sorted_wrt_append\<close>)
    moreover have "exists_loop pre i idx p = exists_loop pre j 0 q" using q l Nil unfolding exists_loop.simps [of pre i] q(1) by simp
    ultimately show ?thesis using q(2) calm_trans Nil by (auto simp: b)
  next
    case (Cons e gs)
    then have ix: "idx < length es" "es ! idx = e" using drop_eq_Nil [of idx es] nth_via_drop [OF Cons] by (simp_all del: drop_eq_Nil)
    moreover have "(\<exists>x \<in> set (drop idx es @ lv_entries (b # B)). starts_with (fst x) pre) = starts_with (fst e) pre"
      using head_match [of e "gs @ lv_entries (b # B)" pre] IH.prems(3,4) unfolding Cons append_Cons by blast
    moreover have "exists_loop pre i idx p = Some (Inr (starts_with (fst e) pre, q))" using ix unfolding exists_loop.simps [of pre i] q(1) by simp
    ultimately show ?thesis using q(2) by simp
  qed
qed

section \<open>A tree in a root slot\<close>

definition btree :: "PageId list \<Rightarrow> Pager \<Rightarrow> nat \<Rightarrow> bt option \<Rightarrow> bool" where
  "btree fl p slot ot \<longleftrightarrow> pager_ok fl p \<and> slot < length (roots p) \<and> (case ot of
     None \<Rightarrow> ucast (roots p ! slot) = (0 :: PageId)
   | Some t \<Rightarrow> ucast (roots p ! slot) = root_id t \<and> (\<exists>h. tree_ok (in_use fl p) h t) \<and> chain (leaves t) 0)"

definition bt_entries :: "bt option \<Rightarrow> (bytes \<times> bytes) list" where
  "bt_entries ot = (case ot of None \<Rightarrow> [] | Some t \<Rightarrow> entries t)"

definition bt_pages :: "bt option \<Rightarrow> PageId set" where
  "bt_pages ot = (case ot of None \<Rightarrow> {} | Some t \<Rightarrow> set (pages t))"

lemma in_use_0: "in_use fl p 0 = None"
  by (simp add: in_use_def view_def)

lemma root_nonzero: "tree_ok (in_use fl p) h t \<Longrightarrow> j \<in> set (pages t) \<Longrightarrow> j \<noteq> 0"
  using holds_used in_use_0 by (metis tree_ok_def)

lemma btree_calm: "btree fl p slot ot \<Longrightarrow> calm fl p q \<Longrightarrow> btree fl q slot ot"
  by (cases ot) (simp_all add: btree_def calm_def)

lemma entries_ascending: "tree_ok u h t \<Longrightarrow> ascending (map fst (entries t))"
proof -
  assume "tree_ok u h t"
  then have "ascending (toks t)" by (simp add: tree_ok_def)
  moreover have "map (\<lambda>e. (fst e, True)) (entries t) = filter snd (toks t)" for t
  proof (induction t rule: entries.induct)
    case (2 i ts)
    have "filter snd (sep_tok k) = []" for k by (cases k) simp_all
    then have "map (\<lambda>e. (fst e, True)) (fentries ts) = filter snd (ftoks ts)" using 2 by (induction ts) auto
    then show ?case by simp
  qed (simp add: comp_def)
  ultimately have "ascending (map (\<lambda>e. (fst e, True)) (entries t))" by (simp add: ascending_filter)
  then show ?thesis by (simp add: sorted_wrt_map less_prod_def)
qed

text \<open>From the found leaf on, the rest of the leaves is a run with all the keys from \<open>pre\<close> on.\<close>

lemma found_run:
  assumes "tree_ok (in_use fl p) h t" and "chain (leaves t) 0" and "lvs t = A @ (i, l, es) # B"
    and "\<forall>e \<in> set (lv_entries A). fst e < pre" and "\<forall>e \<in> set (lv_entries B). pre < fst e"
    and "idx = partition_point (\<lambda>k. k < pre) (map fst es)"
  shows "leaf_run (in_use fl p) ((i, l, es) # B)" "ascending (map fst (drop idx es @ lv_entries B))"
    "\<forall>e \<in> set (drop idx es @ lv_entries B). pre \<le> fst e" "\<forall>e \<in> set (lv_entries A @ take idx es). fst e < pre"
    "entries t = (lv_entries A @ take idx es) @ drop idx es @ lv_entries B"
proof -
  show e: "entries t = (lv_entries A @ take idx es) @ drop idx es @ lv_entries B"
    using lvs_entries [of t] assms(3) append_take_drop_id [of idx es] by (metis append_assoc lv_entries_simps(2,3))
  have asc: "ascending (map fst (entries t))" by (rule entries_ascending [OF assms(1)])
  show "ascending (map fst (drop idx es @ lv_entries B))" using asc unfolding e by (simp add: sorted_wrt_append)
  have es: "sorted (map fst es)" using asc unfolding lvs_entries [of t, symmetric] assms(3) by (simp add: sorted_wrt_append ascending_sorted)
  have "drop idx (map fst es) = filter (\<lambda>k. pre \<le> k) (map fst es)" using sorted_dropWhile_less [OF es] by (simp add: assms(6))
  then have "\<forall>k \<in> set (map fst (drop idx es)). pre \<le> k" by (simp add: drop_map)
  then show "\<forall>e \<in> set (drop idx es @ lv_entries B). pre \<le> fst e" using assms(5) by auto
  have "take idx (map fst es) = filter (\<lambda>k. k < pre) (map fst es)" using sorted_takeWhile_less [OF es] by (simp add: assms(6))
  then have "\<forall>k \<in> set (map fst (take idx es)). k < pre" by (simp add: take_map)
  then show "\<forall>e \<in> set (lv_entries A @ take idx es). fst e < pre" using assms(4) by auto
  have "node_at (in_use fl p) j (node_of (BL j m fs)) \<and> j \<noteq> 0" if "(j, m, fs) \<in> set ((i, l, es) # B)" for j m fs
    using lvs_at [of "in_use fl p" t j m fs] assms(1,3) that in_use_0 by (force simp: tree_ok_def node_at_def)
  moreover have "chain (map (\<lambda>(i, l, es). (i, l)) ((i, l, es) # B)) 0"
    using assms(2) unfolding lvs_leaves [symmetric] assms(3) map_append chain_append by blast
  ultimately show "leaf_run (in_use fl p) ((i, l, es) # B)" unfolding leaf_run_def by blast
qed

lemma no_match_before: "\<forall>e \<in> set es. fst e < pre \<Longrightarrow> filter (\<lambda>e. starts_with (fst e) pre) es = []"
  using starts_with_ge by (fastforce simp: filter_empty_conv)

lemma bt_root_btree:
  "btree fl p slot None \<Longrightarrow> bt_root slot p = Inr 0" "btree fl p slot (Some t) \<Longrightarrow> bt_root slot p = Inr (root_id t) \<and> root_id t \<noteq> 0"
  using root_nonzero root_in_pages by (fastforce simp: btree_def bt_root_def pager_root_def)+

lemma bt_get_correct:
  assumes "btree fl p slot ot"
  shows "\<exists>q. bt_get slot key p = Some (Inr (map_of (bt_entries ot) key, q)) \<and> calm fl p q"
proof (cases ot)
  case None
  then show ?thesis using assms bt_root_btree(1) [of fl p slot] calm_refl by (auto simp: bt_get_def bt_entries_def btree_def)
next
  case (Some t)
  then have ok: "pager_ok fl p" "\<exists>h. tree_ok (in_use fl p) h t" using assms by (auto simp: btree_def)
  then show ?thesis using get_loop_correct bt_root_btree(2) assms unfolding Some by (fastforce simp: bt_get_def bt_entries_def)
qed

text \<open>All scans start at the first leaf that may hold a match.\<close>

lemma find_leaf_ge_correct:
  assumes "btree fl p slot (Some t)"
  obtains q i l es B idx where "find_leaf_ge slot pre p = Some (Inr (Some (i, idx), q))" "calm fl p q" "pager_ok fl q"
    "leaf_run (in_use fl q) ((i, l, es) # B)" "ascending (map fst (drop idx es @ lv_entries B))"
    "\<forall>e \<in> set (drop idx es @ lv_entries B). pre \<le> fst e"
    "filter (\<lambda>e. starts_with (fst e) pre) (entries t) = filter (\<lambda>e. starts_with (fst e) pre) (drop idx es @ lv_entries B)"
proof -
  obtain h where ok: "pager_ok fl p" "tree_ok (in_use fl p) h t" "chain (leaves t) 0" using assms by (auto simp: btree_def)
  obtain q A i l es B where f: "find_leaf_loop pre (root_id t) p = Some (Inr ((i, partition_point (\<lambda>k. k < pre) (map fst es)), q))" "calm fl p q"
      "lvs t = A @ (i, l, es) # B" "\<forall>e \<in> set (lv_entries A). fst e < pre" "\<forall>e \<in> set (lv_entries B). pre < fst e"
    using find_leaf_correct [OF ok(1,2)] by blast
  let ?idx = "partition_point (\<lambda>k. k < pre) (map fst es)"
  note run = found_run [OF ok(2,3) f(3-5) refl]
  have q: "pager_ok fl q" "in_use fl q = in_use fl p" using f(2) by (simp_all add: calm_def)
  have "find_leaf_ge slot pre p = Some (Inr (Some (i, ?idx), q))"
    using bt_root_btree(2) [OF assms] f(1) by (simp add: find_leaf_ge_def)
  moreover have "filter (\<lambda>e. starts_with (fst e) pre) (entries t) = filter (\<lambda>e. starts_with (fst e) pre) (drop ?idx es @ lv_entries B)"
    using no_match_before [OF run(4)] unfolding run(5) by (simp only: filter_append append_Nil)
  ultimately show thesis using that f(2) q run(1-3) by metis
qed

lemma scan_prefix_correct:
  assumes "btree fl p slot ot"
  shows "\<exists>q. scan_prefix slot pre p = Some (Inr (filter (\<lambda>e. starts_with (fst e) pre) (bt_entries ot), q)) \<and> calm fl p q"
proof (cases ot)
  case None
  then show ?thesis using assms bt_root_btree(1) [of fl p slot] calm_refl by (auto simp: scan_prefix_def find_leaf_ge_def bt_entries_def btree_def)
next
  case (Some t)
  obtain q i l es B idx where
    f: "find_leaf_ge slot pre p = Some (Inr (Some (i, idx), q))" "calm fl p q" "pager_ok fl q"
      "leaf_run (in_use fl q) ((i, l, es) # B)" "ascending (map fst (drop idx es @ lv_entries B))" "\<forall>e \<in> set (drop idx es @ lv_entries B). pre \<le> fst e"
      "filter (\<lambda>e. starts_with (fst e) pre) (entries t) = filter (\<lambda>e. starts_with (fst e) pre) (drop idx es @ lv_entries B)" by (rule find_leaf_ge_correct [OF assms [unfolded Some]])
  obtain r where r: "calm fl q r" "scan_loop pre i idx [] q = Some (Inr (filter (\<lambda>e. starts_with (fst e) pre) (drop idx es @ lv_entries B), r))"
    using scan_loop_correct [OF f(3-6), of "[]"] by auto
  show ?thesis using r(2) f(1,7) calm_trans [OF f(2) r(1)] by (simp add: scan_prefix_def bt_entries_def Some)
qed

lemma count_prefix_correct:
  assumes "btree fl p slot ot"
  shows "\<exists>q. count_prefix slot pre p = Some (Inr (length (filter (\<lambda>e. starts_with (fst e) pre) (bt_entries ot)), q)) \<and> calm fl p q"
proof (cases ot)
  case None
  then show ?thesis using assms bt_root_btree(1) [of fl p slot] calm_refl by (auto simp: count_prefix_def find_leaf_ge_def bt_entries_def btree_def)
next
  case (Some t)
  obtain q i l es B idx where
    f: "find_leaf_ge slot pre p = Some (Inr (Some (i, idx), q))" "calm fl p q" "pager_ok fl q"
      "leaf_run (in_use fl q) ((i, l, es) # B)" "ascending (map fst (drop idx es @ lv_entries B))" "\<forall>e \<in> set (drop idx es @ lv_entries B). pre \<le> fst e"
      "filter (\<lambda>e. starts_with (fst e) pre) (entries t) = filter (\<lambda>e. starts_with (fst e) pre) (drop idx es @ lv_entries B)" by (rule find_leaf_ge_correct [OF assms [unfolded Some]])
  obtain r where r: "calm fl q r" "count_loop pre i idx 0 q = Some (Inr (length (filter (\<lambda>e. starts_with (fst e) pre) (drop idx es @ lv_entries B)), r))"
    using count_loop_correct [OF f(3-6), of 0] by auto
  show ?thesis using r(2) f(1,7) calm_trans [OF f(2) r(1)] by (simp add: count_prefix_def bt_entries_def Some)
qed

lemma prefix_exists_correct:
  assumes "btree fl p slot ot"
  shows "\<exists>q. prefix_exists slot pre p = Some (Inr (\<exists>e \<in> set (bt_entries ot). starts_with (fst e) pre, q)) \<and> calm fl p q"
proof (cases ot)
  case None
  then show ?thesis using assms bt_root_btree(1) [of fl p slot] calm_refl by (auto simp: prefix_exists_def find_leaf_ge_def bt_entries_def btree_def)
next
  case (Some t)
  obtain q i l es B idx where
    f: "find_leaf_ge slot pre p = Some (Inr (Some (i, idx), q))" "calm fl p q" "pager_ok fl q"
      "leaf_run (in_use fl q) ((i, l, es) # B)" "ascending (map fst (drop idx es @ lv_entries B))" "\<forall>e \<in> set (drop idx es @ lv_entries B). pre \<le> fst e"
      "filter (\<lambda>e. starts_with (fst e) pre) (entries t) = filter (\<lambda>e. starts_with (fst e) pre) (drop idx es @ lv_entries B)" by (rule find_leaf_ge_correct [OF assms [unfolded Some]])
  have "(\<exists>e \<in> set (drop idx es @ lv_entries B). starts_with (fst e) pre) = (\<exists>e \<in> set (entries t). starts_with (fst e) pre)"
    using f(7) unfolding filter_empty_conv [symmetric] by (metis (mono_tags, lifting) filter_empty_conv)
  moreover obtain r where r: "calm fl q r" "exists_loop pre i idx q = Some (Inr (\<exists>e \<in> set (drop idx es @ lv_entries B). starts_with (fst e) pre, r))"
    using exists_loop_correct [OF f(3-6)] by auto
  ultimately show ?thesis using f(1) calm_trans [OF f(2) r(1)] by (simp add: prefix_exists_def bt_entries_def Some)
qed

end
