(* ===== verification/BpInsert.thy ===== *)
theory BpInsert
  imports BpRep
begin

text \<open>
  Insertion into the B+ tree: a subtree becomes a forest of one or two trees of the same height, and a forest takes the place of a
  child in its parent. The result is right whenever the operation returns, and it returns when entries are small enough for the split by
  count to give halves that fit their pages.
\<close>

section \<open>Replacing a child by a forest\<close>

definition within :: "bytes \<Rightarrow> (bytes \<times> bool) list \<Rightarrow> (bytes \<times> bool) list \<Rightarrow> bool" where
  "within key X Y \<longleftrightarrow> (\<forall>y \<in> set Y. (\<exists>x \<in> insert (key, True) (set X). x \<le> y) \<and> (\<exists>x \<in> insert (key, True) (set X). y \<le> x))"

definition fok :: "(PageId \<Rightarrow> page option) \<Rightarrow> nat \<Rightarrow> forest \<Rightarrow> bool" where
  "fok u h ts \<longleftrightarrow> (\<forall>x \<in> set ts. holds u (snd x) \<and> bal h (snd x)) \<and> distinct (fpages ts) \<and> ascending (ftoks ts)"

text \<open>\<open>ts'\<close> in \<open>u'\<close> takes the place of \<open>ts\<close> in \<open>u\<close>: it uses pages of \<open>ts\<close> and unused ones, leaves all others alone, and
  fits into the same place in the order of keys and in the chain of leaves.\<close>

definition fchg :: "(PageId \<Rightarrow> page option) \<Rightarrow> (PageId \<Rightarrow> page option) \<Rightarrow> bytes \<Rightarrow> forest \<Rightarrow> forest \<Rightarrow> bool" where
  "fchg u u' key ts ts' \<longleftrightarrow> set (fpages ts') \<subseteq> set (fpages ts) \<union> {j. u j = None} \<and>
     (\<forall>j. u j \<noteq> None \<longrightarrow> j \<notin> set (fpages ts) \<longrightarrow> u' j = u j) \<and>
     within key (ftoks ts) (ftoks ts') \<and> fst ` set (ftoks ts') \<subseteq> insert key (fst ` set (ftoks ts)) \<and>
     (\<forall>nx. chain (fleaves ts) nx \<longrightarrow> chain (fleaves ts') nx) \<and> (\<forall>nx. first (fleaves ts') nx = first (fleaves ts) nx)"

lemma fchgD:
  assumes "fchg u u' key ts ts'"
  shows "set (fpages ts') \<subseteq> set (fpages ts) \<union> {j. u j = None}" "u j \<noteq> None \<Longrightarrow> j \<notin> set (fpages ts) \<Longrightarrow> u' j = u j"
    "within key (ftoks ts) (ftoks ts')" "fst ` set (ftoks ts') \<subseteq> insert key (fst ` set (ftoks ts))"
    "chain (fleaves ts) nx \<Longrightarrow> chain (fleaves ts') nx" "first (fleaves ts') nx = first (fleaves ts) nx"
  using assms by (simp_all add: fchg_def)

lemma within_refl: "within key X X"
  by (auto simp: within_def)

lemma within_lower: "within key X Y \<Longrightarrow> \<forall>x \<in> insert (key, True) (set X). z < x \<Longrightarrow> y \<in> set Y \<Longrightarrow> z < y"
proof -
  assume w: "within key X Y" and z: "\<forall>x \<in> insert (key, True) (set X). z < x" and "y \<in> set Y"
  then obtain x where "x \<in> insert (key, True) (set X)" "x \<le> y" unfolding within_def by blast
  then show ?thesis using z order.strict_trans2 by blast
qed

lemma within_upper: "within key X Y \<Longrightarrow> \<forall>x \<in> insert (key, True) (set X). x < z \<Longrightarrow> y \<in> set Y \<Longrightarrow> y < z"
proof -
  assume w: "within key X Y" and z: "\<forall>x \<in> insert (key, True) (set X). x < z" and "y \<in> set Y"
  then obtain x where "x \<in> insert (key, True) (set X)" "y \<le> x" unfolding within_def by blast
  then show ?thesis using z order.strict_trans1 by blast
qed

lemma within_ctx: "within key X Y \<Longrightarrow> within key (a @ X @ b) (a @ Y @ b)"
  unfolding within_def by (auto simp del: less_eq_prod_simp)

lemma within_sep:
  assumes "set A \<union> set B \<subseteq> insert (key, True) (set X)" "x \<in> insert (key, True) (set X)" "x < s" "y \<in> insert (key, True) (set X)" "s < y"
  shows "within key X (A @ s # B)"
  unfolding within_def
proof
  fix z assume "z \<in> set (A @ s # B)"
  then consider "z = s" | "z \<in> insert (key, True) (set X)" using assms(1) by auto
  then show "(\<exists>x \<in> insert (key, True) (set X). x \<le> z) \<and> (\<exists>x \<in> insert (key, True) (set X). z \<le> x)"
  proof cases
    case 1
    then show ?thesis using assms(2-5) order.strict_implies_order by metis
  next
    case 2
    then show ?thesis using order_refl by metis
  qed
qed

lemma ascending_subst:
  assumes "ascending (a @ X @ b)" and "ascending Y" and "within key X Y"
    and "\<forall>x \<in> set a. x < (key, True)" and "\<forall>x \<in> set b. (key, True) < x"
  shows "ascending (a @ Y @ b)"
proof -
  have s: "ascending a" "ascending b" "\<forall>x \<in> set a. \<forall>y \<in> set X \<union> set b. x < y" "\<forall>x \<in> set X. \<forall>y \<in> set b. x < y"
    using assms(1) by (auto simp: sorted_wrt_append simp del: less_prod_simp)
  have "\<forall>x \<in> set a. \<forall>y \<in> set Y. x < y"
  proof (intro ballI)
    fix x y assume "x \<in> set a" "y \<in> set Y"
    then show "x < y" using within_lower [OF assms(3), of x y] s(3) assms(4) by (simp del: less_prod_simp)
  qed
  moreover have "\<forall>y \<in> set Y. \<forall>z \<in> set b. y < z"
  proof (intro ballI)
    fix y z assume "y \<in> set Y" "z \<in> set b"
    then show "y < z" using within_upper [OF assms(3), of z y] s(4) assms(5) by (simp del: less_prod_simp)
  qed
  ultimately show ?thesis using s(1-3) assms(2) by (auto simp: sorted_wrt_append simp del: less_prod_simp)
qed

lemma ftoks_rekey: "ftoks ((ko, c) # rest) = sep_tok ko @ ftoks ((None, c) # rest)"
  by simp

lemma fok_holds: "fok u h ts \<Longrightarrow> x \<in> set ts \<Longrightarrow> holds u (snd x)"
  by (simp add: fok_def)

lemma fok_used: "fok u h ts \<Longrightarrow> j \<in> set (fpages ts) \<Longrightarrow> u j \<noteq> None"
  using holds_used by (fastforce simp: fok_def fpages_def)

lemma fsubst_run:
  assumes ok: "fok u h (a @ (ko, c) # cs @ b)" and ok': "fok u' h ((None, c') # rest)" and chg: "fchg u u' key ((None, c) # cs) ((None, c') # rest)"
    and lo: "\<forall>x \<in> set (ftoks a) \<union> set (sep_tok ko). x < (key, True)" and hi: "\<forall>x \<in> set (ftoks b). (key, True) < x"
  shows "fok u' h (a @ (ko, c') # rest @ b)" "fchg u u' key (a @ (ko, c) # cs @ b) (a @ (ko, c') # rest @ b)"
proof -
  note D = fchgD [OF chg]
  let ?ts = "a @ (ko, c) # cs @ b" and ?ts' = "a @ (ko, c') # rest @ b"
  have dis: "distinct (fpages a @ (pages c @ fpages cs) @ fpages b)" using ok by (simp add: fok_def)
  have out: "j \<notin> set (pages c @ fpages cs)" if "j \<in> set (fpages a) \<union> set (fpages b)" for j using dis that by auto
  have used: "u j \<noteq> None" if "j \<in> set (fpages a) \<union> set (fpages b)" for j using fok_used [OF ok, of j] that by auto
  have keep: "u' j = u j" if "j \<in> set (fpages a) \<union> set (fpages b)" for j using D(2) [of j] out used that by simp
  have h: "holds u' (snd x)" if "x \<in> set a \<union> set b" for x
  proof (rule holds_mono [of u])
    show "holds u (snd x)" using fok_holds [OF ok, of x] that by auto
    show "u' j = u j" if "j \<in> set (pages (snd x))" for j using keep [of j] mem_fpages [of x a j] mem_fpages [of x b j] that \<open>x \<in> set a \<union> set b\<close> by blast
  qed
  have pg: "set (pages c' @ fpages rest) \<subseteq> set (pages c @ fpages cs) \<union> {j. u j = None}" using D(1) by simp
  have sep: "(set (fpages a) \<union> set (fpages b)) \<inter> set (pages c' @ fpages rest) = {}" using pg out used by blast
  have "distinct (pages c' @ fpages rest)" using ok' by (simp add: fok_def)
  then have "distinct (fpages ?ts')" using dis sep by auto
  moreover have asc: "ascending ((ftoks a @ sep_tok ko) @ ftoks ((None, c') # rest) @ ftoks b)"
    by (rule ascending_subst [of _ "toks c @ ftoks cs"]) (use ok ok' D(3) lo hi in \<open>auto simp: fok_def simp del: less_prod_simp\<close>)
  ultimately show "fok u' h ?ts'" using ok ok' h by (auto simp: fok_def)
  have "within key (ftoks ?ts) (ftoks ?ts')" using within_ctx [OF D(3), of "ftoks a @ sep_tok ko" "ftoks b"] by simp
  moreover have "chain (fleaves ?ts') nx" if "chain (fleaves ?ts) nx" for nx
    using that D(5) [of "first (fleaves b) nx"] D(6) [of "first (fleaves b) nx"] by (simp add: chain_append first_append)
  moreover have "first (fleaves ?ts') nx = first (fleaves ?ts) nx" for nx
    using D(6) [of "first (fleaves b) nx"] by (simp add: first_append)
  moreover have "\<forall>j. u j \<noteq> None \<longrightarrow> j \<notin> set (fpages ?ts) \<longrightarrow> u' j = u j" using D(2) by simp
  ultimately show "fchg u u' key ?ts ?ts'" using pg D(4) by (auto simp: fchg_def)
qed

lemmas fsubst = fsubst_run [of _ _ _ _ _ "[]", unfolded append_Nil]

text \<open>An operation on entries that only depends on those near the key.\<close>

definition local_op :: "bytes \<Rightarrow> ((bytes \<times> bytes) list \<Rightarrow> (bytes \<times> bytes) list) \<Rightarrow> bool" where
  "local_op key f \<longleftrightarrow> (\<forall>A C B. (\<forall>e \<in> set A. fst e < key) \<longrightarrow> (\<forall>e \<in> set B. key < fst e) \<longrightarrow> f (A @ C @ B) = A @ f C @ B)"

lemma local_insert: "local_op key (bm_insert key val)"
proof -
  have "(\<forall>e \<in> set A. fst e < key) \<Longrightarrow> bm_insert key val (A @ M) = A @ bm_insert key val M" for A M by (induction A) auto
  moreover have "(\<forall>e \<in> set B. key < fst e) \<Longrightarrow> bm_insert key val (C @ B) = bm_insert key val C @ B" for C B
  proof (induction C)
    case Nil
    then show ?case by (cases B) auto
  qed auto
  ultimately show ?thesis by (simp add: local_op_def)
qed

lemma local_remove: "local_op key (bm_remove key)"
proof -
  have "(\<forall>e \<in> set A. fst e < key) \<Longrightarrow> filter (\<lambda>e. fst e \<noteq> key) A = A" "(\<forall>e \<in> set A. key < fst e) \<Longrightarrow> filter (\<lambda>e. fst e \<noteq> key) A = A"
    for A :: "(bytes \<times> bytes) list" by (auto simp: filter_id_conv)
  then show ?thesis by (simp add: local_op_def bm_remove_def)
qed

lemma local_op_forest:
  assumes "local_op key f" "\<forall>x \<in> set (ftoks a). x < (key, True)" "\<forall>x \<in> set (ftoks b). (key, True) < x" "fentries ((None, c') # rest) = f (entries c)"
  shows "fentries (a @ (ko, c') # rest @ b) = f (fentries (a @ (ko, c) # b))"
proof -
  have "\<forall>e \<in> set (fentries a). fst e < key" "\<forall>e \<in> set (fentries b). key < fst e" using assms(2,3) by (auto dest!: fentry_tok)
  then show ?thesis using assms(1,4) by (simp add: local_op_def)
qed

section \<open>Writing one or two nodes\<close>

abbreviation fits :: "Node \<Rightarrow> bool" where
  "fits nd \<equiv> node_size nd \<le> PAGE_SIZE"

definition room :: "nat \<Rightarrow> Pager \<Rightarrow> bool" where
  "room n p \<longleftrightarrow> unat (page_count p) + n < 2 ^ 32"

lemma room_alloc: "room (Suc n) p \<Longrightarrow> alloc_room p"
  by (simp add: room_def alloc_room_def)

lemma room_mono: "room n p \<Longrightarrow> unat (page_count q) \<le> k + unat (page_count p) \<Longrightarrow> m + k \<le> n \<Longrightarrow> room m q"
  by (simp add: room_def)

text \<open>\<open>moved u u' n\<close>: nodes \<open>n\<close> are written, all other pages are as before.\<close>

definition written :: "(PageId \<Rightarrow> page option) \<Rightarrow> (PageId \<Rightarrow> page option) \<Rightarrow> (PageId \<times> Node) list \<Rightarrow> bool" where
  "written u u' ns \<longleftrightarrow> (\<forall>(i, nd) \<in> set ns. node_at u' i nd) \<and> (\<forall>j. j \<notin> fst ` set ns \<longrightarrow> u' j = u j)"

lemma write_one:
  assumes "pager_ok fl p" "in_use fl p i \<noteq> None" "parallel nd" "fits nd"
  shows "\<exists>q. write_node i nd p = Inr q \<and> pager_ok fl q \<and> written (in_use fl p) (in_use fl q) [(i, nd)] \<and> roots q = roots p \<and> page_count q = page_count p"
  using write_node_ok [OF assms] assms(4) by (auto simp: written_def node_at_def)

lemma write_two:
  assumes "pager_ok fl p" "in_use fl p i \<noteq> None" "in_use fl p j \<noteq> None" "i \<noteq> j" "parallel nd" "fits nd" "parallel nd'" "fits nd'"
  shows "\<exists>q r. write_node i nd p = Inr q \<and> write_node j nd' q = Inr r \<and> pager_ok fl r \<and> written (in_use fl p) (in_use fl r) [(i, nd), (j, nd')] \<and>
    roots r = roots p \<and> page_count r = page_count p"
proof -
  obtain q where q: "write_node i nd p = Inr q" "pager_ok fl q" "written (in_use fl p) (in_use fl q) [(i, nd)]" "roots q = roots p" "page_count q = page_count p"
    using write_one [OF assms(1,2,5,6)] by blast
  have "in_use fl q j \<noteq> None" using q(3) assms(3,4) by (auto simp: written_def)
  then obtain r where r: "write_node j nd' q = Inr r" "pager_ok fl r" "written (in_use fl q) (in_use fl r) [(j, nd')]" "roots r = roots q" "page_count r = page_count q"
    using write_one [OF q(2) _ assms(7,8)] by blast
  have "written (in_use fl p) (in_use fl r) [(i, nd), (j, nd')]" using q(3) r(3) assms(4) by (auto simp: written_def node_at_def)
  then show ?thesis using q r by auto
qed

text \<open>The common part of the two splits.\<close>

definition split_write :: "(PageId \<Rightarrow> Node) \<Rightarrow> (PageId \<Rightarrow> Node) \<Rightarrow> bytes \<Rightarrow> PageId \<Rightarrow> Pager \<Rightarrow> fault + Split \<times> Pager" where
  "split_write L R sep page p = res_bind (lift_err (alloc p)) (\<lambda>(right_id, p1).
     res_bind (write_node right_id (R right_id) p1) (\<lambda>p2. res_bind (write_node page (L right_id) p2) (\<lambda>p3. Inr (Some (sep, right_id), p3))))"

lemma split_write_cases:
  assumes "pager_ok fl p" and "in_use fl p i \<noteq> None" and "\<And>j. parallel (L j)" "\<And>j. parallel (R j)"
    and "\<And>j. node_size (L j) = l" "\<And>j. node_size (R j) = r"
  obtains (fail) e where "split_write L R sep i p = Inl e" "\<not> (alloc_room p \<and> l \<le> PAGE_SIZE \<and> r \<le> PAGE_SIZE)"
  | (ok) j q fl' where "split_write L R sep i p = Inr (Some (sep, j), q)" "pager_ok fl' q" "in_use fl p j = None" "j \<noteq> 0"
    "written (in_use fl p) (in_use fl' q) [(j, R j), (i, L j)]" "roots q = roots p" "unat (page_count q) \<le> Suc (unat (page_count p))"
proof (cases "alloc_room p")
  case False
  then obtain e where "alloc p = Inl e" using alloc_full by blast
  then show thesis using False by (intro fail) (auto simp: split_write_def lift_err_def)
next
  case True
  obtain j p1 fl' where a: "alloc p = Inr (j, p1)" "pager_ok fl' p1" "in_use fl p j = None" "in_use fl' p1 = (in_use fl p)(j \<mapsto> zero_page)"
    "j \<noteq> 0" "roots p1 = roots p" "unat (page_count p1) \<le> Suc (unat (page_count p))" using alloc_page [OF assms(1) True] by blast
  have ij: "j \<noteq> i" "in_use fl' p1 j \<noteq> None" "in_use fl' p1 i \<noteq> None" using a(3,4) assms(2) by auto
  show thesis
  proof (cases "r \<le> PAGE_SIZE")
    case False
    then have "write_node j (R j) p1 = Inl Panic" using write_node_panic assms(4,6) by simp
    then show thesis using a(1) False by (intro fail) (auto simp: split_write_def lift_err_def)
  next
    case r: True
    show thesis
    proof (cases "l \<le> PAGE_SIZE")
      case False
      obtain p2 where "write_node j (R j) p1 = Inr p2" using write_one [OF a(2) ij(2) assms(4)] r assms(6) by metis
      moreover have "write_node i (L j) p2 = Inl Panic" using write_node_panic assms(3,5) False by simp
      ultimately show thesis using a(1) False by (intro fail) (auto simp: split_write_def lift_err_def)
    next
      case True
      obtain p2 p3 where w: "write_node j (R j) p1 = Inr p2" "write_node i (L j) p2 = Inr p3" "pager_ok fl' p3"
        "written (in_use fl' p1) (in_use fl' p3) [(j, R j), (i, L j)]" "roots p3 = roots p1" "page_count p3 = page_count p1"
        using write_two [OF a(2) ij(2,3,1) assms(4) _ assms(3)] r True assms(5,6) by metis
      have "written (in_use fl p) (in_use fl' p3) [(j, R j), (i, L j)]" using w(4) a(4) by (auto simp: written_def)
      moreover have "split_write L R sep i p = Inr (Some (sep, j), p3)" using a(1) w(1,2) by (simp add: split_write_def lift_err_def)
      ultimately show thesis using a(3,5-7) w(3,5,6) by (intro ok [of j p3 fl']) simp_all
    qed
  qed
qed

section \<open>Leaves\<close>

lemma leaf_put_node:
  assumes "ascending (map fst es)"
  shows "leaf_put key val (node_of (BL i l es)) = node_of (BL i l (bm_insert key val es))"
  using assms
proof (cases rule: binary_search_cases [of _ key])
  case (found ls rs)
  then obtain A e B where es: "es = A @ e # B" "map fst A = ls" "fst e = key" "map fst B = rs" using found(2) by (auto simp: map_eq_append_conv map_eq_Cons_conv)
  have "\<forall>e \<in> set A. fst e < key" "\<forall>e \<in> set B. key < fst e" using found(3,4) by (simp_all add: es(2,4) [symmetric])
  then have "bm_insert key val (A @ [e] @ B) = A @ bm_insert key val [e] @ B" using local_insert unfolding local_op_def by blast
  then have "bm_insert key val es = A @ (key, val) # B" using es by simp
  moreover have "(map snd es)[length ls := val] = map snd (A @ (key, val) # B)" using es by (auto simp: list_update_append)
  ultimately show ?thesis using found(1) es by (simp add: leaf_put_def)
next
  case (absent ls rs)
  then obtain A B where es: "es = A @ B" "map fst A = ls" "map fst B = rs" using absent(2) by (auto simp: map_eq_append_conv)
  have "\<forall>e \<in> set A. fst e < key" "\<forall>e \<in> set B. key < fst e" using absent(3,4) by (simp_all add: es(2,3) [symmetric])
  then have "bm_insert key val (A @ [] @ B) = A @ bm_insert key val [] @ B" using local_insert unfolding local_op_def by blast
  then have "bm_insert key val es = A @ (key, val) # B" using es by simp
  then show ?thesis using absent(1) es by (auto simp: leaf_put_def vec_insert_def)
qed

lemma toks_insert: "set (toks (BL i l (bm_insert key val es))) = insert (key, True) (set (toks (BL i l es)))"
proof -
  have t: "set (toks (BL i l fs)) = (\<lambda>k. (k, True)) ` fst ` set fs" for fs by (simp add: image_image)
  show ?thesis unfolding t by (simp add: bm_keys_insert)
qed

definition esz :: "bytes \<times> bytes \<Rightarrow> nat" where
  "esz e = 4 + length (fst e) + length (snd e)"

lemma leaf_size: "node_size (node_of (BL i l es)) = 7 + sum_list (map esz es)"
proof -
  have "sum_list (map (\<lambda>(k, v). 2 + length k + (2 + length v)) es) = sum_list (map esz es)"
    by (rule arg_cong [where f = sum_list]) (simp add: esz_def case_prod_beta)
  then show ?thesis by (simp add: node_size_def zip_map_fst_snd)
qed

definition split_of :: "forest \<Rightarrow> Split \<Rightarrow> bool" where
  "split_of rest s \<longleftrightarrow> (case s of None \<Rightarrow> rest = [] | Some (sep, i) \<Rightarrow> \<exists>r. rest = [(Some sep, r)] \<and> root_id r = i)"

text \<open>The subtree \<open>t\<close> of height \<open>h\<close> has become a forest with the entries \<open>f (entries t)\<close>.\<close>

definition ins_ok :: "PageId list \<Rightarrow> Pager \<Rightarrow> nat \<Rightarrow> bt \<Rightarrow> ((bytes \<times> bytes) list \<Rightarrow> (bytes \<times> bytes) list) \<Rightarrow> bytes \<Rightarrow> Split \<Rightarrow> Pager \<Rightarrow> bool" where
  "ins_ok fl p h t f key s q \<longleftrightarrow> (\<exists>fl' c' rest. pager_ok fl' q \<and> roots q = roots p \<and> unat (page_count q) \<le> Suc h + unat (page_count p) \<and>
     root_id c' = root_id t \<and> fok (in_use fl' q) h ((None, c') # rest) \<and> fchg (in_use fl p) (in_use fl' q) key [(None, t)] ((None, c') # rest) \<and>
     fentries ((None, c') # rest) = f (entries t) \<and> split_of rest s)"

lemma one_leaf:
  assumes w: "written u u' [(i, node_of (BL i l es'))]" and asc: "ascending (map fst es')"
    and toks: "set (toks (BL i l es')) \<subseteq> insert (key, True) (set (toks (BL i l es)))"
  shows "fok u' 0 [(None, BL i l es')]" "fchg u u' key [(None, BL i l es)] [(None, BL i l es')]"
proof -
  show "fok u' 0 [(None, BL i l es')]" using w asc ascending_keys [of i l es'] by (auto simp: fok_def written_def)
  have "within key (toks (BL i l es)) (toks (BL i l es'))" using toks unfolding within_def by blast
  moreover have "fst ` set (toks (BL i l es')) \<subseteq> insert key (fst ` set (toks (BL i l es)))" using image_mono [OF toks, of fst] by simp
  ultimately show "fchg u u' key [(None, BL i l es)] [(None, BL i l es')]" using w by (auto simp: fchg_def written_def)
qed

lemma two_leaves:
  assumes w: "written u u' [(j, node_of (BL j l (drop m es'))), (i, node_of (BL i j (take m es')))]" and j: "u j = None" "u i \<noteq> None"
    and asc: "ascending (map fst es')" and m: "0 < m" "m < length es'" and sep: "sep = fst (es' ! m)"
    and toks: "set (toks (BL i l es')) \<subseteq> insert (key, True) (set (toks (BL i l es)))"
  shows "fok u' 0 [(None, BL i j (take m es')), (Some sep, BL j l (drop m es'))]"
    "fchg u u' key [(None, BL i l es)] [(None, BL i j (take m es')), (Some sep, BL j l (drop m es'))]"
proof -
  let ?a = "take m es'" and ?b = "drop m es'" and ?T = "\<lambda>es :: (bytes \<times> bytes) list. map (\<lambda>e. (fst e, True)) es"
  have ij: "i \<noteq> j" using j by auto
  obtain e b where b: "?b = e # b" "fst e = sep" using m(2) sep by (metis Cons_nth_drop_Suc)
  have s: "ascending (map fst ?a)" "ascending (map fst ?b)" "\<forall>x \<in> set ?a. \<forall>y \<in> set ?b. fst x < fst y"
    using asc sorted_wrt_append [of "(<)" "map fst ?a" "map fst ?b"] by (simp_all flip: map_append)
  have tk: "ascending (?T ?a @ (sep, False) # ?T ?b)"
  proof -
    have "ascending (?T ?a)" "ascending (?T ?b)" using s(1,2) by (simp_all add: sorted_wrt_map less_prod_def)
    moreover have "\<forall>x \<in> set ?a. fst x < sep" using s(3) b by auto
    moreover have "\<forall>y \<in> set ?b. sep \<le> fst y" using s(2) b by auto
    ultimately show ?thesis using s(3) by (auto simp: sorted_wrt_append less_prod_def)
  qed
  then show "fok u' 0 [(None, BL i j ?a), (Some sep, BL j l ?b)]" using w ij by (auto simp: fok_def written_def)
  have keep: "u' k = u k" if "u k \<noteq> None" "k \<noteq> i" for k
  proof -
    have "k \<noteq> j" using that(1) j(1) by auto
    then show ?thesis using w that(2) by (simp add: written_def)
  qed
  have T: "set (?T ?a @ ?T ?b) \<subseteq> insert (key, True) (set (?T es))" using toks by (simp flip: map_append)
  obtain x where x: "x \<in> set ?a" using m by (cases ?a) auto
  have "(fst x, True) < (sep, False)" using s(3) x b by (auto simp: less_prod_def)
  moreover have "(sep, False) < (sep, True)" by (simp add: less_prod_def)
  moreover have "(fst x, True) \<in> insert (key, True) (set (?T es))" "(sep, True) \<in> insert (key, True) (set (?T es))"
    using T x b by (auto simp: subset_iff)
  moreover have "set (?T ?a) \<union> set (?T ?b) \<subseteq> insert (key, True) (set (?T es))" using T by simp
  ultimately have "within key (?T es) (?T ?a @ (sep, False) # ?T ?b)" by (intro within_sep)
  moreover have "fst ` set (?T ?a @ (sep, False) # ?T ?b) \<subseteq> insert key (fst ` set (?T es))"
    using image_mono [OF T, of fst] b by auto
  ultimately show "fchg u u' key [(None, BL i l es)] [(None, BL i j ?a), (Some sep, BL j l ?b)]"
    using j(1) keep by (simp add: fchg_def)
qed

text \<open>The two halves of an overfull leaf fit their pages.\<close>

definition halves_fit :: "(bytes \<times> bytes) list \<Rightarrow> bool" where
  "halves_fit es \<longleftrightarrow> (let m = length es div 2 in 7 + sum_list (map esz (take m es)) \<le> PAGE_SIZE \<and> 7 + sum_list (map esz (drop m es)) \<le> PAGE_SIZE)"

lemma insert_leaf_spec:
  assumes pk: "pager_ok fl p" and tr: "tree_ok (in_use fl p) 0 (BL i l es)" and sz: "7 + 2 + length key + 2 + length val \<le> PAGE_SIZE"
  obtains (fail) e where "insert_leaf i key val (node_of (BL i l es)) p = Inl e"
      "\<not> (alloc_room p \<and> halves_fit (bm_insert key val es))"
  | (ok) s q where "insert_leaf i key val (node_of (BL i l es)) p = Inr (s, q)" "ins_ok fl p 0 (BL i l es) (bm_insert key val) key s q"
proof -
  let ?es = "bm_insert key val es" and ?t = "BL i l es"
  have asc0: "ascending (map fst es)" using tr ascending_keys by (simp add: tree_ok_def)
  then have asc: "ascending (map fst ?es)" using bm_wf_insert [of es key val] by (simp add: bm_wf_def)
  have used: "in_use fl p i \<noteq> None" using tr by (auto simp: tree_ok_def node_at_def)
  have tk: "set (toks (BL i l ?es)) \<subseteq> insert (key, True) (set (toks (BL i l es)))" by (simp only: toks_insert)
  have put: "leaf_put key val (node_of ?t) = node_of (BL i l ?es)" by (rule leaf_put_node [OF asc0])
  show thesis
  proof (cases "fits (node_of (BL i l ?es))")
    case True
    then obtain q where q: "write_node i (node_of (BL i l ?es)) p = Inr q" "pager_ok fl q" "written (in_use fl p) (in_use fl q) [(i, node_of (BL i l ?es))]"
      "roots q = roots p" "page_count q = page_count p" using write_one [OF pk used parallel_node_of] by blast
    have "insert_leaf i key val (node_of ?t) p = Inr (None, q)" unfolding insert_leaf_def put Let_def using True q(1) by simp
    moreover have "ins_ok fl p 0 ?t (bm_insert key val) key None q"
      unfolding ins_ok_def by (rule exI [of _ fl], rule exI [of _ "BL i l ?es"], rule exI [of _ "[]"])
        (use q one_leaf [OF q(3) asc tk] in \<open>simp add: split_of_def\<close>)
    ultimately show thesis by (rule ok)
  next
    case False
    let ?m = "length ?es div 2"
    have two: "2 \<le> length ?es"
    proof (rule ccontr)
      assume "\<not> 2 \<le> length ?es"
      moreover have "(key, val) \<in> set ?es" by (induction es) auto
      ultimately have "?es = [(key, val)]" by (cases ?es; cases "tl ?es") auto
      then show False using False sz unfolding leaf_size by (simp add: esz_def)
    qed
    have mm: "0 < ?m" "?m < length ?es" using two by (simp_all add: div_greater_zero_iff)
    let ?L = "\<lambda>j. node_of (BL i j (take ?m ?es))" and ?R = "\<lambda>j. node_of (BL j l (drop ?m ?es))"
    have sp: "insert_leaf i key val (node_of ?t) p = split_write ?L ?R (fst (?es ! ?m)) i p"
      using False mm(2) unfolding insert_leaf_def put Let_def by (simp add: split_leaf_def split_write_def Let_def drop_map take_map)
    show thesis
    proof (rule split_write_cases [OF pk used, of ?L ?R "7 + sum_list (map esz (take ?m ?es))" "7 + sum_list (map esz (drop ?m ?es))" "fst (?es ! ?m)"])
      show "parallel (?L j)" "parallel (?R j)" "node_size (?L j) = 7 + sum_list (map esz (take ?m ?es))"
        "node_size (?R j) = 7 + sum_list (map esz (drop ?m ?es))" for j by (simp_all only: parallel_node_of leaf_size)
      fix e assume "split_write ?L ?R (fst (?es ! ?m)) i p = Inl e"
        "\<not> (alloc_room p \<and> 7 + sum_list (map esz (take ?m ?es)) \<le> PAGE_SIZE \<and> 7 + sum_list (map esz (drop ?m ?es)) \<le> PAGE_SIZE)"
      then show thesis using fail sp unfolding halves_fit_def Let_def by metis
    next
      fix j q fl' assume r: "split_write ?L ?R (fst (?es ! ?m)) i p = Inr (Some (fst (?es ! ?m), j), q)" "pager_ok fl' q" "in_use fl p j = None" "j \<noteq> 0"
        "written (in_use fl p) (in_use fl' q) [(j, ?R j), (i, ?L j)]" "roots q = roots p" "unat (page_count q) \<le> Suc (unat (page_count p))"
      have "fentries [(None, BL i j (take ?m ?es)), (Some (fst (?es ! ?m)), BL j l (drop ?m ?es))] = ?es" by simp
      then have "ins_ok fl p 0 ?t (bm_insert key val) key (Some (fst (?es ! ?m), j)) q"
        unfolding ins_ok_def
        by (intro exI [of _ fl'] exI [of _ "BL i j (take ?m ?es)"] exI [of _ "[(Some (fst (?es ! ?m)), BL j l (drop ?m ?es))]"] conjI)
          (use r two_leaves [OF r(5,3) used asc mm refl tk] in \<open>simp_all add: split_of_def\<close>)
      then show thesis using ok r(1) sp by metis
    qed
  qed
qed

section \<open>Inner nodes\<close>

definition ksz :: "bytes option \<times> bt \<Rightarrow> nat" where
  "ksz x = 6 + length (the (fst x))"

lemma inner_size: "node_size (node_of (BN i ts)) = 7 + sum_list (map ksz (tl ts))"
  by (simp add: node_size_def comp_def ksz_def [abs_def])

lemma same_node: "root_id c' = root_id c \<Longrightarrow> node_of (BN i (a @ (ko, c) # b)) = node_of (BN i (a @ (ko, c') # b))"
  by (cases a) simp_all

lemma sep_node:
  assumes "root_id c' = root_id c" and "n = node_of (BN i (a @ (ko, c) # b))"
  shows "n\<lparr>nd_keys := vec_insert (length a) sep (nd_keys n), nd_children := vec_insert (length a) (root_id r) (nd_children n)\<rparr> =
    node_of (BN i (a @ (ko, c') # (Some sep, r) # b))"
  using assms by (cases a) (simp_all add: vec_insert_def)

definition inner_halves_fit :: "forest \<Rightarrow> bool" where
  "inner_halves_fit ts \<longleftrightarrow> 3 \<le> length ts \<and> (let m = (length ts - 1) div 2 in
     7 + sum_list (map ksz (take m (tl ts))) \<le> PAGE_SIZE \<and> 7 + sum_list (map ksz (drop (Suc m) (tl ts))) \<le> PAGE_SIZE)"

definition put_inner :: "PageId \<Rightarrow> Node \<Rightarrow> Pager \<Rightarrow> fault + Split \<times> Pager" where
  "put_inner i n p = (if fits n then res_bind (write_node i n p) (\<lambda>q. Inr (None, q)) else split_internal i n p)"

text \<open>A parent whose children are \<open>ts\<close> is written, in one page or two.\<close>

definition put_ok :: "PageId list \<Rightarrow> Pager \<Rightarrow> nat \<Rightarrow> PageId \<Rightarrow> forest \<Rightarrow> Split \<Rightarrow> Pager \<Rightarrow> bool" where
  "put_ok fl p h i ts s q \<longleftrightarrow> (\<exists>fl' c' rest. pager_ok fl' q \<and> roots q = roots p \<and> unat (page_count q) \<le> Suc (unat (page_count p)) \<and> root_id c' = i \<and>
     fok (in_use fl' q) (Suc h) ((None, c') # rest) \<and> set (fpages ((None, c') # rest)) \<subseteq> insert i (set (fpages ts)) \<union> {j. in_use fl p j = None} \<and>
     (\<forall>j. in_use fl p j \<noteq> None \<longrightarrow> j \<noteq> i \<longrightarrow> in_use fl' q j = in_use fl p j) \<and> ftoks ((None, c') # rest) = ftoks ts \<and>
     fentries ((None, c') # rest) = fentries ts \<and> fleaves ((None, c') # rest) = fleaves ts \<and> split_of rest s)"

lemma fok_keep:
  assumes "fok u h ts" and "\<And>j. j \<in> set (fpages ts) \<Longrightarrow> u' j = u j"
  shows "\<forall>x \<in> set ts. holds u' (snd x) \<and> bal h (snd x)"
proof
  fix x assume x: "x \<in> set ts"
  have "holds u' (snd x)" by (rule holds_mono [of u]) (use assms x mem_fpages in \<open>auto simp: fok_def\<close>)
  then show "holds u' (snd x) \<and> bal h (snd x)" using assms(1) x by (simp add: fok_def)
qed

lemma one_inner:
  assumes pk: "pager_ok fl p" and ok: "fok (in_use fl p) h ts" and kids: "kids_ok ts" and i: "in_use fl p i \<noteq> None" "i \<notin> set (fpages ts)"
    and fit: "fits (node_of (BN i ts))"
  shows "\<exists>q. write_node i (node_of (BN i ts)) p = Inr q \<and> put_ok fl p h i ts None q"
proof -
  obtain q where q: "write_node i (node_of (BN i ts)) p = Inr q" "pager_ok fl q" "written (in_use fl p) (in_use fl q) [(i, node_of (BN i ts))]"
    "roots q = roots p" "page_count q = page_count p" using write_one [OF pk i(1) parallel_node_of fit] by blast
  have "\<forall>x \<in> set ts. holds (in_use fl q) (snd x) \<and> bal h (snd x)"
    by (rule fok_keep [OF ok]) (use q(3) i(2) in \<open>auto simp: written_def\<close>)
  then have "fok (in_use fl q) (Suc h) [(None, BN i ts)]" using q(3) ok kids i(2) by (simp add: fok_def written_def)
  moreover have "\<forall>j. in_use fl p j \<noteq> None \<longrightarrow> j \<noteq> i \<longrightarrow> in_use fl q j = in_use fl p j" using q(3) by (simp add: written_def)
  ultimately have "put_ok fl p h i ts None q" unfolding put_ok_def
    by (intro exI [of _ fl] exI [of _ "BN i ts"] exI [of _ "[]"]) (use q in \<open>simp add: split_of_def subset_insertI2\<close>)
  then show ?thesis using q(1) by blast
qed

text \<open>The children \<open>ts = L @ x # R\<close> are divided at \<open>x\<close>, whose separator moves up.\<close>

lemma two_inner:
  assumes ok: "fok u h (L @ (Some sep, c) # R)" and kids: "kids_ok (L @ (Some sep, c) # R)" and L: "L \<noteq> []"
    and i: "u i \<noteq> None" "i \<notin> set (fpages (L @ (Some sep, c) # R))" and j: "u j = None"
    and w: "written u u' [(j, node_of (BN j ((None, c) # R))), (i, node_of (BN i L))]"
  shows "fok u' (Suc h) [(None, BN i L), (Some sep, BN j ((None, c) # R))]"
proof -
  let ?ts = "L @ (Some sep, c) # R"
  have jn: "j \<notin> set (fpages ?ts)" "j \<noteq> i" using fok_used [OF ok, of j] j i(1) by auto
  have "\<forall>x \<in> set ?ts. holds u' (snd x) \<and> bal h (snd x)"
  proof (rule fok_keep [OF ok])
    fix k assume "k \<in> set (fpages ?ts)"
    then have "k \<noteq> i" "k \<noteq> j" using i(2) jn(1) by auto
    then show "u' k = u k" using w by (simp add: written_def)
  qed
  moreover have "kids_ok L" "kids_ok ((None, c) # R)" using kids L by (cases L; auto)+
  moreover have "distinct (i # fpages L @ j # pages c @ fpages R)" using ok i(2) jn by (auto simp: fok_def)
  moreover have "ascending (ftoks [(None, BN i L), (Some sep, BN j ((None, c) # R))])" using ok by (simp add: fok_def)
  moreover have "node_at u' j (node_of (BN j ((None, c) # R)))" "node_at u' i (node_of (BN i L))" using w by (auto simp: written_def)
  ultimately show ?thesis by (simp add: fok_def)
qed

lemma put_inner_spec:
  assumes pk: "pager_ok fl p" and fo: "fok (in_use fl p) h ts" and kids: "kids_ok ts" and i: "in_use fl p i \<noteq> None" "i \<notin> set (fpages ts)"
  obtains (fail) e where "put_inner i (node_of (BN i ts)) p = Inl e" "\<not> fits (node_of (BN i ts))" "\<not> (alloc_room p \<and> inner_halves_fit ts)"
  | (ok) s q where "put_inner i (node_of (BN i ts)) p = Inr (s, q)" "put_ok fl p h i ts s q"
proof (cases "fits (node_of (BN i ts))")
  case True
  then obtain q where "write_node i (node_of (BN i ts)) p = Inr q" "put_ok fl p h i ts None q" using one_inner [OF pk fo kids i] by blast
  then show thesis using ok True by (simp add: put_inner_def)
next
  case False
  obtain y us where ts: "ts = y # us" using kids by (cases ts) (auto simp: kids_ok_def)
  show thesis
  proof (cases "length us < 2")
    case True
    then have "put_inner i (node_of (BN i ts)) p = Inl (Err (Serialize (lit ''B+ tree separator key too large to fit in a 4096-byte page'')))"
      using False by (simp add: put_inner_def split_internal_def ts)
    then show thesis using fail False True by (simp add: inner_halves_fit_def ts)
  next
    case two: False
    let ?m = "length us div 2"
    have m: "?m < length us" using two by simp
    have "fst (us ! ?m) \<noteq> None" using kids m by (simp add: ts)
    then obtain sep c where x: "us ! ?m = (Some sep, c)" by (metis option.exhaust prod.collapse)
    let ?L = "y # take ?m us" and ?R = "drop (Suc ?m) us"
    have sp: "ts = ?L @ (Some sep, c) # ?R" using id_take_nth_drop [OF m] x by (simp add: ts)
    let ?nl = "\<lambda>j :: PageId. node_of (BN i ?L)" and ?nr = "\<lambda>j. node_of (BN j ((None, c) # ?R))"
    have eq: "put_inner i (node_of (BN i ts)) p = split_write ?nl ?nr sep i p"
      using False two m x by (simp add: put_inner_def split_internal_def split_write_def Let_def ts drop_map take_map)
    show thesis
    proof (rule split_write_cases [OF pk i(1), of ?nl ?nr "7 + sum_list (map ksz (take ?m us))" "7 + sum_list (map ksz ?R)" sep])
      show "parallel (?nl j)" "parallel (?nr j)" "node_size (?nl j) = 7 + sum_list (map ksz (take ?m us))" "node_size (?nr j) = 7 + sum_list (map ksz ?R)" for j
        by (simp_all only: parallel_node_of inner_size list.sel)
      fix e assume "split_write ?nl ?nr sep i p = Inl e"
        "\<not> (alloc_room p \<and> 7 + sum_list (map ksz (take ?m us)) \<le> PAGE_SIZE \<and> 7 + sum_list (map ksz ?R) \<le> PAGE_SIZE)"
      then show thesis using fail eq False by (simp add: inner_halves_fit_def ts Let_def)
    next
      fix j q fl' assume r: "split_write ?nl ?nr sep i p = Inr (Some (sep, j), q)" "pager_ok fl' q" "in_use fl p j = None" "j \<noteq> 0"
        "written (in_use fl p) (in_use fl' q) [(j, ?nr j), (i, ?nl j)]" "roots q = roots p" "unat (page_count q) \<le> Suc (unat (page_count p))"
      have fk: "fok (in_use fl' q) (Suc h) [(None, BN i ?L), (Some sep, BN j ((None, c) # ?R))]"
        by (rule two_inner [OF fo [unfolded sp] kids [unfolded sp] _ i [unfolded sp] r(3,5)]) simp
      have keep: "in_use fl' q k = in_use fl p k" if "in_use fl p k \<noteq> None" "k \<noteq> i" for k
      proof -
        have "k \<noteq> j" using that(1) r(3) by auto
        then show ?thesis using r(5) that(2) by (simp add: written_def)
      qed
      let ?G = "[(None, BN i ?L), (Some sep, BN j ((None, c) # ?R))]"
      have G: "ftoks ?G = ftoks ts" "fentries ?G = fentries ts" "fleaves ?G = fleaves ts" "set (fpages ?G) \<subseteq> insert i (set (fpages ts)) \<union> {j. in_use fl p j = None}"
      proof -
        have y: "fst y = None" using kids by (simp add: ts)
        show "ftoks ?G = ftoks ts" using arg_cong [OF sp, of ftoks] by (simp add: y)
        show "fentries ?G = fentries ts" using arg_cong [OF sp, of fentries] by simp
        show "fleaves ?G = fleaves ts" using arg_cong [OF sp, of fleaves] by simp
        show "set (fpages ?G) \<subseteq> insert i (set (fpages ts)) \<union> {j. in_use fl p j = None}" using arg_cong [OF sp, of fpages] r(3) by auto
      qed
      have "put_ok fl p h i ts (Some (sep, j)) q" unfolding put_ok_def
        by (intro exI [of _ fl'] exI [of _ "BN i ?L"] exI [of _ "[(Some sep, BN j ((None, c) # ?R))]"] conjI)
          (use r(2,6,7) keep in \<open>simp_all only: fk G root_id.simps split_of_def option.case prod.case simp_thms ex_simps\<close>, auto)
      then show thesis using ok r(1) eq by simp
    qed
  qed
qed

section \<open>Small entries\<close>

lemma half_fits:
  fixes f :: "'a \<Rightarrow> nat"
  assumes "\<forall>x \<in> set xs. 4 \<le> f x" "\<forall>x \<in> set xs. f x \<le> 127" "sum_list (map f xs) \<le> 4216" "m = length xs div 2"
  shows "sum_list (map f (take m xs)) \<le> 4089" "sum_list (map f (drop m xs)) \<le> 4089"
proof -
  let ?A = "sum_list (map f (take m xs))" and ?B = "sum_list (map f (drop m xs))"
  have sum: "?A + ?B \<le> 4216" using assms(3) by (metis append_take_drop_id map_append sum_list_append)
  have l: "length (take m xs) = m" "length (drop m xs) = length xs - m" using assms(4) by simp_all
  have A: "4 * m \<le> ?A" "?A \<le> 127 * m"
    using sum_list_count [of "take m xs" 4 f] sum_list_bound [of "take m xs" f 127] assms(1,2) l by (auto dest: in_set_takeD)
  have B: "4 * (length xs - m) \<le> ?B" "?B \<le> 127 * (length xs - m)"
    using sum_list_count [of "drop m xs" 4 f] sum_list_bound [of "drop m xs" f 127] assms(1,2) l by (auto dest: in_set_dropD)
  have m: "m \<le> length xs - m" "length xs - m \<le> Suc m" using assms(4) by simp_all
  define k where "k = length xs - m"
  show "?A \<le> 4089"
  proof (rule ccontr)
    assume "\<not> ?A \<le> 4089"
    then have "?B \<le> 126" using sum by linarith
    then have "k \<le> 31" using B(1) by (simp add: k_def)
    then have "m \<le> 31" using m(1) by (simp add: k_def)
    then show False using A(2) \<open>\<not> ?A \<le> 4089\<close> by linarith
  qed
  show "?B \<le> 4089"
  proof (rule ccontr)
    assume "\<not> ?B \<le> 4089"
    then have "?A \<le> 126" using sum by linarith
    then have "m \<le> 31" using A(1) by linarith
    then have "k \<le> 32" using m(2) by (simp add: k_def)
    moreover have "?B \<le> 127 * k" using B(2) by (simp add: k_def)
    ultimately show False using \<open>\<not> ?B \<le> 4089\<close> by linarith
  qed
qed

definition small :: "bytes \<Rightarrow> bytes \<Rightarrow> bool" where
  "small key val \<longleftrightarrow> 4 + length key + length val \<le> 125"

definition small_tree :: "bt \<Rightarrow> bool" where
  "small_tree t \<longleftrightarrow> (\<forall>e \<in> set (entries t). small (fst e) (snd e)) \<and> (\<forall>k \<in> fst ` set (toks t). length k \<le> 121)"

lemma sum_insert: "sum_list (map esz (bm_insert key val es)) \<le> sum_list (map esz es) + esz (key, val)"
  by (induction es) auto

lemma set_bm_insert: "set (bm_insert key val es) \<subseteq> insert (key, val) (set es)"
  by (induction es) auto

lemma small_halves:
  assumes "small key val" and "\<forall>e \<in> set es. small (fst e) (snd e)" and "fits (node_of (BL i l es))"
  shows "halves_fit (bm_insert key val es)"
proof -
  let ?es = "bm_insert key val es"
  have "\<forall>e \<in> set ?es. esz e \<le> 127"
  proof
    fix e assume "e \<in> set ?es"
    then have "e = (key, val) \<or> e \<in> set es" using set_bm_insert [of key val es] by blast
    then show "esz e \<le> 127" using assms(1,2) by (auto simp: small_def esz_def)
  qed
  moreover have "sum_list (map esz ?es) \<le> 4216"
    using sum_insert [of key val es] assms(1,3) unfolding leaf_size by (simp add: small_def esz_def PAGE_SIZE_def)
  ultimately show ?thesis using half_fits [of ?es esz, OF _ _ _ refl] by (simp add: halves_fit_def PAGE_SIZE_def esz_def)
qed

lemma small_inner_halves:
  assumes "\<forall>x \<in> set (tl ts). ksz x \<le> 127" and "sum_list (map ksz (tl ts)) \<le> 4216" and "\<not> fits (node_of (BN i ts))"
  shows "inner_halves_fit ts"
proof -
  let ?us = "tl ts" and ?m = "length (tl ts) div 2"
  have h: "sum_list (map ksz (take ?m ?us)) \<le> 4089" "sum_list (map ksz (drop ?m ?us)) \<le> 4089"
    using half_fits [of ?us ksz ?m] assms(1,2) by (simp_all add: ksz_def)
  have big: "4089 < sum_list (map ksz ?us)" using assms(3) unfolding inner_size by (simp add: PAGE_SIZE_def)
  have "sum_list (map ksz ?us) \<le> 127 * length ?us" by (rule sum_list_bound [OF assms(1)])
  then have len: "3 \<le> length ts" using big by simp
  have "sum_list (map ksz (drop (Suc ?m) ?us)) \<le> sum_list (map ksz (drop ?m ?us))"
  proof (cases "drop ?m ?us")
    case (Cons x xs)
    then have "drop (Suc ?m) ?us = xs" by (metis drop_Suc tl_drop list.sel(3))
    then show ?thesis using Cons by simp
  next
    case Nil
    then have "drop (Suc ?m) ?us = []" by (metis drop_Suc tl_drop list.sel(2))
    then show ?thesis by simp
  qed
  then show ?thesis using h len by (simp add: inner_halves_fit_def PAGE_SIZE_def Let_def)
qed

section \<open>The recursion\<close>

lemma fchg_parent:
  assumes chg: "fchg u u1 key ts ts'" and pg: "set (fpages G) \<subseteq> insert i (set (fpages ts')) \<union> {j. u1 j = None}"
    and keep: "\<forall>j. u1 j \<noteq> None \<longrightarrow> j \<noteq> i \<longrightarrow> u2 j = u1 j" and G: "ftoks G = ftoks ts'" "fleaves G = fleaves ts'"
  shows "fchg u u2 key [(None, BN i ts)] G"
proof -
  note D = fchgD [OF chg]
  have "set (fpages G) \<subseteq> insert i (set (fpages ts)) \<union> {j. u j = None}"
  proof
    fix j assume "j \<in> set (fpages G)"
    then have "j = i \<or> j \<in> set (fpages ts') \<or> u1 j = None" using subsetD [OF pg] by simp
    then show "j \<in> insert i (set (fpages ts)) \<union> {j. u j = None}" using D(1) D(2) [of j] by (cases "j \<in> set (fpages ts)") auto
  qed
  moreover have "u2 j = u j" if "u j \<noteq> None" "j \<noteq> i" "j \<notin> set (fpages ts)" for j
    using D(2) [OF that(1,3)] keep that(1,2) by simp
  ultimately show ?thesis using D(3-6) G by (simp add: fchg_def)
qed

definition small_at :: "bytes \<Rightarrow> bytes \<Rightarrow> bt \<Rightarrow> bool" where
  "small_at key val t \<longleftrightarrow> small key val \<and> small_tree t"

lemma small_child: "small_at key val (BN i (a @ (ko, c) # b)) \<Longrightarrow> small_at key val c"
  by (auto simp: small_at_def small_tree_def)

text \<open>Keys of a node's separators are tokens.\<close>

lemma sep_mem: "kids_ok ts \<Longrightarrow> x \<in> set (tl ts) \<Longrightarrow> the (fst x) \<in> fst ` set (ftoks ts)"
proof -
  assume k: "kids_ok ts" and x: "x \<in> set (tl ts)"
  then obtain s where "fst x = Some s" by (auto simp: kids_ok_def)
  moreover have "x \<in> set ts" using x by (cases ts) auto
  ultimately show ?thesis by (force simp: ftoks_def)
qed

lemma small_seps: "small_tree (BN i ts) \<Longrightarrow> kids_ok ts \<Longrightarrow> x \<in> set (tl ts) \<Longrightarrow> ksz x \<le> 127"
  using sep_mem [of ts x] by (force simp: small_tree_def ksz_def)

lemma put_parent:
  assumes pk1: "pager_ok fl1 p1" "roots p1 = roots p" "unat (page_count p1) \<le> Suc h + unat (page_count p)"
    and chg: "fchg u (in_use fl1 p1) key ts ts'" and ent: "fentries ts' = f (fentries ts)" and put: "put_ok fl1 p1 h i ts' s q" and u: "u = in_use fl p"
  shows "ins_ok fl p (Suc h) (BN i ts) f key s q"
proof -
  obtain fl' c' rest where r: "pager_ok fl' q" "roots q = roots p1" "unat (page_count q) \<le> Suc (unat (page_count p1))" "root_id c' = i"
     "fok (in_use fl' q) (Suc h) ((None, c') # rest)" "set (fpages ((None, c') # rest)) \<subseteq> insert i (set (fpages ts')) \<union> {j. in_use fl1 p1 j = None}"
     "\<forall>j. in_use fl1 p1 j \<noteq> None \<longrightarrow> j \<noteq> i \<longrightarrow> in_use fl' q j = in_use fl1 p1 j" "ftoks ((None, c') # rest) = ftoks ts'"
     "fentries ((None, c') # rest) = fentries ts'" "fleaves ((None, c') # rest) = fleaves ts'" "split_of rest s"
    using put unfolding put_ok_def by blast
  have "fchg (in_use fl p) (in_use fl' q) key [(None, BN i ts)] ((None, c') # rest)"
    using fchg_parent [OF chg r(6,7,8,10)] unfolding u .
  moreover have "fentries ((None, c') # rest) = f (entries (BN i ts))" using r(9) ent by simp
  moreover have "unat (page_count q) \<le> Suc (Suc h) + unat (page_count p)" using r(3) pk1(3) by simp
  ultimately show ?thesis unfolding ins_ok_def using r(1,2,4,5,11) pk1(2)
    by (intro exI [of _ fl'] exI [of _ c'] exI [of _ rest]) simp
qed

lemma ins_child:
  assumes ok: "tree_ok u (Suc h) (BN i (a @ (ko, c) # b))" and cok: "fok u1 h ((None, c') # rest)" and chg: "fchg u u1 key [(None, c)] ((None, c') # rest)"
    and rest: "\<forall>x \<in> set rest. fst x \<noteq> None"
    and pos: "\<forall>x \<in> set (ftoks a). x < (key, True)" "\<forall>x \<in> set (sep_tok ko). x < (key, True)" "\<forall>x \<in> set (ftoks b). (key, True) < x"
  shows "fok u1 h (a @ (ko, c') # rest @ b)" "fchg u u1 key (a @ (ko, c) # b) (a @ (ko, c') # rest @ b)" "kids_ok (a @ (ko, c') # rest @ b)"
    "u1 i = u i" "u i \<noteq> None" "i \<notin> set (fpages (a @ (ko, c') # rest @ b))"
proof -
  have fo: "fok u h (a @ (ko, c) # b)" and kids: "kids_ok (a @ (ko, c) # b)" and i: "i \<notin> set (fpages (a @ (ko, c) # b))" and "node_at u i (node_of (BN i (a @ (ko, c) # b)))"
    using ok by (simp_all add: tree_ok_def fok_def)
  then show ui: "u i \<noteq> None" by (auto simp: node_at_def)
  have lo: "\<forall>x \<in> set (ftoks a) \<union> set (sep_tok ko). x < (key, True)" using pos(1,2) by blast
  note s = fsubst [OF fo cok chg lo pos(3)]
  show "fok u1 h (a @ (ko, c') # rest @ b)" "fchg u u1 key (a @ (ko, c) # b) (a @ (ko, c') # rest @ b)" by (rule s)+
  show "kids_ok (a @ (ko, c') # rest @ b)" using kids rest by (cases a) auto
  show "u1 i = u i" using fchgD(2) [OF s(2) ui i] .
  show "i \<notin> set (fpages (a @ (ko, c') # rest @ b))" using fchgD(1) [OF s(2)] i ui by auto
qed

lemma small_sep_halves:
  assumes "small_tree (BN i (a @ (ko, c) # b))" "kids_ok (a @ (ko, c) # b)" "fits (node_of (BN i (a @ (ko, c) # b)))" "length sep \<le> 121"
    "\<not> fits (node_of (BN i (a @ (ko, c') # (Some sep, rt) # b)))"
  shows "inner_halves_fit (a @ (ko, c') # (Some sep, rt) # b)"
proof (rule small_inner_halves [OF _ _ assms(5)])
  let ?ts = "a @ (ko, c) # b" and ?ts' = "a @ (ko, c') # (Some sep, rt) # b"
  have k: "ksz (Some sep, rt) \<le> 127" using assms(4) by (simp add: ksz_def)
  have eq: "ksz (ko, c') = ksz (ko, c)" by (simp add: ksz_def)
  have "\<forall>x \<in> set (tl ?ts). ksz x \<le> 127" using small_seps [OF assms(1,2)] by blast
  then show "\<forall>x \<in> set (tl ?ts'). ksz x \<le> 127" using k eq by (cases a) auto
  have "sum_list (map ksz (tl ?ts')) = sum_list (map ksz (tl ?ts)) + ksz (Some sep, rt)" using eq by (cases a) auto
  then show "sum_list (map ksz (tl ?ts')) \<le> 4216" using k assms(3) unfolding inner_size by (simp add: PAGE_SIZE_def)
qed

lemma insert_rec_spec:
  assumes "pager_ok fl p" and "tree_ok (in_use fl p) h t" and sz: "7 + 2 + length key + 2 + length val \<le> PAGE_SIZE"
  shows "\<exists>r. insert_rec (root_id t) key val p = Some r \<and> (\<forall>e. r = Inl e \<longrightarrow> \<not> (room (Suc h) p \<and> small_at key val t)) \<and>
    (\<forall>s q. r = Inr (s, q) \<longrightarrow> ins_ok fl p h t (bm_insert key val) key s q)"
  using assms(1,2)
proof (induction h arbitrary: t p)
  case 0
  then obtain i l es where t: "t = BL i l es" using bal_0 [of t] by (auto simp: tree_ok_def)
  have at: "node_at (in_use fl p) i (node_of t)" using 0(2) by (simp add: t tree_ok_def)
  obtain q where q: "read_node i p = Inr (node_of t, q)" "calm fl p q" using read_node_ok [OF 0(1) at] by blast
  have qk: "pager_ok fl q" "in_use fl q = in_use fl p" "roots q = roots p" "page_count q = page_count p" using q(2) by (simp_all add: calm_def)
  have step: "insert_rec i key val p = Some (insert_leaf i key val (node_of t) q)" unfolding insert_rec.simps [of i] q(1) by (simp add: t)
  show ?case
  proof (rule insert_leaf_spec [OF qk(1) _ sz, of i l es])
    show "tree_ok (in_use fl q) 0 (BL i l es)" using 0(2) by (simp add: qk(2) t)
    fix e assume e: "insert_leaf i key val (node_of (BL i l es)) q = Inl e" "\<not> (alloc_room q \<and> halves_fit (bm_insert key val es))"
    have "\<not> (room (Suc 0) p \<and> small_at key val t)"
    proof
      assume "room (Suc 0) p \<and> small_at key val t"
      moreover have "fits (node_of (BL i l es))" using at by (simp add: t node_at_def)
      ultimately have "alloc_room q" "halves_fit (bm_insert key val es)"
        using small_halves [of key val es i l] room_alloc [of 0 q] qk(4) by (auto simp: room_def small_at_def small_tree_def t)
      then show False using e(2) by blast
    qed
    then show ?thesis using step e(1) by (simp add: t)
  next
    fix s r assume r: "insert_leaf i key val (node_of (BL i l es)) q = Inr (s, r)" "ins_ok fl q 0 (BL i l es) (bm_insert key val) key s r"
    have "ins_ok fl p 0 t (bm_insert key val) key s r" using r(2) qk by (simp add: ins_ok_def t)
    then show ?thesis using step r(1) by (simp add: t)
  qed
next
  case (Suc h)
  then obtain i ts where t: "t = BN i ts" using bal_Suc [of h t] by (auto simp: tree_ok_def)
  have ok: "kids_ok ts" "ascending (ftoks ts)" "node_at (in_use fl p) i (node_of t)" using Suc.prems(2) by (auto simp: t tree_ok_def)
  let ?n = "partition_point (\<lambda>k. k \<le> key) (map (\<lambda>x. the (fst x)) (tl ts))"
  obtain a ko c b where sp: "ts = a @ (ko, c) # b" "length a = ?n" "\<forall>x \<in> set (ftoks a). x < (key, True)" "\<forall>x \<in> set (sep_tok ko). x < (key, True)"
    "\<forall>x \<in> set (ftoks b). (key, True) < x" "child_for (node_of (BN i ts)) key = root_id c" by (rule pick_child [OF ok(1,2) refl])
  obtain q where q: "read_node i p = Inr (node_of t, q)" "calm fl p q" using read_node_ok [OF Suc.prems(1) ok(3)] by blast
  have qk: "pager_ok fl q" "in_use fl q = in_use fl p" "roots q = roots p" "page_count q = page_count p" using q(2) by (simp_all add: calm_def)
  have tok: "tree_ok (in_use fl q) (Suc h) (BN i (a @ (ko, c) # b))" using Suc.prems(2) by (simp add: qk(2) t sp(1))
  from Suc.IH [OF qk(1) tree_ok_child [OF tok]] obtain r1 where
    r1: "insert_rec (root_id c) key val q = Some r1" "\<forall>e. r1 = Inl e \<longrightarrow> \<not> (room (Suc h) q \<and> small_at key val c)"
      "\<forall>s p2. r1 = Inr (s, p2) \<longrightarrow> ins_ok fl q h c (bm_insert key val) key s p2" by blast
  have step: "insert_rec i key val p = Some (res_bind r1 (\<lambda>(split, p2). case split of None \<Rightarrow> Inr (None, p2)
      | Some (sep, right) \<Rightarrow> insert_sep i (length a) sep right (node_of t) p2))"
  proof -
    have n: "\<not> nd_leaf (node_of t)" "nd_keys (node_of t) = map (\<lambda>x. the (fst x)) (tl ts)" "child_for (node_of t) key = root_id c" using sp(6) by (simp_all add: t)
    show ?thesis unfolding insert_rec.simps [of i] q(1) sum.case prod.case n sp(2) [symmetric] r1(1) using n(1) by simp
  qed
  have sc: "small_at key val t \<Longrightarrow> small_at key val c" using small_child by (simp add: t sp(1))
  have sub: "insert_rec (root_id t) = insert_rec i" by (simp add: t)
  show ?case unfolding sub step
  proof (cases r1)
    case (Inl e)
    then show "\<exists>r. Some (res_bind r1 (\<lambda>(split, p2). case split of None \<Rightarrow> Inr (None, p2) | Some (sep, right) \<Rightarrow> insert_sep i (length a) sep right (node_of t) p2)) = Some r \<and>
        (\<forall>e. r = Inl e \<longrightarrow> \<not> (room (Suc (Suc h)) p \<and> small_at key val t)) \<and> (\<forall>s q. r = Inr (s, q) \<longrightarrow> ins_ok fl p (Suc h) t (bm_insert key val) key s q)"
      using r1(2) sc qk(4) by (auto simp: room_def)
  next
    case (Inr x)
    then obtain s p2 where x: "r1 = Inr (s, p2)" by (cases x) auto
    obtain fl2 c' rest where g: "pager_ok fl2 p2" "roots p2 = roots q" "unat (page_count p2) \<le> Suc h + unat (page_count q)" "root_id c' = root_id c"
        "fok (in_use fl2 p2) h ((None, c') # rest)" "fchg (in_use fl q) (in_use fl2 p2) key [(None, c)] ((None, c') # rest)"
        "fentries ((None, c') # rest) = bm_insert key val (entries c)" "split_of rest s"
      using r1(3) x unfolding ins_ok_def by blast
    show "\<exists>r. Some (res_bind r1 (\<lambda>(split, p2). case split of None \<Rightarrow> Inr (None, p2) | Some (sep, right) \<Rightarrow> insert_sep i (length a) sep right (node_of t) p2)) = Some r \<and>
        (\<forall>e. r = Inl e \<longrightarrow> \<not> (room (Suc (Suc h)) p \<and> small_at key val t)) \<and> (\<forall>s q. r = Inr (s, q) \<longrightarrow> ins_ok fl p (Suc h) t (bm_insert key val) key s q)"
    proof (cases s)
      case None
      then have rest: "rest = []" using g(8) by (simp add: split_of_def)
      note ic = ins_child [OF tok g(5) [unfolded rest] g(6) [unfolded rest] _ sp(3-5)]
      have "node_at (in_use fl2 p2) i (node_of (BN i (a @ (ko, c') # b)))"
        using ok(3) ic(4) same_node [OF g(4), of i a ko b] by (simp add: node_at_def t sp(1) qk(2))
      then have "fok (in_use fl2 p2) (Suc h) [(None, BN i (a @ (ko, c') # b))]" using ic(1,3,6) by (simp add: fok_def)
      moreover have "fchg (in_use fl p) (in_use fl2 p2) key [(None, BN i ts)] [(None, BN i (a @ (ko, c') # b))]"
        by (rule fchg_parent [of _ "in_use fl2 p2" _ _ "a @ (ko, c') # b"]) (use ic(2) in \<open>auto simp: qk(2) sp(1)\<close>)
      moreover have "fentries [(None, BN i (a @ (ko, c') # b))] = bm_insert key val (entries (BN i ts))"
        using local_op_forest [OF local_insert sp(3,5) g(7)] by (simp add: rest sp(1))
      ultimately have "ins_ok fl p (Suc h) t (bm_insert key val) key None p2"
        unfolding ins_ok_def t using g(1-3) qk
        by (intro exI [of _ fl2] exI [of _ "BN i (a @ (ko, c') # b)"] exI [of _ "[]"]) (simp add: split_of_def)
      then show ?thesis by (simp add: x None)
    next
      case (Some y)
      then obtain sep rt where y: "s = Some (sep, root_id rt)" and rest: "rest = [(Some sep, rt)]" using g(8) by (cases y) (auto simp: split_of_def)
      let ?ts = "a @ (ko, c') # (Some sep, rt) # b"
      note ic = ins_child [OF tok g(5) [unfolded rest] g(6) [unfolded rest] _ sp(3-5), simplified]
      have eq: "insert_sep i (length a) sep (root_id rt) (node_of t) p2 = put_inner i (node_of (BN i ?ts)) p2"
        using sep_node [OF g(4) refl, where i = i and a = a and ko = ko and b = b and sep = sep and r = rt] unfolding insert_sep_def put_inner_def Let_def t sp(1) by simp
      have ent: "fentries ?ts = bm_insert key val (fentries ts)" using local_op_forest [OF local_insert sp(3,5) g(7)] by (simp add: rest sp(1))
      show ?thesis
      proof (rule put_inner_spec [OF g(1) ic(1,3)])
        show "in_use fl2 p2 i \<noteq> None" "i \<notin> set (fpages ?ts)" using ic(4-6) by simp_all
        fix e assume e: "put_inner i (node_of (BN i ?ts)) p2 = Inl e" "\<not> fits (node_of (BN i ?ts))" "\<not> (alloc_room p2 \<and> inner_halves_fit ?ts)"
        have "\<not> (room (Suc (Suc h)) p \<and> small_at key val t)"
        proof
          assume as: "room (Suc (Suc h)) p \<and> small_at key val t"
          have "alloc_room p2" using room_alloc [of 0 p2] room_mono [of "Suc (Suc h)" p p2 "Suc h" "Suc 0"] g(3) qk(4) as by simp
          moreover have "inner_halves_fit ?ts"
          proof (rule small_sep_halves [OF _ _ _ _ e(2)])
            show "small_tree (BN i (a @ (ko, c) # b))" "kids_ok (a @ (ko, c) # b)" "fits (node_of (BN i (a @ (ko, c) # b)))"
              using as ok(1,3) by (simp_all add: small_at_def t sp(1) node_at_def)
            have "sep \<in> insert key (fst ` set (toks c))" using fchgD(4) [OF g(6)] by (auto simp: rest)
            moreover have "small_at key val c" using as sc by blast
            ultimately show "length sep \<le> 121" by (auto simp: small_at_def small_tree_def small_def)
          qed
          ultimately show False using e(3) by blast
        qed
        then show ?thesis using e(1) eq by (simp add: x y)
      next
        fix s' q' assume r: "put_inner i (node_of (BN i ?ts)) p2 = Inr (s', q')" "put_ok fl2 p2 h i ?ts s' q'"
        have "ins_ok fl p (Suc h) (BN i ts) (bm_insert key val) key s' q'"
          by (rule put_parent [OF g(1), where ts' = ?ts and u = "in_use fl p"]) (use ent r(2) g(2,3) qk ic(2) in \<open>simp_all add: sp(1)\<close>)
        then show ?thesis using r(1) eq by (simp add: x y t)
      qed
    qed
  qed
qed

section \<open>Insertion into the tree of a root slot\<close>

definition small_bt :: "bt option \<Rightarrow> bool" where
  "small_bt ot \<longleftrightarrow> (case ot of None \<Rightarrow> True | Some t \<Rightarrow> small_tree t)"

text \<open>Pages in use outside the tree and the other root slots are as before.\<close>

definition others_same :: "PageId list \<Rightarrow> Pager \<Rightarrow> nat \<Rightarrow> bt option \<Rightarrow> PageId list \<Rightarrow> Pager \<Rightarrow> bt option \<Rightarrow> bool" where
  "others_same fl p slot ot fl' q ot' \<longleftrightarrow> (\<forall>j. in_use fl p j \<noteq> None \<longrightarrow> j \<notin> bt_pages ot \<longrightarrow> in_use fl' q j = in_use fl p j \<and> j \<notin> bt_pages ot') \<and>
     length (roots q) = length (roots p) \<and> (\<forall>k. k \<noteq> slot \<longrightarrow> roots q ! k = roots p ! k)"

lemma bal_pages: "bal h t \<Longrightarrow> h < length (pages t)"
proof (induction h arbitrary: t)
  case (Suc h)
  then obtain i x us where "t = BN i (x # us)" "bal h (snd x)" by (cases t) (auto simp: kids_ok_def neq_Nil_conv)
  then show ?case using Suc.IH [of "snd x"] by auto
next
  case 0
  then show ?case using root_in_pages [of t] by (cases "pages t") auto
qed

lemma tree_height_bound:
  assumes "pager_ok fl p" and "tree_ok (in_use fl p) h t"
  shows "h < unat (page_count p)"
proof -
  have c: "cache_ok (page_count p) p" using assms(1) by (simp add: pager_ok_def)
  have "j < page_count p" if "j \<in> set (pages t)" for j
  proof -
    have "in_use fl p j \<noteq> None" using holds_used [of "in_use fl p" t j] assms(2) that by (simp add: tree_ok_def)
    then have "view p j \<noteq> None" by (auto simp: in_use_def split: if_splits)
    then show ?thesis using view_iff [OF c] by blast
  qed
  then have "unat ` set (pages t) \<subseteq> {..<unat (page_count p)}" by (auto simp: word_less_nat_alt)
  then have "card (unat ` set (pages t)) \<le> unat (page_count p)" using card_mono [of "{..<unat (page_count p)}"] by fastforce
  moreover have "card (unat ` set (pages t)) = length (pages t)"
    using assms(2) by (simp add: card_image inj_on_def unat_eqD distinct_card tree_ok_def)
  ultimately show ?thesis using bal_pages [of h t] assms(2) by (simp add: tree_ok_def)
qed

lemma set_root_ok:
  assumes "pager_ok fl p" and "slot < length (roots p)"
  shows "\<exists>q. bt_set_root slot i p = Inr q \<and> pager_ok fl q \<and> in_use fl q = in_use fl p \<and> roots q = (roots p)[slot := ucast i] \<and> page_count q = page_count p"
proof -
  let ?q = "p\<lparr>roots := (roots p)[slot := ucast i]\<rparr>"
  have v: "view ?q = view p" by (simp add: view_def page_of_def fun_eq_iff cong: option.case_cong)
  have "cache_ok (page_count p) ?q = cache_ok (page_count p) p" by (simp add: cache_ok_def page_of_def cong: option.case_cong)
  then have "pager_ok fl ?q" using assms(1) v by (simp add: pager_ok_def)
  then show ?thesis using assms(2) v by (simp add: bt_set_root_def set_root_def in_use_def fun_eq_iff)
qed

lemma ucast_u64 [simp]: "ucast (ucast (i :: u32) :: u64) = i"
  by (rule bit_word_eqI) (simp add: bit_ucast_iff)

lemma tree_of_forest: "fok u h [(None, t)] \<longleftrightarrow> tree_ok u h t"
  by (simp add: fok_def tree_ok_def conj_assoc)

text \<open>All keys of the tree, separators included, have length \<open>K\<close>.\<close>

definition klen :: "nat \<Rightarrow> bt option \<Rightarrow> bool" where
  "klen K ot \<longleftrightarrow> (case ot of None \<Rightarrow> True | Some t \<Rightarrow> \<forall>k \<in> fst ` set (toks t). length k = K)"

lemma klen_after: "klen K (Some t) \<Longrightarrow> length key = K \<Longrightarrow> fst ` set (toks t') \<subseteq> insert key (fst ` set (toks t)) \<Longrightarrow> klen K (Some t')"
  unfolding klen_def option.case by blast

text \<open>What a successful insertion leaves, from a forest to a tree in its slot.\<close>

definition inserted :: "PageId list \<Rightarrow> Pager \<Rightarrow> nat \<Rightarrow> bytes \<Rightarrow> bytes \<Rightarrow> bt option \<Rightarrow> Pager \<Rightarrow> bool" where
  "inserted fl p slot key val ot q \<longleftrightarrow> (\<exists>fl' ot'. btree fl' q slot ot' \<and> bt_entries ot' = bm_insert key val (bt_entries ot) \<and>
     (small key val \<and> small_bt ot \<longrightarrow> small_bt ot') \<and> (klen (length key) ot \<longrightarrow> klen (length key) ot') \<and> others_same fl p slot ot fl' q ot')"

lemma small_after:
  assumes "small key val" "small_tree t" "fentries F = bm_insert key val (entries t)" "fst ` set (ftoks F) \<subseteq> insert key (fst ` set (toks t))"
  shows "\<forall>e \<in> set (fentries F). small (fst e) (snd e)" "\<forall>k \<in> fst ` set (ftoks F). length k \<le> 121"
proof -
  have "set (fentries F) \<subseteq> insert (key, val) (set (entries t))" using set_bm_insert by (simp add: assms(3))
  then show "\<forall>e \<in> set (fentries F). small (fst e) (snd e)" using assms(1,2) by (auto simp: small_tree_def)
  have "\<forall>k \<in> insert key (fst ` set (toks t)). length k \<le> 121" using assms(1,2) by (auto simp: small_tree_def small_def)
  then show "\<forall>k \<in> fst ` set (ftoks F). length k \<le> 121" using assms(4) by blast
qed

lemma inserted_one:
  assumes bt: "btree fl p slot (Some t)" and q: "pager_ok fl' q" "roots q = roots p" and ok: "fok (in_use fl' q) h [(None, c')]"
    and chg: "fchg (in_use fl p) (in_use fl' q) key [(None, t)] [(None, c')]" and ent: "fentries [(None, c')] = bm_insert key val (entries t)"
    and rt: "root_id c' = root_id t"
  shows "inserted fl p slot key val (Some t) q"
proof -
  note D = fchgD [OF chg]
  have "btree fl' q slot (Some c')" using bt q ok rt D(5) by (auto simp: btree_def tree_of_forest)
  moreover have "small_tree c'" if "small key val" "small_tree t" using small_after [OF that ent] D(4) by (simp add: small_tree_def)
  moreover have "others_same fl p slot (Some t) fl' q (Some c')" using q(2) D(1,2) by (auto simp: others_same_def bt_pages_def)
  moreover have "klen (length key) (Some t) \<Longrightarrow> klen (length key) (Some c')" by (erule klen_after) (use D(4) in simp_all)
  ultimately show ?thesis using ent unfolding inserted_def
    by (intro exI [of _ fl'] exI [of _ "Some c'"]) (simp add: bt_entries_def small_bt_def)
qed

lemma inserted_two:
  assumes bt: "btree fl p slot (Some t)" and q: "pager_ok fl1 q" "roots q = roots p" and ok: "fok (in_use fl1 q) h [(None, c'), (Some sep, r)]"
    and chg: "fchg (in_use fl p) (in_use fl1 q) key [(None, t)] [(None, c'), (Some sep, r)]"
    and ent: "fentries [(None, c'), (Some sep, r)] = bm_insert key val (entries t)"
    and n: "n = node_of (BN i [(None, c'), (Some sep, r)])" and i: "in_use fl1 q i = None"
    and w: "pager_ok fl2 q2" "roots q2 = (roots p)[slot := ucast i]" "written (in_use fl1 q) (in_use fl2 q2) [(i, n)]"
  shows "inserted fl p slot key val (Some t) q2"
proof -
  note D = fchgD [OF chg]
  let ?F = "[(None, c'), (Some sep, r)]" and ?t = "BN i [(None, c'), (Some sep, r)]"
  have slot: "slot < length (roots p)" using bt by (simp add: btree_def)
  have nf: "i \<notin> set (fpages ?F)" using fok_used [OF ok, of i] i by auto
  have "\<forall>x \<in> set ?F. holds (in_use fl2 q2) (snd x) \<and> bal h (snd x)"
  proof (rule fok_keep [OF ok])
    fix j assume "j \<in> set (fpages ?F)"
    then have "j \<noteq> i" using nf by auto
    then show "in_use fl2 q2 j = in_use fl1 q j" using w(3) by (simp add: written_def)
  qed
  then have "tree_ok (in_use fl2 q2) (Suc h) ?t" using w(3) ok nf n by (simp add: tree_ok_def fok_def written_def)
  moreover have "chain (leaves ?t) 0" using D(5) [of 0] bt by (simp add: btree_def)
  ultimately have "btree fl2 q2 slot (Some ?t)" using w(1,2) slot by (auto simp: btree_def)
  moreover have "small_tree ?t" if "small key val" "small_tree t" using small_after [OF that ent] D(4) by (simp add: small_tree_def)
  moreover have "others_same fl p slot (Some t) fl2 q2 (Some ?t)"
  proof -
    have "in_use fl2 q2 j = in_use fl p j \<and> j \<notin> bt_pages (Some ?t)" if "in_use fl p j \<noteq> None" "j \<notin> bt_pages (Some t)" for j
    proof -
      have same: "in_use fl1 q j = in_use fl p j" using D(2) [OF that(1)] that(2) by (simp add: bt_pages_def)
      then have "j \<noteq> i" using that(1) i by auto
      then show ?thesis using same w(3) D(1) that by (auto simp: bt_pages_def written_def)
    qed
    then show ?thesis using w(2) by (simp add: others_same_def)
  qed
  moreover have "klen (length key) (Some t) \<Longrightarrow> klen (length key) (Some ?t)" by (erule klen_after) (use D(4) in simp_all)
  ultimately show ?thesis using ent unfolding inserted_def
    by (intro exI [of _ fl2] exI [of _ "Some ?t"]) (simp add: bt_entries_def small_bt_def)
qed

lemma inserted_first:
  assumes bt: "btree fl p slot None" and n: "n = node_of (BL i 0 [(key, val)])" and i: "in_use fl p i = None" "i \<noteq> 0"
    and w: "pager_ok fl2 q2" "roots q2 = (roots p)[slot := ucast i]" "written (in_use fl p) (in_use fl2 q2) [(i, n)]"
  shows "inserted fl p slot key val None q2"
proof -
  have "slot < length (roots p)" using bt by (simp add: btree_def)
  then have "btree fl2 q2 slot (Some (BL i 0 [(key, val)]))" using w n by (auto simp: btree_def tree_ok_def written_def intro!: exI [of _ 0])
  moreover have "others_same fl p slot None fl2 q2 (Some (BL i 0 [(key, val)]))"
  proof -
    have "in_use fl2 q2 j = in_use fl p j \<and> j \<noteq> i" if "in_use fl p j \<noteq> None" for j
      using that i(1) w(3) by (cases "j = i") (simp_all add: written_def)
    then show ?thesis using w(2) by (simp add: others_same_def bt_pages_def)
  qed
  ultimately show ?thesis unfolding inserted_def
    by (intro exI [of _ fl2] exI [of _ "Some (BL i 0 [(key, val)])"]) (auto simp: bt_entries_def small_bt_def small_tree_def small_def klen_def)
qed

text \<open>Allocating a page for a new root, writing it and setting the slot.\<close>

definition new_root :: "nat \<Rightarrow> (PageId \<Rightarrow> Node) \<Rightarrow> Pager \<Rightarrow> fault + Pager" where
  "new_root slot n p = res_bind (lift_err (alloc p)) (\<lambda>(i, p1). res_bind (write_node i (n i) p1) (bt_set_root slot i))"

lemma new_root_cases:
  assumes "pager_ok fl p" and "slot < length (roots p)" and "\<And>i. parallel (n i)" and "\<And>i. node_size (n i) = m"
  obtains (fail) e where "new_root slot n p = Inl e" "\<not> (alloc_room p \<and> m \<le> PAGE_SIZE)"
  | (ok) i fl' q where "new_root slot n p = Inr q" "in_use fl p i = None" "i \<noteq> 0" "pager_ok fl' q" "roots q = (roots p)[slot := ucast i]"
    "written (in_use fl p) (in_use fl' q) [(i, n i)]" "unat (page_count q) \<le> Suc (unat (page_count p))"
proof (cases "alloc_room p")
  case False
  then obtain e where "alloc p = Inl e" using alloc_full by blast
  then show thesis using False by (intro fail) (auto simp: new_root_def lift_err_def)
next
  case True
  obtain i p1 fl' where a: "alloc p = Inr (i, p1)" "pager_ok fl' p1" "in_use fl p i = None" "in_use fl' p1 = (in_use fl p)(i \<mapsto> zero_page)"
    "i \<noteq> 0" "roots p1 = roots p" "unat (page_count p1) \<le> Suc (unat (page_count p))" using alloc_page [OF assms(1) True] by blast
  show thesis
  proof (cases "m \<le> PAGE_SIZE")
    case False
    then have "write_node i (n i) p1 = Inl Panic" using write_node_panic assms(3,4) by simp
    then show thesis using a(1) False by (intro fail) (auto simp: new_root_def lift_err_def)
  next
    case True
    have "in_use fl' p1 i \<noteq> None" by (simp add: a(4))
    then obtain p2 where w: "write_node i (n i) p1 = Inr p2" "pager_ok fl' p2" "written (in_use fl' p1) (in_use fl' p2) [(i, n i)]" "roots p2 = roots p1" "page_count p2 = page_count p1"
      using write_one [OF a(2) _ assms(3)] True assms(4) by metis
    have "slot < length (roots p2)" using assms(2) w(4) a(6) by simp
    then obtain q where q: "bt_set_root slot i p2 = Inr q" "pager_ok fl' q" "in_use fl' q = in_use fl' p2" "roots q = (roots p2)[slot := ucast i]" "page_count q = page_count p2"
      using set_root_ok [OF w(2)] by blast
    have "written (in_use fl p) (in_use fl' q) [(i, n i)]" using w(3) a(4) q(3) by (auto simp: written_def)
    moreover have "new_root slot n p = Inr q" using a(1) w(1) q(1) by (simp add: new_root_def lift_err_def)
    ultimately show thesis using a(3,5-7) q(2,4,5) w(4,5) by (intro ok [of q i fl']) simp_all
  qed
qed

lemma bt_insert_spec:
  assumes bt: "btree fl p slot ot" and sz: "7 + 2 + length key + 2 + length val \<le> PAGE_SIZE"
  shows "\<exists>r. bt_insert slot key val p = Some r \<and> (\<forall>e. r = Inl e \<longrightarrow> \<not> (unat (page_count p) < 2 ^ 31 \<and> small key val \<and> small_bt ot)) \<and>
    (\<forall>q. r = Inr q \<longrightarrow> inserted fl p slot key val ot q)"
proof (cases ot)
  case None
  have pk: "pager_ok fl p" "slot < length (roots p)" using bt by (auto simp: btree_def)
  let ?n = "\<lambda>i. node_of (BL i 0 [(key, val)])"
  have eq: "bt_insert slot key val p = Some (new_root slot ?n p)"
    using sz bt_root_btree(1) [OF bt [unfolded None]] by (simp add: bt_insert_def new_root_def node_leaf_def)
  show ?thesis unfolding eq
  proof (rule new_root_cases [OF pk, of ?n "7 + esz (key, val)"])
    show "parallel (?n i)" "node_size (?n i) = 7 + esz (key, val)" for i by (simp only: parallel_node_of, simp only: leaf_size, simp)
    fix e assume e: "new_root slot ?n p = Inl e" "\<not> (alloc_room p \<and> 7 + esz (key, val) \<le> PAGE_SIZE)"
    then have "\<not> unat (page_count p) < 2 ^ 31" using sz by (auto simp: esz_def alloc_room_def)
    then show "\<exists>r. Some (new_root slot ?n p) = Some r \<and> (\<forall>e. r = Inl e \<longrightarrow> \<not> (unat (page_count p) < 2 ^ 31 \<and> small key val \<and> small_bt ot)) \<and>
        (\<forall>q. r = Inr q \<longrightarrow> inserted fl p slot key val ot q)" using e(1) by simp
  next
    fix i fl' q assume "new_root slot ?n p = Inr q" "in_use fl p i = None" "i \<noteq> 0" "pager_ok fl' q" "roots q = (roots p)[slot := ucast i]"
      "written (in_use fl p) (in_use fl' q) [(i, ?n i)]"
    then show "\<exists>r. Some (new_root slot ?n p) = Some r \<and> (\<forall>e. r = Inl e \<longrightarrow> \<not> (unat (page_count p) < 2 ^ 31 \<and> small key val \<and> small_bt ot)) \<and>
        (\<forall>q. r = Inr q \<longrightarrow> inserted fl p slot key val ot q)" using inserted_first [OF bt [unfolded None] refl] by (simp add: None)
  qed
next
  case (Some t)
  obtain h where ok: "pager_ok fl p" "tree_ok (in_use fl p) h t" "slot < length (roots p)" using bt by (auto simp: btree_def Some)
  have root: "bt_root slot p = Inr (root_id t)" "root_id t \<noteq> 0" using bt_root_btree(2) [OF bt [unfolded Some]] by blast+
  have room: "room (Suc (Suc h)) p" if "unat (page_count p) < 2 ^ 31" using tree_height_bound [OF ok(1,2)] that by (simp add: room_def)
  from insert_rec_spec [OF ok(1,2) sz] obtain r where r: "insert_rec (root_id t) key val p = Some r"
    "\<forall>e. r = Inl e \<longrightarrow> \<not> (room (Suc h) p \<and> small_at key val t)" "\<forall>s q. r = Inr (s, q) \<longrightarrow> ins_ok fl p h t (bm_insert key val) key s q" by blast
  have eq: "bt_insert slot key val p = Some (res_bind r (\<lambda>(split, p1). case split of None \<Rightarrow> Inr p1
      | Some (sep, right) \<Rightarrow> new_root slot (\<lambda>_. \<lparr>nd_leaf = False, nd_link = root_id t, nd_keys = [sep], nd_vals = [], nd_children = [right]\<rparr>) p1))"
    unfolding new_root_def using sz root r(1) by (simp add: bt_insert_def)
  show ?thesis
  proof (cases r)
    case (Inl e)
    then show ?thesis using eq r(2) room by (auto simp: room_def small_at_def small_bt_def Some)
  next
    case (Inr x)
    then obtain s p1 where x: "r = Inr (s, p1)" by (cases x) auto
    obtain fl1 c' rest where g: "pager_ok fl1 p1" "roots p1 = roots p" "unat (page_count p1) \<le> Suc h + unat (page_count p)" "root_id c' = root_id t"
        "fok (in_use fl1 p1) h ((None, c') # rest)" "fchg (in_use fl p) (in_use fl1 p1) key [(None, t)] ((None, c') # rest)"
        "fentries ((None, c') # rest) = bm_insert key val (entries t)" "split_of rest s"
      using r(3) x unfolding ins_ok_def by blast
    show ?thesis
    proof (cases s)
      case None
      then have rest: "rest = []" using g(8) by (simp add: split_of_def)
      have "inserted fl p slot key val (Some t) p1"
        by (rule inserted_one [OF bt [unfolded Some] g(1,2) g(5-7) [unfolded rest] g(4)])
      then show ?thesis using eq by (simp add: x None Some)
    next
      case (Some y)
      then obtain sep rt where y: "s = Some (sep, root_id rt)" and rest: "rest = [(Some sep, rt)]" using g(8) by (cases y) (auto simp: split_of_def)
      let ?n = "\<lambda>i. node_of (BN i [(None, c'), (Some sep, rt)])"
      have eq': "bt_insert slot key val p = Some (new_root slot ?n p1)" using eq g(4) by (simp add: x y)
      show ?thesis unfolding eq'
      proof (rule new_root_cases [OF g(1), of slot ?n "13 + length sep"])
        show "slot < length (roots p1)" using ok(3) g(2) by simp
        show "parallel (?n i)" "node_size (?n i) = 13 + length sep" for i by (simp only: parallel_node_of, simp only: inner_size, simp add: ksz_def)
        fix e assume e: "new_root slot ?n p1 = Inl e" "\<not> (alloc_room p1 \<and> 13 + length sep \<le> PAGE_SIZE)"
        have "\<not> (unat (page_count p) < 2 ^ 31 \<and> small key val \<and> small_tree t)"
        proof
          assume as: "unat (page_count p) < 2 ^ 31 \<and> small key val \<and> small_tree t"
          then have "alloc_room p1" using room g(3) room_alloc [of 0 p1] room_mono [of "Suc (Suc h)" p p1 "Suc h" "Suc 0"] by simp
          moreover have "length sep \<le> 121" using small_after(2) [OF _ _ g(7)] fchgD(4) [OF g(6)] as by (simp add: rest)
          ultimately show False using e(2) by (simp add: PAGE_SIZE_def)
        qed
        then show "\<exists>r. Some (new_root slot ?n p1) = Some r \<and> (\<forall>e. r = Inl e \<longrightarrow> \<not> (unat (page_count p) < 2 ^ 31 \<and> small key val \<and> small_bt ot)) \<and>
          (\<forall>q. r = Inr q \<longrightarrow> inserted fl p slot key val ot q)" using e(1) by (simp add: \<open>ot = Some t\<close> small_bt_def)
      next
        fix i fl' q assume w: "new_root slot ?n p1 = Inr q" "in_use fl1 p1 i = None" "i \<noteq> 0" "pager_ok fl' q" "roots q = (roots p1)[slot := ucast i]"
          "written (in_use fl1 p1) (in_use fl' q) [(i, ?n i)]"
        have "inserted fl p slot key val (Some t) q"
          by (rule inserted_two [OF bt [unfolded \<open>ot = Some t\<close>] g(1,2) g(5-7) [unfolded rest] refl w(2,4) _ w(6)]) (simp add: w(5) g(2))
        then show "\<exists>r. Some (new_root slot ?n p1) = Some r \<and> (\<forall>e. r = Inl e \<longrightarrow> \<not> (unat (page_count p) < 2 ^ 31 \<and> small key val \<and> small_bt ot)) \<and>
          (\<forall>q. r = Inr q \<longrightarrow> inserted fl p slot key val ot q)" using w(1) by (simp add: \<open>ot = Some t\<close>)
      qed
    qed
  qed
qed

section \<open>A tree that is a single leaf\<close>

lemma first_insert:
  assumes bt: "btree fl p slot None" and sz: "7 + 2 + length key + 2 + length val \<le> PAGE_SIZE" and room: "alloc_room p"
  shows "\<exists>i fl' q. bt_insert slot key val p = Some (Inr q) \<and> btree fl' q slot (Some (BL i 0 [(key, val)])) \<and> unat (page_count q) \<le> Suc (unat (page_count p))"
proof -
  have pk: "pager_ok fl p" "slot < length (roots p)" using bt by (auto simp: btree_def)
  let ?n = "\<lambda>i. node_of (BL i 0 [(key, val)])"
  have eq: "bt_insert slot key val p = Some (new_root slot ?n p)"
    using sz bt_root_btree(1) [OF bt] by (simp add: bt_insert_def new_root_def node_leaf_def)
  show ?thesis unfolding eq
  proof (rule new_root_cases [OF pk, of ?n "7 + esz (key, val)"])
    show "parallel (?n i)" "node_size (?n i) = 7 + esz (key, val)" for i by (simp only: parallel_node_of, simp only: leaf_size, simp)
    fix e assume "\<not> (alloc_room p \<and> 7 + esz (key, val) \<le> PAGE_SIZE)"
    then have False using sz room by (simp add: esz_def)
    then show "\<exists>i fl' q. Some (new_root slot ?n p) = Some (Inr q) \<and> btree fl' q slot (Some (BL i 0 [(key, val)])) \<and> unat (page_count q) \<le> Suc (unat (page_count p))" ..
  next
    fix i fl' q assume r: "new_root slot ?n p = Inr q" "in_use fl p i = None" "i \<noteq> 0" "pager_ok fl' q" "roots q = (roots p)[slot := ucast i]"
      "written (in_use fl p) (in_use fl' q) [(i, ?n i)]" "unat (page_count q) \<le> Suc (unat (page_count p))"
    have "tree_ok (in_use fl' q) 0 (BL i 0 [(key, val)])" using r(6) by (simp add: tree_ok_def written_def)
    then have "btree fl' q slot (Some (BL i 0 [(key, val)]))" using r(4,5) pk(2) by (auto simp: btree_def)
    then show "\<exists>i fl' q. Some (new_root slot ?n p) = Some (Inr q) \<and> btree fl' q slot (Some (BL i 0 [(key, val)])) \<and> unat (page_count q) \<le> Suc (unat (page_count p))"
      using r(1,7) by blast
  qed
qed

lemma leaf_root_insert:
  assumes bt: "btree fl p slot (Some (BL i 0 es))" and sz: "7 + 2 + length key + 2 + length val \<le> PAGE_SIZE" and es: "es' = bm_insert key val es"
  shows "7 + sum_list (map esz es') \<le> PAGE_SIZE \<Longrightarrow>
      \<exists>q. bt_insert slot key val p = Some (Inr q) \<and> btree fl q slot (Some (BL i 0 es')) \<and> page_count q = page_count p"
    "\<not> 7 + sum_list (map esz es') \<le> PAGE_SIZE \<Longrightarrow> \<not> 7 + sum_list (map esz (drop (length es' div 2) es')) \<le> PAGE_SIZE \<Longrightarrow> room 1 p \<Longrightarrow>
      bt_insert slot key val p = Some (Inl Panic)"
proof -
  let ?t = "BL i 0 es"
  have ok: "pager_ok fl p" "tree_ok (in_use fl p) 0 ?t" "ucast (roots p ! slot) = i" "slot < length (roots p)"
  proof -
    obtain h where "tree_ok (in_use fl p) h ?t" using bt by (auto simp: btree_def)
    moreover then have "h = 0" by (cases h) (simp_all add: tree_ok_def)
    ultimately show "tree_ok (in_use fl p) 0 ?t" by simp
  qed (use bt in \<open>auto simp: btree_def\<close>)
  have root: "bt_root slot p = Inr i" "i \<noteq> 0" using bt_root_btree(2) [OF bt] by simp_all
  have at: "node_at (in_use fl p) i (node_of ?t)" using ok(2) by (simp add: tree_ok_def)
  obtain q where q: "read_node i p = Inr (node_of ?t, q)" "calm fl p q" using read_node_ok [OF ok(1) at] by blast
  have qk: "pager_ok fl q" "in_use fl q = in_use fl p" "roots q = roots p" "page_count q = page_count p" using q(2) by (simp_all add: calm_def)
  have used: "in_use fl q i \<noteq> None" using at qk(2) by (auto simp: node_at_def)
  have asc0: "ascending (map fst es)" using ok(2) ascending_keys by (simp add: tree_ok_def)
  have put: "leaf_put key val (node_of ?t) = node_of (BL i 0 es')" unfolding es by (rule leaf_put_node [OF asc0])
  have rec: "insert_rec i key val p = Some (insert_leaf i key val (node_of ?t) q)" unfolding insert_rec.simps [of i] q(1) by simp
  have eq: "bt_insert slot key val p = Some (res_bind (insert_leaf i key val (node_of ?t) q) (\<lambda>(split, p1). case split of None \<Rightarrow> Inr p1
      | Some (sep, right) \<Rightarrow> new_root slot (\<lambda>_. \<lparr>nd_leaf = False, nd_link = i, nd_keys = [sep], nd_vals = [], nd_children = [right]\<rparr>) p1))"
    unfolding new_root_def using sz root rec by (simp add: bt_insert_def)
  show "\<exists>q. bt_insert slot key val p = Some (Inr q) \<and> btree fl q slot (Some (BL i 0 es')) \<and> page_count q = page_count p"
    if fit: "7 + sum_list (map esz es') \<le> PAGE_SIZE"
  proof -
    have f: "fits (node_of (BL i 0 es'))" using fit unfolding leaf_size .
    obtain r where r: "write_node i (node_of (BL i 0 es')) q = Inr r" "pager_ok fl r" "written (in_use fl q) (in_use fl r) [(i, node_of (BL i 0 es'))]"
      "roots r = roots q" "page_count r = page_count q" using write_one [OF qk(1) used parallel_node_of f] by blast
    have "insert_leaf i key val (node_of ?t) q = Inr (None, r)" unfolding insert_leaf_def put Let_def using f r(1) by simp
    moreover have "ascending (map fst es')" using bm_wf_insert [of es key val] asc0 by (simp add: bm_wf_def es)
    then have "tree_ok (in_use fl r) 0 (BL i 0 es')" using r(3) ascending_keys [of i 0 es'] by (simp add: tree_ok_def written_def)
    then have "btree fl r slot (Some (BL i 0 es'))" using r(2,4) qk(3) ok(3,4) by (auto simp: btree_def)
    ultimately show ?thesis using eq r(5) qk(4) by simp
  qed
  show "bt_insert slot key val p = Some (Inl Panic)"
    if big: "\<not> 7 + sum_list (map esz es') \<le> PAGE_SIZE" "\<not> 7 + sum_list (map esz (drop (length es' div 2) es')) \<le> PAGE_SIZE" and room: "room 1 p"
  proof -
    have f: "\<not> fits (node_of (BL i 0 es'))" using big(1) unfolding leaf_size .
    have "alloc_room q" using room qk(4) by (simp add: room_def alloc_room_def)
    then obtain j r fl' where a: "alloc q = Inr (j, r)" using alloc_page [OF qk(1)] by blast
    let ?m = "length es' div 2"
    have "\<not> fits (node_of (BL j 0 (drop ?m es')))" using big(2) unfolding leaf_size .
    then have w: "write_node j (node_of (BL j 0 (drop ?m es'))) r = Inl Panic" by (rule write_node_panic [OF parallel_node_of])
    have "es' \<noteq> []" using big(1) by (auto simp: PAGE_SIZE_def)
    then have "?m < length es'" by (simp add: div_less_dividend)
    then have "drop ?m es' \<noteq> []" by simp
    then have "insert_leaf i key val (node_of ?t) q = Inl Panic"
      unfolding insert_leaf_def put Let_def using f a w by (simp add: split_leaf_def Let_def lift_err_def drop_map)
    then show ?thesis using eq by simp
  qed
qed

lemma fresh_roots: "roots (fresh_pager cap) = replicate NROOTS 0"
  by (simp add: fresh_pager_def Let_def)

lemma fresh_btree: "slot < NROOTS \<Longrightarrow> btree [] (fresh_pager cap) slot None"
  by (simp add: btree_def fresh_pager_ok(1) fresh_roots)

section \<open>Properties\<close>

text \<open>
  C8. Insertion into a B+ tree whose entries are small (key and value together at most 121 bytes) always succeeds while the file has fewer
  than \<open>2 ^ 31\<close> pages: it returns, the tree in the slot is again a well-formed B+ tree, its entries are the old ones with the key
  set to the value, and the pages and roots of everything else in the file are unchanged.
\<close>

theorem bt_insert_small:
  assumes "btree fl p slot ot" and "small_bt ot" and "small key val" and "unat (page_count p) < 2 ^ 31"
  shows "\<exists>q fl' ot'. bt_insert slot key val p = Some (Inr q) \<and> btree fl' q slot ot' \<and> small_bt ot' \<and>
    bt_entries ot' = bm_insert key val (bt_entries ot) \<and> others_same fl p slot ot fl' q ot'"
proof -
  have "7 + 2 + length key + 2 + length val \<le> PAGE_SIZE" using assms(3) by (simp add: small_def PAGE_SIZE_def)
  from bt_insert_spec [OF assms(1) this] obtain r where r: "bt_insert slot key val p = Some r"
    "\<forall>e. r = Inl e \<longrightarrow> \<not> (unat (page_count p) < 2 ^ 31 \<and> small key val \<and> small_bt ot)" "\<forall>q. r = Inr q \<longrightarrow> inserted fl p slot key val ot q" by blast
  then obtain q where "r = Inr q" using assms(2-4) by (cases r) auto
  then show ?thesis using r(1,3) assms(2,3) unfolding inserted_def by blast
qed

theorem bt_insert_small_witness:
  "\<exists>q fl' ot'. bt_insert 0 [1] [2] (fresh_pager 8) = Some (Inr q) \<and> btree fl' q 0 ot' \<and> small_bt ot' \<and>
    bt_entries ot' = bm_insert [1] [2] (bt_entries None) \<and> others_same [] (fresh_pager 8) 0 None fl' q ot'"
  by (rule bt_insert_small [OF fresh_btree]) (simp_all add: NROOTS_def small_bt_def small_def fresh_pager_ok(3))

text \<open>
  C11. Insertion of any key and value returns, and never corrupts: an entry that cannot fit a page is refused with an error before any
  page is touched; otherwise, whenever the call reports success, the tree is well-formed with exactly the key set to the value, and the rest
  of the file is unchanged. (It may still fail: see the split below.)
\<close>

theorem bt_insert_safe:
  assumes "btree fl p slot ot"
  shows "\<exists>r. bt_insert slot key val p = Some r \<and>
    (if 11 + length key + length val > PAGE_SIZE then r = Inl (Err (too_large key val))
     else case r of Inl e \<Rightarrow> True | Inr q \<Rightarrow> \<exists>fl' ot'. btree fl' q slot ot' \<and> bt_entries ot' = bm_insert key val (bt_entries ot) \<and> others_same fl p slot ot fl' q ot')"
proof (cases "11 + length key + length val > PAGE_SIZE")
  case True
  then show ?thesis by (simp add: bt_insert_def)
next
  case False
  then have "7 + 2 + length key + 2 + length val \<le> PAGE_SIZE" by simp
  from bt_insert_spec [OF assms this] obtain r where r: "bt_insert slot key val p = Some r" "\<forall>q. r = Inr q \<longrightarrow> inserted fl p slot key val ot q" by blast
  then have "case r of Inl e \<Rightarrow> True | Inr q \<Rightarrow> \<exists>fl' ot'. btree fl' q slot ot' \<and> bt_entries ot' = bm_insert key val (bt_entries ot) \<and> others_same fl p slot ot fl' q ot'"
    by (cases r) (auto simp: inserted_def)
  then show ?thesis using r(1) False by auto
qed

theorem bt_insert_safe_witness:
  "\<exists>r. bt_insert 0 [] (replicate 4086 0) (fresh_pager 8) = Some r \<and>
    (if 11 + length ([] :: bytes) + length (replicate 4086 (0 :: u8)) > PAGE_SIZE then r = Inl (Err (too_large [] (replicate 4086 0)))
     else case r of Inl e \<Rightarrow> True | Inr q \<Rightarrow> \<exists>fl' ot'. btree fl' q 0 ot' \<and> bt_entries ot' = bm_insert [] (replicate 4086 0) (bt_entries None) \<and>
       others_same [] (fresh_pager 8) 0 None fl' q ot')"
  by (rule bt_insert_safe [OF fresh_btree]) (simp add: NROOTS_def)

text \<open>
  C32. A leaf is split by the number of its entries, not by their size: four entries that each fit a page, inserted in order into a new
  tree, make the fourth insertion panic, because the right half does not fit its page.
\<close>

theorem split_leaf_panics:
  "\<exists>p1 p2 p3. bt_insert 0 [1] [] (fresh_pager 8) = Some (Inr p1) \<and> bt_insert 0 [2] [] p1 = Some (Inr p2) \<and>
    bt_insert 0 [3] (replicate 3000 0) p2 = Some (Inr p3) \<and> bt_insert 0 [4] (replicate 3000 0) p3 = Some (Inl Panic)"
proof -
  define v :: bytes where "v = replicate 3000 0"
  have lv: "length v = 3000" by (simp add: v_def)
  have bt0: "btree [] (fresh_pager 8) 0 None" by (rule fresh_btree) (simp add: NROOTS_def)
  have room0: "alloc_room (fresh_pager 8)" by (simp add: alloc_room_def fresh_pager_ok(3))
  obtain i fl p1 where 1: "bt_insert 0 [1] [] (fresh_pager 8) = Some (Inr p1)" "btree fl p1 0 (Some (BL i 0 [([1], [])]))"
      "unat (page_count p1) \<le> Suc (unat (page_count (fresh_pager 8)))"
    using first_insert [OF bt0 _ room0, of "[1]" "[]"] by (auto simp: PAGE_SIZE_def)
  have l: "[1] < [2 :: u8]" "[1] < [3 :: u8]" "[2] < [3 :: u8]" "[1] < [4 :: u8]" "[2] < [4 :: u8]" "[3] < [4 :: u8]" by simp_all
  have i2: "[([1], []), ([2], [])] = bm_insert [2] ([] :: bytes) [([1 :: u8], [])]" using l by simp
  obtain p2 where 2: "bt_insert 0 [2] [] p1 = Some (Inr p2)" "btree fl p2 0 (Some (BL i 0 [([1], []), ([2], [])]))" "page_count p2 = page_count p1"
    using leaf_root_insert(1) [OF 1(2) _ i2] by (auto simp: PAGE_SIZE_def esz_def lv)
  have i3: "[([1], []), ([2], []), ([3], v)] = bm_insert [3] v [([1 :: u8], []), ([2], [])]" using l by simp
  obtain p3 where 3: "bt_insert 0 [3] v p2 = Some (Inr p3)" "btree fl p3 0 (Some (BL i 0 [([1], []), ([2], []), ([3], v)]))" "page_count p3 = page_count p2"
    using leaf_root_insert(1) [OF 2(2) _ i3] by (auto simp: PAGE_SIZE_def esz_def lv)
  have i4: "[([1], []), ([2], []), ([3], v), ([4], v)] = bm_insert [4] v [([1 :: u8], []), ([2], []), ([3], v)]" using l by simp
  have "bt_insert 0 [4] v p3 = Some (Inl Panic)"
    by (rule leaf_root_insert(2) [OF 3(2) _ i4])
      (use 1(3) 2(3) 3(3) in \<open>simp_all add: PAGE_SIZE_def esz_def room_def fresh_pager_ok(3) lv\<close>)
  then show ?thesis using 1(1) 2(1) 3(1) unfolding v_def by blast
qed

end
