(* ===== verification/BpDelete.thy ===== *)
theory BpDelete
  imports BpInsert
begin

text \<open>
  Deletion from the B+ tree: an underfull child borrows from a sibling or is merged with it. A repair replaces two neighbouring children by two
  or by one; the entries and their order stay. The result is right whenever the operation returns, and it returns for trees whose keys
  have one length, as the triple indexes have; with keys of different lengths a borrow can overflow the parent.
\<close>

section \<open>Two siblings become two or one\<close>

lemma written_keep: "written u u' ns \<Longrightarrow> j \<notin> fst ` set ns \<Longrightarrow> u' j = u j"
  by (simp add: written_def)

text \<open>Entries move between two leaves.\<close>

lemma pair_leaves:
  assumes ok: "fok u 0 [(None, BL i1 l1 es1), (Some sep, BL i2 l2 es2)]" and es: "es1' @ es2' = es1 @ es2" "es1' \<noteq> []" "es2' \<noteq> []"
    and w: "written u u' [(i1, node_of (BL i1 l1 es1')), (i2, node_of (BL i2 l2 es2'))]" and sep': "sep' = fst (hd es2')"
  shows "fok u' 0 [(None, BL i1 l1 es1'), (Some sep', BL i2 l2 es2')]"
    "fchg u u' key [(None, BL i1 l1 es1), (Some sep, BL i2 l2 es2)] [(None, BL i1 l1 es1'), (Some sep', BL i2 l2 es2')]"
proof -
  let ?T = "\<lambda>es :: (bytes \<times> bytes) list. map (\<lambda>e. (fst e, True)) es"
  have ij: "i1 \<noteq> i2" using ok by (simp add: fok_def)
  have asc: "ascending (?T es1 @ (sep, False) # ?T es2)" using ok by (simp add: fok_def)
  then have "ascending (?T es1 @ ?T es2)" by (simp add: sorted_wrt_append)
  then have asc': "ascending (?T es1' @ ?T es2')" using es(1) by (simp flip: map_append)
  obtain e b where b: "es2' = e # b" "fst e = sep'" using es(3) sep' by (cases es2') auto
  have lt: "\<forall>x \<in> set es1'. fst x < sep'" using asc' b by (auto simp: sorted_wrt_append)
  have "\<forall>y \<in> set es2'. sep' \<le> fst y" using asc' b by (auto simp: sorted_wrt_append)
  then have tk: "ascending (?T es1' @ (sep', False) # ?T es2')" using asc' lt by (auto simp: sorted_wrt_append less_prod_def)
  then show "fok u' 0 [(None, BL i1 l1 es1'), (Some sep', BL i2 l2 es2')]" using w ij by (auto simp: fok_def written_def)
  have T: "set (?T es1') \<union> set (?T es2') \<subseteq> insert (key, True) (set (?T es1 @ (sep, False) # ?T es2))"
    using arg_cong [OF es(1), of "\<lambda>es. set (?T es)"] by auto
  obtain x where x: "x \<in> set es1'" using es(2) by (cases es1') auto
  have "within key (?T es1 @ (sep, False) # ?T es2) (?T es1' @ (sep', False) # ?T es2')"
  proof (rule within_sep [OF T])
    show "(fst x, True) \<in> insert (key, True) (set (?T es1 @ (sep, False) # ?T es2))" by (rule subsetD [OF T]) (use x in auto)
    show "(sep', True) \<in> insert (key, True) (set (?T es1 @ (sep, False) # ?T es2))" by (rule subsetD [OF T]) (use b in auto)
    show "(fst x, True) < (sep', False)" "(sep', False) < (sep', True)" using lt x by (auto simp: less_prod_def)
  qed
  moreover have "fst ` set (?T es1' @ (sep', False) # ?T es2') \<subseteq> insert key (fst ` set (?T es1 @ (sep, False) # ?T es2))"
    using image_mono [OF T, of fst] b by auto
  moreover have "\<forall>j. j \<noteq> i1 \<and> j \<noteq> i2 \<longrightarrow> u' j = u j" using w by (auto simp: written_def)
  ultimately show "fchg u u' key [(None, BL i1 l1 es1), (Some sep, BL i2 l2 es2)] [(None, BL i1 l1 es1'), (Some sep', BL i2 l2 es2')]"
    by (simp add: fchg_def)
qed

text \<open>Forests with the same trees in the same order.\<close>

lemma same_trees:
  assumes "map snd ts = map snd us"
  shows "fpages ts = fpages us" "fentries ts = fentries us" "fleaves ts = fleaves us" "snd ` set ts = snd ` set us"
proof -
  have c: "concat (map (\<lambda>x. f (snd x)) xs) = concat (map f (map snd xs))" for f :: "bt \<Rightarrow> 'b list" and xs :: forest by (simp add: comp_def)
  show "fpages ts = fpages us" unfolding fpages_def c assms ..
  show "fentries ts = fentries us" unfolding fentries_def c assms ..
  show "fleaves ts = fleaves us" unfolding fleaves_def c assms ..
  show "snd ` set ts = snd ` set us" using arg_cong [OF assms, of set] by simp
qed

text \<open>Children move between two inner nodes.\<close>

lemma pair_inner:
  assumes ok: "fok u (Suc h) [(None, BN i1 ts1), (Some sep, BN i2 ts2)]" and same: "map snd (ts1' @ ts2') = map snd (ts1 @ ts2)"
    and tk: "ftoks ts1' @ (sep', False) # ftoks ts2' = ftoks ts1 @ (sep, False) # ftoks ts2" and kids: "kids_ok ts1'" "kids_ok ts2'"
    and w: "written u u' [(i1, node_of (BN i1 ts1')), (i2, node_of (BN i2 ts2'))]"
  shows "fok u' (Suc h) [(None, BN i1 ts1'), (Some sep', BN i2 ts2')]"
    "fchg u u' key [(None, BN i1 ts1), (Some sep, BN i2 ts2)] [(None, BN i1 ts1'), (Some sep', BN i2 ts2')]"
proof -
  note st = same_trees [OF same]
  have dis: "distinct (i1 # fpages ts1 @ i2 # fpages ts2)" using ok by (simp add: fok_def)
  have pg: "fpages ts1' @ fpages ts2' = fpages ts1 @ fpages ts2" using st(1) by simp
  then have pset: "set (fpages ts1') \<union> set (fpages ts2') = set (fpages ts1) \<union> set (fpages ts2)" by (metis set_append)
  have dis': "distinct (i1 # fpages ts1' @ i2 # fpages ts2')"
  proof -
    have "distinct (fpages ts1' @ fpages ts2')" unfolding pg using dis by auto
    then show ?thesis using dis pset by auto
  qed
  have kid: "holds u' c \<and> bal h c" if c: "c \<in> snd ` set (ts1' @ ts2')" for c
  proof -
    obtain x where x: "x \<in> set (ts1 @ ts2)" "c = snd x" using c unfolding st(4) by blast
    then have "holds u c" "bal h c" using ok by (auto simp: fok_def)
    moreover have "u' j = u j" if "j \<in> set (pages c)" for j
    proof -
      have "j \<in> set (fpages (ts1 @ ts2))" using mem_fpages [OF x(1), of j] x(2) that by simp
      then have "j \<noteq> i1" "j \<noteq> i2" using dis by auto
      then show ?thesis using w by (simp add: written_def)
    qed
    ultimately show ?thesis using holds_mono by blast
  qed
  have asc: "ascending (ftoks [(None, BN i1 ts1), (Some sep, BN i2 ts2)])" using ok by (simp add: fok_def)
  have ft: "ftoks [(None, BN i1 ts1'), (Some sep', BN i2 ts2')] = ftoks [(None, BN i1 ts1), (Some sep, BN i2 ts2)]" using tk by simp
  show "fok u' (Suc h) [(None, BN i1 ts1'), (Some sep', BN i2 ts2')]"
    unfolding fok_def using asc ft dis' kids kid w by (simp add: written_def)
  have "\<forall>j. j \<noteq> i1 \<and> j \<noteq> i2 \<longrightarrow> u' j = u j" using w by (auto simp: written_def)
  moreover have "fleaves ts1' @ fleaves ts2' = fleaves ts1 @ fleaves ts2" using st(3) by simp
  ultimately show "fchg u u' key [(None, BN i1 ts1), (Some sep, BN i2 ts2)] [(None, BN i1 ts1'), (Some sep', BN i2 ts2')]"
    using ft pset within_refl [of key] by (auto simp: fchg_def)
qed

text \<open>A sibling is merged into its left neighbour and its page freed.\<close>

lemma merge_leaves:
  assumes ok: "fok u 0 [(None, BL i1 l1 es1), (Some sep, BL i2 l2 es2)]" and w: "written u u' [(i1, node_of (BL i1 l2 (es1 @ es2)))]"
  shows "fok (u'(i2 := None)) 0 [(None, BL i1 l2 (es1 @ es2))]"
    "fchg u (u'(i2 := None)) key [(None, BL i1 l1 es1), (Some sep, BL i2 l2 es2)] [(None, BL i1 l2 (es1 @ es2))]"
proof -
  have ij: "i1 \<noteq> i2" using ok by (simp add: fok_def)
  show "fok (u'(i2 := None)) 0 [(None, BL i1 l2 (es1 @ es2))]" using ok w ij by (auto simp: fok_def written_def node_at_def sorted_wrt_append)
  have "\<forall>j. j \<noteq> i1 \<longrightarrow> u' j = u j" using w by (auto simp: written_def)
  then show "fchg u (u'(i2 := None)) key [(None, BL i1 l1 es1), (Some sep, BL i2 l2 es2)] [(None, BL i1 l2 (es1 @ es2))]"
    by (auto simp: fchg_def within_def)
qed

lemma merge_inner:
  assumes ok: "fok u (Suc h) [(None, BN i1 ts1), (Some sep, BN i2 ((None, c) # ts2))]" and w: "written u u' [(i1, node_of (BN i1 (ts1 @ (Some sep, c) # ts2)))]"
  shows "fok (u'(i2 := None)) (Suc h) [(None, BN i1 (ts1 @ (Some sep, c) # ts2))]"
    "fchg u (u'(i2 := None)) key [(None, BN i1 ts1), (Some sep, BN i2 ((None, c) # ts2))] [(None, BN i1 (ts1 @ (Some sep, c) # ts2))]"
proof -
  let ?ts = "ts1 @ (Some sep, c) # ts2"
  have dis: "distinct (i1 # fpages ts1 @ i2 # pages c @ fpages ts2)" using ok by (simp add: fok_def)
  have kid: "holds (u'(i2 := None)) (snd x) \<and> bal h (snd x)" if x: "x \<in> set ?ts" for x
  proof -
    have "holds u (snd x)" "bal h (snd x)" using ok x by (auto simp: fok_def)
    moreover have "(u'(i2 := None)) j = u j" if "j \<in> set (pages (snd x))" for j
    proof -
      have "j \<in> set (fpages ?ts)" by (rule mem_fpages [OF x that])
      then have "j \<noteq> i1" "j \<noteq> i2" using dis by auto
      then show ?thesis using w by (simp add: written_def)
    qed
    ultimately show ?thesis using holds_mono by blast
  qed
  have kids: "kids_ok ?ts" using ok by (cases ts1) (auto simp: fok_def kids_ok_def)
  have at: "node_at (u'(i2 := None)) i1 (node_of (BN i1 ?ts))" using w dis by (simp add: written_def node_at_def)
  show "fok (u'(i2 := None)) (Suc h) [(None, BN i1 ?ts)]"
    unfolding fok_def using ok dis kid kids at by (auto simp: fok_def)
  have "\<forall>j. j \<noteq> i1 \<longrightarrow> u' j = u j" using w by (auto simp: written_def)
  then show "fchg u (u'(i2 := None)) key [(None, BN i1 ts1), (Some sep, BN i2 ((None, c) # ts2))] [(None, BN i1 ?ts)]"
    using within_refl [of key] by (auto simp: fchg_def)
qed

section \<open>The parent of a repair\<close>

definition reb_ok :: "PageId list \<Rightarrow> Pager \<Rightarrow> nat \<Rightarrow> PageId \<Rightarrow> forest \<Rightarrow> bytes \<Rightarrow> Pager \<Rightarrow> bool" where
  "reb_ok fl p h i ts key q \<longleftrightarrow> (\<exists>fl' ts'. pager_ok fl' q \<and> roots q = roots p \<and> tree_ok (in_use fl' q) (Suc h) (BN i ts') \<and>
     fchg (in_use fl p) (in_use fl' q) key [(None, BN i ts)] [(None, BN i ts')] \<and> fentries ts' = fentries ts)"

text \<open>The key belongs to the run of children between \<open>A\<close> and \<open>B\<close> that starts at separator \<open>ko\<close>.\<close>

definition route :: "bytes \<Rightarrow> forest \<Rightarrow> bytes option \<Rightarrow> forest \<Rightarrow> bool" where
  "route key A ko B \<longleftrightarrow> (\<forall>x \<in> set (ftoks A) \<union> set (sep_tok ko). x < (key, True)) \<and> (\<forall>x \<in> set (ftoks B). (key, True) < x)"

lemma parent_rewrite:
  assumes tok: "tree_ok (in_use fl p) (Suc h) (BN i (A @ (ko, x) # cs @ B))" and pk: "pager_ok fl1 p1" "roots p1 = roots p"
    and cok: "fok (in_use fl1 p1) h ((None, x') # rest)" and chg: "fchg (in_use fl p) (in_use fl1 p1) key ((None, x) # cs) ((None, x') # rest)"
    and rest: "\<forall>y \<in> set rest. fst y \<noteq> None" and ent: "fentries ((None, x') # rest) = fentries ((None, x) # cs)"
    and route: "route key A ko B" and fit: "fits (node_of (BN i (A @ (ko, x') # rest @ B)))"
  shows "\<exists>q. write_node i (node_of (BN i (A @ (ko, x') # rest @ B))) p1 = Inr q \<and> reb_ok fl p h i (A @ (ko, x) # cs @ B) key q"
proof -
  let ?ts = "A @ (ko, x) # cs @ B" and ?ts' = "A @ (ko, x') # rest @ B"
  have fo: "fok (in_use fl p) h ?ts" and kids: "kids_ok ?ts" and i: "i \<notin> set (fpages ?ts)" and "node_at (in_use fl p) i (node_of (BN i ?ts))"
    using tok by (simp_all add: tree_ok_def fok_def)
  then have ui: "in_use fl p i \<noteq> None" by (auto simp: node_at_def)
  have lo: "\<forall>x \<in> set (ftoks A) \<union> set (sep_tok ko). x < (key, True)" and hi: "\<forall>x \<in> set (ftoks B). (key, True) < x" using route by (simp_all add: route_def)
  note s = fsubst_run [OF fo cok chg lo hi]
  have u1i: "in_use fl1 p1 i \<noteq> None" using fchgD(2) [OF s(2) ui i] ui by simp
  have i': "i \<notin> set (fpages ?ts')" using fchgD(1) [OF s(2)] i ui by auto
  obtain q where q: "write_node i (node_of (BN i ?ts')) p1 = Inr q" "pager_ok fl1 q" "written (in_use fl1 p1) (in_use fl1 q) [(i, node_of (BN i ?ts'))]"
    "roots q = roots p1" using write_one [OF pk(1) u1i parallel_node_of fit] by blast
  have kids': "kids_ok ?ts'" using kids rest by (cases A) auto
  have "\<forall>x \<in> set ?ts'. holds (in_use fl1 q) (snd x) \<and> bal h (snd x)"
  proof (rule fok_keep [OF s(1)])
    fix j assume "j \<in> set (fpages ?ts')"
    then have "j \<noteq> i" using i' by auto
    then show "in_use fl1 q j = in_use fl1 p1 j" using q(3) by (simp add: written_def)
  qed
  moreover have "node_at (in_use fl1 q) i (node_of (BN i ?ts'))" using q(3) by (simp add: written_def)
  ultimately have "tree_ok (in_use fl1 q) (Suc h) (BN i ?ts')" using s(1) kids' i' unfolding tree_ok_def fok_def holds_node by (simp del: node_of.simps)
  moreover have "fchg (in_use fl p) (in_use fl1 q) key [(None, BN i ?ts)] [(None, BN i ?ts')]"
    by (rule fchg_parent [OF s(2)]) (use q(3) in \<open>auto simp: written_def\<close>)
  moreover have "fentries ?ts' = fentries ?ts" using ent by simp
  ultimately have "reb_ok fl p h i ?ts key q" unfolding reb_ok_def using q(2,4) pk(2) by metis
  then show ?thesis using q(1) by blast
qed

lemma parent_children: "ts \<noteq> [] \<Longrightarrow> children_vec (node_of (BN i ts)) = map (\<lambda>x. root_id (snd x)) ts"
  by (cases ts) (simp_all add: children_vec_def)

lemma parent_nodes:
  fixes A :: forest
  assumes "n = node_of (BN i (A @ (ko, x) # (Some sep, y) # B))"
  shows "nd_keys n ! length A = sep" "children_vec n ! length A = root_id x" "children_vec n ! Suc (length A) = root_id y"
    "length (children_vec n) = Suc (Suc (length A + length B))"
    "root_id x' = root_id x \<Longrightarrow> root_id y' = root_id y \<Longrightarrow>
      n\<lparr>nd_keys := (nd_keys n)[length A := sep']\<rparr> = node_of (BN i (A @ (ko, x') # (Some sep', y') # B))"
    "root_id x' = root_id x \<Longrightarrow>
      n\<lparr>nd_keys := vec_remove (length A) (nd_keys n), nd_children := vec_remove (length A) (nd_children n)\<rparr> = node_of (BN i (A @ (ko, x') # B))"
  using assms by (cases A; simp add: children_vec_def vec_remove_def nth_append list_update_append)+

text \<open>\<open>x, sep, y\<close> may become \<open>x', sep', y'\<close>.\<close>

definition good_pair :: "nat \<Rightarrow> bt \<Rightarrow> bytes \<Rightarrow> bt \<Rightarrow> bt \<Rightarrow> bytes \<Rightarrow> bt \<Rightarrow> bool" where
  "good_pair h x sep y x' sep' y' \<longleftrightarrow> root_id x' = root_id x \<and> root_id y' = root_id y \<and> fits (node_of x') \<and> fits (node_of y') \<and>
     entries x' @ entries y' = entries x @ entries y \<and> sep' \<in> fst ` set (ftoks [(None, x), (Some sep, y)]) \<and>
     (\<forall>u u' key. fok u h [(None, x), (Some sep, y)] \<longrightarrow> written u u' [(root_id x, node_of x'), (root_id y, node_of y')] \<longrightarrow>
        fok u' h [(None, x'), (Some sep', y')] \<and> fchg u u' key [(None, x), (Some sep, y)] [(None, x'), (Some sep', y')])"

lemma good_leaves:
  assumes "es1' @ es2' = es1 @ es2" "es1' \<noteq> []" "es2' \<noteq> []" "fits (node_of (BL i1 l1 es1'))" "fits (node_of (BL i2 l2 es2'))"
  shows "good_pair 0 (BL i1 l1 es1) sep (BL i2 l2 es2) (BL i1 l1 es1') (fst (hd es2')) (BL i2 l2 es2')"
proof -
  have "hd es2' \<in> set (es1 @ es2)" using assms(1,3) by (metis Un_iff hd_in_set set_append)
  then have "fst (hd es2') \<in> fst ` set (ftoks [(None, BL i1 l1 es1), (Some sep, BL i2 l2 es2)])" by (force simp: image_iff)
  then show ?thesis unfolding good_pair_def using assms pair_leaves [OF _ assms(1-3) _ refl] by (auto simp del: node_of.simps)
qed

lemma good_inner:
  assumes "map snd (ts1' @ ts2') = map snd (ts1 @ ts2)" "ftoks ts1' @ (sep', False) # ftoks ts2' = ftoks ts1 @ (sep, False) # ftoks ts2"
    "kids_ok ts1'" "kids_ok ts2'" "fits (node_of (BN i1 ts1'))" "fits (node_of (BN i2 ts2'))"
  shows "good_pair (Suc h) (BN i1 ts1) sep (BN i2 ts2) (BN i1 ts1') sep' (BN i2 ts2')"
proof -
  have "(sep', False) \<in> set (ftoks ts1 @ (sep, False) # ftoks ts2)" unfolding assms(2) [symmetric] by simp
  then have "sep' \<in> fst ` set (ftoks [(None, BN i1 ts1), (Some sep, BN i2 ts2)])" by force
  moreover have "fentries ts1' @ fentries ts2' = fentries ts1 @ fentries ts2" using same_trees(2) [OF assms(1)] by simp
  ultimately show ?thesis unfolding good_pair_def using assms(5,6) pair_inner [OF _ assms(1-4)] by (auto simp del: node_of.simps)
qed

lemma size_append: "sum_list (map f (xs @ ys)) = sum_list (map f xs) + (sum_list (map f ys) :: nat)"
  by simp

lemma borrow_left_nodes:
  assumes bal: "bal h x" "bal h y" and fit: "fits (node_of x)" and n: "n = node_of (BN i (A @ (ko, x) # (Some sep, y) # B))"
    and can: "can_borrow_left n (Suc (length A)) (node_of x) (node_of y)"
  shows "\<exists>x' sep' y'. move_left_to_child n (Suc (length A)) (node_of x) (node_of y) =
      (node_of (BN i (A @ (ko, x') # (Some sep', y') # B)), node_of x', node_of y') \<and> good_pair h x sep y x' sep' y'"
proof (cases h)
  case 0
  then obtain i1 l1 es1 i2 l2 es2 where xy: "x = BL i1 l1 es1" "y = BL i2 l2 es2" using bal bal_0 by blast
  have two: "2 \<le> length es1" using can by (simp add: can_borrow_left_def xy)
  then have ne: "es1 \<noteq> []" "butlast es1 \<noteq> []" by (cases es1 rule: rev_cases; auto)+
  have last: "es1 ! (length es1 - 1) = last es1" using ne(1) by (simp add: last_conv_nth)
  have "node_size (node_of y) + esz (last es1) \<le> PAGE_SIZE"
    using can last ne(1) by (simp add: can_borrow_left_def xy boundary_bytes_def Let_def esz_def)
  then have fy: "fits (node_of (BL i2 l2 (last es1 # es2)))" unfolding xy leaf_size by simp
  have "sum_list (map esz (butlast es1 @ [last es1])) = sum_list (map esz es1)" using ne(1) by simp
  then have fx: "fits (node_of (BL i1 l1 (butlast es1)))" using fit unfolding xy leaf_size by simp
  let ?x = "BL i1 l1 (butlast es1)" and ?y = "BL i2 l2 (last es1 # es2)"
  have "good_pair 0 x sep y ?x (fst (hd (last es1 # es2))) ?y" unfolding xy by (rule good_leaves) (use ne fx fy in simp_all)
  then have "good_pair h x sep y ?x (fst (last es1)) ?y" by (simp add: 0)
  moreover have "move_left_to_child n (Suc (length A)) (node_of x) (node_of y) = (node_of (BN i (A @ (ko, ?x) # (Some (fst (last es1)), ?y) # B)), node_of ?x, node_of ?y)"
    unfolding move_left_to_child_def
    using parent_nodes(5) [OF n, of ?x ?y "fst (last es1)"] ne(1) by (simp add: xy Let_def last_map map_butlast)
  ultimately show ?thesis by blast
next
  case (Suc h')
  then obtain i1 ts1 i2 ts2 where xy: "x = BN i1 ts1" "y = BN i2 ts2" using bal bal_Suc by blast
  have kids: "kids_ok ts1" "kids_ok ts2" using bal by (simp_all add: Suc xy)
  have "2 \<le> length (tl ts1)" using conjunct1 [OF can [unfolded can_borrow_left_def]] by (simp add: xy)
  then obtain z zs c where ts1: "ts1 = z # zs @ [c]" "zs \<noteq> []" by (cases ts1; cases "tl ts1" rule: rev_cases) (auto simp: Suc_le_eq)
  then obtain lk u where c: "c = (Some lk, u)" using kids(1) by (cases c) auto
  obtain w us where ts2: "ts2 = (None, w) # us" using kids(2) by (cases ts2) (auto simp: kids_ok_def)
  let ?x = "BN i1 (z # zs)" and ?y = "BN i2 ((None, u) # (Some sep, w) # us)"
  have "node_size (node_of y) + (6 + length sep) \<le> PAGE_SIZE"
    using can parent_nodes(1) [OF n] by (simp add: can_borrow_left_def xy Let_def)
  then have fy: "fits (node_of ?y)" unfolding xy inner_size by (simp add: ts2 ksz_def)
  have fx: "fits (node_of ?x)" using fit unfolding xy inner_size by (simp add: ts1)
  have "good_pair (Suc h') x sep y ?x lk ?y" unfolding xy
    by (rule good_inner) (use kids fx fy in \<open>simp_all add: ts1 ts2 c\<close>)
  moreover have "move_left_to_child n (Suc (length A)) (node_of x) (node_of y) = (node_of (BN i (A @ (ko, ?x) # (Some lk, ?y) # B)), node_of ?x, node_of ?y)"
    unfolding move_left_to_child_def using parent_nodes(5) [OF n, of ?x ?y lk] parent_nodes(1) [OF n] ts1(2)
    by (simp add: xy ts1 ts2 c Let_def children_vec_def set_children_vec_def butlast_append)
  ultimately show ?thesis using Suc by blast
qed

lemma borrow_right_nodes:
  assumes bal: "bal h x" "bal h y" and fit: "fits (node_of y)" and n: "n = node_of (BN i (A @ (ko, x) # (Some sep, y) # B))"
    and can: "can_borrow_right n (length A) (node_of x) (node_of y)"
  shows "\<exists>x' sep' y'. move_right_to_child n (length A) (node_of x) (node_of y) =
      (node_of (BN i (A @ (ko, x') # (Some sep', y') # B)), node_of x', node_of y') \<and> good_pair h x sep y x' sep' y'"
proof (cases h)
  case 0
  then obtain i1 l1 es1 i2 l2 es2 where xy: "x = BL i1 l1 es1" "y = BL i2 l2 es2" using bal bal_0 by blast
  have "2 \<le> length es2" using can by (simp add: can_borrow_right_def xy)
  then obtain e f es where es2: "es2 = e # f # es" by (cases es2; cases "tl es2") auto
  have "node_size (node_of x) + esz e \<le> PAGE_SIZE"
    using can by (simp add: can_borrow_right_def xy boundary_bytes_def Let_def esz_def es2)
  then have fx: "fits (node_of (BL i1 l1 (es1 @ [e])))" unfolding xy leaf_size by simp
  have fy: "fits (node_of (BL i2 l2 (f # es)))" using fit unfolding xy leaf_size by (simp add: es2)
  let ?x = "BL i1 l1 (es1 @ [e])" and ?y = "BL i2 l2 (f # es)"
  have "good_pair 0 x sep y ?x (fst (hd (f # es))) ?y" unfolding xy by (rule good_leaves) (use fx fy in \<open>simp_all add: es2\<close>)
  then have "good_pair h x sep y ?x (fst f) ?y" by (simp add: 0)
  moreover have "move_right_to_child n (length A) (node_of x) (node_of y) = (node_of (BN i (A @ (ko, ?x) # (Some (fst f), ?y) # B)), node_of ?x, node_of ?y)"
    unfolding move_right_to_child_def using parent_nodes(5) [OF n, of ?x ?y "fst f"] by (simp add: xy es2 Let_def)
  ultimately show ?thesis by blast
next
  case (Suc h')
  then obtain i1 ts1 i2 ts2 where xy: "x = BN i1 ts1" "y = BN i2 ts2" using bal bal_Suc by blast
  have kids: "kids_ok ts1" "kids_ok ts2" using bal by (simp_all add: Suc xy)
  obtain z zs where ts1: "ts1 = z # zs" using kids(1) by (cases ts1) (auto simp: kids_ok_def)
  have "2 \<le> length (tl ts2)" using conjunct1 [OF can [unfolded can_borrow_right_def]] by (simp add: xy)
  then obtain w c us where ts2: "ts2 = w # c # us" by (cases ts2; cases "tl ts2") auto
  then obtain rk w2 where c: "c = (Some rk, w2)" using kids(2) by (cases c) auto
  obtain w1 where w: "w = (None, w1)" using kids(2) ts2 by (cases w) auto
  let ?x = "BN i1 (z # zs @ [(Some sep, w1)])" and ?y = "BN i2 ((None, w2) # us)"
  have "node_size (node_of x) + (6 + length sep) \<le> PAGE_SIZE"
    using can parent_nodes(1) [OF n] by (simp add: can_borrow_right_def xy Let_def)
  then have fx: "fits (node_of ?x)" unfolding xy inner_size by (simp add: ts1 ksz_def)
  have fy: "fits (node_of ?y)" using fit unfolding xy inner_size by (simp add: ts2)
  have "good_pair (Suc h') x sep y ?x rk ?y" unfolding xy
    by (rule good_inner) (use kids fx fy in \<open>simp_all add: ts1 ts2 c w\<close>)
  moreover have "move_right_to_child n (length A) (node_of x) (node_of y) = (node_of (BN i (A @ (ko, ?x) # (Some rk, ?y) # B)), node_of ?x, node_of ?y)"
    unfolding move_right_to_child_def using parent_nodes(5) [OF n, of ?x ?y rk] parent_nodes(1) [OF n]
    by (simp add: xy ts1 ts2 c w Let_def children_vec_def set_children_vec_def)
  ultimately show ?thesis using Suc by blast
qed

definition good_merge :: "nat \<Rightarrow> bt \<Rightarrow> bytes \<Rightarrow> bt \<Rightarrow> bt \<Rightarrow> bool" where
  "good_merge h x sep y m \<longleftrightarrow> root_id m = root_id x \<and> fits (node_of m) \<and> entries m = entries x @ entries y \<and>
     (\<forall>u u' key. fok u h [(None, x), (Some sep, y)] \<longrightarrow> written u u' [(root_id x, node_of m)] \<longrightarrow>
        fok (u'(root_id y := None)) h [(None, m)] \<and> fchg u (u'(root_id y := None)) key [(None, x), (Some sep, y)] [(None, m)])"

lemma leaf_bal: "bal h t \<Longrightarrow> nd_leaf (node_of t) \<longleftrightarrow> h = 0"
  by (cases t; cases h) auto

lemma merge_nodes:
  assumes bal: "bal h x" "bal h y" and n: "n = node_of (BN i (A @ (ko, x) # (Some sep, y) # B))"
    and can: "can_merge n (length A) c (node_of x) (node_of y)" and c: "nd_leaf c \<longleftrightarrow> h = 0"
  shows "\<exists>m. join_nodes (nd_leaf c) n (length A) (node_of x) (node_of y) = (node_of (BN i (A @ (ko, m) # B)), node_of m) \<and> good_merge h x sep y m"
proof (cases h)
  case 0
  then obtain i1 l1 es1 i2 l2 es2 where xy: "x = BL i1 l1 es1" "y = BL i2 l2 es2" using bal bal_0 by blast
  let ?m = "BL i1 l2 (es1 @ es2)"
  have "node_size (node_of x) + node_size (node_of y) - 7 \<le> PAGE_SIZE" using can c 0 by (simp add: can_merge_def)
  then have fit: "fits (node_of ?m)" unfolding xy leaf_size by simp
  then have "good_merge h x sep y ?m" unfolding good_merge_def xy 0 using merge_leaves by (auto simp del: node_of.simps)
  moreover have "join_nodes (nd_leaf c) n (length A) (node_of x) (node_of y) = (node_of (BN i (A @ (ko, ?m) # B)), node_of ?m)"
    using parent_nodes(6) [OF n, of ?m] c 0 by (simp add: join_nodes_def xy)
  ultimately show ?thesis by blast
next
  case (Suc h')
  then obtain i1 ts1 i2 ts2 where xy: "x = BN i1 ts1" "y = BN i2 ts2" using bal bal_Suc by blast
  have kids: "kids_ok ts1" "kids_ok ts2" using bal by (simp_all add: Suc xy)
  obtain z zs where ts1: "ts1 = z # zs" using kids(1) by (cases ts1) (auto simp: kids_ok_def)
  obtain w us where ts2: "ts2 = (None, w) # us" using kids(2) by (cases ts2) (auto simp: kids_ok_def)
  let ?m = "BN i1 (ts1 @ (Some sep, w) # us)"
  have "node_size (node_of x) + node_size (node_of y) - 1 + length sep \<le> PAGE_SIZE" using can c Suc parent_nodes(1) [OF n] by (simp add: can_merge_def)
  then have fit: "fits (node_of ?m)" unfolding xy inner_size by (simp add: ts1 ts2 ksz_def)
  then have "good_merge h x sep y ?m" unfolding good_merge_def xy Suc ts2 using merge_inner by (auto simp del: node_of.simps)
  moreover have "join_nodes (nd_leaf c) n (length A) (node_of x) (node_of y) = (node_of (BN i (A @ (ko, ?m) # B)), node_of ?m)"
    using parent_nodes(6) [OF n, of ?m] parent_nodes(1) [OF n] c Suc
    by (simp add: join_nodes_def xy ts1 ts2 children_vec_def set_children_vec_def)
  ultimately show ?thesis by blast
qed

section \<open>The repairs on pages\<close>

lemma read_two:
  assumes "pager_ok fl p" and "node_at (in_use fl p) i a" "node_at (in_use fl p) j b"
  obtains p1 p2 where "read_node i p = Inr (a, p1)" "read_node j p1 = Inr (b, p2)" "calm fl p p2"
proof -
  obtain p1 where p1: "read_node i p = Inr (a, p1)" "calm fl p p1" using read_node_ok [OF assms(1,2)] by blast
  then have "pager_ok fl p1" "node_at (in_use fl p1) j b" using assms(3) by (simp_all add: calm_def)
  then obtain p2 where "read_node j p1 = Inr (b, p2)" "calm fl p1 p2" using read_node_ok by blast
  then show thesis using that p1 calm_trans by blast
qed

definition uniform :: "forest \<Rightarrow> bool" where
  "uniform ts \<longleftrightarrow> (\<exists>K. \<forall>k \<in> fst ` set (ftoks ts). length k = K)"

lemma pair_parts:
  assumes "tree_ok u (Suc h) (BN i (A @ (ko, x) # (Some sep, y) # B))"
  shows "fok u h [(None, x), (Some sep, y)]" "bal h x" "bal h y" "node_at u (root_id x) (node_of x)" "node_at u (root_id y) (node_of y)"
    "node_at u i (node_of (BN i (A @ (ko, x) # (Some sep, y) # B)))" "root_id x \<noteq> root_id y"
proof -
  show fo: "fok u h [(None, x), (Some sep, y)]" using assms by (auto simp: tree_ok_def fok_def sorted_wrt_append)
  show "bal h x" "bal h y" using fo by (simp_all add: fok_def)
  have "t \<in> set (subs t)" for t by (cases t) auto
  then show "node_at u (root_id x) (node_of x)" "node_at u (root_id y) (node_of y)" using fo by (auto simp: fok_def holds_def)
  show "node_at u i (node_of (BN i (A @ (ko, x) # (Some sep, y) # B)))" using assms by (simp add: tree_ok_def)
  have "set (pages x) \<inter> set (pages y) = {}" using fo by (simp add: fok_def)
  then show "root_id x \<noteq> root_id y" by (metis IntI empty_iff root_in_pages)
qed

lemma pair_write:
  assumes tok: "tree_ok (in_use fl p) (Suc h) (BN i (A @ (ko, x) # (Some sep, y) # B))" and pk: "pager_ok fl p" and gp: "good_pair h x sep y x' sep' y'"
    and route: "route key A ko B"
  obtains p1 p2 where "write_node (root_id x) (node_of x') p = Inr p1" "write_node (root_id y) (node_of y') p1 = Inr p2"
    "(\<exists>q. write_node i (node_of (BN i (A @ (ko, x') # (Some sep', y') # B))) p2 = Inr q \<and> reb_ok fl p h i (A @ (ko, x) # (Some sep, y) # B) key q) \<or>
     (write_node i (node_of (BN i (A @ (ko, x') # (Some sep', y') # B))) p2 = Inl Panic \<and> \<not> uniform (A @ (ko, x) # (Some sep, y) # B))"
proof -
  let ?ts = "A @ (ko, x) # (Some sep, y) # B" and ?ts' = "A @ (ko, x') # (Some sep', y') # B"
  note pp = pair_parts [OF tok]
  have g: "root_id x' = root_id x" "root_id y' = root_id y" "fits (node_of x')" "fits (node_of y')" "entries x' @ entries y' = entries x @ entries y"
    "sep' \<in> fst ` set (ftoks [(None, x), (Some sep, y)])" using gp by (simp_all add: good_pair_def del: forest_Cons)
  have used: "in_use fl p (root_id x) \<noteq> None" "in_use fl p (root_id y) \<noteq> None" using pp(4,5) by (auto simp: node_at_def)
  obtain p1 p2 where w: "write_node (root_id x) (node_of x') p = Inr p1" "write_node (root_id y) (node_of y') p1 = Inr p2" "pager_ok fl p2"
      "written (in_use fl p) (in_use fl p2) [(root_id x, node_of x'), (root_id y, node_of y')]" "roots p2 = roots p"
    using write_two [OF pk used pp(7) parallel_node_of g(3) parallel_node_of g(4)] by blast
  have c: "fok (in_use fl p2) h [(None, x'), (Some sep', y')]" "fchg (in_use fl p) (in_use fl p2) key [(None, x), (Some sep, y)] [(None, x'), (Some sep', y')]"
    using gp pp(1) w(4) unfolding good_pair_def by blast+
  show thesis
  proof (cases "fits (node_of (BN i ?ts'))")
    case True
    have "\<exists>q. write_node i (node_of (BN i (A @ (ko, x') # [(Some sep', y')] @ B))) p2 = Inr q \<and> reb_ok fl p h i (A @ (ko, x) # [(Some sep, y)] @ B) key q"
      by (rule parent_rewrite [OF _ w(3,5) c _ _ route]) (use tok True g(5) in simp_all)
    then show thesis using that w(1,2) by simp
  next
    case False
    have "\<not> uniform ?ts"
    proof
      assume "uniform ?ts"
      then obtain K where K: "\<forall>k \<in> fst ` set (ftoks ?ts). length k = K" by (auto simp: uniform_def)
      have "length sep' = K" using K g(6) by auto
      moreover have "length sep = K" using K by auto
      ultimately have "sum_list (map ksz (tl ?ts')) = sum_list (map ksz (tl ?ts))" by (cases A) (simp_all add: ksz_def)
      moreover have "fits (node_of (BN i ?ts))" using pp(6) by (simp add: node_at_def)
      ultimately show False using False unfolding inner_size by simp
    qed
    then show thesis using that w(1,2) write_node_panic [OF parallel_node_of False] by blast
  qed
qed

lemma merge_write:
  assumes tok: "tree_ok (in_use fl p) (Suc h) (BN i (A @ (ko, x) # (Some sep, y) # B))" and pk: "pager_ok fl p" and gm: "good_merge h x sep y m"
    and route: "route key A ko B"
  obtains p1 p2 q where "write_node (root_id x) (node_of m) p = Inr p1" "free_page (root_id y) p1 = Inr p2"
    "write_node i (node_of (BN i (A @ (ko, m) # B))) p2 = Inr q" "reb_ok fl p h i (A @ (ko, x) # (Some sep, y) # B) key q"
proof -
  let ?ts = "A @ (ko, x) # (Some sep, y) # B" and ?ts' = "A @ (ko, m) # B"
  note pp = pair_parts [OF tok]
  have g: "root_id m = root_id x" "fits (node_of m)" "entries m = entries x @ entries y" using gm by (simp_all add: good_merge_def)
  have used: "in_use fl p (root_id x) \<noteq> None" "in_use fl p (root_id y) \<noteq> None" using pp(4,5) by (auto simp: node_at_def)
  obtain p1 where w: "write_node (root_id x) (node_of m) p = Inr p1" "pager_ok fl p1" "written (in_use fl p) (in_use fl p1) [(root_id x, node_of m)]" "roots p1 = roots p"
    using write_one [OF pk used(1) parallel_node_of g(2)] by blast
  have "in_use fl p1 (root_id y) \<noteq> None" using w(3) used(2) pp(7) by (simp add: written_def)
  then obtain p2 where f: "free_page (root_id y) p1 = Inr p2" "pager_ok (root_id y # fl) p2" "in_use (root_id y # fl) p2 = (in_use fl p1)(root_id y := None)" "roots p2 = roots p1"
    using free_node [OF w(2)] by blast
  have c: "fok (in_use (root_id y # fl) p2) h [(None, m)]" "fchg (in_use fl p) (in_use (root_id y # fl) p2) key [(None, x), (Some sep, y)] [(None, m)]"
    using gm pp(1) w(3) unfolding good_merge_def f(3) by blast+
  have "sum_list (map ksz (tl ?ts')) \<le> sum_list (map ksz (tl ?ts))" by (cases A) (simp_all add: ksz_def)
  then have fit: "fits (node_of (BN i ?ts'))" using pp(6) unfolding node_at_def inner_size by simp
  have "\<exists>q. write_node i (node_of (BN i (A @ (ko, m) # [] @ B))) p2 = Inr q \<and> reb_ok fl p h i (A @ (ko, x) # [(Some sep, y)] @ B) key q"
    by (rule parent_rewrite [OF _ f(2) _ c _ _ route]) (use tok fit g(3) f(4) w(4) in simp_all)
  then show thesis using that w(1) f(1) by auto
qed

text \<open>The outcome of one of the four attempts.\<close>

definition att :: "PageId list \<Rightarrow> Pager \<Rightarrow> nat \<Rightarrow> PageId \<Rightarrow> forest \<Rightarrow> bytes \<Rightarrow> fault + bool \<times> Pager \<Rightarrow> bool" where
  "att fl p h i ts key r \<longleftrightarrow> (case r of Inl e \<Rightarrow> \<not> uniform ts | Inr (d, q) \<Rightarrow> if d then reb_ok fl p h i ts key q else calm fl p q)"

lemma reb_calm: "calm fl p p1 \<Longrightarrow> reb_ok fl p1 h i ts key q \<Longrightarrow> reb_ok fl p h i ts key q"
  by (simp add: reb_ok_def calm_def)

lemma att_or_else:
  assumes "att fl p h i ts key r" and "\<And>p1. calm fl p p1 \<Longrightarrow> att fl p1 h i ts key (f p1)"
  shows "att fl p h i ts key (or_else r f)"
proof (cases r)
  case (Inr x)
  obtain d q where x: "x = (d, q)" by (cases x)
  show ?thesis
  proof (cases d)
    case False
    then have c: "calm fl p q" using assms(1) by (simp add: att_def Inr x)
    have "att fl p h i ts key (f q)" using assms(2) [OF c] reb_calm [OF c] calm_trans [OF c]
      by (auto simp: att_def split: sum.splits)
    then show ?thesis by (simp add: or_else_def Inr x False)
  qed (use assms(1) in \<open>simp add: or_else_def Inr x att_def\<close>)
qed (use assms(1) in \<open>simp add: or_else_def att_def\<close>)

lemma attI:
  assumes pk: "pager_ok fl p" and sib: "ex \<Longrightarrow> node_at (in_use fl p) s nd"
    and rep: "\<And>p1. ex \<Longrightarrow> calm fl p p1 \<Longrightarrow> guard nd \<Longrightarrow> \<exists>n' p2. repair p1 = Inr (n', p2) \<and>
      ((\<exists>q. write_node i n' p2 = Inr q \<and> reb_ok fl p1 h i ts key q) \<or> (write_node i n' p2 = Inl Panic \<and> \<not> uniform ts))"
  shows "att fl p h i ts key (try_sibling ex s guard repair i p)"
proof (cases ex)
  case False
  then show ?thesis using calm_refl [OF pk] by (simp add: try_sibling_def att_def)
next
  case True
  obtain p1 where p1: "read_node s p = Inr (nd, p1)" "calm fl p p1" using read_node_ok [OF pk sib [OF True]] by blast
  show ?thesis
  proof (cases "guard nd")
    case False
    then show ?thesis using True p1 by (simp add: try_sibling_def att_def)
  next
    case g: True
    obtain n' p2 where r: "repair p1 = Inr (n', p2)"
      "(\<exists>q. write_node i n' p2 = Inr q \<and> reb_ok fl p1 h i ts key q) \<or> (write_node i n' p2 = Inl Panic \<and> \<not> uniform ts)" using rep [OF True p1(2) g] by blast
    from r(2) show ?thesis
    proof
      assume "\<exists>q. write_node i n' p2 = Inr q \<and> reb_ok fl p1 h i ts key q"
      then obtain q where "write_node i n' p2 = Inr q" "reb_ok fl p1 h i ts key q" by blast
      then show ?thesis using True g p1 r(1) reb_calm [OF p1(2)] by (simp add: try_sibling_def att_def)
    next
      assume "write_node i n' p2 = Inl Panic \<and> \<not> uniform ts"
      then show ?thesis using True g p1(1) r(1) by (simp add: try_sibling_def att_def)
    qed
  qed
qed

lemma tree_calm: "calm fl p p1 \<Longrightarrow> tree_ok (in_use fl p) h t \<Longrightarrow> pager_ok fl p1 \<and> tree_ok (in_use fl p1) h t"
  by (simp add: calm_def)

lemma att_borrow_left:
  assumes tok: "tree_ok (in_use fl p) (Suc h) (BN i ts)" and ts: "ts = A @ (ko, x) # (Some sep, y) # B" and pk: "pager_ok fl p" and route: "route key A ko B"
    and n: "n = node_of (BN i ts)" and can: "can_borrow_left n (Suc (length A)) (node_of x) (node_of y)"
  shows "\<exists>n' p2. borrow_from_left n (Suc (length A)) p = Inr (n', p2) \<and>
      ((\<exists>q. write_node i n' p2 = Inr q \<and> reb_ok fl p h i ts key q) \<or> (write_node i n' p2 = Inl Panic \<and> \<not> uniform ts))"
proof -
  note pp = pair_parts [OF tok [unfolded ts]] and pn = parent_nodes [OF n [unfolded ts]]
  obtain x' sep' y' where m: "move_left_to_child n (Suc (length A)) (node_of x) (node_of y) = (node_of (BN i (A @ (ko, x') # (Some sep', y') # B)), node_of x', node_of y')"
    "good_pair h x sep y x' sep' y'" using borrow_left_nodes [OF pp(2,3) _ n [unfolded ts] can] pp(4) by (auto simp: node_at_def simp del: node_of.simps)
  obtain p1 p2 where r: "read_node (root_id x) p = Inr (node_of x, p1)" "read_node (root_id y) p1 = Inr (node_of y, p2)" "calm fl p p2"
    by (rule read_two [OF pk pp(4,5)])
  note tc = tree_calm [OF r(3) tok [unfolded ts]]
  obtain p3 p4 where w: "write_node (root_id x) (node_of x') p2 = Inr p3" "write_node (root_id y) (node_of y') p3 = Inr p4"
    "(\<exists>q. write_node i (node_of (BN i (A @ (ko, x') # (Some sep', y') # B))) p4 = Inr q \<and> reb_ok fl p2 h i (A @ (ko, x) # (Some sep, y) # B) key q) \<or>
     (write_node i (node_of (BN i (A @ (ko, x') # (Some sep', y') # B))) p4 = Inl Panic \<and> \<not> uniform (A @ (ko, x) # (Some sep, y) # B))"
    by (rule pair_write [OF conjunct2 [OF tc] conjunct1 [OF tc] m(2) route])
  have "borrow_from_left n (Suc (length A)) p = Inr (node_of (BN i (A @ (ko, x') # (Some sep', y') # B)), p4)"
    unfolding borrow_from_left_def Let_def diff_Suc_1 pn(2,3) using r(1,2) m(1) w(1,2) by (simp del: node_of.simps)
  then show ?thesis using w(3) reb_calm [OF r(3)] unfolding ts by blast
qed

lemma att_borrow_right:
  assumes tok: "tree_ok (in_use fl p) (Suc h) (BN i ts)" and ts: "ts = A @ (ko, x) # (Some sep, y) # B" and pk: "pager_ok fl p" and route: "route key A ko B"
    and n: "n = node_of (BN i ts)" and can: "can_borrow_right n (length A) (node_of x) (node_of y)"
  shows "\<exists>n' p2. borrow_from_right n (length A) p = Inr (n', p2) \<and>
      ((\<exists>q. write_node i n' p2 = Inr q \<and> reb_ok fl p h i ts key q) \<or> (write_node i n' p2 = Inl Panic \<and> \<not> uniform ts))"
proof -
  note pp = pair_parts [OF tok [unfolded ts]] and pn = parent_nodes [OF n [unfolded ts]]
  obtain x' sep' y' where m: "move_right_to_child n (length A) (node_of x) (node_of y) = (node_of (BN i (A @ (ko, x') # (Some sep', y') # B)), node_of x', node_of y')"
    "good_pair h x sep y x' sep' y'" using borrow_right_nodes [OF pp(2,3) _ n [unfolded ts] can] pp(5) by (auto simp: node_at_def simp del: node_of.simps)
  obtain p1 p2 where r: "read_node (root_id x) p = Inr (node_of x, p1)" "read_node (root_id y) p1 = Inr (node_of y, p2)" "calm fl p p2"
    by (rule read_two [OF pk pp(4,5)])
  note tc = tree_calm [OF r(3) tok [unfolded ts]]
  obtain p3 p4 where w: "write_node (root_id x) (node_of x') p2 = Inr p3" "write_node (root_id y) (node_of y') p3 = Inr p4"
    "(\<exists>q. write_node i (node_of (BN i (A @ (ko, x') # (Some sep', y') # B))) p4 = Inr q \<and> reb_ok fl p2 h i (A @ (ko, x) # (Some sep, y) # B) key q) \<or>
     (write_node i (node_of (BN i (A @ (ko, x') # (Some sep', y') # B))) p4 = Inl Panic \<and> \<not> uniform (A @ (ko, x) # (Some sep, y) # B))"
    by (rule pair_write [OF conjunct2 [OF tc] conjunct1 [OF tc] m(2) route])
  have "borrow_from_right n (length A) p = Inr (node_of (BN i (A @ (ko, x') # (Some sep', y') # B)), p4)"
    unfolding borrow_from_right_def Let_def Suc_eq_plus1 [symmetric] pn(2,3) using r(1,2) m(1) w(1,2) by (simp del: node_of.simps)
  then show ?thesis using w(3) reb_calm [OF r(3)] unfolding ts by blast
qed

lemma att_merge:
  assumes tok: "tree_ok (in_use fl p) (Suc h) (BN i ts)" and ts: "ts = A @ (ko, x) # (Some sep, y) # B" and pk: "pager_ok fl p" and route: "route key A ko B"
    and n: "n = node_of (BN i ts)" and can: "can_merge n (length A) c (node_of x) (node_of y)" and c: "c = node_of x \<or> c = node_of y"
  shows "\<exists>n' p2. merge_into_left n (Suc (length A)) p = Inr (n', p2) \<and> (\<exists>q. write_node i n' p2 = Inr q \<and> reb_ok fl p h i ts key q)"
    "\<exists>n' p2. merge_right_into n (length A) p = Inr (n', p2) \<and> (\<exists>q. write_node i n' p2 = Inr q \<and> reb_ok fl p h i ts key q)"
proof -
  note pp = pair_parts [OF tok [unfolded ts]] and pn = parent_nodes [OF n [unfolded ts]]
  have cl: "nd_leaf c \<longleftrightarrow> h = 0" using c leaf_bal [OF pp(2)] leaf_bal [OF pp(3)] by auto
  obtain m where m: "join_nodes (nd_leaf c) n (length A) (node_of x) (node_of y) = (node_of (BN i (A @ (ko, m) # B)), node_of m)" "good_merge h x sep y m"
    using merge_nodes [OF pp(2,3) n [unfolded ts] can cl] by blast
  have lf: "nd_leaf (node_of x) = nd_leaf c" "nd_leaf (node_of y) = nd_leaf c" using cl leaf_bal [OF pp(2)] leaf_bal [OF pp(3)] by simp_all
  obtain p1 p2 where r: "read_node (root_id x) p = Inr (node_of x, p1)" "read_node (root_id y) p1 = Inr (node_of y, p2)" "calm fl p p2"
    by (rule read_two [OF pk pp(4,5)])
  note tc = tree_calm [OF r(3) tok [unfolded ts]]
  obtain p3 p4 q where w: "write_node (root_id x) (node_of m) p2 = Inr p3" "free_page (root_id y) p3 = Inr p4"
    "write_node i (node_of (BN i (A @ (ko, m) # B))) p4 = Inr q" "reb_ok fl p2 h i (A @ (ko, x) # (Some sep, y) # B) key q"
    by (rule merge_write [OF conjunct2 [OF tc] conjunct1 [OF tc] m(2) route])
  have q: "reb_ok fl p h i ts key q" using reb_calm [OF r(3) w(4)] unfolding ts .
  have "merge_into_left n (Suc (length A)) p = Inr (node_of (BN i (A @ (ko, m) # B)), p4)"
    unfolding merge_into_left_def Let_def diff_Suc_1 pn(2,3) using r(1,2) m(1) w(1,2) lf by (simp add: lift_err_def del: node_of.simps)
  then show "\<exists>n' p2. merge_into_left n (Suc (length A)) p = Inr (n', p2) \<and> (\<exists>q. write_node i n' p2 = Inr q \<and> reb_ok fl p h i ts key q)" using w(3) q by blast
  have "merge_right_into n (length A) p = Inr (node_of (BN i (A @ (ko, m) # B)), p4)"
    unfolding merge_right_into_def Let_def Suc_eq_plus1 [symmetric] pn(2,3) using r(1,2) m(1) w(1,2) lf by (simp add: lift_err_def del: node_of.simps)
  then show "\<exists>n' p2. merge_right_into n (length A) p = Inr (n', p2) \<and> (\<exists>q. write_node i n' p2 = Inr q \<and> reb_ok fl p h i ts key q)" using w(3) q by blast
qed

lemma within_trans: "within key X Y \<Longrightarrow> within key Y Z \<Longrightarrow> within key X Z"
proof -
  assume 1: "within key X Y" and 2: "within key Y Z"
  have below: "\<exists>x \<in> insert (key, True) (set X). x \<le> y" "\<exists>x \<in> insert (key, True) (set X). y \<le> x" if "y \<in> insert (key, True) (set Y)" for y
  proof -
    show "\<exists>x \<in> insert (key, True) (set X). x \<le> y" using 1 that unfolding within_def by (cases "y = (key, True)") (blast, blast)
    show "\<exists>x \<in> insert (key, True) (set X). y \<le> x" using 1 that unfolding within_def by (cases "y = (key, True)") (blast, blast)
  qed
  show ?thesis unfolding within_def
  proof
    fix z assume "z \<in> set Z"
    then obtain y y' where y: "y \<in> insert (key, True) (set Y)" "y \<le> z" "y' \<in> insert (key, True) (set Y)" "z \<le> y'" using 2 unfolding within_def by blast
    from below(1) [OF y(1)] below(2) [OF y(3)] obtain x x' where
      x: "x \<in> insert (key, True) (set X)" "x \<le> y" "x' \<in> insert (key, True) (set X)" "y' \<le> x'" by blast
    have "x \<le> z" "z \<le> x'" using order.trans [OF x(2) y(2)] order.trans [OF y(4) x(4)] .
    then show "(\<exists>x \<in> insert (key, True) (set X). x \<le> z) \<and> (\<exists>x \<in> insert (key, True) (set X). z \<le> x)" using x(1,3) by blast
  qed
qed

lemma fchg_trans:
  assumes 1: "fchg u v key ts us" and 2: "fchg v w key us vs"
  shows "fchg u w key ts vs"
proof -
  note D = fchgD [OF 1] and E = fchgD [OF 2]
  have unused: "j \<in> set (fpages ts) \<union> {j. u j = None}" if "v j = None" for j using D(2) [of j] that by (cases "j \<in> set (fpages ts)"; cases "u j") auto
  have "set (fpages vs) \<subseteq> set (fpages ts) \<union> {j. u j = None}" using E(1) D(1) unused by blast
  moreover have "w j = u j" if "u j \<noteq> None" "j \<notin> set (fpages ts)" for j
  proof -
    have "v j = u j" by (rule D(2) [OF that])
    moreover have "j \<notin> set (fpages us)" using D(1) that by auto
    ultimately show ?thesis using E(2) that(1) by simp
  qed
  moreover have "fst ` set (ftoks vs) \<subseteq> insert key (fst ` set (ftoks ts))" using D(4) E(4) by blast
  ultimately show ?thesis using within_trans [OF D(3) E(3)] D(5,6) E(5,6) by (simp add: fchg_def)
qed

lemma fchg_refl: "fchg u u key ts ts"
  by (auto simp: fchg_def within_refl)

lemma reb_ok_calm: "calm fl p q \<Longrightarrow> tree_ok (in_use fl p) (Suc h) (BN i ts) \<Longrightarrow> reb_ok fl p h i ts key q"
  unfolding reb_ok_def calm_def using fchg_refl by metis

lemma rebalance_spec:
  assumes tok: "tree_ok (in_use fl p) (Suc h) (BN i ts)" and pk: "pager_ok fl p" and ts: "ts = L @ (kc, c) # R" and route: "route key L kc R"
    and n: "n = node_of (BN i ts)"
  shows "(\<exists>e. rebalance n i (length L) p = Inl e \<and> \<not> uniform ts) \<or> (\<exists>q. rebalance n i (length L) p = Inr q \<and> reb_ok fl p h i ts key q)"
proof -
  have kids: "kids_ok ts" using tok by (simp add: tree_ok_def)
  have all: "children_vec n = map (\<lambda>x. root_id (snd x)) ts" unfolding n by (rule parent_children) (simp add: ts)
  have kid: "holds (in_use fl p) (snd x)" "bal h (snd x)" if "x \<in> set ts" for x using tok that by (auto simp: tree_ok_def)
  have "t \<in> set (subs t)" for t by (cases t) auto
  then have at: "node_at (in_use fl p) (root_id (snd x)) (node_of (snd x))" if "x \<in> set ts" for x using kid(1) [OF that] by (auto simp: holds_def)
  let ?x = "snd (last L)" and ?y = "snd (hd R)" and ?ci = "length L"
  have ac: "children_vec n ! ?ci = root_id c" by (simp add: all ts nth_append)
  have left: "\<exists>L' ko sep. ts = L' @ (ko, ?x) # (Some sep, c) # R \<and> ?ci = Suc (length L') \<and> route key L' ko R \<and> children_vec n ! (?ci - 1) = root_id ?x" if "L \<noteq> []"
  proof -
    obtain L' l where L: "L = L' @ [l]" using \<open>L \<noteq> []\<close> by (cases L rule: rev_cases) auto
    obtain sep where "kc = Some sep" using kids by (cases L') (auto simp: ts L)
    moreover have "route key L' (fst l) R" using route by (auto simp: route_def L)
    ultimately show ?thesis by (intro exI [of _ L'] exI [of _ "fst l"] exI [of _ sep]) (simp add: ts L all nth_append)
  qed
  have right: "\<exists>s R'. ts = L @ (kc, c) # (Some s, ?y) # R' \<and> route key L kc R' \<and> children_vec n ! (?ci + 1) = root_id ?y" if "R \<noteq> []"
  proof -
    obtain r R' where R: "R = r # R'" using \<open>R \<noteq> []\<close> by (cases R) auto
    obtain s where "fst r = Some s" using kids by (cases L) (auto simp: ts R)
    then have "r = (Some s, snd r)" by (metis prod.collapse)
    moreover have "route key L kc R'" using route by (auto simp: route_def R)
    ultimately show ?thesis by (intro exI [of _ s] exI [of _ R']) (simp add: ts R all nth_append)
  qed
  have len: "?ci + 1 < length (children_vec n) \<longleftrightarrow> R \<noteq> []" by (cases R) (simp_all add: all ts)
  have atl: "node_at (in_use fl p) (children_vec n ! (?ci - 1)) (node_of ?x)" if "0 < ?ci"
  proof -
    have "L \<noteq> []" using that by simp
    then show ?thesis using left at [of "last L"] by (auto simp: ts simp del: node_of.simps)
  qed
  have atr: "node_at (in_use fl p) (children_vec n ! (?ci + 1)) (node_of ?y)" if "?ci + 1 < length (children_vec n)"
  proof -
    have "R \<noteq> []" using that len by blast
    then show ?thesis using right at [of "hd R"] by (auto simp: ts simp del: node_of.simps)
  qed
  have a1: "att fl q h i ts key (try_sibling (?ci > 0) (children_vec n ! (?ci - 1)) (\<lambda>left. can_borrow_left n ?ci left (node_of c)) (borrow_from_left n ?ci) i q)"
    if "calm fl p q" for q
  proof (rule attI [where nd = "node_of ?x"])
    show "pager_ok fl q" using that by (simp add: calm_def)
    show "node_at (in_use fl q) (children_vec n ! (?ci - 1)) (node_of ?x)" if "0 < ?ci"
      using atl [OF that] \<open>calm fl p q\<close> by (simp add: calm_def)
    fix q1 assume "0 < ?ci" "calm fl q q1" and g: "can_borrow_left n ?ci (node_of ?x) (node_of c)"
    then obtain L' ko sep where l: "ts = L' @ (ko, ?x) # (Some sep, c) # R" "?ci = Suc (length L')" "route key L' ko R" using left by blast
    have t1: "pager_ok fl q1" "tree_ok (in_use fl q1) (Suc h) (BN i ts)" using \<open>calm fl q q1\<close> that tok by (simp_all add: calm_def)
    show "\<exists>n' p2. borrow_from_left n ?ci q1 = Inr (n', p2) \<and> ((\<exists>q. write_node i n' p2 = Inr q \<and> reb_ok fl q1 h i ts key q) \<or> (write_node i n' p2 = Inl Panic \<and> \<not> uniform ts))"
      unfolding l(2) by (rule att_borrow_left [OF t1(2) l(1) t1(1) l(3) n g [unfolded l(2)]])
  qed
  have a2: "att fl q h i ts key (try_sibling (?ci + 1 < length (children_vec n)) (children_vec n ! (?ci + 1)) (\<lambda>right. can_borrow_right n ?ci (node_of c) right) (borrow_from_right n ?ci) i q)"
    if "calm fl p q" for q
  proof (rule attI [where nd = "node_of ?y"])
    show "pager_ok fl q" using that by (simp add: calm_def)
    show "node_at (in_use fl q) (children_vec n ! (?ci + 1)) (node_of ?y)" if "?ci + 1 < length (children_vec n)"
      using atr [OF that] \<open>calm fl p q\<close> by (simp add: calm_def)
    fix q1 assume "?ci + 1 < length (children_vec n)" "calm fl q q1" and g: "can_borrow_right n ?ci (node_of c) (node_of ?y)"
    then obtain s R' where l: "ts = L @ (kc, c) # (Some s, ?y) # R'" "route key L kc R'" using right len by blast
    have t1: "pager_ok fl q1" "tree_ok (in_use fl q1) (Suc h) (BN i ts)" using \<open>calm fl q q1\<close> that tok by (simp_all add: calm_def)
    show "\<exists>n' p2. borrow_from_right n ?ci q1 = Inr (n', p2) \<and> ((\<exists>q. write_node i n' p2 = Inr q \<and> reb_ok fl q1 h i ts key q) \<or> (write_node i n' p2 = Inl Panic \<and> \<not> uniform ts))"
      by (rule att_borrow_right [OF t1(2) l(1) t1(1) l(2) n g])
  qed
  have a3: "att fl q h i ts key (try_sibling (?ci > 0) (children_vec n ! (?ci - 1)) (\<lambda>left. can_merge n (?ci - 1) (node_of c) left (node_of c)) (merge_into_left n ?ci) i q)"
    if "calm fl p q" for q
  proof (rule attI [where nd = "node_of ?x"])
    show "pager_ok fl q" using that by (simp add: calm_def)
    show "node_at (in_use fl q) (children_vec n ! (?ci - 1)) (node_of ?x)" if "0 < ?ci"
      using atl [OF that] \<open>calm fl p q\<close> by (simp add: calm_def)
    fix q1 assume "0 < ?ci" "calm fl q q1" and g: "can_merge n (?ci - 1) (node_of c) (node_of ?x) (node_of c)"
    then obtain L' ko sep where l: "ts = L' @ (ko, ?x) # (Some sep, c) # R" "?ci = Suc (length L')" "route key L' ko R" using left by blast
    have t1: "pager_ok fl q1" "tree_ok (in_use fl q1) (Suc h) (BN i ts)" using \<open>calm fl q q1\<close> that tok by (simp_all add: calm_def)
    show "\<exists>n' p2. merge_into_left n ?ci q1 = Inr (n', p2) \<and> ((\<exists>q. write_node i n' p2 = Inr q \<and> reb_ok fl q1 h i ts key q) \<or> (write_node i n' p2 = Inl Panic \<and> \<not> uniform ts))"
      unfolding l(2) using att_merge(1) [OF t1(2) l(1) t1(1) l(3) n g [unfolded l(2) diff_Suc_1]] by blast
  qed
  have a4: "att fl q h i ts key (try_sibling (?ci + 1 < length (children_vec n)) (children_vec n ! (?ci + 1)) (\<lambda>right. can_merge n ?ci (node_of c) (node_of c) right) (merge_right_into n ?ci) i q)"
    if "calm fl p q" for q
  proof (rule attI [where nd = "node_of ?y"])
    show "pager_ok fl q" using that by (simp add: calm_def)
    show "node_at (in_use fl q) (children_vec n ! (?ci + 1)) (node_of ?y)" if "?ci + 1 < length (children_vec n)"
      using atr [OF that] \<open>calm fl p q\<close> by (simp add: calm_def)
    fix q1 assume "?ci + 1 < length (children_vec n)" "calm fl q q1" and g: "can_merge n ?ci (node_of c) (node_of c) (node_of ?y)"
    then obtain s R' where l: "ts = L @ (kc, c) # (Some s, ?y) # R'" "route key L kc R'" using right len by blast
    have t1: "pager_ok fl q1" "tree_ok (in_use fl q1) (Suc h) (BN i ts)" using \<open>calm fl q q1\<close> that tok by (simp_all add: calm_def)
    show "\<exists>n' p2. merge_right_into n ?ci q1 = Inr (n', p2) \<and> ((\<exists>q. write_node i n' p2 = Inr q \<and> reb_ok fl q1 h i ts key q) \<or> (write_node i n' p2 = Inl Panic \<and> \<not> uniform ts))"
      using att_merge(2) [OF t1(2) l(1) t1(1) l(2) n g] by blast
  qed
  have cm: "node_at (in_use fl p) (root_id c) (node_of c)" using at [of "(kc, c)"] by (simp add: ts del: node_of.simps)
  obtain p1 where p1: "read_node (root_id c) p = Inr (node_of c, p1)" "calm fl p p1" using read_node_ok [OF pk cm] by blast
  define r where "r = or_else (or_else (or_else
         (try_sibling (?ci > 0) (children_vec n ! (?ci - 1)) (\<lambda>left. can_borrow_left n ?ci left (node_of c)) (borrow_from_left n ?ci) i p1)
         (try_sibling (?ci + 1 < length (children_vec n)) (children_vec n ! (?ci + 1)) (\<lambda>right. can_borrow_right n ?ci (node_of c) right) (borrow_from_right n ?ci) i))
         (try_sibling (?ci > 0) (children_vec n ! (?ci - 1)) (\<lambda>left. can_merge n (?ci - 1) (node_of c) left (node_of c)) (merge_into_left n ?ci) i))
         (try_sibling (?ci + 1 < length (children_vec n)) (children_vec n ! (?ci + 1)) (\<lambda>right. can_merge n ?ci (node_of c) (node_of c) right) (merge_right_into n ?ci) i)"
  have "att fl p1 h i ts key r" unfolding r_def
    by (intro att_or_else) (use a1 a2 a3 a4 p1(2) calm_trans in blast)+
  moreover have "rebalance n i ?ci p = res_bind r (\<lambda>(d, q). Inr q)" unfolding rebalance_def Let_def ac r_def using p1(1) by simp
  ultimately show ?thesis using reb_calm [OF p1(2)] reb_ok_calm [OF calm_trans [OF p1(2)] tok]
    by (cases r) (auto simp: att_def split: if_splits)
qed

section \<open>The recursion\<close>

definition del_ok :: "PageId list \<Rightarrow> Pager \<Rightarrow> nat \<Rightarrow> bt \<Rightarrow> bytes \<Rightarrow> Pager \<Rightarrow> bool" where
  "del_ok fl p h t key q \<longleftrightarrow> (\<exists>fl' t'. pager_ok fl' q \<and> roots q = roots p \<and> root_id t' = root_id t \<and> tree_ok (in_use fl' q) h t' \<and>
     fchg (in_use fl p) (in_use fl' q) key [(None, t)] [(None, t')] \<and> entries t' = bm_remove key (entries t))"

definition deleted :: "PageId list \<Rightarrow> Pager \<Rightarrow> nat \<Rightarrow> bt \<Rightarrow> bytes \<Rightarrow> fault + bool \<times> Pager \<Rightarrow> bool" where
  "deleted fl p h t key r \<longleftrightarrow> (case r of Inl e \<Rightarrow> \<not> uniform [(None, t)]
     | Inr (b, q) \<Rightarrow> (b \<longleftrightarrow> key \<in> fst ` set (entries t)) \<and> (if b then del_ok fl p h t key q else calm fl p q))"

lemma deleted_calm:
  assumes "calm fl p q" and "deleted fl q h t key r"
  shows "deleted fl p h t key r"
proof -
  have "del_ok fl q h t key x = del_ok fl p h t key x" "calm fl q x \<Longrightarrow> calm fl p x" for x using assms(1) by (simp_all add: del_ok_def calm_def)
  then show ?thesis using assms(2) by (auto simp: deleted_def split: sum.splits if_splits)
qed

lemma remove_found:
  fixes es :: "(bytes \<times> bytes) list"
  assumes "ascending (map fst es)" and "binary_search (map fst es) key = Inr k"
  shows "map fst (bm_remove key es) = vec_remove k (map fst es) \<and> map snd (bm_remove key es) = vec_remove k (map snd es) \<and> key \<in> fst ` set es"
  using assms(1)
proof (cases rule: binary_search_cases [of _ key])
  case (found ls rs)
  then obtain A e B where es: "es = A @ e # B" "map fst A = ls" "fst e = key" "map fst B = rs" by (auto simp: map_eq_append_conv map_eq_Cons_conv)
  have "\<forall>e \<in> set A. fst e < key" "\<forall>e \<in> set B. key < fst e" using found(3,4) by (simp_all add: es(2,4) [symmetric])
  then have "bm_remove key (A @ [e] @ B) = A @ bm_remove key [e] @ B" using local_remove unfolding local_op_def by blast
  then have "bm_remove key es = A @ B" using es by (simp add: bm_remove_def)
  moreover have "k = length A" using found(1) assms(2) es(2) by auto
  ultimately show ?thesis using es by (auto simp: vec_remove_def)
qed (use assms(2) in simp)

lemma remove_absent:
  assumes "ascending (map fst es)" and "binary_search (map fst es) key = Inl k"
  shows "key \<notin> fst ` set es"
  using binary_search_found_iff [OF assms(1), of key] assms(2) by auto

lemma sum_remove: "sum_list (map esz (bm_remove key es)) \<le> sum_list (map esz es)"
  by (induction es) (auto simp: bm_remove_def)

lemma delete_leaf:
  assumes pk: "pager_ok fl p" and tok: "tree_ok (in_use fl p) 0 (BL i l es)" and n: "n = node_of (BL i l es)"
  shows "deleted fl p 0 (BL i l es) key (case binary_search (nd_keys n) key of
      Inr k \<Rightarrow> res_bind (write_node i (n\<lparr>nd_keys := vec_remove k (nd_keys n), nd_vals := vec_remove k (nd_vals n)\<rparr>) p) (\<lambda>q. Inr (True, q))
    | Inl k \<Rightarrow> Inr (False, p))"
proof -
  have asc: "ascending (map fst es)" using tok ascending_keys by (simp add: tree_ok_def)
  have at: "node_at (in_use fl p) i (node_of (BL i l es))" using tok by (simp add: tree_ok_def)
  show ?thesis
  proof (cases "binary_search (map fst es) key")
    case (Inl k)
    then show ?thesis using remove_absent [OF asc] calm_refl [OF pk] by (simp add: n deleted_def)
  next
    case (Inr k)
    let ?es = "bm_remove key es"
    note rf = remove_found [OF asc Inr]
    have fit: "fits (node_of (BL i l ?es))" using at sum_remove [of key es] unfolding node_at_def leaf_size by simp
    have used: "in_use fl p i \<noteq> None" using at by (auto simp: node_at_def)
    obtain q where q: "write_node i (node_of (BL i l ?es)) p = Inr q" "pager_ok fl q" "written (in_use fl p) (in_use fl q) [(i, node_of (BL i l ?es))]" "roots q = roots p"
      using write_one [OF pk used parallel_node_of fit] by blast
    have "ascending (map fst ?es)" using asc bm_wf_remove [of es key] by (simp add: bm_wf_def)
    moreover have "set (toks (BL i l ?es)) \<subseteq> insert (key, True) (set (toks (BL i l es)))" by (auto simp: bm_remove_def)
    ultimately have "fok (in_use fl q) 0 [(None, BL i l ?es)]" "fchg (in_use fl p) (in_use fl q) key [(None, BL i l es)] [(None, BL i l ?es)]"
      using one_leaf [OF q(3)] by blast+
    then have "del_ok fl p 0 (BL i l es) key q" unfolding del_ok_def tree_of_forest using q(2,4)
      by (intro exI [of _ fl] exI [of _ "BL i l ?es"]) simp
    moreover have "n\<lparr>nd_keys := vec_remove k (nd_keys n), nd_vals := vec_remove k (nd_vals n)\<rparr> = node_of (BL i l ?es)" using rf by (simp add: n)
    ultimately show ?thesis using Inr q(1) rf by (simp add: deleted_def n)
  qed
qed

lemma uniform_child: "uniform (a @ (ko, c) # b) \<Longrightarrow> uniform [(None, c)]"
  by (auto simp: uniform_def)

lemma uniform_after:
  assumes "uniform ts" and "fst ` set (ftoks ts') \<subseteq> insert key (fst ` set (ftoks ts))" and "key \<in> fst ` set (fentries ts)"
  shows "uniform ts'"
proof -
  have "key \<in> fst ` set (ftoks ts)" using assms(3) fentry_tok by force
  then have "fst ` set (ftoks ts') \<subseteq> fst ` set (ftoks ts)" using assms(2) by blast
  then show ?thesis using assms(1) unfolding uniform_def by blast
qed

text \<open>A subtree after the deletion from one of its children.\<close>

lemma del_child:
  assumes tok: "tree_ok (in_use fl p) (Suc h) (BN i (a @ (ko, c) # b))" and del: "del_ok fl p h c key q"
    and pos: "\<forall>x \<in> set (ftoks a). x < (key, True)" "\<forall>x \<in> set (sep_tok ko). x < (key, True)" "\<forall>x \<in> set (ftoks b). (key, True) < x"
  obtains fl' c' where "pager_ok fl' q" "roots q = roots p" "root_id c' = root_id c" "tree_ok (in_use fl' q) (Suc h) (BN i (a @ (ko, c') # b))"
    "fchg (in_use fl p) (in_use fl' q) key [(None, BN i (a @ (ko, c) # b))] [(None, BN i (a @ (ko, c') # b))]"
    "fentries (a @ (ko, c') # b) = bm_remove key (fentries (a @ (ko, c) # b))"
proof -
  obtain fl' c' where d: "pager_ok fl' q" "roots q = roots p" "root_id c' = root_id c" "tree_ok (in_use fl' q) h c'"
      "fchg (in_use fl p) (in_use fl' q) key [(None, c)] [(None, c')]" "entries c' = bm_remove key (entries c)" using del unfolding del_ok_def by blast
  have cok: "fok (in_use fl' q) h [(None, c')]" using d(4) by (simp add: tree_of_forest)
  note ic = ins_child [OF tok cok d(5) _ pos, simplified]
  have "node_at (in_use fl p) i (node_of (BN i (a @ (ko, c) # b)))" using tok by (simp add: tree_ok_def)
  then have "node_at (in_use fl' q) i (node_of (BN i (a @ (ko, c') # b)))" using ic(4) same_node [OF d(3), of i a ko b] by (simp add: node_at_def)
  then have "tree_ok (in_use fl' q) (Suc h) (BN i (a @ (ko, c') # b))" using ic(1,3,6) unfolding tree_ok_def holds_node by (simp add: fok_def del: node_of.simps)
  moreover have "fchg (in_use fl p) (in_use fl' q) key [(None, BN i (a @ (ko, c) # b))] [(None, BN i (a @ (ko, c') # b))]"
    by (rule fchg_parent [OF ic(2)]) auto
  moreover have "fentries (a @ (ko, c') # [] @ b) = bm_remove key (fentries (a @ (ko, c) # b))"
    by (rule local_op_forest [OF local_remove pos(1,3)]) (simp add: d(6))
  ultimately show thesis using that [of fl' c'] d(1-3) by simp
qed

lemma key_in_child:
  assumes "\<forall>x \<in> set (ftoks a). x < (key, True)" "\<forall>x \<in> set (ftoks b). (key, True) < x"
  shows "key \<in> fst ` set (fentries (a @ (ko, c) # b)) \<longleftrightarrow> key \<in> fst ` set (entries c)"
proof -
  have "key \<notin> fst ` set (fentries a)" "key \<notin> fst ` set (fentries b)" using assms by (auto dest!: fentry_tok)
  then show ?thesis by auto
qed

text \<open>The part of \<open>delete_rec\<close> after the recursive call.\<close>

definition after_delete :: "PageId \<Rightarrow> nat \<Rightarrow> PageId \<Rightarrow> Node \<Rightarrow> fault + bool \<times> Pager \<Rightarrow> fault + bool \<times> Pager" where
  "after_delete page ci child_page node r = res_bind r (\<lambda>(removed, p2).
     if removed then res_bind (read_node child_page p2) (\<lambda>(child, p3).
       if node_size child < UNDERFLOW_BYTES then res_bind (rebalance node page ci p3) (\<lambda>q. Inr (True, q)) else Inr (True, p3))
     else Inr (False, p2))"

lemma after_delete_spec:
  assumes tok: "tree_ok (in_use fl p) (Suc h) (BN i (a @ (ko, c) # b))" and del: "deleted fl p h c key r"
    and pos: "\<forall>x \<in> set (ftoks a). x < (key, True)" "\<forall>x \<in> set (sep_tok ko). x < (key, True)" "\<forall>x \<in> set (ftoks b). (key, True) < x"
    and n: "n = node_of (BN i (a @ (ko, c) # b))"
  shows "deleted fl p (Suc h) (BN i (a @ (ko, c) # b)) key (after_delete i (length a) (root_id c) n r)"
proof (cases r)
  case (Inl e)
  then show ?thesis using del uniform_child [of a ko c b] by (auto simp: deleted_def after_delete_def uniform_def)
next
  case (Inr x)
  obtain d q where x: "r = Inr (d, q)" using Inr by (cases x) auto
  let ?ts = "a @ (ko, c) # b"
  have d: "d \<longleftrightarrow> key \<in> fst ` set (fentries ?ts)" using del key_in_child [OF pos(1,3)] by (simp add: deleted_def x)
  show ?thesis
  proof (cases d)
    case False
    then show ?thesis using del d by (simp add: deleted_def after_delete_def x)
  next
    case True
    then have "del_ok fl p h c key q" using del by (simp add: deleted_def x)
    then obtain fl' c' where e: "pager_ok fl' q" "roots q = roots p" "root_id c' = root_id c" "tree_ok (in_use fl' q) (Suc h) (BN i (a @ (ko, c') # b))"
        "fchg (in_use fl p) (in_use fl' q) key [(None, BN i ?ts)] [(None, BN i (a @ (ko, c') # b))]" "fentries (a @ (ko, c') # b) = bm_remove key (fentries ?ts)"
      using del_child [OF tok _ pos] by blast
    have n': "n = node_of (BN i (a @ (ko, c') # b))" using same_node [OF e(3)] by (simp add: n)
    have "c' \<in> set (subs c')" by (cases c') auto
    then have "node_at (in_use fl' q) (root_id c') (node_of c')" using e(4) by (simp add: tree_ok_def holds_def)
    then obtain p3 where p3: "read_node (root_id c) q = Inr (node_of c', p3)" "calm fl' q p3" using read_node_ok [OF e(1)] e(3) by metis
    have pk3: "pager_ok fl' p3" "tree_ok (in_use fl' p3) (Suc h) (BN i (a @ (ko, c') # b))" "in_use fl' p3 = in_use fl' q" "roots p3 = roots q"
      using p3(2) e(4) by (simp_all add: calm_def)
    have fin: "deleted fl p (Suc h) (BN i ?ts) key (Inr (True, q'))" if rb: "reb_ok fl' p3 h i (a @ (ko, c') # b) key q'" for q'
    proof -
      obtain fl2 ts2 where r: "pager_ok fl2 q'" "roots q' = roots p3" "tree_ok (in_use fl2 q') (Suc h) (BN i ts2)"
        "fchg (in_use fl' p3) (in_use fl2 q') key [(None, BN i (a @ (ko, c') # b))] [(None, BN i ts2)]" "fentries ts2 = fentries (a @ (ko, c') # b)"
        using rb unfolding reb_ok_def by blast
      have "fchg (in_use fl p) (in_use fl2 q') key [(None, BN i ?ts)] [(None, BN i ts2)]" by (rule fchg_trans [OF e(5)]) (use r(4) in \<open>simp add: pk3(3)\<close>)
      then have "del_ok fl p (Suc h) (BN i ?ts) key q'" unfolding del_ok_def
        by (intro exI [of _ fl2] exI [of _ "BN i ts2"]) (use r e(2,6) pk3(4) in simp)
      then show ?thesis using d True by (simp add: deleted_def)
    qed
    show ?thesis
    proof (cases "node_size (node_of c') < UNDERFLOW_BYTES")
      case False
      have "reb_ok fl' p3 h i (a @ (ko, c') # b) key p3" by (rule reb_ok_calm [OF calm_refl [OF pk3(1)] pk3(2)])
      then show ?thesis using fin p3(1) False True by (simp add: after_delete_def x)
    next
      case small: True
      have route: "route key a ko b" using pos by (auto simp: route_def)
      from rebalance_spec [OF pk3(2,1) refl route n'] show ?thesis
      proof
        assume "\<exists>e. rebalance n i (length a) p3 = Inl e \<and> \<not> uniform (a @ (ko, c') # b)"
        then obtain e' where r: "rebalance n i (length a) p3 = Inl e'" "\<not> uniform (a @ (ko, c') # b)" by blast
        have "\<not> uniform ?ts" using uniform_after [of ?ts "a @ (ko, c') # b" key] fchgD(4) [OF e(5)] d True r(2) by auto
        then show ?thesis using r(1) p3(1) small True by (simp add: after_delete_def x deleted_def uniform_def)
      next
        assume "\<exists>q. rebalance n i (length a) p3 = Inr q \<and> reb_ok fl' p3 h i (a @ (ko, c') # b) key q"
        then show ?thesis using fin p3(1) small True by (auto simp: after_delete_def x)
      qed
    qed
  qed
qed

lemma delete_rec_spec:
  assumes "pager_ok fl p" and "tree_ok (in_use fl p) h t"
  shows "\<exists>r. delete_rec (root_id t) key p = Some r \<and> deleted fl p h t key r"
  using assms
proof (induction h arbitrary: t p)
  case 0
  then obtain i l es where t: "t = BL i l es" using bal_0 [of t] by (auto simp: tree_ok_def)
  obtain q where q: "read_node i p = Inr (node_of t, q)" "calm fl p q"
    using read_node_ok [OF 0(1), of i "node_of t"] 0(2) by (auto simp: t tree_ok_def)
  have qk: "pager_ok fl q" "tree_ok (in_use fl q) 0 (BL i l es)" using tree_calm [OF q(2) 0(2)] by (simp_all add: t)
  let ?r = "case binary_search (nd_keys (node_of t)) key of
      Inr k \<Rightarrow> res_bind (write_node i ((node_of t)\<lparr>nd_keys := vec_remove k (nd_keys (node_of t)), nd_vals := vec_remove k (nd_vals (node_of t))\<rparr>) q) (\<lambda>q. Inr (True, q))
    | Inl k \<Rightarrow> Inr (False, q)"
  have "deleted fl q 0 t key ?r" using delete_leaf [OF qk refl, of key] unfolding t .
  then have "deleted fl p 0 t key ?r" by (rule deleted_calm [OF q(2)])
  moreover have "nd_leaf (node_of t)" by (simp add: t)
  then have "delete_rec i key p = Some ?r" unfolding delete_rec.simps [of i] q(1) by simp
  ultimately show ?case by (simp add: t)
next
  case (Suc h)
  then obtain i ts where t: "t = BN i ts" using bal_Suc [of h t] by (auto simp: tree_ok_def)
  have ok: "kids_ok ts" "ascending (ftoks ts)" "node_at (in_use fl p) i (node_of t)" using Suc.prems(2) by (auto simp: t tree_ok_def)
  let ?n = "partition_point (\<lambda>k. k \<le> key) (map (\<lambda>x. the (fst x)) (tl ts))"
  obtain a ko c b where sp: "ts = a @ (ko, c) # b" "length a = ?n" "\<forall>x \<in> set (ftoks a). x < (key, True)" "\<forall>x \<in> set (sep_tok ko). x < (key, True)"
    "\<forall>x \<in> set (ftoks b). (key, True) < x" "child_for (node_of (BN i ts)) key = root_id c" by (rule pick_child [OF ok(1,2) refl])
  obtain q where q: "read_node i p = Inr (node_of t, q)" "calm fl p q" using read_node_ok [OF Suc.prems(1) ok(3)] by blast
  have qk: "pager_ok fl q" "tree_ok (in_use fl q) (Suc h) (BN i (a @ (ko, c) # b))" using tree_calm [OF q(2) Suc.prems(2)] by (simp_all add: t sp(1))
  obtain r where r: "delete_rec (root_id c) key q = Some r" "deleted fl q h c key r" using Suc.IH [OF qk(1) tree_ok_child [OF qk(2)]] by blast
  have "deleted fl q (Suc h) t key (after_delete i (length a) (root_id c) (node_of t) r)"
    using after_delete_spec [OF qk(2) r(2) sp(3-5) refl] unfolding t sp(1) .
  then have "deleted fl p (Suc h) t key (after_delete i (length a) (root_id c) (node_of t) r)"
    by (rule deleted_calm [OF q(2)])
  moreover have "delete_rec i key p = Some (after_delete i (length a) (root_id c) (node_of t) r)"
  proof -
    have n: "\<not> nd_leaf (node_of t)" "nd_keys (node_of t) = map (\<lambda>x. the (fst x)) (tl ts)" by (simp_all add: t)
    have cp: "(if length a = 0 then nd_link (node_of t) else nd_children (node_of t) ! (length a - 1)) = root_id c"
      using sp(6) unfolding t [symmetric] child_for_def Let_def n(2) sp(2) [symmetric] .
    show ?thesis unfolding delete_rec.simps [of i] q(1) sum.case prod.case n(2) sp(2) [symmetric] Let_def cp r(1) using n(1) by (simp add: after_delete_def)
  qed
  ultimately show ?case by (simp add: t)
qed

section \<open>Deletion from the tree of a root slot\<close>

lemma uniform_klen: "klen K (Some t) \<Longrightarrow> uniform [(None, t)]"
  by (auto simp: klen_def uniform_def)

definition removed :: "PageId list \<Rightarrow> Pager \<Rightarrow> nat \<Rightarrow> bytes \<Rightarrow> bt option \<Rightarrow> Pager \<Rightarrow> bool" where
  "removed fl p slot key ot q \<longleftrightarrow> (\<exists>fl' ot'. btree fl' q slot ot' \<and> bt_entries ot' = bm_remove key (bt_entries ot) \<and>
     others_same fl p slot ot fl' q ot' \<and> (small_bt ot \<longrightarrow> small_bt ot') \<and> (\<forall>K. klen K ot \<longrightarrow> klen K ot'))"

lemma remove_none: "key \<notin> fst ` set es \<Longrightarrow> bm_remove key es = es"
  by (auto simp: bm_remove_def filter_id_conv)

lemma removed_calm:
  assumes "btree fl p slot ot" "calm fl p q" "key \<notin> fst ` set (bt_entries ot)"
  shows "removed fl p slot key ot q"
  unfolding removed_def using btree_calm [OF assms(1,2)] assms(2) remove_none [OF assms(3)]
  by (intro exI [of _ fl] exI [of _ ot]) (simp add: others_same_def calm_def)

lemma others_after:
  assumes chg: "fchg (in_use fl p) (in_use fl1 q) key [(None, t)] [(None, t')]"
    and keep: "\<And>j. j \<notin> set (pages t') \<Longrightarrow> in_use fl2 q2 j = in_use fl1 q j" and sub: "bt_pages ot' \<subseteq> set (pages t')"
    and roots: "length (roots q2) = length (roots p)" "\<And>k. k \<noteq> slot \<Longrightarrow> roots q2 ! k = roots p ! k"
  shows "others_same fl p slot (Some t) fl2 q2 ot'"
proof -
  note D = fchgD [OF chg]
  have "in_use fl2 q2 j = in_use fl p j \<and> j \<notin> bt_pages ot'" if "in_use fl p j \<noteq> None" "j \<notin> set (pages t)" for j
  proof -
    have "j \<notin> set (pages t')" using D(1) that by auto
    moreover have "in_use fl1 q j = in_use fl p j" using D(2) [of j] that by simp
    ultimately show ?thesis using keep sub by auto
  qed
  then show ?thesis using roots by (simp add: others_same_def bt_pages_def)
qed

text \<open>The root after a deletion: an empty leaf goes, a node with one child is replaced by it.\<close>

definition shrink_root :: "nat \<Rightarrow> PageId \<Rightarrow> Pager \<Rightarrow> fault + bool \<times> Pager" where
  "shrink_root slot root p1 = res_bind (read_node root p1) (\<lambda>(node, p2).
     if nd_keys node \<noteq> [] then Inr (True, p2)
     else if nd_leaf node then res_bind (lift_err (free_page root p2)) (\<lambda>p3. res_bind (bt_set_root slot 0 p3) (\<lambda>q. Inr (True, q)))
     else res_bind (bt_set_root slot (nd_link node) p2) (\<lambda>p3. res_bind (lift_err (free_page root p3)) (\<lambda>q. Inr (True, q))))"

lemma shrink_root_spec:
  assumes bt: "btree fl p slot (Some t)" and q: "pager_ok fl1 q" "roots q = roots p" "root_id t' = root_id t" "tree_ok (in_use fl1 q) h t'"
    and chg: "fchg (in_use fl p) (in_use fl1 q) key [(None, t)] [(None, t')]" and ent: "entries t' = bm_remove key (entries t)"
    and key: "key \<in> fst ` set (entries t)"
  shows "\<exists>q2. shrink_root slot (root_id t) q = Inr (True, q2) \<and> removed fl p slot key (Some t) q2"
proof -
  note D = fchgD [OF chg]
  have slot: "slot < length (roots p)" "ucast (roots p ! slot) = root_id t" and ch: "chain (leaves t) 0" using bt by (auto simp: btree_def)
  obtain e where "e \<in> set (entries t)" "fst e = key" using key by auto
  then have "(key, True) \<in> set (toks t)" using entry_tok [of e t] by simp
  then have "key \<in> fst ` set (toks t)" by (rule rev_image_eqI) simp
  then have tk: "fst ` set (toks t') \<subseteq> fst ` set (toks t)" using D(4) by auto
  have es: "set (entries t') \<subseteq> set (entries t)" using ent by (auto simp: bm_remove_def)
  have kl: "klen K (Some s)" if "klen K (Some t)" "fst ` set (toks s) \<subseteq> fst ` set (toks t')" for K s using tk that unfolding klen_def option.case by blast
  have sm: "small_tree s" if "small_tree t" "entries s = entries t'" "fst ` set (toks s) \<subseteq> fst ` set (toks t')" for s
  proof -
    have "set (entries s) \<subseteq> set (entries t)" "fst ` set (toks s) \<subseteq> fst ` set (toks t)" using tk es that(2,3) by auto
    then show ?thesis using that(1) unfolding small_tree_def by (meson subsetD)
  qed
  have "t' \<in> set (subs t')" by (cases t') auto
  then have at: "node_at (in_use fl1 q) (root_id t) (node_of t')" using q(3,4) by (auto simp: tree_ok_def holds_def)
  obtain p2 where p2: "read_node (root_id t) q = Inr (node_of t', p2)" "calm fl1 q p2" using read_node_ok [OF q(1) at] by blast
  have k2: "pager_ok fl1 p2" "in_use fl1 p2 = in_use fl1 q" "roots p2 = roots p" using p2(2) q(2) by (simp_all add: calm_def)
  have used: "in_use fl1 p2 (root_id t) \<noteq> None" using at k2(2) by (auto simp: node_at_def)
  have ch': "chain (leaves t') 0" using D(5) [of 0] ch by simp
  have slot2: "slot < length (roots p2)" using slot(1) k2(3) by simp
  show ?thesis
  proof (cases "nd_keys (node_of t') = []")
    case False
    have "btree fl1 p2 slot (Some t')" using k2 slot q(3,4) ch' by (auto simp: btree_def)
    moreover have "others_same fl p slot (Some t) fl1 p2 (Some t')" by (rule others_after [OF chg]) (simp_all add: k2 bt_pages_def)
    ultimately have "removed fl p slot key (Some t) p2" unfolding removed_def using kl [of _ t'] sm [of t'] ent
      by (intro exI [of _ fl1] exI [of _ "Some t'"]) (simp add: bt_entries_def small_bt_def)
    then show ?thesis using p2(1) False by (simp add: shrink_root_def)
  next
    case True
    show ?thesis
    proof (cases t')
      case (BL i l es)
      then have nil: "es = []" and i: "i = root_id t" using True q(3) by simp_all
      obtain p3 where p3: "free_page i p2 = Inr p3" "pager_ok (i # fl1) p3" "in_use (i # fl1) p3 = (in_use fl1 p2)(i := None)" "roots p3 = roots p2"
        using free_node [OF k2(1) used] i by blast
      obtain p4 where p4: "bt_set_root slot 0 p3 = Inr p4" "pager_ok (i # fl1) p4" "in_use (i # fl1) p4 = in_use (i # fl1) p3" "roots p4 = (roots p3)[slot := ucast (0 :: PageId)]"
        using set_root_ok [OF p3(2), of slot 0] slot2 p3(4) by auto
      have "btree (i # fl1) p4 slot None" using p4 slot p3(4) k2(3) by (simp add: btree_def)
      moreover have "others_same fl p slot (Some t) (i # fl1) p4 None"
        by (rule others_after [OF chg]) (simp_all add: bt_pages_def p3(3,4) p4(3,4) k2 BL)
      ultimately have "removed fl p slot key (Some t) p4" unfolding removed_def using ent
        by (intro exI [of _ "i # fl1"] exI [of _ None]) (simp add: bt_entries_def small_bt_def klen_def BL nil)
      then show ?thesis using p2(1) p3(1) p4(1) i by (simp add: shrink_root_def BL nil lift_err_def)
    next
      case (BN i ts)
      then obtain h' where h: "h = Suc h'" using q(4) by (cases h) (auto simp: tree_ok_def)
      have "kids_ok ts" using q(4) by (simp add: tree_ok_def BN h)
      moreover have "tl ts = []" using True by (simp add: BN)
      ultimately obtain c where ts: "ts = [(None, c)]" by (cases ts) (auto simp: kids_ok_def)
      have i: "i = root_id t" using q(3) BN by simp
      have ctok: "tree_ok (in_use fl1 q) h' c" "i \<notin> set (pages c)" using q(4) by (auto simp: tree_ok_def BN h ts)
      obtain p3 where p3: "bt_set_root slot (root_id c) p2 = Inr p3" "pager_ok fl1 p3" "in_use fl1 p3 = in_use fl1 p2" "roots p3 = (roots p2)[slot := ucast (root_id c)]"
        using set_root_ok [OF k2(1) slot2] by blast
      obtain p4 where p4: "free_page i p3 = Inr p4" "pager_ok (i # fl1) p4" "in_use (i # fl1) p4 = (in_use fl1 p3)(i := None)" "roots p4 = roots p3"
        using free_node [OF p3(2)] used i p3(3) by auto
      have "holds (in_use (i # fl1) p4) c" by (rule holds_mono [of "in_use fl1 q"]) (use ctok p4(3) p3(3) k2(2) in \<open>auto simp: tree_ok_def\<close>)
      then have "tree_ok (in_use (i # fl1) p4) h' c" using ctok by (simp add: tree_ok_def)
      then have "btree (i # fl1) p4 slot (Some c)" using p4(2,4) p3(4) slot k2(3) ch' by (auto simp: btree_def BN ts)
      moreover have "others_same fl p slot (Some t) (i # fl1) p4 (Some c)"
        by (rule others_after [OF chg]) (auto simp: bt_pages_def p3(3,4) p4(3,4) k2 BN ts)
      ultimately have "removed fl p slot key (Some t) p4" unfolding removed_def using ent kl [of _ c] sm [of c]
        by (intro exI [of _ "i # fl1"] exI [of _ "Some c"]) (simp add: bt_entries_def small_bt_def BN ts)
      then show ?thesis using p2(1) p3(1) p4(1) i by (simp add: shrink_root_def BN ts lift_err_def)
    qed
  qed
qed

lemma bt_delete_spec:
  assumes bt: "btree fl p slot ot"
  shows "\<exists>r. bt_delete slot key p = Some r \<and> (\<forall>e. r = Inl e \<longrightarrow> (\<forall>K. \<not> klen K ot)) \<and>
    (\<forall>b q. r = Inr (b, q) \<longrightarrow> (b \<longleftrightarrow> key \<in> fst ` set (bt_entries ot)) \<and> removed fl p slot key ot q)"
proof (cases ot)
  case None
  then have "bt_delete slot key p = Some (Inr (False, p))" using bt_root_btree(1) [OF bt [unfolded None]] by (simp add: bt_delete_def)
  moreover have "removed fl p slot key ot p" by (rule removed_calm [OF bt calm_refl]) (use bt in \<open>simp_all add: btree_def bt_entries_def None\<close>)
  ultimately show ?thesis by (simp add: None bt_entries_def)
next
  case (Some t)
  obtain h where ok: "pager_ok fl p" "tree_ok (in_use fl p) h t" using bt by (auto simp: btree_def Some)
  have root: "bt_root slot p = Inr (root_id t)" "root_id t \<noteq> 0" using bt_root_btree(2) [OF bt [unfolded Some]] by blast+
  obtain r where r: "delete_rec (root_id t) key p = Some r" "deleted fl p h t key r" using delete_rec_spec [OF ok] by blast
  have eq: "bt_delete slot key p = Some (res_bind r (\<lambda>(removed, p1). if \<not> removed then Inr (False, p1) else shrink_root slot (root_id t) p1))"
    unfolding shrink_root_def using root r(1) by (simp add: bt_delete_def)
  show ?thesis
  proof (cases r)
    case (Inl e)
    then show ?thesis using eq r(2) uniform_klen by (auto simp: deleted_def Some)
  next
    case (Inr x)
    obtain b q where x: "r = Inr (b, q)" using Inr by (cases x) auto
    have b: "b \<longleftrightarrow> key \<in> fst ` set (entries t)" using r(2) by (simp add: deleted_def x)
    show ?thesis
    proof (cases b)
      case False
      have "removed fl p slot key ot q" by (rule removed_calm [OF bt]) (use r(2) b False in \<open>simp_all add: deleted_def x bt_entries_def Some\<close>)
      then show ?thesis using eq b False by (simp add: x bt_entries_def Some)
    next
      case True
      then obtain fl1 t' where d: "pager_ok fl1 q" "roots q = roots p" "root_id t' = root_id t" "tree_ok (in_use fl1 q) h t'"
          "fchg (in_use fl p) (in_use fl1 q) key [(None, t)] [(None, t')]" "entries t' = bm_remove key (entries t)"
        using r(2) by (auto simp: deleted_def x del_ok_def)
      obtain q2 where "shrink_root slot (root_id t) q = Inr (True, q2)" "removed fl p slot key (Some t) q2"
        using shrink_root_spec [OF bt [unfolded Some] d] b True by blast
      then show ?thesis using eq b True by (simp add: x bt_entries_def Some)
    qed
  qed
qed

section \<open>The tree as an ordered map\<close>

text \<open>What an index over the tree relies on: \<open>rel s m\<close> says that the state \<open>s\<close> holds the entries \<open>m\<close>.\<close>

locale kv_index =
  fixes rel :: "'s \<Rightarrow> (bytes \<times> bytes) list \<Rightarrow> bool" and spare :: "'s \<Rightarrow> bool" and adm :: "bytes \<Rightarrow> bytes \<Rightarrow> bool"
    and ins :: "bytes \<Rightarrow> bytes \<Rightarrow> 's \<Rightarrow> (fault + 's) option" and del :: "bytes \<Rightarrow> 's \<Rightarrow> (fault + bool \<times> 's) option"
    and get :: "bytes \<Rightarrow> 's \<Rightarrow> (fault + bytes option \<times> 's) option" and scan :: "bytes \<Rightarrow> 's \<Rightarrow> (fault + (bytes \<times> bytes) list \<times> 's) option"
  assumes rel_wf: "rel s m \<Longrightarrow> bm_wf m"
    and ins_law: "rel s m \<Longrightarrow> adm k v \<Longrightarrow> spare s \<Longrightarrow> \<exists>t. ins k v s = Some (Inr t) \<and> rel t (bm_insert k v m)"
    and del_law: "rel s m \<Longrightarrow> \<exists>t. del k s = Some (Inr (k \<in> fst ` set m, t)) \<and> rel t (bm_remove k m)"
    and get_law: "rel s m \<Longrightarrow> \<exists>t. get k s = Some (Inr (map_of m k, t)) \<and> rel t m"
    and scan_law: "rel s m \<Longrightarrow> \<exists>t. scan pre s = Some (Inr (filter (\<lambda>e. starts_with (fst e) pre) m, t)) \<and> rel t m"
begin

lemma get_after_insert:
  assumes "rel s m" "adm k v" "spare s"
  shows "\<exists>t u. ins k v s = Some (Inr t) \<and> get j t = Some (Inr (if j = k then Some v else map_of m j, u))"
proof -
  obtain t where t: "ins k v s = Some (Inr t)" "rel t (bm_insert k v m)" using ins_law [OF assms] by blast
  obtain u where "get j t = Some (Inr (map_of (bm_insert k v m) j, u))" using get_law [OF t(2)] by blast
  then show ?thesis using t(1) by auto
qed

lemma insert_delete:
  assumes "rel s m" "adm k v" "spare s" "k \<notin> fst ` set m"
  shows "\<exists>t u. ins k v s = Some (Inr t) \<and> del k t = Some (Inr (True, u)) \<and> rel u m"
proof -
  obtain t where t: "ins k v s = Some (Inr t)" "rel t (bm_insert k v m)" using ins_law [OF assms(1-3)] by blast
  have "bm_remove k (bm_insert k v m) = m" using assms(4) by (induction m) (auto simp: bm_remove_def filter_id_conv)
  moreover have "k \<in> fst ` set (bm_insert k v m)" by (simp add: bm_keys_insert)
  ultimately show ?thesis using t(1) del_law [OF t(2), of k] by auto
qed

lemma scan_after_delete:
  assumes "rel s m"
  shows "\<exists>b t u. del k s = Some (Inr (b, t)) \<and> scan pre t = Some (Inr (filter (\<lambda>e. starts_with (fst e) pre \<and> fst e \<noteq> k) m, u))"
proof -
  obtain t where t: "del k s = Some (Inr (k \<in> fst ` set m, t))" "rel t (bm_remove k m)" using del_law [OF assms] by blast
  obtain u where "scan pre t = Some (Inr (filter (\<lambda>e. starts_with (fst e) pre) (bm_remove k m), u))" using scan_law [OF t(2)] by blast
  then show ?thesis using t(1) by (auto simp: bm_remove_def conj_commute)
qed

end

text \<open>A tree of small entries whose keys have length \<open>K\<close>.\<close>

definition index_tree :: "nat \<Rightarrow> nat \<Rightarrow> Pager \<Rightarrow> (bytes \<times> bytes) list \<Rightarrow> bool" where
  "index_tree K slot p m \<longleftrightarrow> (\<exists>fl ot. btree fl p slot ot \<and> bt_entries ot = m \<and> small_bt ot \<and> klen K ot)"

definition index_entry :: "nat \<Rightarrow> bytes \<Rightarrow> bytes \<Rightarrow> bool" where
  "index_entry K k v \<longleftrightarrow> length k = K \<and> small k v"

definition has_room :: "Pager \<Rightarrow> bool" where
  "has_room p \<longleftrightarrow> unat (page_count p) < 2 ^ 31"

lemma index_tree_calm: "btree fl p slot ot \<Longrightarrow> small_bt ot \<Longrightarrow> klen K ot \<Longrightarrow> calm fl p q \<Longrightarrow> index_tree K slot q (bt_entries ot)"
  unfolding index_tree_def using btree_calm by blast

lemma index_insert:
  assumes "index_tree K slot p m" and "index_entry K k v" and "has_room p"
  shows "\<exists>q. bt_insert slot k v p = Some (Inr q) \<and> index_tree K slot q (bm_insert k v m)"
proof -
  obtain fl ot where t: "btree fl p slot ot" "bt_entries ot = m" "small_bt ot" "klen K ot" using assms(1) by (auto simp: index_tree_def)
  have kv: "length k = K" "small k v" "unat (page_count p) < 2 ^ 31" using assms(2,3) by (simp_all add: index_entry_def has_room_def)
  have "7 + 2 + length k + 2 + length v \<le> PAGE_SIZE" using kv(2) by (simp add: small_def PAGE_SIZE_def)
  from bt_insert_spec [OF t(1) this] obtain r where r: "bt_insert slot k v p = Some r"
    "\<forall>e. r = Inl e \<longrightarrow> \<not> (unat (page_count p) < 2 ^ 31 \<and> small k v \<and> small_bt ot)" "\<forall>q. r = Inr q \<longrightarrow> inserted fl p slot k v ot q" by blast
  then obtain q where q: "r = Inr q" using t(3) kv by (cases r) auto
  then have "inserted fl p slot k v ot q" using r(3) by blast
  then show ?thesis using r(1) q t kv unfolding inserted_def index_tree_def by auto
qed

lemma index_delete:
  assumes "index_tree K slot p m"
  shows "\<exists>q. bt_delete slot k p = Some (Inr (k \<in> fst ` set m, q)) \<and> index_tree K slot q (bm_remove k m)"
proof -
  obtain fl ot where t: "btree fl p slot ot" "bt_entries ot = m" "small_bt ot" "klen K ot" using assms(1) by (auto simp: index_tree_def)
  from bt_delete_spec [OF t(1), of k] obtain r where r: "bt_delete slot k p = Some r" "\<forall>e. r = Inl e \<longrightarrow> (\<forall>K. \<not> klen K ot)"
    "\<forall>b q. r = Inr (b, q) \<longrightarrow> (b \<longleftrightarrow> k \<in> fst ` set (bt_entries ot)) \<and> removed fl p slot k ot q" by blast
  then obtain b q where q: "r = Inr (b, q)" using t(4) by (cases r) auto
  then have "b = (k \<in> fst ` set m)" "removed fl p slot k ot q" using r(3) t(2) by blast+
  then show ?thesis using r(1) q t unfolding removed_def index_tree_def by auto
qed

interpretation bpt: kv_index "index_tree K slot" has_room "index_entry K" "bt_insert slot" "bt_delete slot" "bt_get slot" "scan_prefix slot" for K slot
proof
  fix p m assume i: "index_tree K slot p m"
  then obtain fl ot where t: "btree fl p slot ot" "bt_entries ot = m" "small_bt ot" "klen K ot" by (auto simp: index_tree_def)
  show "bm_wf m"
  proof (cases ot)
    case (Some s)
    then show ?thesis using t(1,2) entries_ascending by (auto simp: btree_def bt_entries_def bm_wf_def)
  qed (use t(2) in \<open>simp add: bt_entries_def\<close>)
  show "\<exists>q. bt_insert slot k v p = Some (Inr q) \<and> index_tree K slot q (bm_insert k v m)" if "index_entry K k v" "has_room p" for k v
    by (rule index_insert [OF i that])
  show "\<exists>q. bt_delete slot k p = Some (Inr (k \<in> fst ` set m, q)) \<and> index_tree K slot q (bm_remove k m)" for k by (rule index_delete [OF i])
  show "\<exists>q. bt_get slot k p = Some (Inr (map_of m k, q)) \<and> index_tree K slot q m" for k
    using bt_get_correct [OF t(1), of k] index_tree_calm [OF t(1,3,4)] t(2) by auto
  show "\<exists>q. scan_prefix slot pre p = Some (Inr (filter (\<lambda>e. starts_with (fst e) pre) m, q)) \<and> index_tree K slot q m" for pre
    using scan_prefix_correct [OF t(1), of pre] index_tree_calm [OF t(1,3,4)] t(2) by auto
qed

section \<open>Properties\<close>

lemma fresh_index: "slot < NROOTS \<Longrightarrow> index_tree K slot (fresh_pager cap) []"
  unfolding index_tree_def using fresh_btree by (intro exI [of _ "[]"] exI [of _ None]) (simp add: bt_entries_def small_bt_def klen_def)

text \<open>
  C10. The read operations return and are exact on every well-formed tree, for any key and prefix: \<open>get\<close> the value of the key, \<open>scan_prefix\<close> the
  matching entries in key order, \<open>count_prefix\<close> their number and \<open>prefix_exists\<close> whether there are any; they change nothing but the cache.
\<close>

theorem bt_reads_exact:
  assumes "btree fl p slot ot"
  shows "(\<exists>q. bt_get slot key p = Some (Inr (map_of (bt_entries ot) key, q)) \<and> calm fl p q) \<and>
    (\<exists>q. scan_prefix slot pre p = Some (Inr (filter (\<lambda>e. starts_with (fst e) pre) (bt_entries ot), q)) \<and> calm fl p q) \<and>
    (\<exists>q. count_prefix slot pre p = Some (Inr (length (filter (\<lambda>e. starts_with (fst e) pre) (bt_entries ot)), q)) \<and> calm fl p q) \<and>
    (\<exists>q. prefix_exists slot pre p = Some (Inr (list_ex (\<lambda>e. starts_with (fst e) pre) (bt_entries ot), q)) \<and> calm fl p q)"
proof -
  have "(\<exists>e \<in> set es. P e) = list_ex P es" for P and es :: "(bytes \<times> bytes) list" by (simp add: list_ex_iff)
  then show ?thesis using bt_get_correct [OF assms] scan_prefix_correct [OF assms] count_prefix_correct [OF assms] prefix_exists_correct [OF assms, of pre] by simp
qed

theorem bt_reads_exact_witness:
  "\<exists>p fl ot. bt_insert 0 [1, 2] [3] (fresh_pager 8) = Some (Inr p) \<and> bt_entries ot = [([1, 2], [3])] \<and>
    (\<exists>q. bt_get 0 [1, 2] p = Some (Inr (map_of (bt_entries ot) [1, 2], q)) \<and> calm fl p q) \<and>
    (\<exists>q. scan_prefix 0 [1] p = Some (Inr (filter (\<lambda>e. starts_with (fst e) [1]) (bt_entries ot), q)) \<and> calm fl p q) \<and>
    (\<exists>q. count_prefix 0 [1] p = Some (Inr (length (filter (\<lambda>e. starts_with (fst e) [1]) (bt_entries ot)), q)) \<and> calm fl p q) \<and>
    (\<exists>q. prefix_exists 0 [1] p = Some (Inr (list_ex (\<lambda>e. starts_with (fst e) [1]) (bt_entries ot), q)) \<and> calm fl p q)"
proof -
  have i: "index_tree 2 0 (fresh_pager 8) []" by (rule fresh_index) (simp add: NROOTS_def)
  obtain p where p: "bt_insert 0 [1, 2] [3] (fresh_pager 8) = Some (Inr p)" "index_tree 2 0 p (bm_insert [1, 2] [3] [])"
    using bpt.ins_law [OF i, of "[1, 2]" "[3]"] by (auto simp: index_entry_def small_def has_room_def fresh_pager_ok(3))
  then obtain fl ot where "btree fl p 0 ot" "bt_entries ot = [([1, 2], [3])]" by (auto simp: index_tree_def)
  then show ?thesis using p(1) bt_reads_exact [of fl p 0 ot "[1, 2]" "[1]"] by blast
qed

text \<open>
  C9. Deletion always returns. It fails only for trees whose keys differ in length; whenever it succeeds it reports whether the key was
  there, the tree is well-formed with exactly the key removed, and the pages and roots of everything else in the file are unchanged.
\<close>

theorem bt_delete_correct:
  assumes "btree fl p slot ot"
  shows "\<exists>r. bt_delete slot key p = Some r \<and> (case r of
      Inl e \<Rightarrow> \<forall>K. \<not> klen K ot
    | Inr (b, q) \<Rightarrow> (b = (key \<in> fst ` set (bt_entries ot))) \<and> (\<exists>fl' ot'. btree fl' q slot ot' \<and> bt_entries ot' = bm_remove key (bt_entries ot) \<and>
        others_same fl p slot ot fl' q ot'))"
proof -
  from bt_delete_spec [OF assms, of key] obtain r where r: "bt_delete slot key p = Some r" "\<forall>e. r = Inl e \<longrightarrow> (\<forall>K. \<not> klen K ot)"
    "\<forall>b q. r = Inr (b, q) \<longrightarrow> (b \<longleftrightarrow> key \<in> fst ` set (bt_entries ot)) \<and> removed fl p slot key ot q" by blast
  show ?thesis
  proof (cases r)
    case (Inr x)
    obtain b q where x: "r = Inr (b, q)" using Inr by (cases x) auto
    have "b = (key \<in> fst ` set (bt_entries ot))" "removed fl p slot key ot q" using r(3) x by blast+
    then show ?thesis using r(1) x unfolding removed_def by auto
  qed (use r in simp)
qed

theorem bt_delete_correct_witness:
  "\<exists>p fl ot r. bt_insert 0 [1, 2] [3] (fresh_pager 8) = Some (Inr p) \<and> bt_entries ot = [([1, 2], [3])] \<and> bt_delete 0 [1, 2] p = Some r \<and> (case r of
      Inl e \<Rightarrow> \<forall>K. \<not> klen K ot
    | Inr (b, q) \<Rightarrow> (b = ([1, 2] \<in> fst ` set (bt_entries ot))) \<and> (\<exists>fl' ot'. btree fl' q 0 ot' \<and> bt_entries ot' = bm_remove [1, 2] (bt_entries ot) \<and>
        others_same fl p 0 ot fl' q ot'))"
proof -
  have i: "index_tree 2 0 (fresh_pager 8) []" by (rule fresh_index) (simp add: NROOTS_def)
  obtain p where p: "bt_insert 0 [1, 2] [3] (fresh_pager 8) = Some (Inr p)" "index_tree 2 0 p (bm_insert [1, 2] [3] [])"
    using bpt.ins_law [OF i, of "[1, 2]" "[3]"] by (auto simp: index_entry_def small_def has_room_def fresh_pager_ok(3))
  then obtain fl ot where "btree fl p 0 ot" "bt_entries ot = [([1, 2], [3])]" by (auto simp: index_tree_def)
  then show ?thesis using p(1) bt_delete_correct [of fl p 0 ot "[1, 2]"] by blast
qed

text \<open>
  In an index with keys of one length, inserting a new key and deleting it again both succeed and give back the same entries.
\<close>

lemma bt_insert_delete_restores:
  assumes "index_tree K slot p m" and "index_entry K k v" and "has_room p" and "k \<notin> fst ` set m"
  shows "\<exists>q r. bt_insert slot k v p = Some (Inr q) \<and> bt_delete slot k q = Some (Inr (True, r)) \<and> index_tree K slot r m"
  by (rule bpt.insert_delete [OF assms])

text \<open>
  C33. The guard of a borrow does not check the parent: in a well-formed tree all of whose nodes fit their pages, an underfull child may borrow from its left
  sibling although the parent with the new, longer separator no longer fits its page, so that writing it panics.
\<close>

theorem borrow_overflows_parent:
  "\<exists>x y z sep big. let t = BN 1 [(None, x), (Some sep, y), (Some big, z)] in
    bal 1 t \<and> ascending (toks t) \<and> list_all (\<lambda>s. node_size (node_of s) \<le> PAGE_SIZE) (subs t) \<and> node_size (node_of y) < UNDERFLOW_BYTES \<and>
    can_borrow_left (node_of t) 1 (node_of x) (node_of y) \<and> serialize (fst (move_left_to_child (node_of t) 1 (node_of x) (node_of y))) = None"
proof -
  define v k big :: bytes where "v = replicate 2000 0" and "k = 0 # 1 # replicate 30 0" and "big = 2 # replicate 4074 0"
  have len: "length v = 2000" "length k = 32" "length big = 4075" by (simp_all add: v_def k_def big_def)
  have lt: "[0] < k" "k < [1]" "[1] < big" by (simp_all add: k_def big_def)
  let ?x = "BL 2 3 [([0], v), (k, [])]" and ?y = "BL 3 4 [([1], [])]" and ?z = "BL 4 0 []"
  let ?t = "BN 1 [(None, ?x), (Some [1], ?y), (Some big, ?z)]" and ?y' = "BL 3 4 [(k, []), ([1], [])]" and ?x' = "BL 2 3 [([0], v)]"
  have "bal 1 ?t" by simp
  moreover have "ascending (toks ?t)" using lt order.strict_trans [OF lt(1,2)] order.strict_trans [OF lt(2,3)] order.strict_trans [OF order.strict_trans [OF lt(1,2)] lt(3)]
    by (simp add: less_prod_def)
  moreover have "list_all (\<lambda>s. node_size (node_of s) \<le> PAGE_SIZE) (subs ?t)" by (simp add: node_size_def PAGE_SIZE_def len)
  moreover have "node_size (node_of ?y) < UNDERFLOW_BYTES" by (simp add: node_size_def UNDERFLOW_BYTES_def PAGE_SIZE_def)
  moreover have "can_borrow_left (node_of ?t) 1 (node_of ?x) (node_of ?y)"
    by (simp add: can_borrow_left_def Let_def boundary_bytes_def node_size_def UNDERFLOW_BYTES_def PAGE_SIZE_def len)
  moreover have "serialize (fst (move_left_to_child (node_of ?t) 1 (node_of ?x) (node_of ?y))) = None"
  proof -
    have eq: "fst (move_left_to_child (node_of ?t) 1 (node_of ?x) (node_of ?y)) = node_of (BN 1 [(None, ?x'), (Some k, ?y'), (Some big, ?z)])"
      by (simp add: move_left_to_child_def Let_def)
    have big: "PAGE_SIZE < node_size (node_of (BN 1 [(None, ?x'), (Some k, ?y'), (Some big, ?z)]))" by (simp add: node_size_def PAGE_SIZE_def len)
    show ?thesis unfolding eq by (rule serialize_overflows [OF parallel_node_of big])
  qed
  ultimately show ?thesis unfolding Let_def by blast
qed

end
