(* ===== verification/Spec2Isabelle.thy ===== *)
theory Spec2Isabelle
  imports NTriples Codec Paths Isolation Reason BpDelete
begin

text \<open>
  A verification library for gstore-rust, an RDF triple store with SPARQL queries.

  \<^bold>\<open>The program and its model.\<close> RDF documents are parsed to triples of terms; a dictionary maps terms to
  32-bit ids; a six-way indexed store keeps id triples; a tree of bit signatures (the VS-tree) prunes the
  candidates of query variables; the query engine evaluates basic graph patterns and property paths over
  the store; a database ties these together with transactions, named graphs and a redo log; a concurrent
  wrapper adds optimistic transactions and multi-version reads. One theory models each part, in the order
  the code has them; source paths are relative to \<open>src/\<close>.

  \<^item> \<open>Prelude\<close>: bytes, \<open>u32\<close>/\<open>u64\<close> words, results as sums, ascending lists, binary search and the ordered
    association lists that stand for \<open>BTreeMap\<close> (\<open>bm_get\<close>, \<open>bm_insert\<close>, \<open>bm_remove\<close>).
  \<^item> \<open>Model\<close> (\<open>model/\<close>, \<open>error.rs\<close>): id ranges, terms, their printed form and dictionary key.
  \<^item> \<open>NTriples\<close> (\<open>parser/ntriples.rs\<close>, \<open>parser/nquads.rs\<close>): the scanners with every error branch. Parsing the
    printed document returns it; parsed terms are told apart by their keys.
  \<^item> \<open>Dict\<close> (\<open>dict/mod.rs\<close>): interners with freed ids, the dictionary and its reclamation. The interner is
    bijective after every run; reclamation frees exactly the unused ids. \<open>None\<close> is a panic.
  \<^item> \<open>Codec\<close> (\<open>kvstore/vlist.rs\<close>): varint and delta coding of id lists, round trip and rejection of every
    truncated input.
  \<^item> \<open>TripleStore\<close> (\<open>store/mod.rs\<close>): the three adjacency maps. Every run of operations refines a plain set
    of triples; every access pattern and statistic is exact.
  \<^item> \<open>Signature\<close>, \<open>VsTree\<close>, \<open>Index\<close> (\<open>signature/\<close>, \<open>db/mod.rs\<close>): signatures as 15 limbs of 64 bits, the tree with
    its splits, and its maintenance under insertion. Queries never lose an entity.
  \<^item> \<open>Candidates\<close>, \<open>Bgp\<close>, \<open>Results\<close>, \<open>Paths\<close> (\<open>query/engine.rs\<close>, \<open>query/candidates.rs\<close>, \<open>query/optimizer.rs\<close>):
    candidate generation, joins under any plan, computed terms and property paths. The cost-based
    optimizer is a parameter; the properties hold for every valid plan it may return.
  \<^item> \<open>Database\<close> (\<open>db/mod.rs\<close>): updates, undo, redo records, CLEAR, index rebuilds and reclamation.
  \<^item> \<open>Reason\<close> (\<open>reason/mod.rs\<close>): RDFS materialization. The loop returns the least set of triples closed under the
    rules as \<open>gather\<close> applies them, with the vocabulary ids of the dictionary before the run and no class or
    property below itself by transitivity; a second relation, \<open>rdfs_table\<close>, is the module's rule table without these
    conditions, and the two are compared. A second run may infer more.
  \<^item> \<open>Transactions\<close> (\<open>db/mod.rs\<close>): sequences of operations. The relation \<open>reachable\<close> is closed under insertion, deletion,
    CLEAR, index rebuild, materialization, begin, commit, rollback and reclamation, under conditions the code does not
    check: insertion and reasoning find room in the id spaces, reclamation runs outside a transaction, and materialization
    types no literal by the range rule. Its states are consistent and refine a set of quads of keys. What happens when
    reclamation runs inside a transaction is a property of its own.
  \<^item> \<open>Concurrent\<close>, \<open>Isolation\<close> (\<open>concurrent.rs\<close>): snapshots, transactions and version chains, and all
    interleavings of their atomic steps with ghost maps of what every version committed and published. An update that fails
    after part of it was applied leaves the writer's database ahead of the published snapshot; the properties of commits
    say what that does to a later transaction.
  \<^item> \<open>Pager\<close> (\<open>kvstore/pager.rs\<close>): the page file with its cache, free list and write-ahead log. A crash before the log is
    synced leaves a log of any length with any set of its 512-byte sectors lost, a later one any part of the page writes; a
    flush is atomic unless the commit marker survives and the lost bytes are an error that CRC-32 does not see
    (\<open>loss_seen\<close>). The cache is transparent.
  \<^item> \<open>BpTree\<close>, \<open>BpRep\<close>, \<open>BpInsert\<close>, \<open>BpDelete\<close> (\<open>kvstore/bptree.rs\<close>): the B+ tree over the page file, the abstract tree
    its pages represent, and that every operation returns and acts on the entries as on an ordered map, leaving the rest of the file alone.
    \<open>None\<close> is an operation that does not return.
  \<^item> this theory: properties across components, from stored quads to result cells.

  \<^bold>\<open>Interfaces.\<close> The locales \<open>id_dictionary\<close> (\<open>Dict\<close>), \<open>prefix_codec\<close> (\<open>Codec\<close>), \<open>triple_source\<close> and
  \<open>mutable_store\<close> (\<open>TripleStore\<close>), \<open>sig_filter\<close> (\<open>VsTree\<close>), \<open>version_store\<close> (\<open>Concurrent\<close>), \<open>page_store\<close>
  (\<open>Pager\<close>) and \<open>kv_index\<close> (\<open>BpDelete\<close>) state what clients use of a component; each is interpreted on the model's own definitions.

  \<^bold>\<open>Bounds.\<close> Ids are \<open>32 word\<close>s and counters \<open>64 word\<close>s with wrap-around. Hypotheses such as \<open>db_room\<close>,
  \<open>ops_room\<close> and \<open>below_synth\<close> say that an id space is not exhausted; versions are natural numbers below
  \<open>2 ^ 64\<close>. No fuel is used: loops are total functions, or partial
  functions in the option monad that are proved to return.

  \<^bold>\<open>Not modelled.\<close> Saving and loading whole databases, the disk VS-tree and disk dictionary, network services (HTTP, RPC, cluster), the SPARQL text parser and the other RDF parsers,
  FILTER expressions and aggregation (floating point, dates, regular expressions), graph analytics, the
  third-party RocksDB backend, command-line tools and the question-answering crate.
\<close>

section \<open>From the stored quads to the cells of a query result\<close>

definition db_index :: "'q Database \<Rightarrow> VsTree option" where
  "db_index db = (if index_valid db then Some (vstree db) else None)"

definition cells :: "Dictionary \<Rightarrow> Binding \<Rightarrow> rstring option \<times> rstring option \<times> bool \<times> rstring option" where
  "cells d b = (resolve_string d extras_default (b ! 0) False, resolve_string d extras_default (b ! 1) True,
     b ! 2 \<noteq> None \<and> is_literal_id (the (b ! 2)), resolve_string d extras_default (b ! 2) False)"

definition below_synth :: "Dictionary \<Rightarrow> bool" where
  "below_synth d \<longleftrightarrow> length (backward (literals d)) \<le> 2200000000 \<and> length (backward (predicates d)) \<le> 4200000000"

lemma entity_cell:
  assumes "dict_inv d" and "dict_in_range d" and "resolve (entities d) ix = Some s"
  shows "resolve_string d x (Some ix) False = Some s \<and> \<not> is_literal_id ix"
proof -
  have "unat ix < 2000000000" using resolve_Some_lt [OF assms(3)] assms(2) by (simp add: dict_in_range_def)
  then have "ix < LITERAL_FIRST_ID" "\<not> is_synth ix" "ix \<noteq> INVALID_ENTITY_LITERAL_ID"
    by (auto simp: LITERAL_FIRST_ID_def is_synth_def SYNTH_BASE_def word_less_nat_alt word_le_nat_alt INVALID_ENTITY_LITERAL_ID_def)
  then show ?thesis using assms(1,3) by (simp add: resolve_string_def id_to_string_def dict_inv_def is_literal_id_def)
qed

lemma literal_cell:
  assumes "dict_inv d" and "below_synth d" and "resolve (literals d) jx = Some s"
  shows "resolve_string d x (Some (jx + LITERAL_FIRST_ID)) False = Some s \<and> is_literal_id (jx + LITERAL_FIRST_ID)"
proof -
  have "unat jx < 2200000000" using resolve_Some_lt [OF assms(3)] assms(2) by (simp add: below_synth_def)
  then have "unat (jx + LITERAL_FIRST_ID) = unat jx + 2000000000" "unat jx < 2200000000"
    by (simp_all add: LITERAL_FIRST_ID_def unat_add_lem [THEN iffD1])
  then have "LITERAL_FIRST_ID \<le> jx + LITERAL_FIRST_ID" "\<not> is_synth (jx + LITERAL_FIRST_ID)" "jx + LITERAL_FIRST_ID \<noteq> INVALID_ENTITY_LITERAL_ID"
    by (auto simp: LITERAL_FIRST_ID_def is_synth_def SYNTH_BASE_def word_less_nat_alt word_le_nat_alt INVALID_ENTITY_LITERAL_ID_def)
  then show ?thesis using assms(1,3) by (simp add: resolve_string_def id_to_string_def dict_inv_def is_literal_id_def)
qed

lemma predicate_cell:
  assumes "dict_inv d" and "below_synth d" and "resolve (predicates d) ix = Some s"
  shows "resolve_string d x (Some ix) True = Some s"
proof -
  have "unat ix < 4200000000" using resolve_Some_lt [OF assms(3)] assms(2) by (simp add: below_synth_def)
  then have "\<not> is_synth ix" "ix \<noteq> INVALID_PRED_ID"
    by (auto simp: is_synth_def SYNTH_BASE_def word_less_nat_alt word_le_nat_alt INVALID_PRED_ID_def)
  then show ?thesis using assms(1,3) by (simp add: resolve_string_def predicate_to_string_def dict_inv_def)
qed

definition tcells :: "Triple \<Rightarrow> rstring option \<times> rstring option \<times> bool \<times> rstring option" where
  "tcells t = (Some (dict_key (subject t)), Some (dict_key (predicate t)), is_literal (object t), Some (dict_key (object t)))"

lemma object_cells:
  assumes "dict_inv d" and "dict_in_range d" and "below_synth d"
    and "resolve (entities d) ix \<noteq> None \<or> (\<exists>jx. resolve (literals d) jx \<noteq> None \<and> ix = jx + LITERAL_FIRST_ID)"
  shows "is_literal_id ix = is_literal ob \<and> resolve_string d x (Some ix) False = Some (dict_key ob) \<longleftrightarrow> names_obj d ix ob"
  using assms(4)
proof
  assume "resolve (entities d) ix \<noteq> None"
  then obtain s where s: "resolve (entities d) ix = Some s" by blast
  note e = entity_cell [OF assms(1,2) s]
  have "ix \<noteq> jx + LITERAL_FIRST_ID" if "resolve (literals d) jx = Some u" for jx u
    using literal_cell [OF assms(1,3) that] e by blast
  then show ?thesis using e s by (auto simp: names_obj_def)
next
  assume "\<exists>jx. resolve (literals d) jx \<noteq> None \<and> ix = jx + LITERAL_FIRST_ID"
  then obtain jx s where s: "resolve (literals d) jx = Some s" "ix = jx + LITERAL_FIRST_ID" by blast
  note l = literal_cell [OF assms(1,3) s(1), folded s(2)]
  have "resolve (entities d) ix = None" using entity_cell [OF assms(1,2)] l by (cases "resolve (entities d) ix") blast+
  then show ?thesis using l s by (auto simp: names_obj_def)
qed

lemma row_cells:
  assumes "dict_inv d" and "dict_in_range d" and "below_synth d" and "known d i"
  shows "cells d [Some (sub i), Some (pred i), Some (obj i)] = tcells t \<longleftrightarrow> names_triple d i t"
proof -
  obtain s p where sp: "resolve (entities d) (sub i) = Some s" "resolve (predicates d) (pred i) = Some p"
    using assms(4) by (auto simp: known_def)
  have ob: "resolve (entities d) (obj i) \<noteq> None \<or> (\<exists>jx. resolve (literals d) jx \<noteq> None \<and> obj i = jx + LITERAL_FIRST_ID)"
    using assms(4) by (simp add: known_def)
  show ?thesis
    using entity_cell [OF assms(1,2) sp(1)] predicate_cell [OF assms(1,3) sp(2)] object_cells [OF assms(1-3) ob] sp
    by (auto simp: cells_def tcells_def names_triple_def numeral_2_eq_2)
qed

lemma xpy_rows: "bgp_solutions T 3 {\<lparr>plan_s = Var 0, plan_p = Var 1, plan_o = Var 2\<rparr>} =
  (\<lambda>i. [Some (sub i), Some (pred i), Some (obj i)]) ` T" (is "?L = ?R")
proof (intro set_eqI iffI)
  fix b assume b: "b \<in> ?L"
  then have l: "length b = 3" and m: "plan_match T b \<lparr>plan_s = Var 0, plan_p = Var 1, plan_o = Var 2\<rparr>" by (auto simp: bgp_solutions_def)
  obtain x y z where xyz: "b = [x, y, z]" using l by (auto simp: numeral_3_eq_3 length_Suc_conv)
  then obtain s p ob where "b = [Some s, Some p, Some ob]" "IdTriple s p ob \<in> T" using m by (auto simp: plan_match_def numeral_2_eq_2)
  then show "b \<in> ?R" by force
next
  fix b assume "b \<in> ?R"
  then obtain i where i: "i \<in> T" "b = [Some (sub i), Some (pred i), Some (obj i)]" by blast
  then have "plan_match T b \<lparr>plan_s = Var 0, plan_p = Var 1, plan_o = Var 2\<rparr>" by (cases i) (simp add: plan_match_def numeral_2_eq_2)
  moreover have "bound b = {0, 1, 2}" using i(2) by (auto simp: bound_def nth_Cons' less_Suc_eq numeral_3_eq_3 numeral_2_eq_2)
  ultimately show "b \<in> ?L" using i(2) by (auto simp: bgp_solutions_def plan_vars_set_def)
qed

lemma xpy_len: "layout_len xpy_layout = 3"
  by (simp add: layout_len_def xpy_layout_def)

text \<open>C5. Stored quads are what a query shows. In every reachable state of a database, with the VS-tree
  whenever it is valid and under any valid join plan, the rows of the pattern \<open>?x ?p ?y\<close>, decoded to the
  strings of result cells, are exactly the triples of the default graph as they were inserted, while no
  dictionary id reaches the range of computed terms (\<open>below_synth\<close>).\<close>

theorem select_all_shows_default_graph:
  assumes "reachable n db" and "below_synth (dict db)" and "\<forall>ps C. valid_plan (length ps) (optimize ps C)"
  shows "tcells t \<in> cells (dict db) ` set (eval_bgp optimize border (dict db) (store db) (db_index db) xpy_layout [xpy_pattern])
    \<longleftrightarrow> (None, tkey t) \<in> surface db"
proof -
  have ok: "db_ok db" by (rule reachable_ok [OF assms(1)])
  then have inv: "dict_inv (dict db)" "dict_in_range (dict db)" "store_inv (store db)"
    and ix: "\<forall>v. db_index db = Some v \<longrightarrow> index_ok (store db) v"
    by (auto simp: db_ok_def stores_ok_def db_index_def)
  have kn: "known (dict db) i" if "i \<in> triples (store db)" for i
    using ok that unfolding db_ok_def gknown_def content_def by (metis option.case(1))
  have "set (eval_bgp optimize border (dict db) (store db) (db_index db) xpy_layout [xpy_pattern]) =
      (\<lambda>i. [Some (sub i), Some (pred i), Some (obj i)]) ` triples (store db)"
    using eval_bgp_solutions [OF inv(3) ix xpy_covered xpy_compiled] assms(3)
    by (simp only: xpy_rows xpy_len list.set empty_iff insert_iff simp_thms)
  then have "tcells t \<in> cells (dict db) ` set (eval_bgp optimize border (dict db) (store db) (db_index db) xpy_layout [xpy_pattern]) \<longleftrightarrow>
      (\<exists>i \<in> triples (store db). names_triple (dict db) i t)"
    using row_cells [OF inv(1,2) assms(2) kn] by (simp add: image_iff eq_commute [of "tcells t"])
  also have "\<dots> \<longleftrightarrow> (None, tkey t) \<in> surface db" using present_iff [OF ok] present_surface [OF ok] by blast
  finally show ?thesis .
qed

theorem select_all_shows_default_graph_witness:
  "tcells abc \<in> cells abc_dict ` set (eval_bgp in_order (\<lambda>a b. True) (dict abc_db) (store abc_db) (db_index abc_db) xpy_layout [xpy_pattern])"
proof -
  have b: "below_synth (dict abc_db)" by (simp add: below_synth_def abc_db_fields abc_dict_def dict_new_def interner_default_def)
  show ?thesis using select_all_shows_default_graph [OF abc_db(2) b, of in_order abc "\<lambda>a b. True"] in_order_valid
    by (simp add: abc_db(3) abc_db_fields(2))
qed

section \<open>Variables that range over subjects and predicates\<close>

definition xxy_layout :: VarLayout where
  "xxy_layout = \<lparr>names = [lit ''x'', lit ''y'']\<rparr>"

definition xxy_pattern :: TriplePattern where
  "xxy_pattern = \<lparr>tp_subject = PVar (lit ''x''), tp_predicate = PVar (lit ''x''), tp_object = PVar (lit ''y'')\<rparr>"

lemma xxy_covered: "layout_covers xxy_layout [xxy_pattern]"
  by (simp add: layout_covers_def term_covered_def xxy_layout_def xxy_pattern_def)

lemma xxy_compiled: "compile_all d xxy_layout [xxy_pattern] = Some [\<lparr>plan_s = Var 0, plan_p = Var 0, plan_o = Var 1\<rparr>]"
  by (simp add: compile_pattern_def layout_index_def xxy_layout_def xxy_pattern_def)

lemma xxy_len: "layout_len xxy_layout = 2"
  by (simp add: layout_len_def xxy_layout_def)

lemma xxy_rows: "bgp_solutions T 2 {\<lparr>plan_s = Var 0, plan_p = Var 0, plan_o = Var 1\<rparr>} = {[Some k, Some ob] | k ob. IdTriple k k ob \<in> T}" (is "?L = ?R")
proof (intro set_eqI iffI)
  fix b assume b: "b \<in> ?L"
  then have l: "length b = 2" and m: "plan_match T b \<lparr>plan_s = Var 0, plan_p = Var 0, plan_o = Var 1\<rparr>" by (auto simp: bgp_solutions_def)
  obtain x y where "b = [x, y]" using l by (auto simp: numeral_2_eq_2 length_Suc_conv)
  then show "b \<in> ?R" using m by (auto simp: plan_match_def)
next
  fix b assume "b \<in> ?R"
  then obtain k ob where b: "b = [Some k, Some ob]" "IdTriple k k ob \<in> T" by blast
  then have "plan_match T b \<lparr>plan_s = Var 0, plan_p = Var 0, plan_o = Var 1\<rparr>" by (simp add: plan_match_def)
  moreover have "bound b = {0, 1}" using b(1) by (auto simp: bound_def nth_Cons' less_Suc_eq)
  ultimately show "b \<in> ?L" using b(1) by (auto simp: bgp_solutions_def plan_vars_set_def)
qed

text \<open>C39. Entity ids and predicate ids are numbered independently, and a row does not say from which of the two spaces an id comes. In
  every reachable database, under any valid plan and with the VS-tree whenever it is valid, the pattern \<open>?x ?x ?y\<close> returns exactly the
  triples whose subject and predicate have the same number in their two spaces, whatever resources the two numbers name.\<close>

theorem shared_variable_confuses_id_spaces:
  assumes "reachable n db" and "\<forall>ps C. valid_plan (length ps) (optimize ps C)"
  shows "set (eval_bgp optimize border (dict db) (store db) (db_index db) xxy_layout [xxy_pattern]) =
    {[Some k, Some ob] | k ob. IdTriple k k ob \<in> triples (store db)}"
proof -
  have "db_ok db" by (rule reachable_ok [OF assms(1)])
  then have inv: "store_inv (store db)" and ix: "\<forall>v. db_index db = Some v \<longrightarrow> index_ok (store db) v"
    by (auto simp: db_ok_def stores_ok_def db_index_def)
  show ?thesis using eval_bgp_solutions [OF inv ix xxy_covered xxy_compiled] assms(2)
    by (simp only: xxy_rows xxy_len list.set empty_iff insert_iff simp_thms)
qed

text \<open>The triple \<open><a> <b> <c>\<close> of a new database: its subject and its predicate are different resources, and both have the number 0.\<close>

theorem shared_variable_confuses_id_spaces_witness:
  "[Some 0, Some 1] \<in> set (eval_bgp in_order (\<lambda>a b. True) (dict abc_db) (store abc_db) (db_index abc_db) xxy_layout [xxy_pattern]) \<and>
   id_to_string (dict abc_db) 0 = Some (lit ''<a>'') \<and> predicate_to_string (dict abc_db) 0 = Some (lit ''<b>'')"
proof (intro conjI)
  show "id_to_string (dict abc_db) 0 = Some (lit ''<a>'')" "predicate_to_string (dict abc_db) 0 = Some (lit ''<b>'')"
    unfolding abc_db_fields by code_simp+
  show "[Some 0, Some 1] \<in> set (eval_bgp in_order (\<lambda>a b. True) (dict abc_db) (store abc_db) (db_index abc_db) xxy_layout [xxy_pattern])"
    using shared_variable_confuses_id_spaces [OF abc_db(2), of in_order "\<lambda>a b. True"] in_order_valid by (auto simp: abc_store(2))
qed

end
